(* ===== verification/Ivy_Prelude.thy ===== *)
theory Ivy_Prelude
  imports Main
begin

text \<open>
  Shared vocabulary of the development: bytes and C strings, the unsigned conversions of C,
  decimal printing and scanning as \<^verbatim>\<open>printf\<close> and \<^verbatim>\<open>sscanf\<close> do them, block copies, and the
  generic list lemmas the component theories use.
\<close>

named_theorems cstring_simps \<open>evaluation of the C string helpers\<close>
named_theorems frame_simps \<open>what an operation leaves unchanged\<close>

type_synonym bytes = "char list"
type_synonym addr = nat

abbreviation (input) NULL :: addr where
  "NULL \<equiv> 0"

text \<open>Undefined behaviour the code can run into is a value, never an unspecified result.\<close>

datatype c_fault = OutOfBounds | UseAfterFree | NullDeref | Hang | BadShift | DivByZero | ReadUninit

subsection \<open>Unsigned conversions\<close>

definition u32 :: "int \<Rightarrow> nat" where
  "u32 i = nat (i mod 4294967296)"

definition u16 :: "int \<Rightarrow> nat" where
  "u16 i = nat (i mod 65536)"

lemma u32_id: "0 \<le> i \<Longrightarrow> i < 4294967296 \<Longrightarrow> u32 i = nat i"
  by (simp add: u32_def)

lemma u32_nat [simp]: "n < 4294967296 \<Longrightarrow> u32 (int n) = n"
  by (simp add: u32_def)

lemma u32_less: "u32 i < 4294967296"
  by (simp add: u32_def nat_less_iff)

lemma u16_id: "0 \<le> i \<Longrightarrow> i < 65536 \<Longrightarrow> u16 i = nat i"
  by (simp add: u16_def)

lemma u16_less: "u16 i < 65536"
  by (simp add: u16_def nat_less_iff)

subsection \<open>Blocks of memory\<close>

text \<open>\<^verbatim>\<open>memcpy (block + i, src, length src)\<close> inside one block.\<close>

definition memcpy_at :: "'a list \<Rightarrow> nat \<Rightarrow> 'a list \<Rightarrow> 'a list" where
  "memcpy_at block i src = take i block @ src @ drop (i + length src) block"

lemma length_memcpy_at [simp]:
  "i + length src \<le> length block \<Longrightarrow> length (memcpy_at block i src) = length block"
  by (simp add: memcpy_at_def)

lemma take_memcpy_at [simp]:
  "n \<le> i \<Longrightarrow> i \<le> length block \<Longrightarrow> take n (memcpy_at block i src) = take n block"
  by (simp add: memcpy_at_def)

lemma drop_memcpy_at [simp]:
  assumes "i + length src \<le> n" "i + length src \<le> length block"
  shows "drop n (memcpy_at block i src) = drop n block"
  using assms by (simp add: memcpy_at_def)

lemma memcpy_at_Nil [simp]: "i \<le> length block \<Longrightarrow> memcpy_at block i [] = block"
  by (simp add: memcpy_at_def)

subsection \<open>C strings\<close>

text \<open>A C string ends at its first NUL byte.\<close>

abbreviation NUL :: char where
  "NUL \<equiv> CHR 0x00"

definition cstr :: "bytes \<Rightarrow> string" where
  "cstr b = takeWhile (\<lambda>c. c \<noteq> NUL) b"

definition is_digit :: "char \<Rightarrow> bool" where
  "is_digit c \<longleftrightarrow> 48 \<le> (of_char c :: nat) \<and> (of_char c :: nat) \<le> 57"

definition digit_val :: "char \<Rightarrow> nat" where
  "digit_val c = of_char c - 48"

definition digit_char :: "nat \<Rightarrow> char" where
  "digit_char d = char_of (48 + d)"

definition is_hspace :: "char \<Rightarrow> bool" where
  "is_hspace c \<longleftrightarrow> c = CHR 0x20 \<or> c = CHR 0x09"

text \<open>\<^verbatim>\<open>isspace\<close> in the C locale.\<close>

definition is_space :: "char \<Rightarrow> bool" where
  "is_space c \<longleftrightarrow> c = CHR 0x20 \<or> (9 \<le> (of_char c :: nat) \<and> (of_char c :: nat) \<le> 13)"

text \<open>The value of a \<^verbatim>\<open>char\<close> where it is signed (gcc and clang on x86).\<close>

definition schar :: "char \<Rightarrow> int" where
  "schar c = (if (of_char c :: int) < 128 then of_char c else of_char c - 256)"

lemma cstr_id [simp]: "NUL \<notin> set s \<Longrightarrow> cstr s = s"
  by (simp add: cstr_def takeWhile_eq_all_conv) blast

lemma cstr_no_NUL [simp]: "NUL \<notin> set (cstr s)"
  by (auto simp: cstr_def dest: set_takeWhileD)

lemma of_char_digit_char [simp]: "d < 10 \<Longrightarrow> of_char (digit_char d) = 48 + d"
  by (simp add: digit_char_def)

lemma is_digit_digit_char [simp]: "d < 10 \<Longrightarrow> is_digit (digit_char d)"
  by (simp add: is_digit_def)

lemma digit_val_digit_char [simp]: "d < 10 \<Longrightarrow> digit_val (digit_char d) = d"
  by (simp add: digit_val_def)

lemma digit_val_less: "is_digit c \<Longrightarrow> digit_val c < 10"
  by (auto simp: is_digit_def digit_val_def)

lemma digit_not_hspace: "is_digit c \<Longrightarrow> \<not> is_hspace c"
  by (auto simp: is_digit_def is_hspace_def)

lemma digit_not_space: "is_digit c \<Longrightarrow> \<not> is_space c"
  by (auto simp: is_digit_def is_space_def)

text \<open>\<^verbatim>\<open>strcspn\<close>: the length of the initial segment without any byte of \<open>reject\<close>.\<close>

definition strcspn :: "string \<Rightarrow> char list \<Rightarrow> nat" where
  "strcspn s reject = length (takeWhile (\<lambda>c. c \<notin> set reject) s)"

text \<open>\<^verbatim>\<open>strncmp\<close>: the difference of the first bytes that differ, as unsigned characters.\<close>

fun strncmp :: "nat \<Rightarrow> bytes \<Rightarrow> bytes \<Rightarrow> int" where
  "strncmp 0 a b = 0"
| "strncmp (Suc n) (x # a) (y # b) =
     (if x \<noteq> y then of_char x - of_char y else if x = NUL then 0 else strncmp n a b)"
| "strncmp (Suc n) [] (y # b) = - of_char y"
| "strncmp (Suc n) (x # a) [] = of_char x"
| "strncmp (Suc n) [] [] = 0"

lemma of_char_eq_0: "(of_char c :: int) = 0 \<longleftrightarrow> c = NUL"
proof
  assume "(of_char c :: int) = 0"
  then have "(of_char c :: int) = of_char NUL" by simp
  then show "c = NUL" by (simp only: of_char_eq_iff)
qed simp

lemma strncmp_zero:
  "NUL \<notin> set a \<Longrightarrow> NUL \<notin> set b \<Longrightarrow> strncmp n a b = 0 \<longleftrightarrow> take n a = take n b"
  by (induction n a b rule: strncmp.induct) (auto simp: of_char_eq_0)

text \<open>\<^verbatim>\<open>strchr\<close> and \<^verbatim>\<open>memchr\<close> as a split: the bytes before the first \<open>c\<close> and those after it.\<close>

fun split_at :: "char \<Rightarrow> bytes \<Rightarrow> (bytes \<times> bytes) option" where
  "split_at c [] = None"
| "split_at c (x # xs) =
     (if x = c then Some ([], xs) else map_option (\<lambda>(a, b). (x # a, b)) (split_at c xs))"

lemma split_at_None [simp]: "split_at c xs = None \<longleftrightarrow> c \<notin> set xs"
  by (induction xs) auto

lemma split_at_notin [simp]: "c \<notin> set xs \<Longrightarrow> split_at c xs = None"
  by simp

lemma split_at_Some: "split_at c xs = Some (a, b) \<Longrightarrow> xs = a @ c # b \<and> c \<notin> set a"
  by (induction xs arbitrary: a) (auto split: if_splits)

lemma split_at_append [simp]: "c \<notin> set a \<Longrightarrow> split_at c (a @ c # b) = Some (a, b)"
  by (induction a) auto

lemma split_at_length: "split_at c xs = Some (a, b) \<Longrightarrow> length b < length xs"
  by (auto dest: split_at_Some)

subsection \<open>Decimal numbers\<close>

text \<open>\<^verbatim>\<open>%u\<close> and \<^verbatim>\<open>%d\<close> of \<^verbatim>\<open>printf\<close>.\<close>

fun dec_nat :: "nat \<Rightarrow> string" where
  "dec_nat n = (if n < 10 then [digit_char n] else dec_nat (n div 10) @ [digit_char (n mod 10)])"

declare dec_nat.simps [simp del]

definition dec_int :: "int \<Rightarrow> string" where
  "dec_int i = (if i < 0 then CHR ''-'' # dec_nat (nat (- i)) else dec_nat (nat i))"

text \<open>The value of a run of digits, most significant first, on top of \<open>acc\<close>.\<close>

definition digits_val :: "nat \<Rightarrow> string \<Rightarrow> nat" where
  "digits_val acc ds = foldl (\<lambda>n c. 10 * n + digit_val c) acc ds"

lemma digits_val_Nil [simp]: "digits_val acc [] = acc"
  by (simp add: digits_val_def)

lemma digits_val_Cons [simp]: "digits_val acc (c # ds) = digits_val (10 * acc + digit_val c) ds"
  by (simp add: digits_val_def)

lemma digits_val_snoc [simp]: "digits_val acc (ds @ [c]) = 10 * digits_val acc ds + digit_val c"
  by (simp add: digits_val_def)

lemma dec_nat_nonempty [simp]: "dec_nat n \<noteq> []"
  by (subst dec_nat.simps) simp

lemma dec_nat_digits: "\<forall>c \<in> set (dec_nat n). is_digit c"
proof (induction n rule: dec_nat.induct)
  case (1 n)
  then show ?case by (subst dec_nat.simps) auto
qed

lemma digits_val_dec_nat [simp]: "digits_val 0 (dec_nat n) = n"
proof (induction n rule: dec_nat.induct)
  case (1 n)
  then show ?case by (subst dec_nat.simps) auto
qed

lemma digits_val_mono: "acc \<le> digits_val acc ds"
proof (induction ds arbitrary: acc)
  case (Cons c ds)
  have "acc \<le> 10 * acc + digit_val c" by simp
  also have "\<dots> \<le> digits_val (10 * acc + digit_val c) ds" by (rule Cons.IH)
  finally show ?case by simp
qed simp

text \<open>Scanning digits consumes the longest run.\<close>

definition scan_digits :: "string \<Rightarrow> string \<times> string" where
  "scan_digits s = (takeWhile is_digit s, dropWhile is_digit s)"

lemma scan_digits_append:
  assumes "\<forall>c \<in> set ds. is_digit c" "rest = [] \<or> \<not> is_digit (hd rest)"
  shows "scan_digits (ds @ rest) = (ds, rest)"
  using assms by (cases rest) (auto simp: scan_digits_def)

text \<open>
  \<^verbatim>\<open>%d\<close> of \<^verbatim>\<open>sscanf\<close>: white space, an optional sign, then at least one digit; \<open>None\<close> is a
  matching failure.
\<close>

definition scan_int :: "string \<Rightarrow> (int \<times> string) option" where
  "scan_int s =
     (let s1 = dropWhile is_space s;
          neg = (case s1 of c # _ \<Rightarrow> c = CHR ''-'' | [] \<Rightarrow> False);
          s2 = (case s1 of c # r \<Rightarrow> if c = CHR ''-'' \<or> c = CHR ''+'' then r else s1 | [] \<Rightarrow> []);
          (ds, rest) = scan_digits s2
      in if ds = [] then None
         else Some (if neg then - int (digits_val 0 ds) else int (digits_val 0 ds), rest))"

lemma dec_nat_Cons: obtains c cs where "dec_nat n = c # cs" "is_digit c"
proof -
  obtain c cs where "dec_nat n = c # cs" by (cases "dec_nat n") auto
  with dec_nat_digits [of n] that show thesis by auto
qed

lemma sign_not_digit: "\<not> is_digit (CHR ''-'')" "\<not> is_digit (CHR ''+'')"
  by (simp_all add: is_digit_def)

lemma scan_int_dec_nat:
  assumes "rest = [] \<or> \<not> is_digit (hd rest)"
  shows "scan_int (dec_nat n @ rest) = Some (int n, rest)"
proof -
  obtain c cs where c: "dec_nat n = c # cs" "is_digit c" by (rule dec_nat_Cons)
  then have ns: "\<not> is_space c" "c \<noteq> CHR ''-''" "c \<noteq> CHR ''+''"
    using sign_not_digit by (auto simp: digit_not_space)
  have "dropWhile is_space (dec_nat n @ rest) = c # cs @ rest"
    using c ns by simp
  moreover have "scan_digits (c # cs @ rest) = (c # cs, rest)"
    using scan_digits_append [OF dec_nat_digits assms, of n] c by simp
  moreover have "digits_val 0 (c # cs) = n"
    using digits_val_dec_nat [of n] c by simp
  ultimately show ?thesis
    using ns by (simp add: scan_int_def del: digits_val_Cons)
qed

lemma scan_int_dec_int:
  assumes "rest = [] \<or> \<not> is_digit (hd rest)"
  shows "scan_int (dec_int i @ rest) = Some (i, rest)"
proof (cases "i < 0")
  case True
  have "scan_digits (dec_nat (nat (- i)) @ rest) = (dec_nat (nat (- i)), rest)"
    by (rule scan_digits_append [OF dec_nat_digits assms])
  moreover have "\<not> is_space (CHR ''-'')" by (simp add: is_space_def)
  ultimately show ?thesis using True by (simp add: dec_int_def scan_int_def)
next
  case False
  then show ?thesis using scan_int_dec_nat [OF assms, of "nat i"] by (simp add: dec_int_def)
qed

lemma scan_int_skip_space: "is_space c \<Longrightarrow> scan_int (c # s) = scan_int s"
  by (simp add: scan_int_def)

end
