(* ===== verification/Ivy_List.thy ===== *)
theory Ivy_List
  imports Ivy_Prelude
begin

text \<open>
  The intrusive singly linked lists of \<^verbatim>\<open>src/list.h\<close>, over an explicit store: the \<^verbatim>\<open>next\<close>
  field of every node and the set of nodes that are allocated. Every macro is a definition
  on the store; \<open>lseg\<close> relates a head pointer to the list of the nodes it reaches. The
  other theories keep such a list as a HOL list; the lemmas here say that the macros do on
  the store what \<open>#\<close>, \<open>remove1\<close>, \<open>find\<close> and \<open>filter\<close> do on that list, and where they leave
  defined behaviour.
\<close>

record heap =
  nxt :: "addr \<Rightarrow> addr"
  live :: "addr set"

text \<open>
  The result of running a macro: \<open>None\<close> when its loop does not end, \<open>Some (Inl e)\<close> when it
  reads freed or null memory.
\<close>

type_synonym 'a run = "(c_fault + 'a) option"

abbreviation ok :: "'a \<Rightarrow> 'a run" where
  "ok x \<equiv> Some (Inr x)"

definition load_next :: "heap \<Rightarrow> addr \<Rightarrow> c_fault + addr" where
  "load_next h p =
     (if p = NULL then Inl NullDeref
      else if p \<notin> live h then Inl UseAfterFree
      else Inr (nxt h p))"

definition free_node :: "addr \<Rightarrow> heap \<Rightarrow> heap" where
  "free_node p h = h\<lparr>live := live h - {p}\<rparr>"

text \<open>\<^verbatim>\<open>IVY_LIST_ADD_START\<close> \dots \<^verbatim>\<open>IVY_LIST_ADD_END\<close> with the fresh node \<open>p\<close> that \<^verbatim>\<open>malloc\<close> returned.\<close>

definition IVY_LIST_ADD :: "heap \<Rightarrow> addr \<Rightarrow> addr \<Rightarrow> heap \<times> addr" where
  "IVY_LIST_ADD h lst p = (h\<lparr>live := insert p (live h), nxt := (nxt h)(p := lst)\<rparr>, p)"

text \<open>\<^verbatim>\<open>IVY_LIST_ITER\<close>: stop at the first node where the condition fails, or at the end.\<close>

partial_function (option) IVY_LIST_ITER ::
  "heap \<Rightarrow> (addr \<Rightarrow> bool) \<Rightarrow> addr \<Rightarrow> addr run" where
  "IVY_LIST_ITER h cond p =
     (if p = NULL then ok NULL
      else case load_next h p of
        Inl e \<Rightarrow> Some (Inl e)
      | Inr n \<Rightarrow> if cond p then IVY_LIST_ITER h cond n else ok p)"

definition IVY_LIST_REMOVE :: "heap \<Rightarrow> addr \<Rightarrow> addr \<Rightarrow> (heap \<times> addr) run" where
  "IVY_LIST_REMOVE h lst p =
     (if lst = p then
        (case load_next h p of
           Inl e \<Rightarrow> Some (Inl e)
         | Inr n \<Rightarrow> ok (free_node p h, n))
      else
        (case IVY_LIST_ITER h (\<lambda>q. nxt h q \<noteq> p) lst of
           None \<Rightarrow> None
         | Some (Inl e) \<Rightarrow> Some (Inl e)
         | Some (Inr prec) \<Rightarrow>
             if prec = NULL then ok (h, lst)
             else (case load_next h p of
                Inl e \<Rightarrow> Some (Inl e)
              | Inr suiv \<Rightarrow> ok (free_node p (h\<lparr>nxt := (nxt h)(prec := suiv)\<rparr>), lst))))"

text \<open>\<^verbatim>\<open>IVY_LIST_EMPTY\<close>: free every node.\<close>

partial_function (option) IVY_LIST_EMPTY :: "heap \<Rightarrow> addr \<Rightarrow> (heap \<times> addr) run" where
  "IVY_LIST_EMPTY h lst =
     (if lst = NULL then ok (h, lst)
      else case load_next h lst of
        Inl e \<Rightarrow> Some (Inl e)
      | Inr n \<Rightarrow> IVY_LIST_EMPTY (free_node lst h) n)"

text \<open>
  \<^verbatim>\<open>IVY_LIST_EACH_SAFE\<close>: the successor is read before the body runs. The body works on the
  store, the head of the list and the rest of the program state.
\<close>

partial_function (option) IVY_LIST_EACH_SAFE ::
  "(addr \<Rightarrow> heap \<times> addr \<times> 'a \<Rightarrow> (heap \<times> addr \<times> 'a) run) \<Rightarrow> addr \<Rightarrow> heap \<times> addr \<times> 'a
   \<Rightarrow> (heap \<times> addr \<times> 'a) run" where
  "IVY_LIST_EACH_SAFE body p s =
     (if p = NULL then ok s
      else case load_next (fst s) p of
        Inl e \<Rightarrow> Some (Inl e)
      | Inr n \<Rightarrow>
          (case body p s of
             None \<Rightarrow> None
           | Some (Inl e) \<Rightarrow> Some (Inl e)
           | Some (Inr s') \<Rightarrow> IVY_LIST_EACH_SAFE body n s'))"

text \<open>The body that all the cleaning loops of the library have: remove the nodes that satisfy a test.\<close>

definition remove_if :: "(addr \<Rightarrow> bool) \<Rightarrow> addr \<Rightarrow> heap \<times> addr \<times> 'a \<Rightarrow> (heap \<times> addr \<times> 'a) run" where
  "remove_if P p s =
     (case s of (h, lst, x) \<Rightarrow>
        if P p then
          (case IVY_LIST_REMOVE h lst p of
             None \<Rightarrow> None
           | Some (Inl e) \<Rightarrow> Some (Inl e)
           | Some (Inr (h', lst')) \<Rightarrow> ok (h', lst', x))
        else ok s)"

subsection \<open>Representation\<close>

fun lseg :: "heap \<Rightarrow> addr \<Rightarrow> addr list \<Rightarrow> bool" where
  "lseg h p [] \<longleftrightarrow> p = NULL"
| "lseg h p (x # xs) \<longleftrightarrow> p = x \<and> x \<noteq> NULL \<and> x \<in> live h \<and> lseg h (nxt h x) xs"

definition list_rep :: "heap \<Rightarrow> addr \<Rightarrow> addr list \<Rightarrow> bool" where
  "list_rep h p xs \<longleftrightarrow> lseg h p xs \<and> distinct xs"

lemma lseg_NULL [simp]: "lseg h NULL xs \<longleftrightarrow> xs = []"
  by (cases xs) auto

lemma lseg_live: "lseg h p xs \<Longrightarrow> set xs \<subseteq> live h"
  by (induction xs arbitrary: p) auto

lemma lseg_not_NULL: "lseg h p xs \<Longrightarrow> NULL \<notin> set xs"
  by (induction xs arbitrary: p) auto

lemma lseg_frame:
  assumes "lseg h p xs" "\<And>x. x \<in> set xs \<Longrightarrow> nxt h' x = nxt h x" "set xs \<subseteq> live h'"
  shows "lseg h' p xs"
  using assms by (induction xs arbitrary: p) auto

lemma lseg_free: "lseg h p xs \<Longrightarrow> x \<notin> set xs \<Longrightarrow> lseg (free_node x h) p xs"
  by (rule lseg_frame) (auto simp: free_node_def dest: lseg_live)

lemma lseg_append:
  "lseg h p (xs @ y # ys) \<Longrightarrow> lseg h y (y # ys)"
  by (induction xs arbitrary: p) auto

text \<open>The node before \<open>y\<close> is the only one whose \<^verbatim>\<open>next\<close> is \<open>y\<close>.\<close>

lemma lseg_pred:
  assumes "lseg h p (xs @ x # y # ys)"
  shows "nxt h x = y"
  using assms by (induction xs arbitrary: p) auto

lemma IVY_LIST_ITER_found:
  assumes "lseg h p (xs @ x # ys)" "\<forall>q \<in> set xs. cond q" "\<not> cond x"
  shows "IVY_LIST_ITER h cond p = ok x"
  using assms
proof (induction xs arbitrary: p)
  case Nil
  then show ?case by (subst IVY_LIST_ITER.simps) (auto simp: load_next_def)
next
  case (Cons z zs)
  then show ?case by (subst IVY_LIST_ITER.simps) (auto simp: load_next_def)
qed

lemma IVY_LIST_ITER_end:
  assumes "lseg h p xs" "\<forall>q \<in> set xs. cond q"
  shows "IVY_LIST_ITER h cond p = ok NULL"
  using assms
proof (induction xs arbitrary: p)
  case Nil
  then show ?case by (subst IVY_LIST_ITER.simps) simp
next
  case (Cons z zs)
  then show ?case by (subst IVY_LIST_ITER.simps) (auto simp: load_next_def)
qed

text \<open>So the macro is a \<open>find\<close>.\<close>

lemma IVY_LIST_ITER_find:
  assumes "lseg h p xs"
  shows "IVY_LIST_ITER h cond p = ok (case find (\<lambda>q. \<not> cond q) xs of None \<Rightarrow> NULL | Some x \<Rightarrow> x)"
proof (cases "find (\<lambda>q. \<not> cond q) xs")
  case None
  then have "\<forall>q \<in> set xs. cond q" by (auto simp: find_None_iff)
  then show ?thesis using IVY_LIST_ITER_end [OF assms] None by simp
next
  case (Some x)
  then obtain i where i: "i < length xs" "\<not> cond (xs ! i)" "x = xs ! i" "\<forall>j<i. cond (xs ! j)"
    by (auto simp: find_Some_iff)
  then have "xs = take i xs @ x # drop (Suc i) xs" by (simp add: id_take_nth_drop)
  moreover have "\<forall>q \<in> set (take i xs). cond q" using i by (auto simp: in_set_conv_nth)
  ultimately have "IVY_LIST_ITER h cond p = ok x"
    using IVY_LIST_ITER_found [of h p "take i xs" x "drop (Suc i) xs" cond] assms i by simp
  then show ?thesis using Some by simp
qed

lemma list_rep_ADD:
  assumes "list_rep h l xs" "p \<noteq> NULL" "p \<notin> live h" "IVY_LIST_ADD h l p = (h', l')"
  shows "list_rep h' l' (p # xs)"
proof -
  have p: "p \<notin> set xs" using assms lseg_live by (auto simp: list_rep_def)
  have "lseg h' l xs"
    using assms p lseg_live [of h l xs]
    by (auto simp: list_rep_def IVY_LIST_ADD_def intro!: lseg_frame [of h])
  then show ?thesis using assms p by (auto simp: list_rep_def IVY_LIST_ADD_def)
qed

text \<open>Unlinking a node that is not the head.\<close>

lemma lseg_unlink:
  assumes "lseg h p (xs @ x # y # ys)" "distinct (xs @ x # y # ys)"
  shows "lseg (free_node y (h\<lparr>nxt := (nxt h)(x := nxt h y)\<rparr>)) p (xs @ x # ys)"
  using assms
proof (induction xs arbitrary: p)
  case Nil
  let ?h = "h\<lparr>nxt := (nxt h)(x := nxt h y)\<rparr>"
  have ys: "lseg h (nxt h y) ys" "x \<notin> set ys" "y \<notin> set ys" using Nil by auto
  have "lseg ?h (nxt h y) ys"
    by (rule lseg_frame [OF ys(1)]) (use ys lseg_live [OF ys(1)] in auto)
  then have "lseg (free_node y ?h) (nxt h y) ys" using ys(3) by (rule lseg_free)
  then show ?case using Nil by (simp add: free_node_def fun_upd_def)
next
  case (Cons z zs)
  then show ?case by (auto simp: free_node_def)
qed

lemma list_rep_REMOVE:
  assumes rep: "list_rep h l xs" and p: "p \<in> set xs"
  obtains h' l' where "IVY_LIST_REMOVE h l p = ok (h', l')"
    "list_rep h' l' (remove1 p xs)" "live h' = live h - {p}"
proof (cases "l = p")
  case True
  with rep p obtain ys where ys: "xs = p # ys" by (cases xs) (auto simp: list_rep_def)
  have "IVY_LIST_REMOVE h l p = ok (free_node p h, nxt h p)"
    using rep ys True by (auto simp: IVY_LIST_REMOVE_def load_next_def list_rep_def)
  moreover have "list_rep (free_node p h) (nxt h p) (remove1 p xs)"
    using rep ys by (auto simp: list_rep_def intro: lseg_free)
  ultimately show thesis by (auto intro!: that simp: free_node_def)
next
  case False
  from p obtain us vs where uv: "xs = us @ p # vs" "p \<notin> set us" by (meson split_list_first)
  from uv False rep obtain ws w where w: "us = ws @ [w]"
    by (cases us rule: rev_cases) (auto simp: list_rep_def)
  have seg: "lseg h l (ws @ w # p # vs)" "distinct (ws @ w # p # vs)"
    using rep uv w by (auto simp: list_rep_def)
  have nw: "nxt h w = p" using lseg_pred [OF seg(1)] .
  have before: "\<forall>q \<in> set ws. nxt h q \<noteq> p"
  proof (rule ballI, rule notI)
    fix q assume q: "q \<in> set ws" "nxt h q = p"
    then obtain as bs where ab: "ws = as @ q # bs" by (meson split_list)
    obtain c cs where c: "bs @ [w] = c # cs" by (cases bs) auto
    have split: "ws @ w # p # vs = as @ q # c # (cs @ p # vs)"
      using ab c by (metis append.assoc append_Cons append_Nil)
    then have "c = p" using seg(1) lseg_pred [of h l as q c] q(2) by metis
    moreover have "c \<in> set (bs @ [w])" using c by simp
    ultimately have "p \<in> set (ws @ [w])" using ab by auto
    then show False using seg(2) by auto
  qed
  have it: "IVY_LIST_ITER h (\<lambda>q. nxt h q \<noteq> p) l = ok w"
    using IVY_LIST_ITER_found [of h l ws w "p # vs" "\<lambda>q. nxt h q \<noteq> p"] seg before nw by simp
  have live: "w \<noteq> NULL" "p \<noteq> NULL" "p \<in> live h"
    using lseg_not_NULL [OF seg(1)] lseg_live [OF seg(1)] by auto
  have "IVY_LIST_REMOVE h l p = ok (free_node p (h\<lparr>nxt := (nxt h)(w := nxt h p)\<rparr>), l)"
    using False it live by (simp add: IVY_LIST_REMOVE_def load_next_def)
  moreover have "list_rep (free_node p (h\<lparr>nxt := (nxt h)(w := nxt h p)\<rparr>)) l (remove1 p xs)"
    using lseg_unlink [OF seg] seg(2) uv w by (auto simp: list_rep_def remove1_append)
  ultimately show thesis by (auto intro!: that simp: free_node_def)
qed

lemma IVY_LIST_EMPTY_spec:
  assumes "lseg h l xs" "distinct xs"
  shows "\<exists>h'. IVY_LIST_EMPTY h l = ok (h', NULL) \<and> live h' = live h - set xs"
  using assms
proof (induction xs arbitrary: h l)
  case Nil
  then show ?case by (subst IVY_LIST_EMPTY.simps) auto
next
  case (Cons x xs)
  have "lseg (free_node x h) (nxt h x) xs" using Cons.prems by (auto intro: lseg_free)
  from Cons.IH [OF this] Cons.prems obtain h' where
    "IVY_LIST_EMPTY (free_node x h) (nxt h x) = ok (h', NULL)" "live h' = live (free_node x h) - set xs"
    by auto
  then show ?case using Cons.prems
    by (subst IVY_LIST_EMPTY.simps) (auto simp: load_next_def free_node_def)
qed

subsection \<open>The traversal that may remove the current node\<close>

text \<open>
  A cleaning loop \<^verbatim>\<open>IVY_LIST_EACH_SAFE (list, p, next) { if (P) IVY_LIST_REMOVE (list, p); }\<close>
  computes \<open>filter\<close>: it never reads a freed node, although it frees the node it stands on.
\<close>

lemma remove1_filter_append:
  "distinct (pre @ p # suf) \<Longrightarrow> remove1 p (filter Q pre @ p # suf) = filter Q pre @ suf"
  by (auto simp: remove1_append)

lemma EACH_SAFE_remove_if_aux:
  assumes "list_rep h l (pre @ suf)" "p = (case suf of [] \<Rightarrow> NULL | y # _ \<Rightarrow> y)"
  shows "\<exists>h' l'. IVY_LIST_EACH_SAFE (remove_if P) p (h, l, x) = ok (h', l', x)
           \<and> list_rep h' l' (pre @ filter (\<lambda>q. \<not> P q) suf)
           \<and> live h' = live h - {q \<in> set suf. P q}"
  using assms
proof (induction suf arbitrary: h l pre p)
  case Nil
  then show ?case by (subst IVY_LIST_EACH_SAFE.simps) auto
next
  case (Cons y ys)
  let ?n = "case ys of [] \<Rightarrow> NULL | z # _ \<Rightarrow> z"
  have seg: "lseg h y (y # ys)" "distinct (pre @ y # ys)"
    using Cons.prems lseg_append [of h l pre y ys] by (auto simp: list_rep_def)
  have y: "y \<noteq> NULL" "y \<in> live h" "nxt h y = ?n"
    using seg(1) by (auto split: list.splits)
  show ?case
  proof (cases "P y")
    case True
    obtain h1 l1 where r: "IVY_LIST_REMOVE h l y = ok (h1, l1)"
      "list_rep h1 l1 (remove1 y (pre @ y # ys))" "live h1 = live h - {y}"
      using list_rep_REMOVE [OF Cons.prems(1), of y] by auto
    have "list_rep h1 l1 (pre @ ys)" using r(2) seg(2) by (auto simp: remove1_append)
    from Cons.IH [OF this refl] obtain h2 l2 where
      "IVY_LIST_EACH_SAFE (remove_if P) ?n (h1, l1, x) = ok (h2, l2, x)"
      "list_rep h2 l2 (pre @ filter (\<lambda>q. \<not> P q) ys)" "live h2 = live h1 - {q \<in> set ys. P q}"
      by blast
    then show ?thesis using True y r Cons.prems(2)
      by (subst IVY_LIST_EACH_SAFE.simps) (auto simp: load_next_def remove_if_def)
  next
    case False
    have "list_rep h l ((pre @ [y]) @ ys)" using Cons.prems(1) by simp
    from Cons.IH [OF this refl] obtain h2 l2 where
      "IVY_LIST_EACH_SAFE (remove_if P) ?n (h, l, x) = ok (h2, l2, x)"
      "list_rep h2 l2 (pre @ y # filter (\<lambda>q. \<not> P q) ys)" "live h2 = live h - {q \<in> set ys. P q}"
      by auto
    then show ?thesis using False y Cons.prems(2)
      by (subst IVY_LIST_EACH_SAFE.simps) (auto simp: load_next_def remove_if_def)
  qed
qed

text \<open>
  The saved successor is not checked again: a body that frees it makes the next iteration
  read freed memory.
\<close>

lemma EACH_SAFE_stale_next:
  assumes "load_next (fst s) p = Inr n" "n \<noteq> NULL" "body p s = ok s'" "n \<notin> live (fst s')"
  shows "IVY_LIST_EACH_SAFE body p s = Some (Inl UseAfterFree)"
proof -
  have "IVY_LIST_EACH_SAFE body n s' = Some (Inl UseAfterFree)"
    using assms by (subst IVY_LIST_EACH_SAFE.simps) (simp add: load_next_def)
  moreover have "p \<noteq> NULL" using assms(1) by (auto simp: load_next_def split: if_splits)
  ultimately show ?thesis using assms by (subst IVY_LIST_EACH_SAFE.simps) simp
qed

subsection \<open>The interface the other modules use\<close>

text \<open>
  What a client of \<^verbatim>\<open>list.h\<close> relies on: a representation of lists of nodes on a store, an
  insertion at the head, the removal of a node, the search and the cleaning loop.
\<close>

locale node_list =
  fixes rep :: "'h \<Rightarrow> addr \<Rightarrow> addr list \<Rightarrow> bool"
    and fresh :: "'h \<Rightarrow> addr \<Rightarrow> bool"
    and add :: "'h \<Rightarrow> addr \<Rightarrow> addr \<Rightarrow> 'h \<times> addr"
    and remove :: "'h \<Rightarrow> addr \<Rightarrow> addr \<Rightarrow> ('h \<times> addr) run"
    and clean :: "(addr \<Rightarrow> bool) \<Rightarrow> 'h \<Rightarrow> addr \<Rightarrow> ('h \<times> addr) run"
  assumes rep_distinct: "rep h l xs \<Longrightarrow> distinct xs"
    and rep_add: "rep h l xs \<Longrightarrow> fresh h p \<Longrightarrow> add h l p = (h', l') \<Longrightarrow> rep h' l' (p # xs)"
    and rep_remove: "rep h l xs \<Longrightarrow> p \<in> set xs \<Longrightarrow>
      \<exists>h' l'. remove h l p = ok (h', l') \<and> rep h' l' (remove1 p xs) \<and> fresh h' p"
    and rep_clean: "rep h l xs \<Longrightarrow>
      \<exists>h' l'. clean P h l = ok (h', l') \<and> rep h' l' (filter (\<lambda>q. \<not> P q) xs)"
begin

text \<open>Removing what was just added gives back the list.\<close>

lemma remove_added:
  assumes "rep h l xs" "fresh h p" "add h l p = (h1, l1)"
  shows "\<exists>h2 l2. remove h1 l1 p = ok (h2, l2) \<and> rep h2 l2 xs"
proof -
  have "rep h1 l1 (p # xs)" using assms by (rule rep_add)
  then show ?thesis using rep_remove [of h1 l1 "p # xs" p] by auto
qed

text \<open>A cleaned list can be cleaned again without effect, and keeps no node that fails the test.\<close>

lemma clean_twice:
  assumes "rep h l xs" "clean P h l = ok (h1, l1)"
  shows "\<exists>h2 l2. clean P h1 l1 = ok (h2, l2) \<and> rep h2 l2 (filter (\<lambda>q. \<not> P q) xs)"
proof -
  have "rep h1 l1 (filter (\<lambda>q. \<not> P q) xs)" using rep_clean [OF assms(1), of P] assms(2) by auto
  then show ?thesis using rep_clean [of h1 l1 _ P] by force
qed

end

definition heap_fresh :: "heap \<Rightarrow> addr \<Rightarrow> bool" where
  "heap_fresh h p \<longleftrightarrow> p \<noteq> NULL \<and> p \<notin> live h"

definition list_clean :: "(addr \<Rightarrow> bool) \<Rightarrow> heap \<Rightarrow> addr \<Rightarrow> (heap \<times> addr) run" where
  "list_clean P h l =
     (case IVY_LIST_EACH_SAFE (remove_if P) l (h, l, ()) of
        None \<Rightarrow> None
      | Some (Inl e) \<Rightarrow> Some (Inl e)
      | Some (Inr (h', l', _)) \<Rightarrow> ok (h', l'))"

lemma lseg_head: "lseg h l xs \<Longrightarrow> l = (case xs of [] \<Rightarrow> NULL | y # _ \<Rightarrow> y)"
  by (cases xs) auto

lemma list_clean_filter:
  assumes "list_rep h l xs"
  shows "\<exists>h' l'. list_clean P h l = ok (h', l') \<and> list_rep h' l' (filter (\<lambda>q. \<not> P q) xs)
           \<and> live h' = live h - {q \<in> set xs. P q}"
proof -
  have "l = (case xs of [] \<Rightarrow> NULL | y # _ \<Rightarrow> y)"
    using assms by (intro lseg_head [of h]) (simp add: list_rep_def)
  with EACH_SAFE_remove_if_aux [of h l "[]" xs l P "()"] assms obtain h' l' where
    "IVY_LIST_EACH_SAFE (remove_if P) l (h, l, ()) = ok (h', l', ())"
    "list_rep h' l' (filter (\<lambda>q. \<not> P q) xs)" "live h' = live h - {q \<in> set xs. P q}"
    by auto
  then show ?thesis by (simp add: list_clean_def)
qed

interpretation lst: node_list list_rep heap_fresh IVY_LIST_ADD IVY_LIST_REMOVE list_clean
proof
  fix h l xs p h' l' P
  assume rep: "list_rep h l xs"
  show "distinct xs" using rep by (simp add: list_rep_def)
  show "heap_fresh h p \<Longrightarrow> IVY_LIST_ADD h l p = (h', l') \<Longrightarrow> list_rep h' l' (p # xs)"
    using list_rep_ADD [OF rep] by (auto simp: heap_fresh_def)
  show "\<exists>h' l'. list_clean P h l = ok (h', l') \<and> list_rep h' l' (filter (\<lambda>q. \<not> P q) xs)"
    using list_clean_filter [OF rep] by blast
  assume p: "p \<in> set xs"
  then have "p \<noteq> NULL" using rep lseg_not_NULL [of h l xs] by (metis list_rep_def)
  then show "\<exists>h' l'. IVY_LIST_REMOVE h l p = ok (h', l') \<and> list_rep h' l' (remove1 p xs)
      \<and> heap_fresh h' p"
    using list_rep_REMOVE [OF rep p] by (metis Diff_iff heap_fresh_def insertI1)
qed


subsection \<open>The traversals on lists of nodes\<close>

text \<open>
  The other theories keep the nodes of a list in a HOL list that is part of their state;
  \<open>nodes\<close> reads their addresses. The two loops below run a body over it as the macros do on the
  store: \<open>each_safe\<close> reads the successor before the body, \<open>each\<close> after it, and a node that is
  no longer there when its successor is read is a use after free. Nodes are only ever added at
  the head, so a successor is always among the nodes still ahead in the original list.
\<close>

fun succ_of :: "addr \<Rightarrow> addr list \<Rightarrow> addr option" where
  "succ_of p [] = None"
| "succ_of p (x # xs) = (if x = p then Some (case xs of [] \<Rightarrow> NULL | y # _ \<Rightarrow> y) else succ_of p xs)"

function each_safe :: "('s \<Rightarrow> addr list) \<Rightarrow> (c_fault \<Rightarrow> 's \<Rightarrow> 's) \<Rightarrow> (addr \<Rightarrow> 's \<Rightarrow> 's) \<Rightarrow> addr list \<Rightarrow> 's \<Rightarrow> 's" where
  "each_safe nodes crash body [] s = s"
| "each_safe nodes crash body (p # ps) s =
     (case succ_of p (nodes s) of
        None \<Rightarrow> crash UseAfterFree s
      | Some n \<Rightarrow> each_safe nodes crash body (dropWhile (\<lambda>q. q \<noteq> n) ps) (body p s))"
  by pat_completeness auto
termination
  by (relation "measure (\<lambda>(_, _, _, ps, _). length ps)") (auto simp: le_imp_less_Suc length_dropWhile_le)

function each :: "('s \<Rightarrow> addr list) \<Rightarrow> (c_fault \<Rightarrow> 's \<Rightarrow> 's) \<Rightarrow> (addr \<Rightarrow> 's \<Rightarrow> 's) \<Rightarrow> addr list \<Rightarrow> 's \<Rightarrow> 's" where
  "each nodes crash body [] s = s"
| "each nodes crash body (p # ps) s =
     (let s1 = body p s
      in case succ_of p (nodes s1) of
           None \<Rightarrow> crash UseAfterFree s1
         | Some n \<Rightarrow> each nodes crash body (dropWhile (\<lambda>q. q \<noteq> n) ps) s1)"
  by pat_completeness auto
termination
  by (relation "measure (\<lambda>(_, _, _, ps, _). length ps)") (auto simp: le_imp_less_Suc length_dropWhile_le)

lemma succ_of_append:
  "p \<notin> set pre \<Longrightarrow> succ_of p (pre @ p # ps) = Some (case ps of [] \<Rightarrow> NULL | y # _ \<Rightarrow> y)"
  by (induction pre) auto

lemma dropWhile_head: "dropWhile (\<lambda>q. q \<noteq> (case ps of [] \<Rightarrow> NULL | y # _ \<Rightarrow> y)) ps = ps"
  by (cases ps) auto

text \<open>
  Both are a \<open>fold\<close> when the body never disturbs the nodes ahead (it may remove the current
  node in the first case, and add nodes at the head in both).
\<close>

lemma each_safe_fold:
  assumes "\<And>s pre p ps. I s \<Longrightarrow> nodes s = pre @ p # ps \<Longrightarrow> I (body p s) \<and> (\<exists>pre'. nodes (body p s) = pre' @ ps)"
    and "\<And>s. I s \<Longrightarrow> distinct (nodes s)"
  shows "I s \<Longrightarrow> nodes s = pre @ ps \<Longrightarrow>
    each_safe nodes crash body ps s = fold body ps s \<and> I (fold body ps s)"
proof (induction ps arbitrary: s pre)
  case (Cons p ps)
  have "p \<notin> set pre" using assms(2) [OF Cons.prems(1)] Cons.prems(2) by simp
  then have n: "succ_of p (nodes s) = Some (case ps of [] \<Rightarrow> NULL | y # _ \<Rightarrow> y)"
    using Cons.prems(2) succ_of_append by metis
  obtain pre' where "I (body p s)" "nodes (body p s) = pre' @ ps"
    using assms(1) [OF Cons.prems] by blast
  from Cons.IH [OF this] show ?case using n dropWhile_head [of ps] by simp
qed simp

text \<open>A traversal keeps what its body keeps, whatever the body does to the nodes.\<close>

lemma each_safe_keeps:
  assumes "\<And>p t. Q t \<Longrightarrow> Q (body p t)" "\<And>t. Q t \<Longrightarrow> Q (crash_fn UseAfterFree t)"
  shows "Q t \<Longrightarrow> Q (each_safe nodes crash_fn body ps t)"
proof (induction ps arbitrary: t rule: length_induct)
  case (1 ps)
  show ?case
  proof (cases ps)
    case (Cons p ps')
    have "length (dropWhile P ps') < length ps" for P
      using Cons by (simp add: le_imp_less_Suc length_dropWhile_le)
    then show ?thesis using 1 Cons assms by (auto split: option.splits)
  qed (use 1 in simp)
qed

lemma each_fold:
  assumes "\<And>s pre p ps. I s \<Longrightarrow> nodes s = pre @ p # ps \<Longrightarrow> I (body p s) \<and> (\<exists>pre'. nodes (body p s) = pre' @ p # ps)"
    and "\<And>s. I s \<Longrightarrow> distinct (nodes s)"
  shows "I s \<Longrightarrow> nodes s = pre @ ps \<Longrightarrow>
    each nodes crash body ps s = fold body ps s \<and> I (fold body ps s)"
proof (induction ps arbitrary: s pre)
  case (Cons p ps)
  obtain pre' where b: "I (body p s)" "nodes (body p s) = pre' @ p # ps"
    using assms(1) [OF Cons.prems] by blast
  have "p \<notin> set pre'" using assms(2) [OF b(1)] b(2) by simp
  then have n: "succ_of p (nodes (body p s)) = Some (case ps of [] \<Rightarrow> NULL | y # _ \<Rightarrow> y)"
    using b(2) succ_of_append by metis
  have "nodes (body p s) = (pre' @ [p]) @ ps" using b(2) by simp
  from Cons.IH [OF b(1) this] show ?case using n dropWhile_head [of ps] by (simp add: Let_def)
qed simp

subsection \<open>Properties\<close>

lemma list_rep_REMOVE_ex:
  assumes "list_rep h l xs" "p \<in> set xs"
  shows "\<exists>h' l'. IVY_LIST_REMOVE h l p = ok (h', l') \<and> list_rep h' l' (remove1 p xs)
    \<and> live h' = live h - {p}"
  using list_rep_REMOVE [OF assms] by metis

text \<open>
  On a well-formed list the removal macro takes exactly the given node out, keeps the order of
  the others, frees that node and nothing else, and reads no freed memory.
\<close>

theorem list_remove_unlinks:
  assumes "list_rep h l xs" "p \<in> set xs"
  shows "\<exists>h' l'. IVY_LIST_REMOVE h l p = ok (h', l') \<and> list_rep h' l' (remove1 p xs)
    \<and> live h' = live h - {p}"
  by (rule list_rep_REMOVE_ex [OF assms])

definition heap3 :: heap where
  "heap3 = \<lparr>nxt = (\<lambda>_. 0)(3 := 2, 2 := 1), live = {1, 2, 3}\<rparr>"

lemma heap3_rep: "list_rep heap3 3 [3, 2, 1]"
  by (simp add: list_rep_def heap3_def)

theorem list_remove_unlinks_witness:
  "\<exists>h' l'. IVY_LIST_REMOVE heap3 3 2 = ok (h', l') \<and> list_rep h' l' [3, 1]"
  using list_remove_unlinks [OF heap3_rep, of 2] by auto

text \<open>
  (C24) The cleaning loop of the library, \<^verbatim>\<open>IVY_LIST_EACH_SAFE\<close> around \<^verbatim>\<open>IVY_LIST_REMOVE\<close>, computes a
  filter: it ends, reads no freed node although it frees the node it stands on, and frees exactly
  the nodes that satisfy the test.
\<close>

theorem list_clean_is_filter:
  assumes "list_rep h l xs"
  shows "\<exists>h' l'. list_clean P h l = ok (h', l') \<and> list_rep h' l' (filter (\<lambda>q. \<not> P q) xs)
    \<and> live h' = live h - {q \<in> set xs. P q}"
  by (rule list_clean_filter [OF assms])

theorem list_clean_is_filter_witness:
  "\<exists>h' l'. list_clean (\<lambda>p. p \<noteq> 2) heap3 3 = ok (h', l') \<and> list_rep h' l' [2]"
  using list_clean_is_filter [OF heap3_rep, of "\<lambda>p. p \<noteq> 2"] by auto

text \<open>
  The limit of the traversal: the saved successor is not looked at again, so a loop whose body
  frees the node that follows reads freed memory at its next step.
\<close>

theorem list_each_safe_stale:
  assumes "list_rep h l (p # n # xs)" "body p (h, l, x) = ok (h', l', x')" "n \<notin> live h'"
  shows "IVY_LIST_EACH_SAFE body l (h, l, x) = Some (Inl UseAfterFree)"
proof -
  have "load_next h p = Inr n" "n \<noteq> NULL" "l = p"
    using assms(1) by (auto simp: list_rep_def load_next_def)
  then show ?thesis using EACH_SAFE_stale_next [of "(h, l, x)" p n body "(h', l', x')"] assms(2,3) by simp
qed

theorem list_each_safe_stale_witness:
  "IVY_LIST_EACH_SAFE (\<lambda>p (h, l, x). case IVY_LIST_REMOVE h l 2 of None \<Rightarrow> None | Some (Inl e) \<Rightarrow> Some (Inl e)
     | Some (Inr (h', l')) \<Rightarrow> ok (h', l', x)) 3 (heap3, 3, ()) = Some (Inl UseAfterFree)"
proof -
  obtain h' l' where r: "IVY_LIST_REMOVE heap3 3 2 = ok (h', l')" "live h' = live heap3 - {2}"
    using list_rep_REMOVE_ex [OF heap3_rep, of 2] by auto
  then show ?thesis
    by (intro list_each_safe_stale [OF heap3_rep, where h' = h' and l' = l' and x' = "()"]) auto
qed

end
