(* ===== verification/Ivy_Timer.thy ===== *)
theory Ivy_Timer
  imports Ivy_List "HOL-Library.Word" "HOL-Library.Sublist"
begin

text \<open>
  The timers of the \<^verbatim>\<open>select\<close> loop, \<^verbatim>\<open>src/timer.c\<close>. Times are \<^verbatim>\<open>unsigned long\<close> milliseconds, here
  64-bit words. The clock is read once per call and is an argument (\<open>stamp\<close>); a user callback
  is the list of timer calls it makes, each with its own reading of the clock, and may depend
  on the whole state. \<open>fired\<close> records the callbacks run. The field \<^verbatim>\<open>when\<close> of the C structure
  is \<open>due\<close> here.
\<close>

type_synonym ulong = "64 word"

definition BIGVALUE :: ulong where
  "BIGVALUE = 2147483647"

definition MILLISEC :: ulong where
  "MILLISEC = 1000"

definition TIMER_LOOP :: int where
  "TIMER_LOOP = -1"

record timer =
  tid :: addr
  repeat :: int
  period :: ulong
  due :: ulong
  callback :: nat
  user_data :: nat
  mark2Remove :: bool

record timer_state =
  timers :: "timer list"
  timeoutptr :: bool
  selectTimeout :: "ulong \<times> ulong"
  nextTimeout :: ulong
  next_tid :: addr
  fired :: "(addr \<times> ulong) list"
  timer_fault :: "c_fault option"

definition init_timers :: timer_state where
  "init_timers = \<lparr>timers = [], timeoutptr = False, selectTimeout = (BIGVALUE, 0),
     nextTimeout = BIGVALUE, next_tid = 1, fired = [], timer_fault = None\<rparr>"

definition find_timer :: "addr \<Rightarrow> timer_state \<Rightarrow> timer option" where
  "find_timer i s = find (\<lambda>t. tid t = i) (timers s)"

definition map_timer :: "addr \<Rightarrow> (timer \<Rightarrow> timer) \<Rightarrow> timer_state \<Rightarrow> timer_state" where
  "map_timer i f s = s\<lparr>timers := map (\<lambda>t. if tid t = i then f t else t) (timers s)\<rparr>"

definition SetNewTimeout :: "ulong \<Rightarrow> ulong \<Rightarrow> timer_state \<Rightarrow> timer_state" where
  "SetNewTimeout current w s =
     (let ltime = (if w \<le> current then 0 else w - current);
          tv_sec = ltime div MILLISEC
      in s\<lparr>nextTimeout := w, selectTimeout := (tv_sec, (ltime - tv_sec * MILLISEC) * MILLISEC),
           timeoutptr := True\<rparr>)"

text \<open>The search for the nearest deadline starts from the first timer, removed or not.\<close>

definition nearest :: "ulong \<Rightarrow> timer list \<Rightarrow> ulong" where
  "nearest w ts = foldl (\<lambda>n t. if \<not> mark2Remove t \<and> due t < n then due t else n) w ts"

definition AdjTimeout :: "ulong \<Rightarrow> timer_state \<Rightarrow> timer_state" where
  "AdjTimeout current s =
     (case timers s of
        [] \<Rightarrow> s\<lparr>timeoutptr := False\<rparr>
      | t # _ \<Rightarrow> SetNewTimeout current (nearest (due t) (timers s)) s)"

definition TimerRepeatAfter ::
  "ulong \<Rightarrow> int \<Rightarrow> ulong \<Rightarrow> nat \<Rightarrow> nat \<Rightarrow> timer_state \<Rightarrow> addr \<times> timer_state" where
  "TimerRepeatAfter stamp count ltime cb ud s =
     (if cb = NULL then (NULL, s)
      else (let w = stamp + ltime;
                t = \<lparr>tid = next_tid s, repeat = count, period = ltime, due = w,
                     callback = cb, user_data = ud, mark2Remove = False\<rparr>;
                s1 = (if w < nextTimeout s \<or> \<not> timeoutptr s then SetNewTimeout stamp w s else s)
            in (next_tid s, s1\<lparr>timers := t # timers s1, next_tid := Suc (next_tid s)\<rparr>)))"

text \<open>A timer that is no longer in the list has been freed.\<close>

definition TimerRemove :: "ulong \<Rightarrow> addr \<Rightarrow> timer_state \<Rightarrow> timer_state" where
  "TimerRemove stamp i s =
     (if i = NULL then s
      else case find_timer i s of
        None \<Rightarrow> s\<lparr>timer_fault := Some UseAfterFree\<rparr>
      | Some t \<Rightarrow>
          if mark2Remove t then s
          else AdjTimeout stamp (map_timer i (\<lambda>t. t\<lparr>mark2Remove := True\<rparr>) s))"

definition TimerModify :: "ulong \<Rightarrow> addr \<Rightarrow> ulong \<Rightarrow> timer_state \<Rightarrow> timer_state" where
  "TimerModify stamp i ltime s =
     (if i = NULL then s
      else case find_timer i s of
        None \<Rightarrow> s\<lparr>timer_fault := Some UseAfterFree\<rparr>
      | Some t \<Rightarrow>
          if mark2Remove t then s
          else AdjTimeout stamp (map_timer i (\<lambda>t. t\<lparr>period := ltime, due := stamp + ltime\<rparr>) s))"

definition TimerGetSmallestTimeout :: "ulong \<Rightarrow> timer_state \<Rightarrow> (ulong \<times> ulong) option \<times> timer_state" where
  "TimerGetSmallestTimeout stamp s =
     (let s1 = AdjTimeout stamp s
      in (if timeoutptr s1 then Some (selectTimeout s1) else None, s1))"

text \<open>What a callback does with the module.\<close>

datatype timer_call =
    CallRepeatAfter ulong int ulong nat nat
  | CallRemove ulong addr
  | CallModify ulong addr ulong

fun do_timer_call :: "timer_call \<Rightarrow> timer_state \<Rightarrow> timer_state" where
  "do_timer_call (CallRepeatAfter stamp count ltime cb ud) s = snd (TimerRepeatAfter stamp count ltime cb ud s)"
| "do_timer_call (CallRemove stamp i) s = TimerRemove stamp i s"
| "do_timer_call (CallModify stamp i ltime) s = TimerModify stamp i ltime s"

type_synonym timer_callbacks = "timer_state \<Rightarrow> addr \<Rightarrow> ulong \<Rightarrow> timer_call list"

text \<open>
  The first loop of \<^verbatim>\<open>TimerScan\<close> is \<^verbatim>\<open>IVY_LIST_EACH_SAFE\<close>: the successor of a node is read
  before its callback runs, and reading the successor of a node that has been freed is a use
  after free (\<open>each_safe\<close>, in \<^verbatim>\<open>Ivy_List\<close>). \<open>fire_one\<close> is the body of the loop.
\<close>

definition timer_crash :: "c_fault \<Rightarrow> timer_state \<Rightarrow> timer_state" where
  "timer_crash f s = s\<lparr>timer_fault := Some f\<rparr>"

definition fire_one :: "timer_callbacks \<Rightarrow> ulong \<Rightarrow> addr \<Rightarrow> timer_state \<Rightarrow> timer_state" where
  "fire_one cb stamp i s =
     (case find_timer i s of
        None \<Rightarrow> timer_crash UseAfterFree s
      | Some t \<Rightarrow>
          if due t \<le> stamp \<and> \<not> mark2Remove t then
            (let delta = stamp - due t;
                 s1 = s\<lparr>fired := fired s @ [(i, delta)]\<rparr>
             in fold do_timer_call (cb s1 i delta) s1)
          else s)"

definition scan_fire :: "timer_callbacks \<Rightarrow> ulong \<Rightarrow> timer_state \<Rightarrow> timer_state" where
  "scan_fire cb stamp s =
     each_safe (\<lambda>s. map tid (timers s)) timer_crash (fire_one cb stamp) (map tid (timers s)) s"

text \<open>
  The second loop: what becomes of one timer (\<open>None\<close>: unlinked and freed). The count is a C
  \<^verbatim>\<open>int\<close>; its decrement is written with the wrap-around of 32 bits.
\<close>

definition decr_int :: "int \<Rightarrow> int" where
  "decr_int k = (k - 1 + 2147483648) mod 4294967296 - 2147483648"

definition scan_timer :: "ulong \<Rightarrow> timer \<Rightarrow> timer option" where
  "scan_timer stamp t =
     (if mark2Remove t then None
      else if due t \<le> stamp then
        (if repeat t = TIMER_LOOP then Some (t\<lparr>due := stamp + period t\<rparr>)
         else (let t1 = t\<lparr>repeat := decr_int (repeat t)\<rparr>
               in if repeat t1 \<noteq> 0 then Some (t1\<lparr>due := stamp + period t\<rparr>) else None))
      else Some t)"

definition TimerScan :: "timer_callbacks \<Rightarrow> ulong \<Rightarrow> timer_state \<Rightarrow> timer_state" where
  "TimerScan cb stamp s =
     (let s1 = scan_fire cb stamp s
      in s1\<lparr>timers := List.map_filter (scan_timer stamp) (timers s1)\<rparr>)"

subsection \<open>Well-formed states\<close>

definition timers_wf :: "timer_state \<Rightarrow> bool" where
  "timers_wf s \<longleftrightarrow> distinct (map tid (timers s)) \<and> (\<forall>t \<in> set (timers s). tid t < next_tid s) \<and> 0 < next_tid s"

lemma map_timer_tids [simp]: "(\<And>t. tid (f t) = tid t) \<Longrightarrow> map tid (timers (map_timer i f s)) = map tid (timers s)"
  by (simp add: map_timer_def comp_def if_distrib cong: if_cong)

lemma map_timer_same [simp]:
  "next_tid (map_timer i f s) = next_tid s" "fired (map_timer i f s) = fired s"
  "timer_fault (map_timer i f s) = timer_fault s" "nextTimeout (map_timer i f s) = nextTimeout s"
  by (simp_all add: map_timer_def)

lemma SetNewTimeout_same [frame_simps, simp]:
  "timers (SetNewTimeout c w s) = timers s" "next_tid (SetNewTimeout c w s) = next_tid s"
  "fired (SetNewTimeout c w s) = fired s" "timer_fault (SetNewTimeout c w s) = timer_fault s"
  by (simp_all add: SetNewTimeout_def Let_def)

lemma AdjTimeout_same [frame_simps, simp]:
  "timers (AdjTimeout c s) = timers s" "next_tid (AdjTimeout c s) = next_tid s"
  "fired (AdjTimeout c s) = fired s" "timer_fault (AdjTimeout c s) = timer_fault s"
  by (simp_all add: AdjTimeout_def split: list.splits)

lemma timers_wf_tids:
  "timers_wf s \<longleftrightarrow> distinct (map tid (timers s)) \<and> (\<forall>i \<in> set (map tid (timers s)). i < next_tid s) \<and> 0 < next_tid s"
  by (auto simp: timers_wf_def)

lemma timers_wf_map_timer [simp]:
  "(\<And>t. tid (f t) = tid t) \<Longrightarrow> timers_wf (map_timer i f s) = timers_wf s"
  by (simp only: timers_wf_tids map_timer_tids map_timer_same)

lemma timers_wf_AdjTimeout [simp]: "timers_wf (AdjTimeout c s) = timers_wf s"
  by (simp add: timers_wf_def)

lemma timer_call_wf:
  assumes "timers_wf s"
  shows "timers_wf (do_timer_call c s)"
proof (cases c)
  case (CallRepeatAfter stamp count ltime cb ud)
  then show ?thesis using assms
    by (auto simp: TimerRepeatAfter_def timers_wf_def Let_def less_Suc_eq)
qed (use assms in \<open>auto simp: TimerRemove_def TimerModify_def split: option.splits,
      simp_all add: timers_wf_def\<close>)

text \<open>A call never forgets a timer, never fires one and never takes a mark back.\<close>

definition marked :: "timer_state \<Rightarrow> addr set" where
  "marked s = tid ` {t \<in> set (timers s). mark2Remove t}"

lemma timer_call_frame:
  "fired (do_timer_call c s) = fired s"
  "\<exists>new. map tid (timers (do_timer_call c s)) = new @ map tid (timers s)"
  by (cases c; auto simp: TimerRepeatAfter_def TimerRemove_def TimerModify_def Let_def split: option.splits)+

lemma marked_map_timer:
  "(\<And>t. tid (f t) = tid t) \<Longrightarrow> (\<And>t. mark2Remove t \<Longrightarrow> mark2Remove (f t))
   \<Longrightarrow> marked s \<subseteq> marked (map_timer i f s)"
  by (auto simp: marked_def map_timer_def image_iff Bex_def) metis

lemma marked_AdjTimeout [simp]: "marked (AdjTimeout c s) = marked s"
  by (simp add: marked_def)

lemma timer_call_marked: "marked s \<subseteq> marked (do_timer_call c s)"
proof (cases c)
  case (CallRepeatAfter stamp count ltime cb ud)
  then show ?thesis by (auto simp: TimerRepeatAfter_def marked_def Let_def)
next
  case (CallRemove stamp i)
  have "marked s \<subseteq> marked (map_timer i (\<lambda>t. t\<lparr>mark2Remove := True\<rparr>) s)"
    by (rule marked_map_timer) auto
  then show ?thesis using CallRemove
    by (auto simp: TimerRemove_def marked_def split: option.splits)
next
  case (CallModify stamp i ltime)
  have "marked s \<subseteq> marked (map_timer i (\<lambda>t. t\<lparr>period := ltime, due := stamp + ltime\<rparr>) s)"
    by (rule marked_map_timer) auto
  then show ?thesis using CallModify
    by (auto simp: TimerModify_def marked_def split: option.splits)
qed

lemma timer_calls_frame:
  "fired (fold do_timer_call cs s) = fired s"
  "marked s \<subseteq> marked (fold do_timer_call cs s)"
  by (induction cs arbitrary: s) (use timer_call_frame timer_call_marked in \<open>auto, blast\<close>)

subsection \<open>What a scan fires\<close>

lemma timer_calls_wf: "timers_wf s \<Longrightarrow> timers_wf (fold do_timer_call cs s)"
  by (induction cs arbitrary: s) (auto simp: timer_call_wf)

lemma find_timer_marked:
  assumes "find_timer i s = Some t" "\<not> mark2Remove t" "timers_wf s"
  shows "i \<notin> marked s"
proof
  assume "i \<in> marked s"
  then obtain u where u: "u \<in> set (timers s)" "tid u = i" "mark2Remove u" by (auto simp: marked_def)
  have t: "t \<in> set (timers s)" "tid t = i"
    using assms(1) by (auto simp: find_timer_def find_Some_iff)
  have "inj_on tid (set (timers s))" using assms(3) by (simp add: timers_wf_def distinct_map)
  then have "t = u" using t u by (metis inj_onD)
  then show False using assms(2) u(3) by simp
qed

text \<open>
  A callback adds timers in front of the list and only marks those it removes, so the traversal
  meets every node that was in the list when it started.
\<close>

lemma timer_calls_tids:
  "\<exists>new. map tid (timers (fold do_timer_call cs s)) = new @ map tid (timers s)"
proof (induction cs arbitrary: s)
  case (Cons c cs)
  then show ?case using timer_call_frame(2) [of c s] by (metis append.assoc fold_simps(2))
qed simp

lemma fire_one_frame:
  assumes "timers_wf s"
  shows "timers_wf (fire_one cb stamp i s)"
    and "\<exists>new. map tid (timers (fire_one cb stamp i s)) = new @ map tid (timers s)"
proof -
  show "timers_wf (fire_one cb stamp i s)"
    using assms by (auto simp: fire_one_def timer_crash_def Let_def split: option.splits intro!: timer_calls_wf)
      (simp_all add: timers_wf_def)
  show "\<exists>new. map tid (timers (fire_one cb stamp i s)) = new @ map tid (timers s)"
  proof (cases "\<exists>t. find_timer i s = Some t \<and> due t \<le> stamp \<and> \<not> mark2Remove t")
    case True
    then show ?thesis
      using timer_calls_tids [where s = "s\<lparr>fired := f\<rparr>" for f] by (auto simp: fire_one_def Let_def)
  next
    case False
    then show ?thesis by (auto simp: fire_one_def timer_crash_def split: option.splits)
  qed
qed

lemma scan_fire_fold:
  assumes "timers_wf s"
  shows "scan_fire cb stamp s = fold (fire_one cb stamp) (map tid (timers s)) s"
proof -
  have body: "timers_wf (fire_one cb stamp p s) \<and> (\<exists>pre'. map tid (timers (fire_one cb stamp p s)) = pre' @ ps)"
    if w: "timers_wf s" and e: "map tid (timers s) = pre @ p # ps" for s pre p ps
  proof -
    obtain new where "map tid (timers (fire_one cb stamp p s)) = new @ map tid (timers s)"
      using fire_one_frame(2) [OF w] by blast
    then have "map tid (timers (fire_one cb stamp p s)) = (new @ pre @ [p]) @ ps" using e by simp
    then show ?thesis using fire_one_frame(1) [OF w] by blast
  qed
  have "distinct (map tid (timers s))" if "timers_wf s" for s using that by (simp add: timers_wf_def)
  moreover have "map tid (timers s) = [] @ map tid (timers s)" by simp
  ultimately show ?thesis
    using each_safe_fold [where I = timers_wf and nodes = "\<lambda>s. map tid (timers s)" and s = s
        and crash = timer_crash and pre = "[]", OF body] assms
    by (simp add: scan_fire_def)
qed

text \<open>With callbacks that leave the timers alone, a scan fires the timers that are due.\<close>

abbreviation inert :: timer_callbacks where
  "inert \<equiv> \<lambda>_ _ _. []"

definition due_now :: "ulong \<Rightarrow> timer \<Rightarrow> bool" where
  "due_now stamp t \<longleftrightarrow> due t \<le> stamp \<and> \<not> mark2Remove t"

lemma find_timer_fired [simp]: "find_timer i (s\<lparr>fired := f\<rparr>) = find_timer i s"
  by (simp add: find_timer_def)

lemma fire_fold_inert:
  assumes "\<forall>t \<in> set ts. find_timer (tid t) s = Some t"
  shows "fold (fire_one inert stamp) (map tid ts) s
    = s\<lparr>fired := fired s @ map (\<lambda>t. (tid t, stamp - due t)) (filter (due_now stamp) ts)\<rparr>"
  using assms by (induction ts arbitrary: s) (auto simp: fire_one_def due_now_def Let_def)

lemma find_timer_self:
  assumes "timers_wf s" "t \<in> set (timers s)"
  shows "find_timer (tid t) s = Some t"
proof (cases "find_timer (tid t) s")
  case None
  then show ?thesis using assms(2) by (auto simp: find_timer_def find_None_iff)
next
  case (Some u)
  then have "u \<in> set (timers s)" "tid u = tid t" by (auto simp: find_timer_def find_Some_iff)
  moreover have "inj_on tid (set (timers s))" using assms(1) by (simp add: timers_wf_def distinct_map)
  ultimately show ?thesis using assms(2) Some by (metis inj_onD)
qed

lemma TimerScan_inert:
  assumes "timers_wf s"
  shows "TimerScan inert stamp s
    = s\<lparr>fired := fired s @ map (\<lambda>t. (tid t, stamp - due t)) (filter (due_now stamp) (timers s)),
        timers := List.map_filter (scan_timer stamp) (timers s)\<rparr>"
  using fire_fold_inert [of "timers s" s stamp] find_timer_self [OF assms]
  by (simp add: TimerScan_def scan_fire_fold [OF assms] Let_def)

subsection \<open>The life of a timer over several scans\<close>

definition run_scans :: "ulong list \<Rightarrow> timer_state \<Rightarrow> timer_state" where
  "run_scans sts s = fold (TimerScan inert) sts s"

definition fire_count :: "addr \<Rightarrow> timer_state \<Rightarrow> nat" where
  "fire_count i s = length (filter (\<lambda>(j, d). j = i) (fired s))"

text \<open>What the scans at the given times do to one timer: how often it fires, what is left of it.\<close>

fun timer_life :: "ulong list \<Rightarrow> timer \<Rightarrow> nat \<times> timer option" where
  "timer_life [] t = (0, Some t)"
| "timer_life (st # sts) t =
     (let f = (if due_now st t then 1 else 0)
      in case scan_timer st t of
           None \<Rightarrow> (f, None)
         | Some t' \<Rightarrow> (f + fst (timer_life sts t'), snd (timer_life sts t')))"

text \<open>The timer is due at every one of these scans.\<close>

fun always_due :: "ulong list \<Rightarrow> timer \<Rightarrow> bool" where
  "always_due [] t \<longleftrightarrow> True"
| "always_due (st # sts) t \<longleftrightarrow> due t \<le> st \<and> always_due sts (t\<lparr>due := st + period t\<rparr>)"

lemma scan_timer_tid: "scan_timer st t = Some t' \<Longrightarrow> tid t' = tid t"
  by (auto simp: scan_timer_def Let_def split: if_splits)

lemma in_map_filter:
  "v \<in> set (List.map_filter f ts) \<longleftrightarrow> (\<exists>u \<in> set ts. f u = Some v)"
  by (induction ts) (auto split: option.splits)

lemma map_filter_tids:
  "set (map tid (List.map_filter (scan_timer st) ts)) \<subseteq> set (map tid ts)"
proof
  fix i assume "i \<in> set (map tid (List.map_filter (scan_timer st) ts))"
  then obtain v where "v \<in> set (List.map_filter (scan_timer st) ts)" "tid v = i" by auto
  then obtain u where "u \<in> set ts" "scan_timer st u = Some v" by (auto simp: in_map_filter)
  then show "i \<in> set (map tid ts)" using \<open>tid v = i\<close> scan_timer_tid [of st u v] by force
qed

lemma map_filter_distinct:
  "distinct (map tid ts) \<Longrightarrow> distinct (map tid (List.map_filter (scan_timer st) ts))"
proof (induction ts)
  case (Cons u ts)
  have "tid u \<notin> set (map tid (List.map_filter (scan_timer st) ts))"
    using Cons.prems map_filter_tids [of st ts] by auto
  then show ?case using Cons by (cases "scan_timer st u") (auto dest: scan_timer_tid)
qed simp

lemma TimerScan_inert_wf:
  assumes "timers_wf s"
  shows "timers_wf (TimerScan inert st s)"
proof -
  let ?ts = "List.map_filter (scan_timer st) (timers s)"
  have "distinct (map tid ?ts)" using assms by (simp add: timers_wf_def map_filter_distinct)
  moreover have "\<forall>i \<in> set (map tid ?ts). i < next_tid s"
    using map_filter_tids [of st "timers s"] assms unfolding timers_wf_tids by blast
  ultimately show ?thesis using assms by (simp add: timers_wf_tids TimerScan_inert)
qed

lemma no_tid_map_filter:
  assumes "\<forall>u \<in> set ts. tid u \<noteq> i"
  shows "find (\<lambda>u. tid u = i) (List.map_filter (scan_timer st) ts) = None"
proof -
  have "i \<notin> set (map tid ts)" using assms by auto
  then have "i \<notin> set (map tid (List.map_filter (scan_timer st) ts))"
    using map_filter_tids [of st ts] by blast
  then show ?thesis by (auto simp: find_None_iff)
qed

lemma find_map_filter:
  assumes "distinct (map tid ts)" "t \<in> set ts"
  shows "find (\<lambda>u. tid u = tid t) (List.map_filter (scan_timer st) ts) = scan_timer st t"
  using assms
proof (induction ts)
  case (Cons u ts)
  show ?case
  proof (cases "u = t")
    case True
    then have "tid t \<notin> tid ` set ts" using Cons.prems by auto
    then have "\<forall>u \<in> set ts. tid u \<noteq> tid t" by (metis image_eqI)
    then have "find (\<lambda>u. tid u = tid t) (List.map_filter (scan_timer st) ts) = None"
      by (rule no_tid_map_filter)
    then show ?thesis using True by (cases "scan_timer st t") (auto simp: scan_timer_tid)
  next
    case False
    then have ne: "tid u \<noteq> tid t" "t \<in> set ts" using Cons.prems by auto
    then have IH: "find (\<lambda>u. tid u = tid t) (List.map_filter (scan_timer st) ts) = scan_timer st t"
      using Cons by simp
    show ?thesis
      using ne IH by (cases "scan_timer st u") (auto dest: scan_timer_tid)
  qed
qed simp

lemma no_due:
  "\<forall>u \<in> set ts. tid u \<noteq> i \<Longrightarrow> filter (\<lambda>x. due_now st x \<and> tid x = i) ts = []"
  by (auto simp: filter_empty_conv)

lemma count_due:
  assumes "distinct (map tid ts)" "t \<in> set ts"
  shows "length (filter (\<lambda>x. due_now st x \<and> tid x = tid t) ts) = (if due_now st t then 1 else 0)"
  using assms
proof (induction ts)
  case (Cons u ts)
  show ?case
  proof (cases "u = t")
    case True
    then have "tid t \<notin> tid ` set ts" using Cons.prems by auto
    then have "\<forall>u \<in> set ts. tid u \<noteq> tid t" by (metis image_eqI)
    then show ?thesis using True no_due [of ts "tid t" st] by simp
  next
    case False
    then have "tid u \<noteq> tid t" "t \<in> set ts" using Cons.prems by auto
    then show ?thesis using Cons by simp
  qed
qed simp

lemma fire_count_scan:
  assumes "timers_wf s"
  shows "fire_count i (TimerScan inert st s)
    = fire_count i s + length (filter (\<lambda>x. due_now st x \<and> tid x = i) (timers s))"
  by (simp add: fire_count_def TimerScan_inert [OF assms] filter_map comp_def)

lemma absent_timer:
  assumes "timers_wf s" "find_timer i s = None"
  shows "fire_count i (run_scans sts s) = fire_count i s \<and> find_timer i (run_scans sts s) = None"
  using assms
proof (induction sts arbitrary: s)
  case Nil
  then show ?case by (simp add: run_scans_def)
next
  case (Cons st sts)
  let ?s = "TimerScan inert st s"
  have no: "\<forall>t \<in> set (timers s). tid t \<noteq> i"
    using Cons.prems(2) by (auto simp: find_timer_def find_None_iff)
  then have "find_timer i ?s = None"
    using no_tid_map_filter [OF no, of st]
    by (simp add: find_timer_def TimerScan_inert [OF Cons.prems(1)])
  moreover have "fire_count i ?s = fire_count i s"
    using no_due [OF no, of st] by (simp add: fire_count_scan [OF Cons.prems(1)])
  ultimately show ?case
    using Cons.IH [of ?s] TimerScan_inert_wf [OF Cons.prems(1), of st] by (simp add: run_scans_def)
qed

lemma run_scans_life:
  assumes "timers_wf s" "t \<in> set (timers s)"
  shows "fire_count (tid t) (run_scans sts s) = fire_count (tid t) s + fst (timer_life sts t)
    \<and> find_timer (tid t) (run_scans sts s) = snd (timer_life sts t)"
  using assms
proof (induction sts arbitrary: s t)
  case Nil
  then show ?case by (simp add: run_scans_def find_timer_self)
next
  case (Cons st sts)
  let ?s = "TimerScan inert st s"
  have wf: "timers_wf ?s" by (rule TimerScan_inert_wf [OF Cons.prems(1)])
  have d: "distinct (map tid (timers s))" using Cons.prems(1) by (simp add: timers_wf_def)
  have fc: "fire_count (tid t) ?s = fire_count (tid t) s + (if due_now st t then 1 else 0)"
    using count_due [OF d Cons.prems(2), of st] by (simp add: fire_count_scan [OF Cons.prems(1)])
  have fd: "find_timer (tid t) ?s = scan_timer st t"
    using find_map_filter [OF d Cons.prems(2), of st]
    by (simp add: find_timer_def TimerScan_inert [OF Cons.prems(1)])
  show ?case
  proof (cases "scan_timer st t")
    case None
    then show ?thesis using absent_timer [OF wf, of "tid t" sts] fd fc by (simp add: run_scans_def Let_def)
  next
    case (Some t')
    then have "t' \<in> set (timers ?s)" "tid t' = tid t"
      using fd by (auto simp: find_timer_def find_Some_iff dest: scan_timer_tid)
    then show ?thesis using Cons.IH [OF wf, of t'] Some fc by (simp add: run_scans_def Let_def)
  qed
qed

lemma decr_int_small: "- 2147483648 < k \<Longrightarrow> k \<le> 2147483647 \<Longrightarrow> decr_int k = k - 1"
  by (simp add: decr_int_def)

lemma scan_timer_due:
  assumes "due_now st t" "- 2147483648 < repeat t" "repeat t \<le> 2147483647"
  shows "scan_timer st t = (if repeat t = TIMER_LOOP then Some (t\<lparr>due := st + period t\<rparr>)
    else if repeat t = 1 then None else Some (t\<lparr>repeat := repeat t - 1, due := st + period t\<rparr>))"
  using assms by (auto simp: scan_timer_def due_now_def decr_int_small Let_def)

lemma always_due_cong:
  "due u = due v \<Longrightarrow> period u = period v \<Longrightarrow> always_due sts u = always_due sts v"
proof (induction sts arbitrary: u v)
  case (Cons st sts)
  show ?case
    using Cons.IH [of "u\<lparr>due := st + period u\<rparr>" "v\<lparr>due := st + period v\<rparr>"] Cons.prems by simp
qed simp

lemma timer_life_loop:
  assumes "repeat t = TIMER_LOOP" "\<not> mark2Remove t" "always_due sts t"
  shows "fst (timer_life sts t) = length sts \<and> snd (timer_life sts t) \<noteq> None"
  using assms
proof (induction sts arbitrary: t)
  case (Cons st sts)
  have d: "due_now st t" using Cons.prems by (simp add: due_now_def)
  show ?case
    using Cons.IH [of "t\<lparr>due := st + period t\<rparr>"] Cons.prems d
    by (simp add: scan_timer_def due_now_def)
qed simp

lemma timer_life_count:
  assumes "repeat t = int n" "0 < n" "n < 2147483648" "\<not> mark2Remove t" "always_due sts t"
  shows "fst (timer_life sts t) = min n (length sts) \<and> (snd (timer_life sts t) = None) = (n \<le> length sts)"
  using assms
proof (induction sts arbitrary: t n)
  case (Cons st sts)
  have d: "due_now st t" "repeat t \<noteq> TIMER_LOOP"
    using Cons.prems by (auto simp: due_now_def TIMER_LOOP_def)
  have due: "scan_timer st t = (if repeat t = 1 then None else Some (t\<lparr>repeat := repeat t - 1, due := st + period t\<rparr>))"
    using scan_timer_due [OF d(1)] d(2) Cons.prems(1,3) by simp
  show ?case
  proof (cases "n = 1")
    case True
    then show ?thesis using Cons.prems d by (simp add: due)
  next
    case False
    let ?t = "t\<lparr>repeat := repeat t - 1, due := st + period t\<rparr>"
    have r: "repeat t \<noteq> 1" using False Cons.prems by simp
    have "always_due sts ?t"
      using Cons.prems(5) always_due_cong [of ?t "t\<lparr>due := st + period t\<rparr>" sts] by simp
    moreover have "repeat ?t = int (n - 1)" "0 < n - 1" using Cons.prems False by auto
    ultimately have "fst (timer_life sts ?t) = min (n - 1) (length sts)
      \<and> (snd (timer_life sts ?t) = None) = (n - 1 \<le> length sts)"
      using Cons.IH [of ?t "n - 1"] Cons.prems(3,4) by simp
    moreover have "timer_life (st # sts) t = (Suc (fst (timer_life sts ?t)), snd (timer_life sts ?t))"
      using d r by (simp add: due)
    ultimately show ?thesis using Cons.prems(2) by auto
  qed
qed simp

subsection \<open>The timeout handed to select\<close>

lemma nearest_le: "nearest w ts \<le> w"
proof (induction ts arbitrary: w)
  case (Cons t ts)
  show ?case
    using Cons.IH [of w] Cons.IH [of "due t"] by (auto simp: nearest_def)
qed (simp add: nearest_def)

lemma nearest_bound: "t \<in> set ts \<Longrightarrow> \<not> mark2Remove t \<Longrightarrow> nearest w ts \<le> due t"
proof (induction ts arbitrary: w)
  case (Cons u ts)
  show ?case
  proof (cases "u = t")
    case True
    then show ?thesis
      using nearest_le [of w ts] nearest_le [of "due t" ts] Cons.prems(2) by (auto simp: nearest_def)
  next
    case False
    then show ?thesis using Cons by (simp add: nearest_def)
  qed
qed simp

lemma nearest_in: "nearest w ts \<in> insert w (due ` set ts)"
proof (induction ts arbitrary: w)
  case (Cons t ts)
  show ?case using Cons.IH [of w] Cons.IH [of "due t"] by (auto simp: nearest_def)
qed (simp add: nearest_def)

text \<open>Milliseconds split into seconds and microseconds, without wrap-around.\<close>

lemma split_timeout:
  fixes l :: ulong
  shows "1000 * unat (l div MILLISEC) + unat ((l - l div MILLISEC * MILLISEC) * MILLISEC) div 1000 = unat l"
    and "unat ((l - l div MILLISEC * MILLISEC) * MILLISEC) < 1000000"
proof -
  have m: "l - l div MILLISEC * MILLISEC = l mod MILLISEC"
    by (simp add: minus_div_mult_eq_mod)
  have u: "unat (l mod MILLISEC) = unat l mod 1000" by (simp add: unat_mod MILLISEC_def)
  have "unat (l mod MILLISEC) * unat MILLISEC < 2 ^ 64" using u by (simp add: MILLISEC_def)
  then have e: "unat ((l - l div MILLISEC * MILLISEC) * MILLISEC) = unat l mod 1000 * 1000"
    using m u by (simp add: unat_mult_lem [THEN iffD1] MILLISEC_def)
  show "1000 * unat (l div MILLISEC) + unat ((l - l div MILLISEC * MILLISEC) * MILLISEC) div 1000 = unat l"
    unfolding e by (simp add: unat_div MILLISEC_def)
  show "unat ((l - l div MILLISEC * MILLISEC) * MILLISEC) < 1000000" unfolding e by simp
qed

definition timeout_ms :: "ulong \<times> ulong \<Rightarrow> nat" where
  "timeout_ms tv = 1000 * unat (fst tv) + unat (snd tv) div 1000"

lemma SetNewTimeout_timeout:
  "timeout_ms (selectTimeout (SetNewTimeout c w s)) = unat w - unat c"
  "unat (snd (selectTimeout (SetNewTimeout c w s))) < 1000000"
  "timeoutptr (SetNewTimeout c w s)"
proof -
  let ?l = "if w \<le> c then 0 else w - c"
  have l: "unat ?l = unat w - unat c"
    by (auto simp: word_le_nat_alt unat_sub_if_size)
  show "timeout_ms (selectTimeout (SetNewTimeout c w s)) = unat w - unat c"
    using split_timeout(1) [of ?l] l by (simp add: timeout_ms_def SetNewTimeout_def Let_def)
  show "unat (snd (selectTimeout (SetNewTimeout c w s))) < 1000000"
    using split_timeout(2) [of ?l] by (simp add: SetNewTimeout_def Let_def)
qed (simp add: SetNewTimeout_def Let_def)

text \<open>
  (C21) \<^verbatim>\<open>TimerGetSmallestTimeout\<close> returns a null pointer exactly when there is no timer. Otherwise
  the \<^verbatim>\<open>timeval\<close> is well formed (less than a million microseconds), is the delay of one of the
  timers, and is not later than the deadline of any timer that is not marked for removal, so
  \<^verbatim>\<open>select\<close> never sleeps past a deadline.
\<close>

theorem timer_timeout_sound:
  assumes "TimerGetSmallestTimeout stamp s = (r, s')"
  shows "(r = None \<longleftrightarrow> timers s = [])
    \<and> (\<forall>tv. r = Some tv \<longrightarrow> unat (snd tv) < 1000000
         \<and> (\<exists>t \<in> set (timers s). timeout_ms tv = unat (due t) - unat stamp)
         \<and> (\<forall>t \<in> set (timers s). \<not> mark2Remove t \<longrightarrow> timeout_ms tv \<le> unat (due t) - unat stamp))"
proof (cases "timers s")
  case Nil
  then show ?thesis using assms by (auto simp: TimerGetSmallestTimeout_def AdjTimeout_def Let_def)
next
  case (Cons u us)
  define n where "n = nearest (due u) (timers s)"
  have adj: "AdjTimeout stamp s = SetNewTimeout stamp n s"
    using Cons by (simp add: AdjTimeout_def n_def)
  have r: "r = Some (selectTimeout (SetNewTimeout stamp n s))"
    using assms by (auto simp: TimerGetSmallestTimeout_def adj SetNewTimeout_timeout Let_def)
  have "n \<in> due ` set (timers s)" using nearest_in [of "due u" "timers s"] Cons by (auto simp: n_def)
  moreover have "unat n - unat stamp \<le> unat (due t) - unat stamp"
    if "t \<in> set (timers s)" "\<not> mark2Remove t" for t
    using nearest_bound [OF that, of "due u"] by (simp add: n_def word_le_nat_alt diff_le_mono)
  ultimately show ?thesis
    using r Cons by (auto simp: SetNewTimeout_timeout)
qed

text \<open>A state with two timers, due at 1500 and 1200.\<close>

definition two_timers :: timer_state where
  "two_timers = snd (TimerRepeatAfter 200 2 1000 7 0 (snd (TimerRepeatAfter 500 (-1) 1000 8 0 init_timers)))"

theorem timer_timeout_sound_witness:
  "fst (TimerGetSmallestTimeout 1000 two_timers) \<noteq> None
   \<and> timeout_ms (the (fst (TimerGetSmallestTimeout 1000 two_timers))) \<le> 200"
proof -
  obtain r s' where g: "TimerGetSmallestTimeout 1000 two_timers = (r, s')" by fastforce
  have ts: "timers two_timers = [
    \<lparr>tid = 2, repeat = 2, period = 1000, due = 1200, callback = 7, user_data = 0, mark2Remove = False\<rparr>,
    \<lparr>tid = 1, repeat = -1, period = 1000, due = 1500, callback = 8, user_data = 0, mark2Remove = False\<rparr>]"
    by (simp add: two_timers_def TimerRepeatAfter_def init_timers_def Let_def)
  from timer_timeout_sound [OF g] show ?thesis using g ts by auto
qed

subsection \<open>What the scans promise\<close>

lemma TimerScan_tail_wf:
  assumes "timers_wf s"
  shows "timers_wf (s\<lparr>timers := List.map_filter (scan_timer st) (timers s)\<rparr>)"
proof -
  let ?ts = "List.map_filter (scan_timer st) (timers s)"
  have "distinct (map tid ?ts)" using assms by (simp add: timers_wf_def map_filter_distinct)
  moreover have "\<forall>i \<in> set (map tid ?ts). i < next_tid s"
    using map_filter_tids [of st "timers s"] assms unfolding timers_wf_tids by blast
  ultimately show ?thesis using assms by (simp add: timers_wf_tids)
qed

text \<open>
  What a callback may touch: \<open>calls_ok X n0\<close> says that every call it makes is on a null pointer,
  on one of the timers \<open>X\<close>, or on a timer that is in the list and was made during the scan (its
  number is at least \<open>n0\<close>).
\<close>

fun timer_target :: "timer_call \<Rightarrow> addr" where
  "timer_target (CallRepeatAfter stamp count ltime cb ud) = NULL"
| "timer_target (CallRemove stamp i) = i"
| "timer_target (CallModify stamp i ltime) = i"

definition target_ok :: "addr set \<Rightarrow> addr \<Rightarrow> timer_state \<Rightarrow> addr \<Rightarrow> bool" where
  "target_ok X n0 s i \<longleftrightarrow> i = NULL \<or> i \<in> X \<or> (n0 \<le> i \<and> i \<in> set (map tid (timers s)))"

fun calls_ok :: "addr set \<Rightarrow> addr \<Rightarrow> timer_call list \<Rightarrow> timer_state \<Rightarrow> bool" where
  "calls_ok X n0 [] s \<longleftrightarrow> True"
| "calls_ok X n0 (c # cs) s \<longleftrightarrow> target_ok X n0 s (timer_target c) \<and> calls_ok X n0 cs (do_timer_call c s)"

text \<open>The timers of \<open>s0\<close> that no callback touches, and what a scan keeps while it runs.\<close>

definition left_alone :: "addr set \<Rightarrow> timer_state \<Rightarrow> timer \<Rightarrow> bool" where
  "left_alone X s0 t \<longleftrightarrow> tid t < next_tid s0 \<and> tid t \<notin> X"

definition scan_inv :: "addr set \<Rightarrow> timer_state \<Rightarrow> timer_state \<Rightarrow> bool" where
  "scan_inv X s0 s \<longleftrightarrow> timers_wf s \<and> timer_fault s = None \<and> next_tid s0 \<le> next_tid s
     \<and> set (map tid (timers s0)) \<subseteq> set (map tid (timers s))
     \<and> filter (left_alone X s0) (timers s) = filter (left_alone X s0) (timers s0)"

lemma find_timer_in: "i \<in> set (map tid (timers s)) \<Longrightarrow> \<exists>t. find_timer i s = Some t"
  by (cases "find_timer i s") (auto simp: find_timer_def find_None_iff)

lemma filter_map_timer:
  assumes "\<And>t. tid (f t) = tid t" "i \<in> X \<or> n0 \<le> i"
  shows "filter (\<lambda>t. tid t < n0 \<and> tid t \<notin> X) (timers (map_timer i f s))
    = filter (\<lambda>t. tid t < n0 \<and> tid t \<notin> X) (timers s)"
proof -
  have "filter (\<lambda>t. tid t < n0 \<and> tid t \<notin> X) (map (\<lambda>t. if tid t = i then f t else t) ts)
    = filter (\<lambda>t. tid t < n0 \<and> tid t \<notin> X) ts" for ts
    using assms by (induction ts) auto
  then show ?thesis by (simp add: map_timer_def)
qed

lemma timer_call_no_fault:
  assumes "timer_target c = NULL \<or> timer_target c \<in> set (map tid (timers s))"
  shows "timer_fault (do_timer_call c s) = timer_fault s"
  using assms find_timer_in [of "timer_target c" s]
  by (cases c) (auto simp: TimerRepeatAfter_def TimerRemove_def TimerModify_def Let_def split: option.splits)

lemma timer_call_tids: "set (map tid (timers s)) \<subseteq> set (map tid (timers (do_timer_call c s)))"
  using timer_call_frame(2) [of c s] by (metis set_append Un_upper2)

lemma timer_call_next: "next_tid s \<le> next_tid (do_timer_call c s)"
  by (cases c) (auto simp: TimerRepeatAfter_def TimerRemove_def TimerModify_def Let_def split: option.splits)

lemma timer_call_left_alone:
  assumes "timer_target c = NULL \<or> timer_target c \<in> X \<or> n0 \<le> timer_target c" "n0 \<le> next_tid s"
  shows "filter (\<lambda>t. tid t < n0 \<and> tid t \<notin> X) (timers (do_timer_call c s))
    = filter (\<lambda>t. tid t < n0 \<and> tid t \<notin> X) (timers s)"
  using assms
  by (cases c) (auto simp: TimerRepeatAfter_def TimerRemove_def TimerModify_def Let_def filter_map_timer
      split: option.splits)

lemma scan_inv_call:
  assumes "scan_inv X s0 s" "X \<subseteq> set (map tid (timers s0))" "target_ok X (next_tid s0) s (timer_target c)"
  shows "scan_inv X s0 (do_timer_call c s)"
proof -
  have t: "timer_target c = NULL \<or> timer_target c \<in> set (map tid (timers s))"
    "timer_target c = NULL \<or> timer_target c \<in> X \<or> next_tid s0 \<le> timer_target c"
    using assms unfolding target_ok_def scan_inv_def by blast+
  have inv: "timers_wf s" "timer_fault s = None" "next_tid s0 \<le> next_tid s"
    "set (map tid (timers s0)) \<subseteq> set (map tid (timers s))"
    "filter (left_alone X s0) (timers s) = filter (left_alone X s0) (timers s0)"
    using assms(1) by (auto simp: scan_inv_def)
  have "filter (left_alone X s0) (timers (do_timer_call c s)) = filter (left_alone X s0) (timers s0)"
    using timer_call_left_alone [OF t(2) inv(3)] inv(5) unfolding left_alone_def by simp
  moreover have "set (map tid (timers s0)) \<subseteq> set (map tid (timers (do_timer_call c s)))"
    using inv(4) timer_call_tids [of s c] by (rule subset_trans)
  moreover have "next_tid s0 \<le> next_tid (do_timer_call c s)" using inv(3) timer_call_next le_trans by blast
  ultimately show ?thesis
    using timer_call_no_fault [OF t(1)] timer_call_wf [OF inv(1)] inv(2) unfolding scan_inv_def by simp
qed

lemma scan_inv_calls:
  "scan_inv X s0 s \<Longrightarrow> X \<subseteq> set (map tid (timers s0)) \<Longrightarrow> calls_ok X (next_tid s0) cs s
   \<Longrightarrow> scan_inv X s0 (fold do_timer_call cs s)"
  by (induction cs arbitrary: s) (auto simp: scan_inv_call)

text \<open>The timers a callback removes, whatever the state it finds.\<close>

definition removed_by :: "timer_callbacks \<Rightarrow> addr \<Rightarrow> ulong \<Rightarrow> addr set" where
  "removed_by cb i d = {j. j \<noteq> NULL \<and> (\<forall>s. \<exists>stamp. CallRemove stamp j \<in> set (cb s i d))}"

lemma call_remove_marks:
  assumes "i \<in> set (map tid (timers s))" "i \<noteq> NULL"
  shows "i \<in> marked (TimerRemove stamp i s)"
proof -
  obtain t where t: "find_timer i s = Some t" using find_timer_in [OF assms(1)] by blast
  then have "t \<in> set (timers s)" "tid t = i" by (auto simp: find_timer_def find_Some_iff)
  then show ?thesis
    using t assms(2) by (auto simp: TimerRemove_def marked_def map_timer_def image_iff)
qed

lemma calls_remove_mark:
  assumes "CallRemove stamp i \<in> set cs" "i \<in> set (map tid (timers s))" "i \<noteq> NULL"
  shows "i \<in> marked (fold do_timer_call cs s)"
  using assms
proof (induction cs arbitrary: s)
  case (Cons c cs)
  show ?case
  proof (cases "c = CallRemove stamp i")
    case True
    then have "i \<in> marked (do_timer_call c s)" using call_remove_marks [OF Cons.prems(2,3)] by simp
    then show ?thesis using timer_calls_frame(2) [of "do_timer_call c s" cs] by auto
  next
    case False
    have "i \<in> set (map tid (timers (do_timer_call c s)))"
      using Cons.prems(2) timer_call_tids [of s c] by blast
    then show ?thesis using Cons False by simp
  qed
qed simp

text \<open>The first loop, on the timers \<open>ts\<close> that are still ahead.\<close>

definition scan_calls :: "addr set \<Rightarrow> timer_callbacks \<Rightarrow> ulong \<Rightarrow> timer list \<Rightarrow> addr set \<Rightarrow> (addr \<times> ulong) list \<Rightarrow> bool" where
  "scan_calls X cb stamp ts gone new \<longleftrightarrow>
     subseq (map fst new) (map tid ts) \<and> set (map fst new) \<inter> gone = {}
     \<and> filter (\<lambda>(j, d). j \<notin> X) new
       = map (\<lambda>t. (tid t, stamp - due t)) (filter (\<lambda>t. due_now stamp t \<and> tid t \<notin> X) ts)
     \<and> (\<forall>pre i d post. new = pre @ (i, d) # post \<longrightarrow> set (map fst post) \<inter> removed_by cb i d = {})"

lemma scan_calls_skip:
  assumes "scan_calls X cb stamp ts gone new" "due_now stamp t \<Longrightarrow> tid t \<in> X"
  shows "scan_calls X cb stamp (t # ts) gone new"
proof -
  have "subseq (map fst new) (map tid (t # ts))"
    using assms(1) list_emb_Cons [of "(=)" "map fst new" "map tid ts" "tid t"] by (simp add: scan_calls_def)
  moreover have "filter (\<lambda>t. due_now stamp t \<and> tid t \<notin> X) (t # ts) = filter (\<lambda>t. due_now stamp t \<and> tid t \<notin> X) ts"
    using assms(2) by simp
  ultimately show ?thesis using assms(1) unfolding scan_calls_def by simp
qed

lemma scan_calls_fire:
  assumes new: "scan_calls X cb stamp ts (gone \<union> gone') new" and g: "tid t \<notin> gone"
    and d: "tid t \<in> X \<or> (due_now stamp t \<and> d = stamp - due t)"
    and r: "removed_by cb (tid t) d \<inter> set (map tid ts) \<subseteq> gone'"
  shows "scan_calls X cb stamp (t # ts) gone ((tid t, d) # new)"
proof -
  have sub: "set (map fst new) \<subseteq> set (map tid ts)"
  proof
    fix x assume x: "x \<in> set (map fst new)"
    have "subseq (map fst new) (map tid ts)" using new by (simp add: scan_calls_def)
    from list_emb_set [OF this x] show "x \<in> set (map tid ts)" by metis
  qed
  have "set (map fst post) \<inter> removed_by cb i e = {}" if "(tid t, d) # new = pre @ (i, e) # post" for pre i e post
  proof (cases pre)
    case Nil
    then have "post = new" "i = tid t" "e = d" using that by auto
    then show ?thesis using r sub new unfolding scan_calls_def by blast
  next
    case (Cons x pre')
    then have "new = pre' @ (i, e) # post" using that by simp
    then show ?thesis using new unfolding scan_calls_def by blast
  qed
  then show ?thesis using new g d unfolding scan_calls_def by auto
qed

lemma fire_fold:
  assumes X: "X \<subseteq> set (map tid (timers s0))"
    and ok: "\<And>s i d. timers_wf s \<Longrightarrow> calls_ok X (next_tid s0) (cb s i d) s"
    and wf0: "timers_wf s0"
  shows "scan_inv X s0 s \<Longrightarrow> set ts \<subseteq> set (timers s0) \<Longrightarrow>
    \<exists>new. fired (fold (fire_one cb stamp) (map tid ts) s) = fired s @ new
      \<and> scan_calls X cb stamp ts (marked s) new
      \<and> scan_inv X s0 (fold (fire_one cb stamp) (map tid ts) s)"
proof (induction ts arbitrary: s)
  case Nil
  then show ?case by (auto simp: scan_calls_def)
next
  case (Cons u ts)
  have wf: "timers_wf s" and sub: "set (map tid (timers s0)) \<subseteq> set (map tid (timers s))"
    using Cons.prems(1) by (auto simp: scan_inv_def)
  have u0: "u \<in> set (timers s0)" using Cons.prems(2) by simp
  obtain t where t: "find_timer (tid u) s = Some t" using find_timer_in [of "tid u" s] sub u0 by auto
  have tu: "t = u" if "tid u \<notin> X"
  proof -
    have "u \<in> set (filter (left_alone X s0) (timers s0))"
      using u0 that wf0 by (auto simp: left_alone_def timers_wf_def)
    then have "u \<in> set (timers s)" using Cons.prems(1) by (metis scan_inv_def filter_is_subset subsetD)
    then show ?thesis using find_timer_self [OF wf] t by simp
  qed
  show ?case
  proof (cases "due t \<le> stamp \<and> \<not> mark2Remove t")
    case True
    let ?d = "stamp - due t"
    let ?s0 = "s\<lparr>fired := fired s @ [(tid u, ?d)]\<rparr>"
    let ?s1 = "fold do_timer_call (cb ?s0 (tid u) ?d) ?s0"
    have fo: "fire_one cb stamp (tid u) s = ?s1" using t True by (simp add: fire_one_def Let_def)
    have inv0: "scan_inv X s0 ?s0" using Cons.prems(1) by (simp add: scan_inv_def timers_wf_def)
    then have inv1: "scan_inv X s0 ?s1" using scan_inv_calls [OF inv0 X] ok by (simp add: scan_inv_def)
    from Cons.IH [OF inv1] Cons.prems(2) obtain new where new:
      "fired (fold (fire_one cb stamp) (map tid ts) ?s1) = fired ?s1 @ new"
      "scan_calls X cb stamp ts (marked ?s1) new"
      "scan_inv X s0 (fold (fire_one cb stamp) (map tid ts) ?s1)" by auto
    have m: "marked s \<subseteq> marked ?s1"
      using timer_calls_frame(2) [of ?s0 "cb ?s0 (tid u) ?d"] by (simp add: marked_def)
    have "removed_by cb (tid u) ?d \<inter> set (map tid ts) \<subseteq> marked ?s1"
    proof
      fix j assume "j \<in> removed_by cb (tid u) ?d \<inter> set (map tid ts)"
      then have j: "j \<noteq> NULL" "\<exists>st. CallRemove st j \<in> set (cb ?s0 (tid u) ?d)" "j \<in> set (map tid ts)"
        by (simp_all add: removed_by_def)
      have "set (map tid ts) \<subseteq> set (map tid (timers s0))" using Cons.prems(2) by auto
      then have "j \<in> set (map tid (timers ?s0))" using j(3) sub by auto
      then show "j \<in> marked ?s1" using j(1,2) calls_remove_mark by metis
    qed
    moreover have "tid u \<notin> marked s" using find_timer_marked [OF t] True wf by simp
    moreover have "tid u \<in> X \<or> due_now stamp u \<and> ?d = stamp - due u" using True tu by (auto simp: due_now_def)
    moreover have "scan_calls X cb stamp ts (marked s \<union> marked ?s1) new" using new(2) m by (simp add: Un_absorb1)
    ultimately have "scan_calls X cb stamp (u # ts) (marked s) ((tid u, ?d) # new)" by (intro scan_calls_fire) auto
    moreover have "fired ?s1 = fired s @ [(tid u, ?d)]" by (simp add: timer_calls_frame)
    ultimately show ?thesis using fo new by (intro exI [of _ "(tid u, ?d) # new"]) simp
  next
    case False
    then have "fire_one cb stamp (tid u) s = s" using t by (auto simp: fire_one_def)
    moreover have "due_now stamp u \<Longrightarrow> tid u \<in> X" using False tu by (auto simp: due_now_def)
    moreover have "set ts \<subseteq> set (timers s0)" using Cons.prems(2) by simp
    ultimately show ?thesis using Cons.IH [OF Cons.prems(1)] scan_calls_skip [of X cb stamp ts "marked s" _ u] by auto
  qed
qed

lemma map_filter_filter:
  assumes "\<And>t t'. f t = Some t' \<Longrightarrow> P t' = P t"
  shows "filter P (List.map_filter f ts) = List.map_filter f (filter P ts)"
proof (induction ts)
  case (Cons t ts)
  then show ?case using assms [of t] by (cases "f t") auto
qed simp

text \<open>
  (C22) \<^verbatim>\<open>TimerScan\<close> with callbacks that add, remove and modify timers while the list is being
  traversed. \<open>X\<close> are the timers of the list that they may remove or modify; they may do the same
  to a null pointer and to the timers they have added. Then no freed node is read and the list is
  kept well formed. The timers called back were in the list at the start, are called in list order,
  at most once each, never when they were marked for removal before the scan, and never after a
  callback of the same scan that removes them. Those outside \<open>X\<close> are called exactly when they are
  due, each with the time elapsed since its deadline, and are afterwards re-armed, counted down or
  freed as \<open>scan_timer\<close> says.
\<close>

theorem timer_scan_safe:
  assumes wf: "timers_wf s" and nf: "timer_fault s = None"
    and X: "X \<subseteq> set (map tid (timers s))"
    and ok: "\<And>s' i d. timers_wf s' \<Longrightarrow> calls_ok X (next_tid s) (cb s' i d) s'"
  shows "timer_fault (TimerScan cb stamp s) = None \<and> timers_wf (TimerScan cb stamp s)
    \<and> (\<exists>new. fired (TimerScan cb stamp s) = fired s @ new
        \<and> subseq (map fst new) (map tid (timers s)) \<and> set (map fst new) \<inter> marked s = {}
        \<and> (\<forall>pre i d post. new = pre @ (i, d) # post \<longrightarrow> set (map fst post) \<inter> removed_by cb i d = {})
        \<and> filter (\<lambda>(j, d). j \<notin> X) new
            = map (\<lambda>t. (tid t, stamp - due t)) (filter (\<lambda>t. due_now stamp t \<and> tid t \<notin> X) (timers s)))
    \<and> filter (left_alone X s) (timers (TimerScan cb stamp s))
        = List.map_filter (scan_timer stamp) (filter (left_alone X s) (timers s))"
proof -
  let ?s1 = "scan_fire cb stamp s"
  have inv: "scan_inv X s s" using wf nf by (simp add: scan_inv_def)
  from fire_fold [where cb = cb and stamp = stamp, OF X ok wf inv subset_refl] obtain new where new:
    "fired ?s1 = fired s @ new" "scan_calls X cb stamp (timers s) (marked s) new" "scan_inv X s ?s1"
    using scan_fire_fold [OF wf, of cb stamp] by auto
  have "fired (TimerScan cb stamp s) = fired ?s1" "timer_fault (TimerScan cb stamp s) = None"
    "timers (TimerScan cb stamp s) = List.map_filter (scan_timer stamp) (timers ?s1)"
    using new(3) by (simp_all add: TimerScan_def scan_inv_def Let_def)
  moreover have "timers_wf (TimerScan cb stamp s)"
    using TimerScan_tail_wf [of ?s1 stamp] new(3) by (simp add: TimerScan_def scan_inv_def Let_def)
  moreover have "filter (left_alone X s) (List.map_filter (scan_timer stamp) (timers ?s1))
      = List.map_filter (scan_timer stamp) (filter (left_alone X s) (timers s))"
  proof -
    have "left_alone X s t' = left_alone X s t" if "scan_timer stamp t = Some t'" for t t'
      using that by (simp add: left_alone_def scan_timer_tid)
    then show ?thesis
      using new(3) map_filter_filter [of "scan_timer stamp" "left_alone X s" "timers ?s1"]
      by (simp add: scan_inv_def)
  qed
  ultimately show ?thesis using new unfolding scan_calls_def by auto
qed

text \<open>A callback that removes timer 1, adds a timer and removes the null pointer.\<close>

definition busy_callback :: timer_callbacks where
  "busy_callback s i d = [CallRemove 2000 1, CallRepeatAfter 2000 1 0 9 0, CallRemove 2000 NULL]"

lemma two_timers_wf: "timers_wf two_timers"
  by (simp add: two_timers_def TimerRepeatAfter_def init_timers_def Let_def timers_wf_def)

lemma two_timers_list: "timers two_timers =
  [\<lparr>tid = 2, repeat = 2, period = 1000, due = 1200, callback = 7, user_data = 0, mark2Remove = False\<rparr>,
   \<lparr>tid = 1, repeat = -1, period = 1000, due = 1500, callback = 8, user_data = 0, mark2Remove = False\<rparr>]"
  "fired two_timers = []" "timer_fault two_timers = None" "next_tid two_timers = 3"
  by (simp_all add: two_timers_def TimerRepeatAfter_def init_timers_def Let_def)

theorem timer_scan_safe_witness:
  "timer_fault (TimerScan busy_callback 2000 two_timers) = None
   \<and> (2, 800) \<in> set (fired (TimerScan busy_callback 2000 two_timers))"
proof -
  have ok: "calls_ok {1} (next_tid two_timers) (busy_callback s i d) s" for s i d
    by (simp add: busy_callback_def target_ok_def)
  have X: "{1} \<subseteq> set (map tid (timers two_timers))" by (simp add: two_timers_list)
  note safe = timer_scan_safe [where cb = busy_callback and stamp = 2000, OF two_timers_wf two_timers_list(3) X ok]
  then obtain new where new: "fired (TimerScan busy_callback 2000 two_timers) = fired two_timers @ new"
    "filter (\<lambda>(j, d). j \<notin> {1}) new
       = map (\<lambda>t. (tid t, 2000 - due t)) (filter (\<lambda>t. due_now 2000 t \<and> tid t \<notin> {1}) (timers two_timers))"
    by blast
  have "filter (\<lambda>(j, d). j \<notin> {1}) new = [(2, 800)]"
    unfolding new(2) by (simp add: two_timers_list due_now_def)
  then have "(2, 800) \<in> set (filter (\<lambda>(j, d). j \<notin> {1}) new)" by simp
  then have "(2, 800) \<in> set new" by (metis filter_is_subset subsetD)
  then show ?thesis using safe new(1) by (simp add: two_timers_list(2))
qed

text \<open>
  (C23) The repeat count: with callbacks that leave the timers alone, and scans late enough for the
  timer to be due at each of them, a timer with count \<open>n > 0\<close> fires \<open>min n k\<close> times in \<open>k\<close>
  scans and is gone exactly when it has fired \<open>n\<close> times, whatever other timers there are.
\<close>

theorem timer_repeat_count:
  assumes "timers_wf s" "t \<in> set (timers s)" "repeat t = int n" "0 < n" "n < 2147483648" "\<not> mark2Remove t"
    "always_due sts t"
  shows "fire_count (tid t) (run_scans sts s) = fire_count (tid t) s + min n (length sts)
    \<and> (find_timer (tid t) (run_scans sts s) = None \<longleftrightarrow> n \<le> length sts)"
  using run_scans_life [OF assms(1,2), of sts] timer_life_count [OF assms(3-7)] by simp

definition timer_two :: timer where
  "timer_two = \<lparr>tid = 2, repeat = 2, period = 1000, due = 1200, callback = 7, user_data = 0, mark2Remove = False\<rparr>"

lemma timer_two_facts: "timer_two \<in> set (timers two_timers)" "repeat timer_two = int 2"
  "\<not> mark2Remove timer_two" "tid timer_two = 2" "always_due [1300, 2400, 5000] timer_two"
  by (simp_all add: timer_two_def two_timers_def TimerRepeatAfter_def init_timers_def Let_def)

theorem timer_repeat_count_witness:
  "find_timer 2 (run_scans [1300, 2400, 5000] two_timers) = None"
  using timer_repeat_count [OF two_timers_wf timer_two_facts(1,2) _ _ timer_two_facts(3,5)]
  by (simp add: timer_two_facts(4))

lemma timer_life_zero:
  assumes "repeat t = 0" "\<not> mark2Remove t" "always_due sts t"
  shows "fst (timer_life sts t) = length sts \<and> snd (timer_life sts t) \<noteq> None"
proof (cases sts)
  case (Cons st sts')
  let ?t = "t\<lparr>repeat := -1, due := st + period t\<rparr>"
  have d: "due_now st t" "always_due sts' ?t"
    using assms Cons always_due_cong [of ?t "t\<lparr>due := st + period t\<rparr>" sts']
    by (simp_all add: due_now_def)
  have "timer_life sts t = (Suc (fst (timer_life sts' ?t)), snd (timer_life sts' ?t))"
    using Cons d(1) assms(1) by (simp add: scan_timer_def due_now_def decr_int_def TIMER_LOOP_def Let_def)
  then show ?thesis using timer_life_loop [OF _ _ d(2)] assms Cons by (simp add: TIMER_LOOP_def)
qed simp

text \<open>
  (C40) A count of zero is not "never": the first expiry decrements it to \<open>-1\<close>, which is
  \<open>TIMER_LOOP\<close>, so the timer fires at every later scan at which it is due and never goes away.
\<close>

theorem timer_zero_count_loops:
  assumes "timers_wf s" "t \<in> set (timers s)" "repeat t = 0 \<or> repeat t = TIMER_LOOP"
    "\<not> mark2Remove t" "always_due sts t"
  shows "fire_count (tid t) (run_scans sts s) = fire_count (tid t) s + length sts
    \<and> find_timer (tid t) (run_scans sts s) \<noteq> None"
  using run_scans_life [OF assms(1,2), of sts] timer_life_zero [OF _ assms(4,5)]
    timer_life_loop [OF _ assms(4,5)] assms(3) by auto

definition zero_timer :: timer_state where
  "zero_timer = snd (TimerRepeatAfter 100 0 50 7 0 init_timers)"

theorem timer_zero_count_loops_witness:
  "fire_count 1 (run_scans [150, 200, 250] zero_timer) = 3"
proof -
  let ?t = "\<lparr>tid = 1, repeat = 0, period = 50, due = 150, callback = 7, user_data = 0, mark2Remove = False\<rparr>"
  have z: "timers_wf zero_timer" "?t \<in> set (timers zero_timer)" "fire_count 1 zero_timer = 0"
    by (simp_all add: zero_timer_def TimerRepeatAfter_def init_timers_def Let_def timers_wf_def fire_count_def)
  show ?thesis using timer_zero_count_loops [OF z(1,2), of "[150, 200, 250]"] z(3) by simp
qed

end
