(* ===== verification/Ivy_Fifo.thy ===== *)
theory Ivy_Fifo
  imports Ivy_Prelude
begin

text \<open>
  The ring buffer of \<^verbatim>\<open>src/ivyfifo.c\<close>, which holds the bytes a congested socket has not taken
  yet. A buffer is its block of memory with the offsets of the read and write pointers;
  \<open>fifo_content\<close> lifts it to the byte string it holds, and the operations are related to
  \<open>@\<close>, \<open>take\<close> and \<open>drop\<close> on that string. The two copy loops are partial functions, shown to
  return on every well-formed buffer. Allocation succeeds, except where the code tests it.
\<close>

definition IVY_FIFO_ALLOC_SIZE :: nat where
  "IVY_FIFO_ALLOC_SIZE = 262144"

definition IVY_FIFO_MAX_ALLOC_SIZE :: nat where
  "IVY_FIFO_MAX_ALLOC_SIZE = 32 * 1048576"

text \<open>\<open>buffer\<close> is the block, \<open>rptr\<close> and \<open>wptr\<close> are offsets in it, \<^verbatim>\<open>end\<close> is its length.\<close>

record IvyFifoBuffer =
  buffer :: bytes
  rptr :: nat
  wptr :: nat
  full :: bool

abbreviation fifo_end :: "IvyFifoBuffer \<Rightarrow> nat" where
  "fifo_end f \<equiv> length (buffer f)"

text \<open>A block from \<^verbatim>\<open>malloc\<close>; its initial bytes are never read.\<close>

definition malloc_block :: "nat \<Rightarrow> bytes" where
  "malloc_block n = replicate n NUL"

definition IvyFifoInit :: "bool \<Rightarrow> int \<times> IvyFifoBuffer" where
  "IvyFifoInit malloc_ok =
     (let f = \<lparr>buffer = (if malloc_ok then malloc_block IVY_FIFO_ALLOC_SIZE else []),
               rptr = 0, wptr = 0, full = False\<rparr>
      in (if \<not> malloc_ok then -1 else 0, f))"

definition IvyFifoFree :: "IvyFifoBuffer \<Rightarrow> IvyFifoBuffer" where
  "IvyFifoFree f = f\<lparr>buffer := [], rptr := 0, wptr := 0\<rparr>"

definition IvyFifoNew :: IvyFifoBuffer where
  "IvyFifoNew = snd (IvyFifoInit True)"

definition IvyFifoSize :: "IvyFifoBuffer \<Rightarrow> nat" where
  "IvyFifoSize f = u32 (int (fifo_end f))"

definition IvyFifoLength :: "IvyFifoBuffer \<Rightarrow> nat" where
  "IvyFifoLength f =
     (let sz = int (wptr f) - int (rptr f)
      in u32 (if sz < 0 then sz + int (fifo_end f) else sz))"

definition IvyFifoAvail :: "IvyFifoBuffer \<Rightarrow> nat" where
  "IvyFifoAvail f = u32 (int (IvyFifoSize f) - int (IvyFifoLength f))"

definition IvyFifoDrain :: "IvyFifoBuffer \<Rightarrow> nat \<Rightarrow> IvyFifoBuffer" where
  "IvyFifoDrain f sz =
     (let r = rptr f + sz;
          f1 = f\<lparr>rptr := (if r \<ge> fifo_end f then r - fifo_end f else r)\<rparr>
      in if sz > 0 then f1\<lparr>full := False\<rparr> else f1)"

text \<open>
  \<^verbatim>\<open>IvyFifoGenericRead\<close> with no callback, the only way it is called: \<open>out\<close> is what has been
  copied to \<^verbatim>\<open>dest\<close>.
\<close>

partial_function (option) fifo_read_loop ::
  "IvyFifoBuffer \<Rightarrow> nat \<Rightarrow> bytes \<Rightarrow> (bytes \<times> IvyFifoBuffer) option" where
  "fifo_read_loop f bytesToRead out =
     (let len = min (fifo_end f - rptr f) bytesToRead;
          out' = out @ take len (drop (rptr f) (buffer f));
          f' = IvyFifoDrain f len;
          rest = bytesToRead - len
      in if rest > 0 then fifo_read_loop f' rest out' else Some (out', f'))"

definition IvyFifoGenericRead ::
  "IvyFifoBuffer \<Rightarrow> nat \<Rightarrow> (nat \<times> bytes \<times> IvyFifoBuffer) option" where
  "IvyFifoGenericRead f buf_size =
     (let retV = min buf_size (IvyFifoLength f)
      in map_option (\<lambda>(out, f'). (retV, out, f')) (fifo_read_loop f retV []))"

definition IvyFifoRead :: "IvyFifoBuffer \<Rightarrow> nat \<Rightarrow> (nat \<times> bytes \<times> IvyFifoBuffer) option" where
  "IvyFifoRead f buf_size = IvyFifoGenericRead f buf_size"

definition aligned_size :: "nat \<Rightarrow> nat" where
  "aligned_size new_size =
     u32 (int ((new_size div IVY_FIFO_ALLOC_SIZE + 1) * IVY_FIFO_ALLOC_SIZE))"

definition IvyFifoRealloc :: "IvyFifoBuffer \<Rightarrow> nat \<Rightarrow> IvyFifoBuffer option" where
  "IvyFifoRealloc f new_size =
     (let old_size = IvyFifoSize f; alignedNewSize = aligned_size new_size
      in if alignedNewSize > IVY_FIFO_MAX_ALLOC_SIZE then Some (f\<lparr>full := True\<rparr>)
         else if old_size < alignedNewSize then
           (let len = IvyFifoLength f
            in map_option
                 (\<lambda>(n, out, f'). \<lparr>buffer = memcpy_at (malloc_block alignedNewSize) 0 out,
                                 rptr = 0, wptr = len, full = False\<rparr>)
                 (IvyFifoRead f len))
         else Some f)"

partial_function (option) fifo_write_loop ::
  "IvyFifoBuffer \<Rightarrow> bytes \<Rightarrow> IvyFifoBuffer option" where
  "fifo_write_loop f buf =
     (let len = min (fifo_end f - wptr f) (length buf);
          w = wptr f + len;
          f' = f\<lparr>buffer := memcpy_at (buffer f) (wptr f) (take len buf),
                 wptr := (if w \<ge> fifo_end f then 0 else w)\<rparr>;
          buf' = drop len buf
      in if buf' \<noteq> [] then fifo_write_loop f' buf' else Some f')"

text \<open>The \<^verbatim>\<open>size\<close> argument of the C function is the length of \<open>buf\<close>.\<close>

definition IvyFifoWrite :: "IvyFifoBuffer \<Rightarrow> bytes \<Rightarrow> IvyFifoBuffer option" where
  "IvyFifoWrite f buf =
     (case (if length buf \<ge> IvyFifoAvail f
            then IvyFifoRealloc f (u32 (int (length buf) + int (IvyFifoLength f)))
            else Some f) of
        None \<Rightarrow> None
      | Some f1 \<Rightarrow> if full f1 then Some f1 else fifo_write_loop f1 buf)"

definition IvyFifoIsFull :: "IvyFifoBuffer \<Rightarrow> bool" where
  "IvyFifoIsFull f = full f"

subsection \<open>The kernel's \<^verbatim>\<open>send\<close>\<close>

text \<open>
  What \<^verbatim>\<open>send\<close> will answer is not in the program: it is a script of answers, consumed one per
  call. The kernel never takes more bytes than it is offered, and when the script is used up
  the socket is full (\<^verbatim>\<open>EWOULDBLOCK\<close>, the same value as \<^verbatim>\<open>EAGAIN\<close> on the platforms supported).
\<close>

datatype errno = EINTR | EWOULDBLOCK | EOTHER
datatype send_result = Accept nat | SendFail errno
type_synonym send_script = "send_result list"

fun os_send :: "send_script \<Rightarrow> nat \<Rightarrow> send_result \<times> send_script" where
  "os_send [] n = (SendFail EWOULDBLOCK, [])"
| "os_send (Accept k # rs) n = (Accept (min k n), rs)"
| "os_send (SendFail e # rs) n = (SendFail e, rs)"

lemma os_send_less:
  "os_send rs n = (Accept k, rs') \<Longrightarrow> length rs' < length rs"
  "os_send rs n = (SendFail EINTR, rs') \<Longrightarrow> length rs' < length rs"
  by (cases "(rs, n)" rule: os_send.cases; simp)+

lemma os_send_le: "os_send rs n = (Accept k, rs') \<Longrightarrow> k \<le> n"
  by (cases "(rs, n)" rule: os_send.cases) auto

definition IVY_FIFO_SEND_ERROR :: nat where
  "IVY_FIFO_SEND_ERROR = 4294967295"

text \<open>The result, the bytes the kernel took, the buffer and the rest of the script.\<close>

function IvyFifoSendSocket ::
  "IvyFifoBuffer \<Rightarrow> send_script \<Rightarrow> bytes \<Rightarrow> nat \<times> bytes \<times> IvyFifoBuffer \<times> send_script" where
  "IvyFifoSendSocket f rs out =
     (if IvyFifoLength f > 0 then
        (let maxLen = min (u32 (int (fifo_end f - rptr f))) (IvyFifoLength f)
         in case os_send rs maxLen of
              (SendFail EINTR, rs') \<Rightarrow> IvyFifoSendSocket f rs' out
            | (SendFail EWOULDBLOCK, rs') \<Rightarrow> (IvyFifoLength f, out, f, rs')
            | (SendFail EOTHER, rs') \<Rightarrow> (IVY_FIFO_SEND_ERROR, out, f, rs')
            | (Accept realLen, rs') \<Rightarrow>
                if realLen = 0 then (IVY_FIFO_SEND_ERROR, out, f, rs')
                else (let out' = out @ take realLen (drop (rptr f) (buffer f));
                          f' = IvyFifoDrain f realLen
                      in if realLen < maxLen then (IvyFifoLength f', out', f', rs')
                         else IvyFifoSendSocket f' rs' out'))
      else (IvyFifoLength f, out, f, rs))"
  by pat_completeness auto
termination
  by (relation "measure (\<lambda>(f, rs, out). length rs)") (auto dest: os_send_less sym)

declare IvyFifoSendSocket.simps [simp del]

subsection \<open>Well-formed buffers and what they hold\<close>

definition fifo_wf :: "IvyFifoBuffer \<Rightarrow> bool" where
  "fifo_wf f \<longleftrightarrow> rptr f < fifo_end f \<and> wptr f < fifo_end f
     \<and> fifo_end f \<le> IVY_FIFO_MAX_ALLOC_SIZE"

definition fifo_content :: "IvyFifoBuffer \<Rightarrow> bytes" where
  "fifo_content f =
     (if rptr f \<le> wptr f then take (wptr f - rptr f) (drop (rptr f) (buffer f))
      else drop (rptr f) (buffer f) @ take (wptr f) (buffer f))"

lemma fifo_end_bound: "fifo_wf f \<Longrightarrow> fifo_end f < 4294967296"
  by (simp add: fifo_wf_def IVY_FIFO_MAX_ALLOC_SIZE_def)

lemma IvyFifoSize_eq [simp]: "fifo_wf f \<Longrightarrow> IvyFifoSize f = fifo_end f"
  by (simp add: IvyFifoSize_def fifo_end_bound)

lemma length_fifo_content: "fifo_wf f \<Longrightarrow> length (fifo_content f) < fifo_end f"
  by (auto simp: fifo_content_def fifo_wf_def)

lemma IvyFifoLength_eq [simp]:
  assumes "fifo_wf f"
  shows "IvyFifoLength f = length (fifo_content f)"
proof -
  have "fifo_end f < 4294967296" using assms by (rule fifo_end_bound)
  then show ?thesis using assms
    by (auto simp: IvyFifoLength_def fifo_content_def fifo_wf_def u32_id Let_def)
qed

lemma IvyFifoAvail_eq [simp]:
  assumes "fifo_wf f"
  shows "IvyFifoAvail f = fifo_end f - length (fifo_content f)"
  using assms length_fifo_content [OF assms] fifo_end_bound [OF assms]
  by (simp add: IvyFifoAvail_def u32_id)

lemma aligned_size_eq:
  assumes "n < 4294705152"
  shows "aligned_size n = (n div 262144 + 1) * 262144" "n < aligned_size n"
proof -
  have "n div 262144 < 16383" using assms by (intro less_mult_imp_div_less) simp
  then have "(n div 262144 + 1) * 262144 < 4294967296" by simp
  then show *: "aligned_size n = (n div 262144 + 1) * 262144"
    unfolding aligned_size_def IVY_FIFO_ALLOC_SIZE_def by (rule u32_nat)
  have "n = n div 262144 * 262144 + n mod 262144" by simp
  moreover have "n mod 262144 < 262144" by simp
  ultimately show "n < aligned_size n" unfolding * by (simp only: add_mult_distrib mult_1)
qed

lemma fifo_wf_New [simp]: "fifo_wf IvyFifoNew" and fifo_content_New [simp]: "fifo_content IvyFifoNew = []"
  and full_New [simp]: "\<not> full IvyFifoNew"
  by (simp_all add: IvyFifoNew_def IvyFifoInit_def fifo_wf_def fifo_content_def malloc_block_def
      IVY_FIFO_ALLOC_SIZE_def IVY_FIFO_MAX_ALLOC_SIZE_def)

subsection \<open>Draining\<close>

lemma IvyFifoDrain_wf:
  assumes "fifo_wf f" "n \<le> length (fifo_content f)"
  shows "fifo_wf (IvyFifoDrain f n)"
  using assms length_fifo_content [OF assms(1)]
  by (auto simp: IvyFifoDrain_def fifo_wf_def Let_def)

lemma IvyFifoDrain_content:
  assumes "fifo_wf f" "n \<le> length (fifo_content f)"
  shows "fifo_content (IvyFifoDrain f n) = drop n (fifo_content f)"
  using assms
  by (auto simp: IvyFifoDrain_def fifo_wf_def fifo_content_def Let_def add.commute take_drop
      not_le split: if_splits)

lemma IvyFifoDrain_buffer [simp]: "buffer (IvyFifoDrain f n) = buffer f"
  by (simp add: IvyFifoDrain_def Let_def)

text \<open>The run of bytes from the read pointer to the end of the block or of the content.\<close>

lemma fifo_front:
  assumes "fifo_wf f" "n \<le> fifo_end f - rptr f" "n \<le> length (fifo_content f)"
  shows "take n (drop (rptr f) (buffer f)) = take n (fifo_content f)"
  using assms by (auto simp: fifo_content_def fifo_wf_def)

subsection \<open>Reading\<close>

lemma fifo_read_loop_eq:
  assumes "fifo_wf f" "n \<le> length (fifo_content f)"
  shows "\<exists>f'. fifo_read_loop f n out = Some (out @ take n (fifo_content f), f')
           \<and> fifo_wf f' \<and> fifo_content f' = drop n (fifo_content f)
           \<and> full f' = (full f \<and> n = 0)"
  using assms
proof (induction n arbitrary: f out rule: less_induct)
  case (less n)
  let ?len = "min (fifo_end f - rptr f) n"
  let ?f = "IvyFifoDrain f ?len"
  have le: "?len \<le> length (fifo_content f)" using less.prems by simp
  note d = IvyFifoDrain_wf [OF less.prems(1) le] IvyFifoDrain_content [OF less.prems(1) le]
  have front: "take ?len (drop (rptr f) (buffer f)) = take ?len (fifo_content f)"
    using fifo_front [OF less.prems(1) _ le] by simp
  have pos: "0 < fifo_end f - rptr f" using less.prems(1) by (simp add: fifo_wf_def)
  have fl: "full ?f = (full f \<and> n = 0)" using pos by (auto simp: IvyFifoDrain_def Let_def)
  show ?case
  proof (cases "n - ?len > 0")
    case True
    then have "n - ?len < n" using pos by (metis diff_less min_def not_gr_zero zero_diff)
    moreover have "n - ?len \<le> length (fifo_content ?f)" using d(2) less.prems(2) by simp
    ultimately obtain f' where "fifo_read_loop ?f (n - ?len) (out @ take ?len (fifo_content f))
        = Some ((out @ take ?len (fifo_content f)) @ take (n - ?len) (fifo_content ?f), f')"
      "fifo_wf f'" "fifo_content f' = drop (n - ?len) (fifo_content ?f)"
      "full f' = (full ?f \<and> n - ?len = 0)"
      using less.IH [of "n - ?len" ?f "out @ take ?len (fifo_content f)"] d(1) by blast
    moreover have "take ?len (fifo_content f) @ take (n - ?len) (fifo_content ?f) = take n (fifo_content f)"
      unfolding d(2) by (metis le_add_diff_inverse min.cobounded2 take_add)
    ultimately show ?thesis using True d(2) front fl
      by (subst fifo_read_loop.simps) (auto simp: Let_def)
  next
    case False
    then have "?len = n" by simp
    then show ?thesis using d front fl
      by (subst fifo_read_loop.simps) (auto simp: Let_def)
  qed
qed

lemma IvyFifoRead_eq:
  assumes "fifo_wf f"
  shows "\<exists>f'. IvyFifoRead f n
             = Some (min n (length (fifo_content f)), take n (fifo_content f), f')
           \<and> fifo_wf f' \<and> fifo_content f' = drop n (fifo_content f)"
proof -
  let ?m = "min n (length (fifo_content f))"
  have "?m \<le> length (fifo_content f)" by simp
  from fifo_read_loop_eq [OF assms this, of "[]"] obtain f' where
    "fifo_read_loop f ?m [] = Some (take ?m (fifo_content f), f')" "fifo_wf f'"
    "fifo_content f' = drop ?m (fifo_content f)" by auto
  moreover have "take ?m (fifo_content f) = take n (fifo_content f)"
    "drop ?m (fifo_content f) = drop n (fifo_content f)"
    by (auto simp: min_def)
  ultimately show ?thesis using assms
    by (simp add: IvyFifoRead_def IvyFifoGenericRead_def Let_def)
qed

subsection \<open>Writing\<close>

lemma fifo_write_loop_eq:
  assumes "fifo_wf f" "length buf < fifo_end f - length (fifo_content f)"
  shows "\<exists>f'. fifo_write_loop f buf = Some f' \<and> fifo_wf f' \<and> full f' = full f
           \<and> fifo_content f' = fifo_content f @ buf \<and> fifo_end f' = fifo_end f"
proof -
  let ?n = "fifo_end f" and ?w = "wptr f" and ?k = "length buf"
  have w: "?w < ?n" "rptr f < ?n" using assms(1) by (auto simp: fifo_wf_def)
  show ?thesis
  proof (cases "?k \<le> ?n - ?w")
    case True
    define f' where "f' = f\<lparr>buffer := memcpy_at (buffer f) ?w buf,
      wptr := (if ?w + ?k \<ge> ?n then 0 else ?w + ?k)\<rparr>"
    have "fifo_write_loop f buf = Some f'"
      using True by (subst fifo_write_loop.simps) (simp add: Let_def f'_def min_absorb2)
    moreover have "fifo_wf f'" using assms(1) w True by (auto simp: f'_def fifo_wf_def)
    moreover have "fifo_content f' = fifo_content f @ buf"
      using assms w True
      by (auto simp: f'_def fifo_content_def memcpy_at_def take_drop split: if_splits)
    moreover have "fifo_end f' = ?n" using True w by (simp add: f'_def)
    ultimately show ?thesis by (auto simp: f'_def)
  next
    case False
    define k1 where "k1 = ?n - ?w"
    define f1 where "f1 = f\<lparr>buffer := memcpy_at (buffer f) ?w (take k1 buf), wptr := 0\<rparr>"
    define f2 where "f2 = f1\<lparr>buffer := memcpy_at (buffer f1) 0 (drop k1 buf), wptr := ?k - k1\<rparr>"
    have k1: "k1 < ?k" "?w + k1 = ?n" using False w by (auto simp: k1_def)
    have fits: "rptr f \<le> ?w" "?k - k1 < rptr f"
      using assms(2) k1 w by (auto simp: fifo_content_def split: if_splits)
    have end1: "fifo_end f1 = ?n" using k1 w by (simp add: f1_def)
    have "fifo_write_loop f1 (drop k1 buf) = Some f2"
      using fits w k1 end1 by (subst fifo_write_loop.simps) (simp add: Let_def f2_def f1_def)
    then have "fifo_write_loop f buf = Some f2"
      using k1 w by (subst fifo_write_loop.simps) (simp add: Let_def f1_def k1_def)
    moreover have "fifo_wf f2"
      using assms(1) fits w end1 k1 by (auto simp: f2_def f1_def fifo_wf_def)
    moreover have "fifo_content f2 = fifo_content f @ buf"
      using fits w k1 by (simp add: f2_def f1_def fifo_content_def memcpy_at_def take_drop)
    moreover have "fifo_end f2 = ?n" using fits w end1 k1 by (simp add: f2_def)
    ultimately show ?thesis by (auto simp: f1_def f2_def)
  qed
qed

text \<open>
  When the request is too large for the block, a block that can hold it is taken if one of
  at most \<^verbatim>\<open>IVY_FIFO_MAX_ALLOC_SIZE\<close> bytes can.
\<close>

lemma IvyFifoRealloc_grow:
  assumes "fifo_wf f" "aligned_size n \<le> IVY_FIFO_MAX_ALLOC_SIZE" "fifo_end f \<le> n" "n < 4294705152"
  shows "\<exists>f'. IvyFifoRealloc f n = Some f' \<and> fifo_wf f' \<and> \<not> full f'
           \<and> fifo_content f' = fifo_content f \<and> fifo_end f' = aligned_size n"
proof -
  have big: "fifo_end f < aligned_size n" using assms aligned_size_eq(2) [of n] by simp
  have len: "length (fifo_content f) < aligned_size n"
    using big length_fifo_content [OF assms(1)] by simp
  from IvyFifoRead_eq [OF assms(1), of "length (fifo_content f)"] obtain f0 where
    r: "IvyFifoRead f (length (fifo_content f)) = Some (length (fifo_content f), fifo_content f, f0)"
    by auto
  define f' where "f' = \<lparr>buffer = memcpy_at (malloc_block (aligned_size n)) 0 (fifo_content f),
    rptr = 0, wptr = length (fifo_content f), full = False\<rparr>"
  have "length (memcpy_at (malloc_block (aligned_size n)) 0 (fifo_content f)) = aligned_size n"
    using len by (simp add: malloc_block_def)
  moreover have "IvyFifoRealloc f n = Some f'"
    using assms big r by (simp add: IvyFifoRealloc_def Let_def f'_def)
  ultimately show ?thesis using assms len
    by (intro exI [of _ f']) (simp add: f'_def fifo_wf_def fifo_content_def memcpy_at_def)
qed

lemma IvyFifoRealloc_refuse:
  "aligned_size n > IVY_FIFO_MAX_ALLOC_SIZE \<Longrightarrow> IvyFifoRealloc f n = Some (f\<lparr>full := True\<rparr>)"
  by (simp add: IvyFifoRealloc_def)

text \<open>
  The contract: the whole string is appended when it fits in the block (and the buffer is not
  marked full) or in the block it is moved to; otherwise nothing of it is kept and the buffer
  is marked full.
\<close>

definition fifo_accepts :: "IvyFifoBuffer \<Rightarrow> nat \<Rightarrow> bool" where
  "fifo_accepts f n =
     (if n < fifo_end f - length (fifo_content f) then \<not> full f
      else aligned_size (n + length (fifo_content f)) \<le> IVY_FIFO_MAX_ALLOC_SIZE)"

lemma fifo_content_full [simp]: "fifo_content (f\<lparr>full := b\<rparr>) = fifo_content f"
  and fifo_wf_full [simp]: "fifo_wf (f\<lparr>full := b\<rparr>) = fifo_wf f"
  by (simp_all add: fifo_content_def fifo_wf_def)

lemma IvyFifoWrite_eq:
  assumes wf: "fifo_wf f" and n: "length buf < 2147483648"
  shows "\<exists>f'. IvyFifoWrite f buf = Some f' \<and> fifo_wf f' \<and> full f' = (\<not> fifo_accepts f (length buf))
           \<and> fifo_content f' = (if fifo_accepts f (length buf) then fifo_content f @ buf else fifo_content f)"
proof (cases "length buf < fifo_end f - length (fifo_content f)")
  case True
  then show ?thesis
    using wf fifo_write_loop_eq [OF wf True]
    by (cases "full f") (auto simp: IvyFifoWrite_def fifo_accepts_def)
next
  case False
  let ?m = "length buf + length (fifo_content f)"
  have "length (fifo_content f) < 33554432"
    using wf length_fifo_content [OF wf] by (simp add: fifo_wf_def IVY_FIFO_MAX_ALLOC_SIZE_def)
  with n have m: "?m < 4294705152" by simp
  then have um: "u32 (int (length buf) + int (length (fifo_content f))) = ?m"
    by (simp add: u32_id)
  show ?thesis
  proof (cases "aligned_size ?m \<le> IVY_FIFO_MAX_ALLOC_SIZE")
    case le: True
    have "fifo_end f \<le> ?m" using False length_fifo_content [OF wf] by simp
    from IvyFifoRealloc_grow [OF wf le this m] obtain f1 where
      f1: "IvyFifoRealloc f ?m = Some f1" "fifo_wf f1" "\<not> full f1"
        "fifo_content f1 = fifo_content f" "fifo_end f1 = aligned_size ?m" by blast
    have "length buf < fifo_end f1 - length (fifo_content f1)"
      using f1 aligned_size_eq(2) [OF m] by simp
    from fifo_write_loop_eq [OF f1(2) this] show ?thesis
      using wf False le f1 um by (auto simp: IvyFifoWrite_def fifo_accepts_def)
  next
    case gt: False
    then show ?thesis
      using wf False um by (simp add: IvyFifoWrite_def fifo_accepts_def IvyFifoRealloc_refuse)
  qed
qed

subsection \<open>Flushing to a socket\<close>

text \<open>
  Whatever the kernel answers, the bytes taken and the bytes left make up the content: none is
  lost, repeated or reordered. The result is the number of bytes left, or the error value.
\<close>

lemma IvyFifoSendSocket_eq:
  assumes "fifo_wf f" "IvyFifoSendSocket f rs out = (res, out', f', rs')"
  shows "fifo_wf f' \<and> (\<exists>sent. out' = out @ sent \<and> sent @ fifo_content f' = fifo_content f)
     \<and> (res = IVY_FIFO_SEND_ERROR \<or> res = length (fifo_content f'))
     \<and> length rs' \<le> length rs"
  using assms
proof (induction f rs out arbitrary: res out' f' rs' rule: IvyFifoSendSocket.induct)
  case (1 f rs out)
  let ?L = "length (fifo_content f)"
  let ?max = "min (u32 (int (fifo_end f - rptr f))) ?L"
  have L: "IvyFifoLength f = ?L" using "1.prems"(1) by simp
  have u: "u32 (int (fifo_end f - rptr f)) = fifo_end f - rptr f"
    using fifo_end_bound [OF "1.prems"(1)] by simp
  note eq = "1.prems"(2) [unfolded IvyFifoSendSocket.simps [of f rs out] L]
  show ?case
  proof (cases "?L > 0")
    case False
    then show ?thesis using eq "1.prems"(1) by auto
  next
    case pos: True
    obtain a rs1 where o: "os_send rs ?max = (a, rs1)" by force
    have rs1: "length rs1 \<le> length rs" using o by (cases "(rs, ?max)" rule: os_send.cases) auto
    show ?thesis
    proof (cases a)
      case (SendFail e)
      show ?thesis
      proof (cases e)
        case EINTR
        have run: "IvyFifoSendSocket f rs1 out = (res, out', f', rs')"
          using eq pos o SendFail EINTR by simp
        have "fifo_wf f' \<and> (\<exists>sent. out' = out @ sent \<and> sent @ fifo_content f' = fifo_content f)
          \<and> (res = IVY_FIFO_SEND_ERROR \<or> res = length (fifo_content f')) \<and> length rs' \<le> length rs1"
          using "1.IH"(2) [OF _ refl _ SendFail EINTR "1.prems"(1) run] pos o L SendFail EINTR by simp
        then show ?thesis using rs1 by auto
      qed (use eq pos o SendFail "1.prems"(1) rs1 in auto)
    next
      case (Accept k)
      have k: "k \<le> fifo_end f - rptr f" "k \<le> ?L"
        using os_send_le o Accept u by fastforce+
      note d = IvyFifoDrain_wf [OF "1.prems"(1) k(2)] IvyFifoDrain_content [OF "1.prems"(1) k(2)]
      have front: "take k (drop (rptr f) (buffer f)) = take k (fifo_content f)"
        by (rule fifo_front [OF "1.prems"(1) k])
      show ?thesis
      proof (cases "k = 0 \<or> k < ?max")
        case True
        then show ?thesis using eq pos o Accept "1.prems"(1) rs1 d front
          by (auto simp: Let_def split: if_splits)
      next
        case False
        then have run: "IvyFifoSendSocket (IvyFifoDrain f k) rs1 (out @ take k (fifo_content f))
            = (res, out', f', rs')"
          using eq pos o Accept front by (auto simp: Let_def split: if_splits)
        have "fifo_wf f' \<and> (\<exists>sent. out' = (out @ take k (fifo_content f)) @ sent
            \<and> sent @ fifo_content f' = fifo_content (IvyFifoDrain f k))
          \<and> (res = IVY_FIFO_SEND_ERROR \<or> res = length (fifo_content f')) \<and> length rs' \<le> length rs1"
          using "1.IH"(1) [OF _ refl _ Accept _ refl refl _ d(1)] run pos o L Accept False front
          by (simp add: Let_def)
        then obtain sent where "out' = out @ (take k (fifo_content f) @ sent)"
          "(take k (fifo_content f) @ sent) @ fifo_content f' = fifo_content f"
          using d(2) by auto
        then show ?thesis
          using \<open>fifo_wf f' \<and> _\<close> rs1 by auto
      qed
    qed
  qed
qed

subsection \<open>The interface the socket layer uses\<close>

text \<open>
  A congested socket only appends strings to its buffer and flushes it when the kernel says it
  can. \<open>'e\<close> is what the environment decides during a flush.
\<close>

datatype 'e queue_op = Put bytes | Flush 'e

text \<open>A run of such operations: the bytes that left, and the final buffer.\<close>

fun queue_run :: "('q \<Rightarrow> bytes \<Rightarrow> 'q option) \<Rightarrow> ('q \<Rightarrow> 'e \<Rightarrow> bytes \<times> 'q) \<Rightarrow> 'q
    \<Rightarrow> 'e queue_op list \<Rightarrow> (bytes \<times> 'q) option" where
  "queue_run enq flush q [] = Some ([], q)"
| "queue_run enq flush q (Put b # ops) =
     (case enq q b of None \<Rightarrow> None | Some q' \<Rightarrow> queue_run enq flush q' ops)"
| "queue_run enq flush q (Flush e # ops) =
     (case flush q e of (out, q') \<Rightarrow>
        map_option (\<lambda>(out', q''). (out @ out', q'')) (queue_run enq flush q' ops))"

text \<open>The strings the buffer has accepted along the run.\<close>

fun queue_accepted :: "('q \<Rightarrow> nat \<Rightarrow> bool) \<Rightarrow> ('q \<Rightarrow> bytes \<Rightarrow> 'q option)
    \<Rightarrow> ('q \<Rightarrow> 'e \<Rightarrow> bytes \<times> 'q) \<Rightarrow> 'q \<Rightarrow> 'e queue_op list \<Rightarrow> bytes list" where
  "queue_accepted accepts enq flush q [] = []"
| "queue_accepted accepts enq flush q (Put b # ops) =
     (case enq q b of None \<Rightarrow> [] | Some q' \<Rightarrow>
        (if accepts q (length b) then [b] else []) @ queue_accepted accepts enq flush q' ops)"
| "queue_accepted accepts enq flush q (Flush e # ops) =
     queue_accepted accepts enq flush (snd (flush q e)) ops"

definition small_op :: "'e queue_op \<Rightarrow> bool" where
  "small_op op \<longleftrightarrow> (case op of Put b \<Rightarrow> length b < 2147483648 | Flush e \<Rightarrow> True)"

locale byte_queue =
  fixes inv :: "'q \<Rightarrow> bool"
    and content :: "'q \<Rightarrow> bytes"
    and accepts :: "'q \<Rightarrow> nat \<Rightarrow> bool"
    and enq :: "'q \<Rightarrow> bytes \<Rightarrow> 'q option"
    and flush :: "'q \<Rightarrow> 'e \<Rightarrow> bytes \<times> 'q"
  assumes enq_law: "inv q \<Longrightarrow> length b < 2147483648 \<Longrightarrow>
      \<exists>q'. enq q b = Some q' \<and> inv q'
         \<and> content q' = (if accepts q (length b) then content q @ b else content q)"
    and flush_law: "inv q \<Longrightarrow> flush q e = (out, q') \<Longrightarrow> inv q' \<and> out @ content q' = content q"
begin

text \<open>Every run returns, and what left plus what remains is what was there plus what was accepted.\<close>

lemma run_stream:
  assumes "inv q" "\<forall>op \<in> set ops. small_op op"
  shows "\<exists>out q'. queue_run enq flush q ops = Some (out, q') \<and> inv q'
           \<and> out @ content q' = content q @ concat (queue_accepted accepts enq flush q ops)"
  using assms
proof (induction ops arbitrary: q)
  case Nil
  then show ?case by simp
next
  case (Cons op ops)
  show ?case
  proof (cases op)
    case (Put b)
    have "length b < 2147483648" using Cons.prems(2) Put by (simp add: small_op_def)
    from enq_law [OF Cons.prems(1) this] obtain q1 where
      q1: "enq q b = Some q1" "inv q1"
        "content q1 = (if accepts q (length b) then content q @ b else content q)" by blast
    from Cons.IH [OF q1(2)] Cons.prems(2) show ?thesis using Put q1 by auto
  next
    case (Flush e)
    obtain out q1 where f: "flush q e = (out, q1)" by force
    note q1 = flush_law [OF Cons.prems(1) f]
    from Cons.IH [of q1] q1 Cons.prems(2) obtain out' q' where
      "queue_run enq flush q1 ops = Some (out', q')" "inv q'"
      "out' @ content q' = content q1 @ concat (queue_accepted accepts enq flush q1 ops)"
      by auto
    moreover from this(3) q1 have "(out @ out') @ content q'
        = content q @ concat (queue_accepted accepts enq flush q1 ops)"
      by (metis append_assoc)
    ultimately show ?thesis using Flush f q1 by simp
  qed
qed

text \<open>Only flushing shrinks the content: a run of writes delivers nothing early.\<close>

lemma run_writes:
  assumes "inv q" "\<forall>b \<in> set bs. length b < 2147483648"
  shows "\<exists>q'. queue_run enq flush q (map Put bs) = Some ([], q') \<and> inv q'
           \<and> content q' = content q @ concat (queue_accepted accepts enq flush q (map Put bs))"
  using assms
proof (induction bs arbitrary: q)
  case (Cons b bs)
  from enq_law [OF Cons.prems(1), of b] Cons.prems(2) obtain q1 where
    q1: "enq q b = Some q1" "inv q1"
      "content q1 = (if accepts q (length b) then content q @ b else content q)" by auto
  from Cons.IH [OF q1(2)] Cons.prems(2) show ?case using q1 by auto
qed simp

end

definition fifo_flush :: "IvyFifoBuffer \<Rightarrow> send_script \<Rightarrow> bytes \<times> IvyFifoBuffer" where
  "fifo_flush f rs = (case IvyFifoSendSocket f rs [] of (res, out, f', rs') \<Rightarrow> (out, f'))"

interpretation fifo: byte_queue fifo_wf fifo_content fifo_accepts IvyFifoWrite fifo_flush
proof
  fix f :: IvyFifoBuffer and b :: bytes
  assume "fifo_wf f" "length b < 2147483648"
  then show "\<exists>f'. IvyFifoWrite f b = Some f' \<and> fifo_wf f'
      \<and> fifo_content f' = (if fifo_accepts f (length b) then fifo_content f @ b else fifo_content f)"
    using IvyFifoWrite_eq by blast
next
  fix f f' :: IvyFifoBuffer and e :: send_script and out :: bytes
  assume "fifo_wf f" "fifo_flush f e = (out, f')"
  then show "fifo_wf f' \<and> out @ fifo_content f' = fifo_content f"
    using IvyFifoSendSocket_eq [of f e "[]"]
    by (auto simp: fifo_flush_def split: prod.splits)
qed

subsection \<open>Properties\<close>


definition fifo_wrapped :: IvyFifoBuffer where
  "fifo_wrapped = \<lparr>buffer = ''cd------ab'', rptr = 8, wptr = 2, full = False\<rparr>"

lemma fifo_wrapped_facts:
  "fifo_wf fifo_wrapped" "fifo_content fifo_wrapped = ''abcd''" "fifo_accepts fifo_wrapped 2"
  by (simp_all add: fifo_wrapped_def fifo_wf_def fifo_accepts_def fifo_content_def
      IVY_FIFO_MAX_ALLOC_SIZE_def)


text \<open>
  Reading removes exactly the first bytes of the content, as many as asked for or as many
  as there are, across the end of the block, and reports their number.
\<close>

theorem fifo_read_contract:
  assumes "fifo_wf f"
  shows "\<exists>f'. IvyFifoRead f n
             = Some (min n (length (fifo_content f)), take n (fifo_content f), f')
           \<and> fifo_wf f' \<and> fifo_content f' = drop n (fifo_content f)"
  using assms by (rule IvyFifoRead_eq)

theorem fifo_read_contract_witness:
  "\<exists>f'. IvyFifoRead fifo_wrapped 3 = Some (3, ''abc'', f') \<and> fifo_content f' = ''d''"
  using fifo_read_contract [OF fifo_wrapped_facts(1), of 3] fifo_wrapped_facts(2) by auto

text \<open>
  (C14) Over any sequence of writes and flushes, whatever the kernel answers to each \<^verbatim>\<open>send\<close>, the
  bytes that left the buffer followed by the bytes still in it are the initial content followed
  by the accepted strings, in the order they were written.
\<close>

theorem fifo_stream:
  assumes "fifo_wf f" "\<forall>op \<in> set ops. small_op op"
  shows "\<exists>out f'. queue_run IvyFifoWrite fifo_flush f ops = Some (out, f') \<and> fifo_wf f'
           \<and> out @ fifo_content f'
             = fifo_content f @ concat (queue_accepted fifo_accepts IvyFifoWrite fifo_flush f ops)"
  using assms by (rule fifo.run_stream)

theorem fifo_stream_witness:
  "\<exists>out f'. queue_run IvyFifoWrite fifo_flush fifo_wrapped
       [Put ''ef'', Flush [Accept 1, SendFail EINTR, Accept 2, Accept 9], Put ''g''] = Some (out, f')
     \<and> fifo_wf f'"
proof -
  let ?ops = "[Put ''ef'', Flush [Accept 1, SendFail EINTR, Accept 2, Accept 9], Put ''g'']"
  have "\<forall>op \<in> set ?ops. small_op op" by (simp add: small_op_def)
  from fifo_stream [OF fifo_wrapped_facts(1) this] show ?thesis by blast
qed

end
