(* ===== verification/Ivy_Buffer.thy ===== *)
theory Ivy_Buffer
  imports Ivy_Prelude
begin

text \<open>
  The growing message buffer of \<^verbatim>\<open>src/ivybuffer.c\<close>. The format and its arguments are seen
  through the string they produce, \<open>out\<close>; \<^verbatim>\<open>vsnprintf\<close> writes as much of it as fits with a
  final NUL, and returns its whole length (C99) or \<open>-1\<close> when it does not fit (the older
  convention the code also supports, \<open>legacy\<close>). Allocation is a parameter that may refuse.
  \<open>make_message_int\<close> is the function with its 32-bit \<^verbatim>\<open>int\<close>s: a size that does not fit in one
  is a signed overflow, after which nothing is known (\<open>None\<close>). \<open>make_message\<close> is the same without
  the overflow check, equal to it for texts shorter than \<^verbatim>\<open>INT_MAX\<close> (\<open>make_message_int_eq\<close>); the
  other theories use it, so what they say of texts of two gigabytes and more is not covered.
\<close>

definition IVY_BUFFER_SIZE :: int where
  "IVY_BUFFER_SIZE = 4096"

text \<open>\<open>bdata\<close> is \<open>None\<close> for a null pointer, else the block.\<close>

record IvyBuffer =
  bdata :: "bytes option"
  bsize :: int
  boffset :: int

definition vsnprintf :: "bool \<Rightarrow> bytes \<Rightarrow> nat \<Rightarrow> int \<Rightarrow> string \<Rightarrow> bytes \<times> int" where
  "vsnprintf legacy block off avail out =
     (if avail \<le> 0 then block
      else memcpy_at block off (take (nat avail - 1) out @ [NUL]),
      if legacy \<and> avail \<le> int (length out) then -1 else int (length out))"

definition realloc_block :: "bytes \<Rightarrow> nat \<Rightarrow> bytes" where
  "realloc_block block n = take n block @ replicate (n - length block) NUL"

partial_function (option) make_message_loop ::
  "bool \<Rightarrow> (int \<Rightarrow> bool) \<Rightarrow> IvyBuffer \<Rightarrow> bytes \<Rightarrow> string \<Rightarrow> (int \<times> IvyBuffer) option" where
  "make_message_loop legacy alloc b block out =
     (let (block', n) = vsnprintf legacy block (nat (boffset b)) (bsize b - boffset b) out
      in if n > -1 \<and> n < bsize b - boffset b
         then Some (n, b\<lparr>bdata := Some block', boffset := boffset b + n\<rparr>)
         else (let sz = (if n > -1 then boffset b + n + 1 else bsize b * 2)
               in if \<not> alloc sz then Some (-1, b\<lparr>bsize := sz, bdata := None\<rparr>)
                  else make_message_loop legacy alloc (b\<lparr>bsize := sz\<rparr>)
                         (realloc_block block' (nat sz)) out))"

definition make_message ::
  "bool \<Rightarrow> (int \<Rightarrow> bool) \<Rightarrow> IvyBuffer \<Rightarrow> string \<Rightarrow> (int \<times> IvyBuffer) option" where
  "make_message legacy alloc b out =
     (if bsize b = 0 \<or> bdata b = None then
        (let b1 = b\<lparr>bsize := IVY_BUFFER_SIZE, boffset := 0\<rparr>
         in if \<not> alloc IVY_BUFFER_SIZE then Some (-1, b1\<lparr>bdata := None\<rparr>)
            else make_message_loop legacy alloc b1 (replicate (nat IVY_BUFFER_SIZE) NUL) out)
      else make_message_loop legacy alloc b (the (bdata b)) out)"

definition make_message_var ::
  "bool \<Rightarrow> (int \<Rightarrow> bool) \<Rightarrow> IvyBuffer \<Rightarrow> string \<Rightarrow> (int \<times> IvyBuffer) option" where
  "make_message_var legacy alloc b out = make_message legacy alloc b out"

text \<open>
  The same with the widths of C. \<^verbatim>\<open>vsnprintf\<close> cannot return a length above \<^verbatim>\<open>INT_MAX\<close>: it then
  fails with \<^verbatim>\<open>EOVERFLOW\<close>, as when the text does not fit under the older convention.
\<close>

definition C_INT_MAX :: int where
  "C_INT_MAX = 2147483647"

definition vsnprintf_int :: "bool \<Rightarrow> bytes \<Rightarrow> nat \<Rightarrow> int \<Rightarrow> string \<Rightarrow> bytes \<times> int" where
  "vsnprintf_int legacy block off avail out =
     (let (block', n) = vsnprintf legacy block off avail out
      in (block', if n \<le> C_INT_MAX then n else -1))"

partial_function (option) make_message_int_loop ::
  "bool \<Rightarrow> (int \<Rightarrow> bool) \<Rightarrow> IvyBuffer \<Rightarrow> bytes \<Rightarrow> string \<Rightarrow> (int \<times> IvyBuffer) option" where
  "make_message_int_loop legacy alloc b block out =
     (let (block', n) = vsnprintf_int legacy block (nat (boffset b)) (bsize b - boffset b) out
      in if n > -1 \<and> n < bsize b - boffset b
         then Some (n, b\<lparr>bdata := Some block', boffset := boffset b + n\<rparr>)
         else (let sz = (if n > -1 then boffset b + n + 1 else bsize b * 2)
               in if sz > C_INT_MAX then None
                  else if \<not> alloc sz then Some (-1, b\<lparr>bsize := sz, bdata := None\<rparr>)
                  else make_message_int_loop legacy alloc (b\<lparr>bsize := sz\<rparr>)
                         (realloc_block block' (nat sz)) out))"

definition make_message_int ::
  "bool \<Rightarrow> (int \<Rightarrow> bool) \<Rightarrow> IvyBuffer \<Rightarrow> string \<Rightarrow> (int \<times> IvyBuffer) option" where
  "make_message_int legacy alloc b out =
     (if bsize b = 0 \<or> bdata b = None then
        (let b1 = b\<lparr>bsize := IVY_BUFFER_SIZE, boffset := 0\<rparr>
         in if \<not> alloc IVY_BUFFER_SIZE then Some (-1, b1\<lparr>bdata := None\<rparr>)
            else make_message_int_loop legacy alloc b1 (replicate (nat IVY_BUFFER_SIZE) NUL) out)
      else make_message_int_loop legacy alloc b (the (bdata b)) out)"

text \<open>A buffer as the functions leave it: a block of its size with the offset inside.\<close>

definition buffer_wf :: "IvyBuffer \<Rightarrow> bool" where
  "buffer_wf b \<longleftrightarrow> (case bdata b of None \<Rightarrow> True
     | Some block \<Rightarrow> int (length block) = bsize b \<and> 0 \<le> boffset b \<and> boffset b < bsize b)"

text \<open>What has been printed so far.\<close>

definition buffer_text :: "IvyBuffer \<Rightarrow> bytes" where
  "buffer_text b = (case bdata b of None \<Rightarrow> [] | Some block \<Rightarrow> take (nat (boffset b)) block)"

lemma length_realloc_block [simp]: "length (realloc_block block n) = n"
  by (simp add: realloc_block_def)

lemma take_realloc_block: "k \<le> n \<Longrightarrow> k \<le> length block \<Longrightarrow> take k (realloc_block block n) = take k block"
  by (simp add: realloc_block_def min_absorb1)

lemma vsnprintf_block:
  assumes "vsnprintf legacy block off avail out = (block', n)" "int (length block) = int off + avail"
    "0 < avail"
  shows "length block' = length block" "take off block' = take off block"
    "int (length out) < avail \<Longrightarrow> n = int (length out)
       \<and> take (off + length out) block' = take off block @ out \<and> block' ! (off + length out) = NUL"
proof -
  have b: "block' = memcpy_at block off (take (nat avail - 1) out @ [NUL])"
    using assms by (simp add: vsnprintf_def)
  have fits: "off + length (take (nat avail - 1) out @ [NUL]) \<le> length block"
    using assms(2,3) by simp
  show "length block' = length block" using fits b by simp
  show "take off block' = take off block" using assms(2,3) b by simp
  assume l: "int (length out) < avail"
  then have "b": "block' = take off block @ out @ NUL # drop (off + Suc (length out)) block"
    using b by (simp add: memcpy_at_def)
  moreover have "length (take off block) = off" using assms(2,3) by simp
  ultimately show "n = int (length out)
       \<and> take (off + length out) block' = take off block @ out \<and> block' ! (off + length out) = NUL"
    using assms(1) l by (auto simp: vsnprintf_def nth_append)
qed

text \<open>Once there is room, one round is enough.\<close>

lemma make_message_loop_fits:
  assumes "int (length block) = bsize b" "0 \<le> boffset b" "int (length out) < bsize b - boffset b"
  shows "\<exists>block'. make_message_loop legacy alloc b block out
           = Some (int (length out), b\<lparr>bdata := Some block', boffset := boffset b + int (length out)\<rparr>)
         \<and> length block' = length block
         \<and> take (nat (boffset b) + length out) block' = take (nat (boffset b)) block @ out
         \<and> block' ! (nat (boffset b) + length out) = NUL"
proof -
  obtain block' n where v:
    "vsnprintf legacy block (nat (boffset b)) (bsize b - boffset b) out = (block', n)" by force
  have *: "int (length block) = int (nat (boffset b)) + (bsize b - boffset b)" "0 < bsize b - boffset b"
    using assms by auto
  note r = vsnprintf_block [OF v *]
  have n: "n = int (length out)" using r(3) assms(3) by blast
  have "make_message_loop legacy alloc b block out
           = Some (int (length out), b\<lparr>bdata := Some block', boffset := boffset b + int (length out)\<rparr>)"
    using assms(3) v n by (subst make_message_loop.simps) simp
  then show ?thesis using r(1) r(3) [OF assms(3)] by blast
qed

text \<open>
  With C99 \<^verbatim>\<open>vsnprintf\<close> the second round always has room: the block has just been given the
  size the first round asked for.
\<close>

lemma make_message_loop_c99:
  assumes len: "int (length block) = bsize b" and off: "0 \<le> boffset b" "boffset b < bsize b"
    and alloc: "boffset b + int (length out) + 1 \<le> bsize b \<or> alloc (boffset b + int (length out) + 1)"
  shows "\<exists>block' sz. make_message_loop False alloc b block out
           = Some (int (length out), b\<lparr>bdata := Some block', bsize := sz, boffset := boffset b + int (length out)\<rparr>)
         \<and> sz = max (bsize b) (boffset b + int (length out) + 1) \<and> int (length block') = sz
         \<and> take (nat (boffset b) + length out) block' = take (nat (boffset b)) block @ out
         \<and> block' ! (nat (boffset b) + length out) = NUL"
proof (cases "int (length out) < bsize b - boffset b")
  case True
  from make_message_loop_fits [OF len off(1) True, of False alloc] obtain block' where r:
    "make_message_loop False alloc b block out
       = Some (int (length out), b\<lparr>bdata := Some block', boffset := boffset b + int (length out)\<rparr>)"
    "length block' = length block"
    "take (nat (boffset b) + length out) block' = take (nat (boffset b)) block @ out"
    "block' ! (nat (boffset b) + length out) = NUL" by blast
  then show ?thesis using True len by (intro exI [of _ block'] exI [of _ "bsize b"]) simp
next
  case False
  let ?sz = "boffset b + int (length out) + 1"
  obtain block1 n where v:
    "vsnprintf False block (nat (boffset b)) (bsize b - boffset b) out = (block1, n)" by force
  then have n: "n = int (length out)" by (simp add: vsnprintf_def)
  have *: "int (length block) = int (nat (boffset b)) + (bsize b - boffset b)" "0 < bsize b - boffset b"
    using assms by auto
  note r1 = vsnprintf_block(1,2) [OF v *]
  let ?b = "b\<lparr>bsize := ?sz\<rparr>" and ?block = "realloc_block block1 (nat ?sz)"
  have step: "make_message_loop False alloc b block out = make_message_loop False alloc ?b ?block out"
    using False v n alloc by (subst make_message_loop.simps) (simp add: Let_def)
  have pre: "int (length ?block) = bsize ?b" "0 \<le> boffset ?b" "int (length out) < bsize ?b - boffset ?b"
    using off by auto
  have "nat (boffset b) \<le> length block" using len off by linarith
  then have keep: "take (nat (boffset b)) ?block = take (nat (boffset b)) block"
    using r1 off by (subst take_realloc_block) auto
  from make_message_loop_fits [OF pre, of False alloc] obtain block' where
    "make_message_loop False alloc ?b ?block out
       = Some (int (length out), ?b\<lparr>bdata := Some block', boffset := boffset ?b + int (length out)\<rparr>)"
    "length block' = length ?block"
    "take (nat (boffset ?b) + length out) block' = take (nat (boffset ?b)) ?block @ out"
    "block' ! (nat (boffset ?b) + length out) = NUL" by blast
  then show ?thesis using step False keep off
    by (intro exI [of _ block'] exI [of _ ?sz]) simp
qed

lemma make_message_c99:
  assumes "buffer_wf b" "\<And>n. alloc n"
  shows "\<exists>b'. make_message False alloc b out = Some (int (length out), b') \<and> buffer_wf b'
           \<and> buffer_text b' = (if bsize b = 0 then [] else buffer_text b) @ out
           \<and> (\<exists>block. bdata b' = Some block \<and> block ! length (buffer_text b') = NUL)"
proof (cases "bsize b = 0 \<or> bdata b = None")
  case True
  let ?b = "b\<lparr>bsize := IVY_BUFFER_SIZE, boffset := 0\<rparr>"
  have "int (length (replicate (nat IVY_BUFFER_SIZE) NUL)) = bsize ?b" "0 \<le> boffset ?b"
    "boffset ?b < bsize ?b" by (simp_all add: IVY_BUFFER_SIZE_def)
  from make_message_loop_c99 [OF this, of out alloc] assms(2) obtain block' sz where
    "make_message_loop False alloc ?b (replicate (nat IVY_BUFFER_SIZE) NUL) out
       = Some (int (length out), ?b\<lparr>bdata := Some block', bsize := sz, boffset := int (length out)\<rparr>)"
    "sz = max IVY_BUFFER_SIZE (int (length out) + 1)" "int (length block') = sz"
    "take (length out) block' = out" "block' ! length out = NUL" by auto
  then show ?thesis using True assms
    by (auto simp: make_message_def buffer_wf_def buffer_text_def)
next
  case False
  then obtain block where block: "bdata b = Some block" by auto
  have "int (length block) = bsize b" "0 \<le> boffset b" "boffset b < bsize b"
    using assms(1) block by (auto simp: buffer_wf_def)
  note pre = this
  from make_message_loop_c99 [OF pre, of out alloc] assms(2) obtain block' sz where r:
    "make_message_loop False alloc b block out
       = Some (int (length out), b\<lparr>bdata := Some block', bsize := sz, boffset := boffset b + int (length out)\<rparr>)"
    "sz = max (bsize b) (boffset b + int (length out) + 1)" "int (length block') = sz"
    "take (nat (boffset b) + length out) block' = take (nat (boffset b)) block @ out"
    "block' ! (nat (boffset b) + length out) = NUL" by auto
  have "nat (boffset b + int (length out)) = nat (boffset b) + length out"
    "length (take (nat (boffset b)) block) = nat (boffset b)"
    using pre by auto
  then show ?thesis using False block r pre
    by (auto simp: make_message_def buffer_wf_def buffer_text_def)
qed

text \<open>Within the width the two versions agree.\<close>

lemma make_message_int_loop_fits:
  assumes "int (length out) < bsize b - boffset b" "int (length out) \<le> C_INT_MAX"
  shows "make_message_int_loop False alloc b block out = make_message_loop False alloc b block out"
  using assms
  by (subst make_message_int_loop.simps, subst make_message_loop.simps)
    (simp add: vsnprintf_int_def vsnprintf_def)

lemma make_message_int_loop_eq:
  assumes "0 \<le> boffset b" "boffset b + int (length out) + 1 \<le> C_INT_MAX"
  shows "make_message_int_loop False alloc b block out = make_message_loop False alloc b block out"
proof (cases "int (length out) < bsize b - boffset b")
  case True
  then show ?thesis using assms by (intro make_message_int_loop_fits) auto
next
  case False
  let ?sz = "boffset b + int (length out) + 1"
  have "make_message_int_loop False alloc (b\<lparr>bsize := ?sz\<rparr>) bl out
      = make_message_loop False alloc (b\<lparr>bsize := ?sz\<rparr>) bl out" for bl
    using assms by (intro make_message_int_loop_fits) auto
  then show ?thesis
    using False assms
    by (subst make_message_int_loop.simps, subst make_message_loop.simps)
      (simp add: vsnprintf_int_def vsnprintf_def Let_def)
qed

lemma make_message_int_eq:
  assumes "0 \<le> boffset b \<or> bdata b = None"
    "(if bdata b = None then 0 else boffset b) + int (length out) + 1 \<le> C_INT_MAX"
    "bdata b \<noteq> None \<Longrightarrow> bsize b \<noteq> 0"
  shows "make_message_int False alloc b out = make_message False alloc b out"
  using assms by (auto simp: make_message_int_def make_message_def Let_def intro!: make_message_int_loop_eq)

text \<open>A refused allocation.\<close>

lemma make_message_loop_refused:
  assumes "\<not> int (length out) < bsize b - boffset b" "\<not> alloc (boffset b + int (length out) + 1)"
  shows "make_message_loop False alloc b block out
    = Some (-1, b\<lparr>bsize := boffset b + int (length out) + 1, bdata := None\<rparr>)"
  using assms by (subst make_message_loop.simps) (simp add: vsnprintf_def Let_def)

text \<open>The block and the offset a call starts from.\<close>

definition start_size :: "IvyBuffer \<Rightarrow> int" where
  "start_size b = (if bdata b = None then IVY_BUFFER_SIZE else bsize b)"

definition start_offset :: "IvyBuffer \<Rightarrow> int" where
  "start_offset b = (if bdata b = None then 0 else boffset b)"

definition needed_size :: "IvyBuffer \<Rightarrow> string \<Rightarrow> int" where
  "needed_size b out = start_offset b + int (length out) + 1"

text \<open>The allocations of a call are granted.\<close>

definition granted :: "(int \<Rightarrow> bool) \<Rightarrow> IvyBuffer \<Rightarrow> string \<Rightarrow> bool" where
  "granted alloc b out \<longleftrightarrow> (bdata b \<noteq> None \<or> alloc IVY_BUFFER_SIZE)
     \<and> (needed_size b out \<le> start_size b \<or> alloc (needed_size b out))"

lemma make_message_outcome:
  assumes "buffer_wf b"
  shows "\<exists>r b'. make_message False alloc b out = Some (r, b')
    \<and> (if granted alloc b out
       then r = int (length out) \<and> buffer_wf b' \<and> buffer_text b' = buffer_text b @ out
         \<and> boffset b' = start_offset b + int (length out) \<and> bsize b' = max (start_size b) (needed_size b out)
         \<and> (\<exists>block. bdata b' = Some block \<and> block ! length (buffer_text b') = NUL)
       else r = -1 \<and> bdata b' = None)"
proof (cases "bdata b = None \<and> \<not> alloc IVY_BUFFER_SIZE")
  case True
  then show ?thesis by (simp add: make_message_def granted_def Let_def)
next
  case False
  define b1 block where "b1 = (if bdata b = None then b\<lparr>bsize := IVY_BUFFER_SIZE, boffset := 0\<rparr> else b)"
    and "block = (case bdata b of None \<Rightarrow> replicate (nat IVY_BUFFER_SIZE) NUL | Some bl \<Rightarrow> bl)"
  have b1: "int (length block) = bsize b1" "0 \<le> boffset b1" "boffset b1 < bsize b1"
    using assms by (auto simp: b1_def block_def buffer_wf_def IVY_BUFFER_SIZE_def split: option.splits)
  have start: "bsize b1 = start_size b" "boffset b1 = start_offset b"
    "take (nat (boffset b1)) block = buffer_text b"
    by (auto simp: b1_def block_def start_size_def start_offset_def buffer_text_def split: option.splits)
  have mm: "make_message False alloc b out = make_message_loop False alloc b1 block out"
    using False assms by (auto simp: make_message_def b1_def block_def buffer_wf_def Let_def split: option.splits)
  show ?thesis
  proof (cases "granted alloc b out")
    case True
    then have "needed_size b out \<le> bsize b1 \<or> alloc (needed_size b out)" by (simp add: granted_def start(1))
    then have al: "boffset b1 + int (length out) + 1 \<le> bsize b1 \<or> alloc (boffset b1 + int (length out) + 1)"
      by (simp add: start needed_size_def)
    have pref: "take (nat (start_offset b)) block = buffer_text b" using start(3) by (simp add: start(2))
    from make_message_loop_c99 [where alloc = alloc and out = out, OF b1 al] obtain block' where r:
      "make_message_loop False alloc b1 block out = Some (int (length out),
         b1\<lparr>bdata := Some block', bsize := max (start_size b) (needed_size b out),
            boffset := start_offset b + int (length out)\<rparr>)"
      "int (length block') = max (start_size b) (needed_size b out)"
      "take (nat (boffset b1) + length out) block' = buffer_text b @ out"
      "block' ! (nat (boffset b1) + length out) = NUL"
      unfolding start(1,2) needed_size_def pref by metis
    have off: "0 \<le> start_offset b" using b1(2) by (simp add: start)
    have len: "length (buffer_text b @ out) = nat (boffset b1) + length out"
      using b1 by (simp flip: start(3))
    have "nat (start_offset b + int (length out)) = nat (boffset b1) + length out"
      using off by (simp add: start nat_add_distrib)
    then show ?thesis using True r off len
      unfolding mm by (simp add: buffer_wf_def buffer_text_def needed_size_def)
  next
    case no: False
    then have "\<not> int (length out) < bsize b1 - boffset b1" "\<not> alloc (boffset b1 + int (length out) + 1)"
      using False by (auto simp: granted_def start needed_size_def)
    from make_message_loop_refused [of out b1 alloc, OF this] show ?thesis using no unfolding mm by simp
  qed
qed

text \<open>
  (C26) \<^verbatim>\<open>make_message\<close> under a C99 \<^verbatim>\<open>vsnprintf\<close> (one that returns the length of the whole text),
  for a text that ends before \<^verbatim>\<open>INT_MAX\<close>: no size overflows and the function returns. When the
  allocations it needs are granted (the first block of a buffer that has none; the exact size
  \<open>offset + length + 1\<close> when the block is too small for the text and its NUL, and no other) it
  returns the length of the text, the block holds the previous text followed by this one and a
  NUL, the offset is after it, and the size is the larger of the old one and that exact size. When
  one of them is refused it returns \<open>-1\<close> and the buffer has no block, so that what was there is lost.
\<close>

theorem make_message_appends:
  assumes "buffer_wf b" "needed_size b out \<le> C_INT_MAX"
  shows "\<exists>r b'. make_message_int False alloc b out = Some (r, b')
    \<and> (if granted alloc b out
       then r = int (length out) \<and> buffer_wf b' \<and> buffer_text b' = buffer_text b @ out
         \<and> boffset b' = start_offset b + int (length out) \<and> bsize b' = max (start_size b) (needed_size b out)
         \<and> (\<exists>block. bdata b' = Some block \<and> block ! length (buffer_text b') = NUL)
       else r = -1 \<and> bdata b' = None)"
proof -
  have eq: "make_message_int False alloc b out = make_message False alloc b out"
    using assms by (intro make_message_int_eq)
      (auto simp: buffer_wf_def needed_size_def start_offset_def split: option.splits if_splits)
  show ?thesis unfolding eq by (rule make_message_outcome [OF assms(1)])
qed

theorem make_message_appends_witness:
  "\<exists>r b'. make_message_int False (\<lambda>n. n = 7) \<lparr>bdata = Some (''ab'' @ [NUL, NUL]), bsize = 4, boffset = 2\<rparr> ''cdef''
        = Some (r, b') \<and> r = 4 \<and> buffer_text b' = ''abcdef'' \<and> bsize b' = 7"
  using make_message_appends [of "\<lparr>bdata = Some (''ab'' @ [NUL, NUL]), bsize = 4, boffset = 2\<rparr>" "''cdef''"
      "\<lambda>n. n = 7"]
  by (auto simp: buffer_wf_def buffer_text_def granted_def needed_size_def start_offset_def start_size_def C_INT_MAX_def)

end
