(* ===== verification/Ivy_Discovery.thy ===== *)
theory Ivy_Discovery
  imports Ivy_Prelude
begin

text \<open>
  The parser of the datagrams that announce an application on the bus, \<^verbatim>\<open>src/ivydiscovery.h\<close>, and
  the line \<^verbatim>\<open>IvyStart\<close> announces. A \<^verbatim>\<open>const char *\<close> cursor is the rest of the line. The parser
  is shown to accept exactly the lines of a grammar, with every field inside its limit.
\<close>

definition INT_MAX :: nat where
  "INT_MAX = 2147483647"

text \<open>The \<^verbatim>\<open>do \<dots> while\<close> loop; its first byte is known to be a digit.\<close>

fun disc_digits :: "nat \<Rightarrow> nat \<Rightarrow> string \<Rightarrow> (nat \<times> string) option" where
  "disc_digits limit number [] = None"
| "disc_digits limit number (c # cs) =
     (let digit = digit_val c
      in if number > (limit - digit) div 10 then None
         else (let number' = number * 10 + digit
               in case cs of
                    [] \<Rightarrow> Some (number', [])
                  | x # _ \<Rightarrow> if is_digit x then disc_digits limit number' cs else Some (number', cs)))"

definition IvyDiscoveryNumber :: "string \<Rightarrow> nat \<Rightarrow> (nat \<times> string) option" where
  "IvyDiscoveryNumber cursor limit =
     (case dropWhile is_hspace cursor of
        [] \<Rightarrow> None
      | c # cs \<Rightarrow>
          if \<not> is_digit c then None
          else (case disc_digits limit 0 (c # cs) of
             None \<Rightarrow> None
           | Some (number, p) \<Rightarrow>
               (case p of
                  [] \<Rightarrow> None
                | x # _ \<Rightarrow> if \<not> is_hspace x then None else Some (number, dropWhile is_hspace p))))"

abbreviation CR :: char where "CR \<equiv> CHR 0x0D"
abbreviation LF :: char where "LF \<equiv> CHR 0x0A"
abbreviation SP :: char where "SP \<equiv> CHR 0x20"
abbreviation TAB :: char where "TAB \<equiv> CHR 0x09"

text \<open>Skip one given byte if it is there.\<close>

definition skip_char :: "char \<Rightarrow> string \<Rightarrow> string" where
  "skip_char x p = (case p of [] \<Rightarrow> [] | c # cs \<Rightarrow> if c = x then cs else p)"

definition IvyParseDiscovery ::
  "string \<Rightarrow> nat \<Rightarrow> nat \<Rightarrow> (nat \<times> nat \<times> string \<times> string) option" where
  "IvyParseDiscovery line id_size name_size =
     (case IvyDiscoveryNumber line INT_MAX of
        None \<Rightarrow> None
      | Some (parsed_version, p1) \<Rightarrow>
     (case IvyDiscoveryNumber p1 65535 of
        None \<Rightarrow> None
      | Some (parsed_port, p2) \<Rightarrow>
          if parsed_port = 0 then None
          else (let id_length = strcspn p2 [SP, TAB, CR, LF]; p3 = drop id_length p2
          in if id_length = 0 \<or> id_length \<ge> id_size then None
          else (case p3 of
             [] \<Rightarrow> None
           | x # _ \<Rightarrow>
               if \<not> is_hspace x then None
               else (let p4 = dropWhile is_hspace p3;
                         name_length = strcspn p4 [CR, LF];
                         p5 = skip_char LF (skip_char CR (drop name_length p4))
                     in if name_length = 0 \<or> name_length \<ge> name_size then None
                        else if p5 \<noteq> [] then None
                        else Some (parsed_version, parsed_port,
                                   take id_length p2, take name_length p4))))))"

text \<open>The announcement, \<^verbatim>\<open>"%d %hu %s %s\n"\<close> of \<^verbatim>\<open>IvyStart\<close>.\<close>

definition announce_line :: "nat \<Rightarrow> nat \<Rightarrow> string \<Rightarrow> string \<Rightarrow> string" where
  "announce_line version port appid appname =
     dec_nat version @ [SP] @ dec_nat (port mod 65536) @ [SP] @ appid @ [SP] @ appname @ [LF]"

subsection \<open>Numbers\<close>

text \<open>The overflow test is exact: a run of digits is accepted when its value is within the limit.\<close>

lemma disc_digits_eq:
  assumes "\<forall>c \<in> set ds. is_digit c" "ds \<noteq> []" "rest = [] \<or> \<not> is_digit (hd rest)" "9 \<le> limit"
  shows "disc_digits limit n (ds @ rest)
    = (if digits_val n ds \<le> limit then Some (digits_val n ds, rest) else None)"
  using assms(1,2)
proof (induction ds arbitrary: n)
  case Nil
  then show ?case by simp
next
  case (Cons c cs)
  have d: "digit_val c < 10" using Cons.prems digit_val_less by auto
  have test: "(n > (limit - digit_val c) div 10) = (10 * n + digit_val c > limit)"
    using d assms(4) div_less_iff_less_mult [of 10 "limit - digit_val c" n] by auto
  show ?case
  proof (cases cs)
    case Nil
    then show ?thesis using test assms(3)
      by (cases rest) (auto simp: Let_def mult.commute)
  next
    case (Cons x xs)
    have le: "10 * n + digit_val c \<le> digits_val (10 * n + digit_val c) cs" by (rule digits_val_mono)
    show ?thesis
      using test Cons.IH [of "10 * n + digit_val c"] Cons.prems Cons le
      by (auto simp: Let_def mult.commute)
  qed
qed

lemma dropWhile_stop:
  assumes "\<forall>c \<in> set ws. P c" "rest = [] \<or> \<not> P (hd rest)"
  shows "dropWhile P (ws @ rest) = rest" "takeWhile P (ws @ rest) = ws"
  using assms by (cases rest; auto)+

lemma dropWhile_hd: "dropWhile P s = [] \<or> \<not> P (hd (dropWhile P s))"
  using hd_dropWhile by blast

definition number_field :: "nat \<Rightarrow> nat \<Rightarrow> string \<Rightarrow> bool" where
  "number_field limit n s \<longleftrightarrow> (\<exists>s0 ds s1. s = s0 @ ds @ s1 \<and> (\<forall>c \<in> set s0. is_hspace c)
     \<and> ds \<noteq> [] \<and> (\<forall>c \<in> set ds. is_digit c) \<and> digits_val 0 ds = n \<and> n \<le> limit
     \<and> s1 \<noteq> [] \<and> (\<forall>c \<in> set s1. is_hspace c))"

lemma hd_not_digit: "s1 \<noteq> [] \<Longrightarrow> \<forall>c \<in> set s1. is_hspace c \<Longrightarrow> \<not> is_digit (hd (s1 @ r))"
  by (cases s1) (auto dest: digit_not_hspace)

lemma IvyDiscoveryNumber_iff:
  assumes "9 \<le> limit"
  shows "IvyDiscoveryNumber s limit = Some (n, rest)
    \<longleftrightarrow> (\<exists>f. s = f @ rest \<and> number_field limit n f \<and> (rest = [] \<or> \<not> is_hspace (hd rest)))"
    (is "?l \<longleftrightarrow> ?r")
proof
  assume l: ?l
  define s0 where "s0 = takeWhile is_hspace s"
  have s0: "s = s0 @ dropWhile is_hspace s" "\<forall>c \<in> set s0. is_hspace c"
    by (auto simp: s0_def dest: set_takeWhileD)
  define t where "t = dropWhile is_hspace s"
  note l = l [unfolded IvyDiscoveryNumber_def, folded t_def]
  obtain c cs where t: "t = c # cs" "is_digit c"
    using l by (cases t) (auto split: if_splits)
  define ds where "ds = takeWhile is_digit t"
  define u where "u = dropWhile is_digit t"
  have ds: "ds \<noteq> []" "\<forall>c \<in> set ds. is_digit c" "t = ds @ u"
    using t by (auto simp: ds_def u_def dest: set_takeWhileD)
  have u: "u = [] \<or> \<not> is_digit (hd u)" unfolding u_def by (rule dropWhile_hd)
  have dd: "disc_digits limit 0 t = (if digits_val 0 ds \<le> limit then Some (digits_val 0 ds, u) else None)"
    using disc_digits_eq [OF ds(2,1) u assms, of 0] ds(3) by simp
  have le: "digits_val 0 ds \<le> limit"
    using l t(2) dd unfolding t(1) by (cases "digits_val 0 ds \<le> limit") auto
  have "(case u of [] \<Rightarrow> None
      | x # _ \<Rightarrow> if \<not> is_hspace x then None else Some (digits_val 0 ds, dropWhile is_hspace u))
      = Some (n, rest)"
    using l t(2) dd le unfolding t(1) by simp
  then have v: "digits_val 0 ds \<le> limit" "n = digits_val 0 ds" "u \<noteq> []" "is_hspace (hd u)"
    "rest = dropWhile is_hspace u"
    using le by (cases u; auto split: if_splits)+
  define s1 where "s1 = takeWhile is_hspace u"
  have s1: "u = s1 @ rest" "\<forall>c \<in> set s1. is_hspace c"
    unfolding v(5) by (auto simp: s1_def dest: set_takeWhileD)
  have "s1 \<noteq> []"
    using s1 v dropWhile_hd [of is_hspace u] by (cases s1) auto
  then have "number_field limit n (s0 @ ds @ s1)"
    using s0 ds s1 v unfolding number_field_def by blast
  moreover have "s = (s0 @ ds @ s1) @ rest" using s0 ds s1 by (simp flip: t_def)
  moreover have "rest = [] \<or> \<not> is_hspace (hd rest)" using v(5) dropWhile_hd by blast
  ultimately show ?r by blast
next
  assume ?r
  then obtain s0 ds s1 where f: "s = s0 @ ds @ s1 @ rest" "\<forall>c \<in> set s0. is_hspace c" "ds \<noteq> []"
    "\<forall>c \<in> set ds. is_digit c" "digits_val 0 ds = n" "n \<le> limit" "s1 \<noteq> []" "\<forall>c \<in> set s1. is_hspace c"
    "rest = [] \<or> \<not> is_hspace (hd rest)"
    unfolding number_field_def by auto
  have nd: "\<not> is_hspace (hd (ds @ s1 @ rest))" using f(3,4) digit_not_hspace by (cases ds) auto
  have "dropWhile is_hspace s = ds @ s1 @ rest" using f(1,2) nd dropWhile_stop(1) by blast
  moreover have "disc_digits limit 0 (ds @ s1 @ rest) = Some (n, s1 @ rest)"
    using disc_digits_eq [OF f(4,3) _ assms, of "s1 @ rest" 0] f hd_not_digit [OF f(7,8)] by simp
  moreover have "dropWhile is_hspace (s1 @ rest) = rest" using f(8,9) dropWhile_stop(1) by blast
  ultimately show ?l using f(3,4,7,8)
    by (cases ds; cases s1) (auto simp: IvyDiscoveryNumber_def)
qed

subsection \<open>The grammar of announcements\<close>

definition line_end :: "string \<Rightarrow> bool" where
  "line_end e \<longleftrightarrow> e = [] \<or> e = [CR] \<or> e = [LF] \<or> e = [CR, LF]"

definition id_ok :: "nat \<Rightarrow> string \<Rightarrow> bool" where
  "id_ok id_size s \<longleftrightarrow> s \<noteq> [] \<and> length s < id_size \<and> set s \<inter> {SP, TAB, CR, LF} = {}"

definition name_ok :: "nat \<Rightarrow> string \<Rightarrow> bool" where
  "name_ok name_size s \<longleftrightarrow> s \<noteq> [] \<and> length s < name_size \<and> \<not> is_hspace (hd s) \<and> set s \<inter> {CR, LF} = {}"

definition discovery_line ::
  "nat \<Rightarrow> nat \<Rightarrow> nat \<Rightarrow> nat \<Rightarrow> string \<Rightarrow> string \<Rightarrow> string \<Rightarrow> bool" where
  "discovery_line id_size name_size version port appid appname line \<longleftrightarrow>
     (\<exists>f1 f2 sep e. line = f1 @ f2 @ appid @ sep @ appname @ e
        \<and> number_field INT_MAX version f1 \<and> number_field 65535 port f2 \<and> port \<noteq> 0
        \<and> id_ok id_size appid \<and> sep \<noteq> [] \<and> (\<forall>c \<in> set sep. is_hspace c)
        \<and> name_ok name_size appname \<and> line_end e)"

lemma strcspn_split:
  "take (strcspn s r) s = takeWhile (\<lambda>c. c \<notin> set r) s"
  "drop (strcspn s r) s = dropWhile (\<lambda>c. c \<notin> set r) s"
  by (simp_all add: strcspn_def takeWhile_eq_take [symmetric] dropWhile_eq_drop [symmetric])

lemma strcspn_stop:
  assumes "\<forall>c \<in> set a. c \<notin> set r" "b = [] \<or> hd b \<in> set r"
  shows "strcspn (a @ b) r = length a"
  using dropWhile_stop(2) [of a "\<lambda>c. c \<notin> set r" b] assms by (simp add: strcspn_def)

lemma skip_eol:
  assumes "p = [] \<or> hd p = CR \<or> hd p = LF" "skip_char LF (skip_char CR p) = []"
  shows "line_end p"
  using assms by (auto simp: skip_char_def line_end_def split: list.splits if_splits)

lemma skip_line_end: "line_end e \<Longrightarrow> skip_char LF (skip_char CR e) = []"
  by (auto simp: skip_char_def line_end_def)

lemma number_field_hd: "number_field limit n f \<Longrightarrow> f \<noteq> []"
  by (auto simp: number_field_def)

lemma IvyParseDiscovery_sound:
  assumes "IvyParseDiscovery line id_size name_size = Some (v, p, i, a)"
  shows "discovery_line id_size name_size v p i a line"
proof -
  obtain p1 where n1: "IvyDiscoveryNumber line INT_MAX = Some (v, p1)"
    using assms by (auto simp: IvyParseDiscovery_def Let_def split: option.splits if_splits list.splits)
  obtain p2 where n2: "IvyDiscoveryNumber p1 65535 = Some (p, p2)" "p \<noteq> 0"
    using assms n1 by (auto simp: IvyParseDiscovery_def Let_def split: option.splits if_splits list.splits)
  define k where "k = strcspn p2 [SP, TAB, CR, LF]"
  define p3 where "p3 = drop k p2"
  define p4 where "p4 = dropWhile is_hspace p3"
  define m where "m = strcspn p4 [CR, LF]"
  note eq = assms [unfolded IvyParseDiscovery_def, simplified n1 n2 option.case prod.case if_False Let_def,
      folded k_def, folded p3_def, folded p4_def, folded m_def]
  have k: "k \<noteq> 0" "k < id_size" "p3 \<noteq> []" "is_hspace (hd p3)"
    using eq n2(2) by (cases p3; auto split: if_splits)+
  have m: "m \<noteq> 0" "m < name_size" "skip_char LF (skip_char CR (drop m p4)) = []"
    "i = take k p2" "a = take m p4"
    using eq n2(2) k by (cases p3; auto split: if_splits)+
  obtain f1 where f1: "line = f1 @ p1" "number_field INT_MAX v f1"
    using n1 IvyDiscoveryNumber_iff [of INT_MAX] by (auto simp: INT_MAX_def)
  obtain f2 where f2: "p1 = f2 @ p2" "number_field 65535 p f2"
    using n2(1) IvyDiscoveryNumber_iff [of 65535] by auto
  define sep where "sep = takeWhile is_hspace p3"
  have "p3 = sep @ p4" by (simp add: sep_def p4_def)
  moreover have "p2 = i @ p3" by (simp add: m(4) p3_def)
  moreover have "p4 = a @ drop m p4" by (simp add: m(5))
  ultimately have line: "line = f1 @ f2 @ i @ sep @ a @ drop m p4"
    using f1(1) f2(1) by simp
  have "sep \<noteq> []" "\<forall>c \<in> set sep. is_hspace c"
    using k(3,4) by (cases p3; auto simp: sep_def dest: set_takeWhileD)+
  moreover have "length i = k" "length a = m"
    unfolding m k_def m_def by (auto simp: strcspn_def length_takeWhile_le min_absorb2)
  moreover have "set i \<inter> {SP, TAB, CR, LF} = {}"
    unfolding m(4) k_def strcspn_split by (auto dest: set_takeWhileD)
  moreover have "set a \<inter> {CR, LF} = {}"
    unfolding m(5) m_def strcspn_split by (auto dest: set_takeWhileD)
  moreover have "\<not> is_hspace (hd a)"
    using dropWhile_hd [of is_hspace p3] m(1,5) unfolding p4_def [symmetric]
    by (cases p4; cases m) (auto simp: m_def strcspn_def)
  moreover have "line_end (drop m p4)"
  proof (rule skip_eol [OF _ m(3)])
    show "drop m p4 = [] \<or> hd (drop m p4) = CR \<or> hd (drop m p4) = LF"
      using dropWhile_hd [of "\<lambda>c. c \<notin> set [CR, LF]" p4] unfolding m_def strcspn_split by auto
  qed
  ultimately show ?thesis
    unfolding discovery_line_def using line f1(2) f2(2) n2(2) k(1,2) m(1,2)
    by (intro exI [of _ f1] exI [of _ f2] exI [of _ sep] exI [of _ "drop m p4"])
      (auto simp: id_ok_def name_ok_def)
qed

lemma id_no_hspace: "id_ok n i \<Longrightarrow> i \<noteq> [] \<and> \<not> is_hspace (hd i)"
  by (cases i) (auto simp: id_ok_def is_hspace_def)

lemma IvyParseDiscovery_complete:
  assumes "discovery_line id_size name_size v p i a line"
  shows "IvyParseDiscovery line id_size name_size = Some (v, p, i, a)"
proof -
  obtain f1 f2 sep e where d: "line = f1 @ f2 @ i @ sep @ a @ e" "number_field INT_MAX v f1"
    "number_field 65535 p f2" "p \<noteq> 0" "id_ok id_size i" "sep \<noteq> []" "\<forall>c \<in> set sep. is_hspace c"
    "name_ok name_size a" "line_end e"
    using assms unfolding discovery_line_def by blast
  have hs: "\<forall>c \<in> set (s :: string). is_hspace c \<Longrightarrow> s \<noteq> [] \<Longrightarrow> hd s \<in> {SP, TAB}" for s
    by (cases s) (auto simp: is_hspace_def)
  obtain s0 ds s1 where f2: "f2 = s0 @ ds @ s1" "\<forall>c \<in> set s0. is_hspace c" "ds \<noteq> []"
    "\<forall>c \<in> set ds. is_digit c" "digits_val 0 ds = p" "p \<le> 65535" "s1 \<noteq> []" "\<forall>c \<in> set s1. is_hspace c"
    using d(3) unfolding number_field_def by blast
  define f1' where "f1' = f1 @ s0"
  define f2' where "f2' = ds @ s1"
  have nf2: "number_field 65535 p f2'"
    unfolding number_field_def f2'_def using f2
    by (intro exI [of _ "[]"] exI [of _ ds] exI [of _ s1]) auto
  have nf1: "number_field INT_MAX v f1'"
  proof -
    obtain t0 es t1 where "f1 = t0 @ es @ t1" "\<forall>c \<in> set t0. is_hspace c" "es \<noteq> []"
      "\<forall>c \<in> set es. is_digit c" "digits_val 0 es = v" "v \<le> INT_MAX" "t1 \<noteq> []"
      "\<forall>c \<in> set t1. is_hspace c"
      using d(2) unfolding number_field_def by blast
    then show ?thesis unfolding number_field_def f1'_def using f2(2)
      by (intro exI [of _ t0] exI [of _ es] exI [of _ "t1 @ s0"]) auto
  qed
  have "\<not> is_hspace (hd (f2' @ i @ sep @ a @ e))"
    using f2(3,4) digit_not_hspace by (cases ds) (auto simp: f2'_def)
  then have n1: "IvyDiscoveryNumber line INT_MAX = Some (v, f2' @ i @ sep @ a @ e)"
    using nf1 d(1) f2(1) IvyDiscoveryNumber_iff [of INT_MAX]
    by (auto simp: INT_MAX_def f1'_def f2'_def)
  have "\<not> is_hspace (hd (i @ sep @ a @ e))" using id_no_hspace [OF d(5)] by (cases i) auto
  then have n2: "IvyDiscoveryNumber (f2' @ i @ sep @ a @ e) 65535 = Some (p, i @ sep @ a @ e)"
    using nf2 IvyDiscoveryNumber_iff [of 65535] by auto
  have k: "strcspn (i @ sep @ a @ e) [SP, TAB, CR, LF] = length i"
    by (rule strcspn_stop) (use d(5) hs [OF d(7,6)] d(6) in \<open>auto simp: id_ok_def\<close>)
  have dw: "dropWhile is_hspace (sep @ a @ e) = a @ e"
    by (rule dropWhile_stop(1) [OF d(7)]) (use d(8) in \<open>cases a; auto simp: name_ok_def\<close>)
  have m: "strcspn (a @ e) [CR, LF] = length a"
    by (rule strcspn_stop) (use d(8,9) in \<open>auto simp: name_ok_def line_end_def\<close>)
  have sep: "\<exists>x xs. sep @ a @ e = x # xs \<and> is_hspace x" using d(6,7) by (cases sep) auto
  show ?thesis
    using n1 n2 d(4,5,8) k dw m sep skip_line_end [OF d(9)]
    by (auto simp: IvyParseDiscovery_def Let_def id_ok_def name_ok_def)
qed

subsection \<open>Properties\<close>

text \<open>
  (C18) The parser accepts exactly the announcements of the grammar: two decimal fields within
  \<^verbatim>\<open>INT_MAX\<close> and 65535 (the port not zero), an identity and a name that fit their buffers with
  the terminator, single-line, and it returns those very fields; every other line is refused.
\<close>

theorem discovery_grammar:
  "IvyParseDiscovery line id_size name_size = Some (version, port, appid, appname)
   \<longleftrightarrow> discovery_line id_size name_size version port appid appname line"
  using IvyParseDiscovery_sound IvyParseDiscovery_complete by blast

text \<open>
  What an application announces is what its peers read, with or without the final newline:
  the same version, port, identity and name, for every identity and name that fit.
\<close>

theorem discovery_roundtrip:
  assumes "version \<le> INT_MAX" "0 < port" "port < 65536" "id_ok id_size appid" "name_ok name_size appname"
  shows "IvyParseDiscovery (announce_line version port appid appname) id_size name_size
           = Some (version, port, appid, appname)
       \<and> IvyParseDiscovery (butlast (announce_line version port appid appname)) id_size name_size
           = Some (version, port, appid, appname)"
proof -
  have nf: "number_field limit n (dec_nat n @ [SP])" if "n \<le> limit" for limit n
    unfolding number_field_def using that dec_nat_digits [of n]
    by (intro exI [of _ "[]"] exI [of _ "dec_nat n"] exI [of _ "[SP]"]) (auto simp: is_hspace_def)
  have dl: "line_end e \<Longrightarrow> discovery_line id_size name_size version port appid appname
      ((dec_nat version @ [SP]) @ (dec_nat port @ [SP]) @ appid @ [SP] @ appname @ e)" for e
    unfolding discovery_line_def using assms nf [of version INT_MAX] nf [of port 65535]
    by (intro exI [of _ "dec_nat version @ [SP]"] exI [of _ "dec_nat port @ [SP]"] exI [of _ "[SP]"]
        exI [of _ e]) (auto simp: is_hspace_def)
  have "line_end [LF]" "line_end []" by (simp_all add: line_end_def)
  from this [THEN dl, THEN IvyParseDiscovery_complete] assms(3)
  show ?thesis by (simp add: announce_line_def butlast_append)
qed

theorem discovery_roundtrip_witness:
  "IvyParseDiscovery (announce_line 3 2010 ''7:12:2010'' ''my app'') 128 2048
     = Some (3, 2010, ''7:12:2010'', ''my app'')"
proof -
  have "3 \<le> INT_MAX" "(0::nat) < 2010" "(2010::nat) < 65536" "id_ok 128 ''7:12:2010''"
    "name_ok 2048 ''my app''"
    by (simp_all add: INT_MAX_def id_ok_def name_ok_def is_hspace_def)
  from discovery_roundtrip [OF this] show ?thesis by simp
qed

end
