(* ===== verification/Ivy_Loop.thy ===== *)
theory Ivy_Loop
  imports Ivy_List Ivy_Timer
begin

text \<open>
  The channels and the main loop, \<^verbatim>\<open>src/ivyloop.c\<close>. \<open>'h\<close> names the handler functions; what they
  do is given by \<open>run_delete\<close> and \<open>run_io\<close>, which the socket theory instantiates. Descriptor sets
  are sets of numbers below \<^verbatim>\<open>FD_SETSIZE\<close>; what \<^verbatim>\<open>select\<close> answers is the environment's choice. The
  state is extended by the later theories; \<open>fault\<close> keeps the first undefined behaviour met.
\<close>

record 'h channel =
  ch :: addr
  ch_fd :: nat
  ch_data :: addr
  tobedeleted :: bool
  handle_delete :: "'h option"
  handle_read :: "'h option"
  handle_write :: "'h option"

record 'h loop_state =
  channels_list :: "'h channel list"
  channel_initialized :: bool
  open_fds :: "nat set"
  wrdy_fds :: "nat set"
  highestFd :: nat
  main_loop :: bool
  timer_st :: timer_state
  next_addr :: addr
  fault :: "c_fault option"

definition crash :: "c_fault \<Rightarrow> ('h, 'a) loop_state_scheme \<Rightarrow> ('h, 'a) loop_state_scheme" where
  "crash e s = (if fault s = None then s\<lparr>fault := Some e\<rparr> else s)"

definition FD_SETSIZE :: nat where
  "FD_SETSIZE = 1024"

definition channel_nodes :: "('h, 'a) loop_state_scheme \<Rightarrow> addr list" where
  "channel_nodes s = map ch (channels_list s)"

definition find_channel :: "addr \<Rightarrow> ('h, 'a) loop_state_scheme \<Rightarrow> 'h channel option" where
  "find_channel c s = find (\<lambda>x. ch x = c) (channels_list s)"

definition upd_channel :: "addr \<Rightarrow> ('h channel \<Rightarrow> 'h channel) \<Rightarrow> ('h, 'a) loop_state_scheme \<Rightarrow> ('h, 'a) loop_state_scheme" where
  "upd_channel c f s = s\<lparr>channels_list := map (\<lambda>x. if ch x = c then f x else x) (channels_list s)\<rparr>"

text \<open>\<^verbatim>\<open>FD_SET\<close> outside the set writes outside its array.\<close>

definition FD_SET_open :: "nat \<Rightarrow> ('h, 'a) loop_state_scheme \<Rightarrow> ('h, 'a) loop_state_scheme" where
  "FD_SET_open fd s = (if fd < FD_SETSIZE then s\<lparr>open_fds := insert fd (open_fds s)\<rparr> else crash OutOfBounds s)"

definition FD_SET_wrdy :: "nat \<Rightarrow> ('h, 'a) loop_state_scheme \<Rightarrow> ('h, 'a) loop_state_scheme" where
  "FD_SET_wrdy fd s = (if fd < FD_SETSIZE then s\<lparr>wrdy_fds := insert fd (wrdy_fds s)\<rparr> else crash OutOfBounds s)"

definition IvyChannelRemove :: "addr \<Rightarrow> ('h, 'a) loop_state_scheme \<Rightarrow> ('h, 'a) loop_state_scheme" where
  "IvyChannelRemove c s =
     (case find_channel c s of
        None \<Rightarrow> crash UseAfterFree s
      | Some _ \<Rightarrow> upd_channel c (\<lambda>x. x\<lparr>tobedeleted := True\<rparr>) s)"

definition raise_highest :: "nat \<Rightarrow> ('h, 'a) loop_state_scheme \<Rightarrow> ('h, 'a) loop_state_scheme" where
  "raise_highest fd s = (if fd \<ge> highestFd s then s\<lparr>highestFd := fd + 1\<rparr> else s)"

definition IvyChannelAdd ::
  "nat \<Rightarrow> addr \<Rightarrow> 'h option \<Rightarrow> 'h option \<Rightarrow> 'h option \<Rightarrow> ('h, 'a) loop_state_scheme
   \<Rightarrow> addr \<times> ('h, 'a) loop_state_scheme" where
  "IvyChannelAdd fd data hdel hread hwrite s =
     (let c = next_addr s;
          x = \<lparr>ch = c, ch_fd = fd, ch_data = data, tobedeleted = False, handle_delete = hdel,
               handle_read = hread, handle_write = hwrite\<rparr>;
          s1 = raise_highest fd (s\<lparr>next_addr := Suc c\<rparr>);
          s2 = s1\<lparr>channels_list := x # channels_list s1\<rparr>
      in (c, FD_SET_open fd s2))"

definition IvyChannelAddWritableEvent :: "addr \<Rightarrow> ('h, 'a) loop_state_scheme \<Rightarrow> ('h, 'a) loop_state_scheme" where
  "IvyChannelAddWritableEvent c s =
     (case find_channel c s of
        None \<Rightarrow> crash UseAfterFree s
      | Some x \<Rightarrow> FD_SET_wrdy (ch_fd x) (raise_highest (ch_fd x) s))"

definition IvyChannelClearWritableEvent :: "addr \<Rightarrow> ('h, 'a) loop_state_scheme \<Rightarrow> ('h, 'a) loop_state_scheme" where
  "IvyChannelClearWritableEvent c s =
     (case find_channel c s of
        None \<Rightarrow> crash UseAfterFree s
      | Some x \<Rightarrow> s\<lparr>wrdy_fds := wrdy_fds s - {ch_fd x}\<rparr>)"

text \<open>
  The channel structure is read before the delete handler runs, and its descriptor again after
  it; nothing changes the descriptor of a channel.
\<close>

definition IvyChannelDelete ::
  "('h \<Rightarrow> addr \<Rightarrow> ('h, 'a) loop_state_scheme \<Rightarrow> ('h, 'a) loop_state_scheme)
   \<Rightarrow> addr \<Rightarrow> ('h, 'a) loop_state_scheme \<Rightarrow> ('h, 'a) loop_state_scheme" where
  "IvyChannelDelete run_delete c s =
     (case find_channel c s of
        None \<Rightarrow> crash UseAfterFree s
      | Some x \<Rightarrow>
          (let s1 = (case handle_delete x of None \<Rightarrow> s | Some h \<Rightarrow> run_delete h (ch_data x) s)
           in s1\<lparr>open_fds := open_fds s1 - {ch_fd x}, wrdy_fds := wrdy_fds s1 - {ch_fd x},
                 channels_list := filter (\<lambda>y. ch y \<noteq> c) (channels_list s1)\<rparr>))"

definition deferred_body where
  "deferred_body run_delete c s =
     (case find_channel c s of
        None \<Rightarrow> crash UseAfterFree s
      | Some x \<Rightarrow> if tobedeleted x then IvyChannelDelete run_delete c s else s)"

definition ChannelDefferedDelete ::
  "('h \<Rightarrow> addr \<Rightarrow> ('h, 'a) loop_state_scheme \<Rightarrow> ('h, 'a) loop_state_scheme)
   \<Rightarrow> ('h, 'a) loop_state_scheme \<Rightarrow> ('h, 'a) loop_state_scheme" where
  "ChannelDefferedDelete run_delete s =
     each_safe channel_nodes crash (deferred_body run_delete) (channel_nodes s) s"

text \<open>A handler gets the channel, its descriptor and its data. A null one is called all the same.\<close>

definition call_io where
  "call_io run_io get current c s =
     (case find_channel c s of
        None \<Rightarrow> crash UseAfterFree s
      | Some x \<Rightarrow>
          if ch_fd x \<in> current then
            (case get x of None \<Rightarrow> crash NullDeref s | Some h \<Rightarrow> run_io h c (ch_fd x) (ch_data x) s)
          else s)"

type_synonym ('h, 'a) io_handler =
  "'h \<Rightarrow> addr \<Rightarrow> nat \<Rightarrow> addr \<Rightarrow> ('h, 'a) loop_state_scheme \<Rightarrow> ('h, 'a) loop_state_scheme"

type_synonym ('h, 'a) delete_handler =
  "'h \<Rightarrow> addr \<Rightarrow> ('h, 'a) loop_state_scheme \<Rightarrow> ('h, 'a) loop_state_scheme"

definition IvyChannelHandleWrite ::
  "('h, 'a) io_handler \<Rightarrow> nat set \<Rightarrow> ('h, 'a) loop_state_scheme \<Rightarrow> ('h, 'a) loop_state_scheme" where
  "IvyChannelHandleWrite run_io current s =
     each_safe channel_nodes crash (call_io run_io handle_write current) (channel_nodes s) s"

definition IvyChannelHandleRead ::
  "('h, 'a) io_handler \<Rightarrow> nat set \<Rightarrow> ('h, 'a) loop_state_scheme \<Rightarrow> ('h, 'a) loop_state_scheme" where
  "IvyChannelHandleRead run_io current s =
     each_safe channel_nodes crash (call_io run_io handle_read current) (channel_nodes s) s"

definition excpt_body where
  "excpt_body run_delete current c s =
     (case find_channel c s of
        None \<Rightarrow> crash UseAfterFree s
      | Some x \<Rightarrow>
          if ch_fd x \<in> current then
            (case handle_delete x of None \<Rightarrow> s | Some h \<Rightarrow> run_delete h (ch_data x) s)
          else s)"

definition IvyChannelHandleExcpt ::
  "('h, 'a) delete_handler \<Rightarrow> nat set \<Rightarrow> ('h, 'a) loop_state_scheme \<Rightarrow> ('h, 'a) loop_state_scheme" where
  "IvyChannelHandleExcpt run_delete current s =
     each_safe channel_nodes crash (excpt_body run_delete current) (channel_nodes s) s"

definition IvyChannelInit :: "('h, 'a) loop_state_scheme \<Rightarrow> ('h, 'a) loop_state_scheme" where
  "IvyChannelInit s =
     (let s1 = s\<lparr>main_loop := True\<rparr>
      in if channel_initialized s1 then s1
         else s1\<lparr>open_fds := {}, wrdy_fds := {}, channel_initialized := True\<rparr>)"

definition IvyChannelStop :: "('h, 'a) loop_state_scheme \<Rightarrow> ('h, 'a) loop_state_scheme" where
  "IvyChannelStop s = s\<lparr>main_loop := False\<rparr>"

text \<open>
  The answer of \<^verbatim>\<open>select\<close>: an error (interrupted or not), or the ready descriptors for reading,
  writing and exceptions, among those asked for. The clock readings of the iteration come with
  it, one for \<^verbatim>\<open>TimerGetSmallestTimeout\<close> and one for \<^verbatim>\<open>TimerScan\<close>.
\<close>

datatype select_result = SelectFail bool | Ready "nat set" "nat set" "nat set"

record select_event =
  sel_result :: select_result
  sel_before :: ulong
  sel_after :: ulong

record ('h, 'a) loop_env =
  run_delete :: "('h, 'a) delete_handler"
  run_io :: "('h, 'a) io_handler"
  timer_cb :: timer_callbacks
  BeforeSelect :: "('h, 'a) loop_state_scheme \<Rightarrow> ('h, 'a) loop_state_scheme"
  AfterSelect :: "('h, 'a) loop_state_scheme \<Rightarrow> ('h, 'a) loop_state_scheme"

definition handle_ready :: "('h, 'a) loop_env \<Rightarrow> nat set \<Rightarrow> nat set \<Rightarrow> nat set
    \<Rightarrow> ('h, 'a) loop_state_scheme \<Rightarrow> ('h, 'a) loop_state_scheme" where
  "handle_ready env rdset wrset exset s =
     (if rdset = {} \<and> wrset = {} \<and> exset = {} then s
      else IvyChannelHandleWrite (run_io env) wrset
             (IvyChannelHandleRead (run_io env) rdset
               (IvyChannelHandleExcpt (run_delete env) exset s)))"

text \<open>One turn of the loop; the flag says whether the loop goes on.\<close>

definition loop_turn :: "('h, 'a) loop_env \<Rightarrow> select_event \<Rightarrow> ('h, 'a) loop_state_scheme
    \<Rightarrow> bool \<times> ('h, 'a) loop_state_scheme" where
  "loop_turn env ev s =
     (let s1 = BeforeSelect env (ChannelDefferedDelete (run_delete env) s);
          s2 = s1\<lparr>timer_st := snd (TimerGetSmallestTimeout (sel_before ev) (timer_st s1))\<rparr>;
          s3 = AfterSelect env s2;
          s4 = s3\<lparr>timer_st := TimerScan (timer_cb env) (sel_after ev) (timer_st s3)\<rparr>
      in case sel_result ev of
           SelectFail interrupted \<Rightarrow> if interrupted then (True, s4) else (False, s3)
         | Ready rd wr ex \<Rightarrow>
             (True, handle_ready env (rd \<inter> open_fds s1) (wr \<inter> wrdy_fds s1) (ex \<inter> open_fds s1) s4))"

text \<open>The loop, as far as the given answers of \<^verbatim>\<open>select\<close> take it.\<close>

fun IvyMainLoop :: "('h, 'a) loop_env \<Rightarrow> select_event list \<Rightarrow> ('h, 'a) loop_state_scheme
    \<Rightarrow> ('h, 'a) loop_state_scheme" where
  "IvyMainLoop env [] s = s"
| "IvyMainLoop env (ev # evs) s =
     (if main_loop s then
        (case loop_turn env ev s of
           (True, s') \<Rightarrow> IvyMainLoop env evs s'
         | (False, s') \<Rightarrow> s')
      else s)"

definition IvyIdle :: "('h, 'a) loop_env \<Rightarrow> select_result \<Rightarrow> ('h, 'a) loop_state_scheme
    \<Rightarrow> ('h, 'a) loop_state_scheme" where
  "IvyIdle env r s =
     (let s1 = ChannelDefferedDelete (run_delete env) s
      in case r of
           SelectFail _ \<Rightarrow> s1
         | Ready rd wr ex \<Rightarrow>
             handle_ready env (rd \<inter> open_fds s1) (wr \<inter> wrdy_fds s1) (ex \<inter> open_fds s1) s1)"

definition IvySetBeforeSelectHook :: "(('h, 'a) loop_state_scheme \<Rightarrow> ('h, 'a) loop_state_scheme)
    \<Rightarrow> ('h, 'a) loop_env \<Rightarrow> ('h, 'a) loop_env" where
  "IvySetBeforeSelectHook before env = env\<lparr>BeforeSelect := before\<rparr>"

definition IvySetAfterSelectHook :: "(('h, 'a) loop_state_scheme \<Rightarrow> ('h, 'a) loop_state_scheme)
    \<Rightarrow> ('h, 'a) loop_env \<Rightarrow> ('h, 'a) loop_env" where
  "IvySetAfterSelectHook after env = env\<lparr>AfterSelect := after\<rparr>"

subsection \<open>Well-formed channel tables\<close>

text \<open>
  Channels have distinct addresses and descriptors, the open descriptors are theirs, only open
  ones are watched for writing, and all of them are below \<open>highestFd\<close>.
\<close>

definition loop_wf :: "('h, 'a) loop_state_scheme \<Rightarrow> bool" where
  "loop_wf s \<longleftrightarrow> distinct (channel_nodes s) \<and> (\<forall>c \<in> set (channel_nodes s). 0 < c \<and> c < next_addr s)
     \<and> 0 < next_addr s
     \<and> distinct (map ch_fd (channels_list s)) \<and> open_fds s = ch_fd ` set (channels_list s)
     \<and> wrdy_fds s \<subseteq> open_fds s
     \<and> (\<forall>x \<in> set (channels_list s). ch_fd x < highestFd s \<and> ch_fd x < FD_SETSIZE)"

text \<open>What the well-formedness of the table depends on.\<close>

definition chan_view where
  "chan_view s = (channels_list s, open_fds s, wrdy_fds s, highestFd s)"

lemma chan_view_simps:
  "chan_view s = chan_view t \<Longrightarrow> channels_list s = channels_list t \<and> open_fds s = open_fds t
     \<and> wrdy_fds s = wrdy_fds t \<and> highestFd s = highestFd t"
  by (simp add: chan_view_def)

lemma loop_wf_view:
  assumes "chan_view s = chan_view t" "next_addr t \<le> next_addr s" "loop_wf t"
  shows "loop_wf s"
  using assms(2,3) chan_view_simps [OF assms(1)]
  by (auto simp: loop_wf_def channel_nodes_def intro: less_le_trans)

lemma crash_view [simp, frame_simps]:
  "chan_view (crash e s) = chan_view s" "next_addr (crash e s) = next_addr s"
  "channels_list (crash e s) = channels_list s" "open_fds (crash e s) = open_fds s"
  "wrdy_fds (crash e s) = wrdy_fds s" "highestFd (crash e s) = highestFd s"
  "main_loop (crash e s) = main_loop s" "channel_initialized (crash e s) = channel_initialized s"
  "timer_st (crash e s) = timer_st s"
  by (simp_all add: crash_def chan_view_def)

lemma find_channel_Some:
  "find_channel c s = Some x \<Longrightarrow> x \<in> set (channels_list s) \<and> ch x = c"
  by (auto simp: find_channel_def find_Some_iff)

lemma find_channel_in:
  "c \<in> set (channel_nodes s) \<Longrightarrow> \<exists>x. find_channel c s = Some x"
  by (cases "find_channel c s") (auto simp: find_channel_def channel_nodes_def find_None_iff)

lemma find_channel_self:
  assumes "loop_wf s" "x \<in> set (channels_list s)"
  shows "find_channel (ch x) s = Some x"
proof -
  obtain y where y: "find_channel (ch x) s = Some y"
    using find_channel_in [of "ch x" s] assms(2) by (auto simp: channel_nodes_def)
  have "inj_on ch (set (channels_list s))"
    using assms(1) by (simp add: loop_wf_def channel_nodes_def distinct_map)
  then show ?thesis using find_channel_Some [OF y] assms(2) y by (metis inj_onD)
qed

lemma upd_channel_maps:
  assumes "\<And>x. ch (f x) = ch x" "\<And>x. ch_fd (f x) = ch_fd x"
  shows "map ch (channels_list (upd_channel c f s)) = map ch (channels_list s)"
    "map ch_fd (channels_list (upd_channel c f s)) = map ch_fd (channels_list s)"
  using assms by (simp_all add: upd_channel_def comp_def if_distrib cong: if_cong)

lemma upd_channel_same [simp, frame_simps]:
  "open_fds (upd_channel c f s) = open_fds s" "wrdy_fds (upd_channel c f s) = wrdy_fds s"
  "highestFd (upd_channel c f s) = highestFd s" "next_addr (upd_channel c f s) = next_addr s"
  "fault (upd_channel c f s) = fault s" "timer_st (upd_channel c f s) = timer_st s"
  "main_loop (upd_channel c f s) = main_loop s"
  by (simp_all add: upd_channel_def)

lemma raise_highest_same [simp, frame_simps]:
  "channels_list (raise_highest fd s) = channels_list s" "open_fds (raise_highest fd s) = open_fds s"
  "wrdy_fds (raise_highest fd s) = wrdy_fds s" "next_addr (raise_highest fd s) = next_addr s"
  "fault (raise_highest fd s) = fault s" "timer_st (raise_highest fd s) = timer_st s"
  "highestFd (raise_highest fd s) = max (highestFd s) (fd + 1)"
  "main_loop (raise_highest fd s) = main_loop s"
  by (simp_all add: raise_highest_def)

lemma loop_wf_alt:
  "loop_wf s \<longleftrightarrow> distinct (map ch (channels_list s))
     \<and> (\<forall>c \<in> set (map ch (channels_list s)). 0 < c \<and> c < next_addr s) \<and> 0 < next_addr s
     \<and> distinct (map ch_fd (channels_list s)) \<and> open_fds s = set (map ch_fd (channels_list s))
     \<and> wrdy_fds s \<subseteq> open_fds s
     \<and> (\<forall>fd \<in> set (map ch_fd (channels_list s)). fd < highestFd s \<and> fd < FD_SETSIZE)"
  by (auto simp: loop_wf_def channel_nodes_def)

lemma loop_wf_crash [simp]: "loop_wf (crash e s) = loop_wf s"
  by (simp add: loop_wf_def channel_nodes_def)

lemma IvyChannelRemove_wf: "loop_wf s \<Longrightarrow> loop_wf (IvyChannelRemove c s)"
  unfolding IvyChannelRemove_def
  by (cases "find_channel c s") (auto simp: loop_wf_alt upd_channel_maps simp del: set_map)

lemma IvyChannelAdd_wf:
  assumes "loop_wf s" "fd \<notin> open_fds s" "fd < FD_SETSIZE" "IvyChannelAdd fd d hdl hr hw s = (c, s')"
  shows "loop_wf s' \<and> find_channel c s' = Some \<lparr>ch = c, ch_fd = fd, ch_data = d, tobedeleted = False,
      handle_delete = hdl, handle_read = hr, handle_write = hw\<rparr> \<and> open_fds s' = insert fd (open_fds s)
    \<and> fault s' = fault s"
proof -
  let ?x = "\<lparr>ch = c, ch_fd = fd, ch_data = d, tobedeleted = False,
    handle_delete = hdl, handle_read = hr, handle_write = hw\<rparr>"
  have s': "c = next_addr s" "channels_list s' = ?x # channels_list s" "open_fds s' = insert fd (open_fds s)"
    "wrdy_fds s' = wrdy_fds s" "highestFd s' = max (highestFd s) (fd + 1)" "next_addr s' = Suc (next_addr s)"
    "fault s' = fault s"
    using assms(3,4) by (auto simp: IvyChannelAdd_def FD_SET_open_def Let_def)
  have "next_addr s \<notin> set (map ch (channels_list s))" using assms(1) unfolding loop_wf_alt by blast
  then have "loop_wf s'"
    using assms(1-3) s'(1-6) unfolding loop_wf_alt
    by (auto simp: less_max_iff_disj less_Suc_eq simp del: s'(1))
  then show ?thesis using s' by (simp add: find_channel_def)
qed

lemma IvyChannelAddWritableEvent_wf:
  assumes "loop_wf s"
  shows "loop_wf (IvyChannelAddWritableEvent c s)"
proof (cases "find_channel c s")
  case (Some x)
  then have "ch_fd x \<in> open_fds s" "ch_fd x < FD_SETSIZE" "ch_fd x < highestFd s"
    using find_channel_Some [OF Some] assms by (auto simp: loop_wf_def)
  then show ?thesis using assms Some
    by (auto simp: IvyChannelAddWritableEvent_def FD_SET_wrdy_def loop_wf_alt less_max_iff_disj)
qed (simp add: IvyChannelAddWritableEvent_def assms)

lemma IvyChannelClearWritableEvent_wf:
  "loop_wf s \<Longrightarrow> loop_wf (IvyChannelClearWritableEvent c s)"
  by (auto simp: IvyChannelClearWritableEvent_def loop_wf_alt split: option.splits)

subsection \<open>The contract of a delete handler\<close>

text \<open>
  What handlers must keep for the loop to keep it, turn after turn: a property of the state that does not
  depend on the timers, kept by every handler, by the deletion of a channel and by the two hooks.
\<close>

locale loop_inv =
  fixes le :: "('h, 'a) loop_env" and Inv :: "('h, 'a) loop_state_scheme \<Rightarrow> bool"
  assumes crash_inv: "Inv s \<Longrightarrow> Inv (crash e s)"
    and delete_inv: "Inv s \<Longrightarrow> Inv (run_delete le h d s)"
    and channel_delete_inv: "Inv s \<Longrightarrow> Inv (IvyChannelDelete (run_delete le) c s)"
    and io_inv: "Inv s \<Longrightarrow> Inv (run_io le h c fd d s)"
    and timers_inv: "Inv s \<Longrightarrow> Inv (s\<lparr>timer_st := ts\<rparr>)"
    and hooks_inv: "Inv s \<Longrightarrow> Inv (BeforeSelect le s)" "Inv s \<Longrightarrow> Inv (AfterSelect le s)"
begin

lemma each_inv: "Inv s \<Longrightarrow> (\<And>p t. Inv t \<Longrightarrow> Inv (body p t)) \<Longrightarrow> Inv (each_safe nodes crash body ps s)"
  by (rule each_safe_keeps [where Q = Inv]) (use crash_inv in blast)+

lemma deferred_inv: "Inv s \<Longrightarrow> Inv (ChannelDefferedDelete (run_delete le) s)"
  unfolding ChannelDefferedDelete_def
  by (rule each_inv) (simp_all add: deferred_body_def crash_inv channel_delete_inv split: option.split)

lemma ready_inv: "Inv s \<Longrightarrow> Inv (handle_ready le rd wr ex s)"
  unfolding handle_ready_def IvyChannelHandleWrite_def IvyChannelHandleRead_def IvyChannelHandleExcpt_def
  by (simp, intro impI each_inv)
    (simp_all add: call_io_def excpt_body_def crash_inv io_inv delete_inv split: option.split)

lemma turn_inv: "Inv s \<Longrightarrow> Inv (snd (loop_turn le ev s))"
  by (simp add: loop_turn_def Let_def deferred_inv ready_inv timers_inv hooks_inv split: select_result.split)

lemma main_loop_inv: "Inv s \<Longrightarrow> Inv (IvyMainLoop le evs s)"
proof (induction evs arbitrary: s)
  case (Cons ev evs)
  obtain g t where t: "loop_turn le ev s = (g, t)" by force
  then have "Inv t" using turn_inv [OF Cons.prems, of ev] by simp
  then show ?case using Cons t by (cases g) simp_all
qed simp

lemma idle_inv: "Inv s \<Longrightarrow> Inv (IvyIdle le r s)"
  by (simp add: IvyIdle_def Let_def deferred_inv ready_inv split: select_result.split)

end

text \<open>
  A delete handler tears down what the channel stands for and leaves the channel table alone; the
  deferred deletion then removes exactly the marked channels.
\<close>

locale quiet_delete =
  fixes rd :: "('h, 'a) delete_handler"
  assumes rd_view: "chan_view (rd h d s) = chan_view s"
    and rd_next: "next_addr s \<le> next_addr (rd h d s)"
begin

lemma delete_step:
  assumes "find_channel c s = Some x"
  shows "channels_list (IvyChannelDelete rd c s) = filter (\<lambda>y. ch y \<noteq> c) (channels_list s)"
    "open_fds (IvyChannelDelete rd c s) = open_fds s - {ch_fd x}"
    "wrdy_fds (IvyChannelDelete rd c s) = wrdy_fds s - {ch_fd x}"
    "highestFd (IvyChannelDelete rd c s) = highestFd s"
    "next_addr s \<le> next_addr (IvyChannelDelete rd c s)"
  using assms rd_view [of _ "ch_data x" s, THEN chan_view_simps] rd_next [of s _ "ch_data x"]
  by (auto simp: IvyChannelDelete_def Let_def split: option.splits)

lemma distinct_filter_fd:
  assumes "loop_wf s" "x \<in> set (channels_list s)"
  shows "ch_fd ` set (filter (\<lambda>y. ch y \<noteq> ch x) (channels_list s)) = open_fds s - {ch_fd x}"
proof -
  have i: "inj_on ch (set (channels_list s))" "inj_on ch_fd (set (channels_list s))"
    "open_fds s = ch_fd ` set (channels_list s)"
    using assms(1) by (simp_all add: loop_wf_def channel_nodes_def distinct_map)
  then have "\<forall>y \<in> set (channels_list s). ch y \<noteq> ch x \<longleftrightarrow> ch_fd y \<noteq> ch_fd x"
    using assms(2) by (metis inj_onD)
  then show ?thesis using i(3) by auto
qed

lemma delete_wf:
  assumes "loop_wf s" "find_channel c s = Some x"
  shows "loop_wf (IvyChannelDelete rd c s)"
proof -
  have x: "x \<in> set (channels_list s)" "ch x = c" using find_channel_Some [OF assms(2)] by auto
  have d: "distinct (map g (filter P (channels_list s)))"
    if "distinct (map g (channels_list s))" for P and g :: "'h channel \<Rightarrow> nat"
    using that by (simp add: distinct_map_filter)
  show ?thesis
    using assms(1) distinct_filter_fd [OF assms(1) x(1)] x(2) delete_step [OF assms(2)] d
    unfolding loop_wf_def channel_nodes_def by (auto intro: less_le_trans)
qed

lemma deferred_body_eq:
  assumes "loop_wf s"
  shows "loop_wf (deferred_body rd c s)
    \<and> channels_list (deferred_body rd c s) = filter (\<lambda>y. ch y \<noteq> c \<or> \<not> tobedeleted y) (channels_list s)"
proof (cases "find_channel c s")
  case None
  then have "\<forall>y \<in> set (channels_list s). ch y \<noteq> c" by (auto simp: find_channel_def find_None_iff)
  then show ?thesis using assms None by (auto simp: deferred_body_def intro!: filter_True [symmetric])
next
  case (Some x)
  have same: "\<forall>y \<in> set (channels_list s). ch y = c \<longrightarrow> y = x"
    using find_channel_self [OF assms] Some by fastforce
  show ?thesis
  proof (cases "tobedeleted x")
    case True
    then have "filter (\<lambda>y. ch y \<noteq> c \<or> \<not> tobedeleted y) (channels_list s) = filter (\<lambda>y. ch y \<noteq> c) (channels_list s)"
      using same by (intro filter_cong) auto
    then show ?thesis
      using Some True delete_wf [OF assms Some] delete_step(1) [OF Some] by (simp add: deferred_body_def)
  next
    case False
    then have "filter (\<lambda>y. ch y \<noteq> c \<or> \<not> tobedeleted y) (channels_list s) = channels_list s"
      using same by (intro filter_True) auto
    then show ?thesis using Some False assms by (simp add: deferred_body_def)
  qed
qed

lemma deferred_fold:
  "loop_wf s \<Longrightarrow> channels_list (fold (deferred_body rd) ps s)
     = filter (\<lambda>y. ch y \<notin> set ps \<or> \<not> tobedeleted y) (channels_list s)"
proof (induction ps arbitrary: s)
  case (Cons p ps)
  note b = deferred_body_eq [OF Cons.prems, of p]
  have "channels_list (fold (deferred_body rd) (p # ps) s)
      = filter (\<lambda>y. ch y \<notin> set ps \<or> \<not> tobedeleted y)
          (filter (\<lambda>y. ch y \<noteq> p \<or> \<not> tobedeleted y) (channels_list s))"
    using Cons.IH [of "deferred_body rd p s"] b by simp
  also have "\<dots> = filter (\<lambda>y. ch y \<notin> set (p # ps) \<or> \<not> tobedeleted y) (channels_list s)"
    unfolding filter_filter by (rule filter_cong) auto
  finally show ?case .
qed simp

text \<open>The deferred deletion is a filter of the table, and keeps it well formed.\<close>

lemma deferred_delete:
  assumes "loop_wf s"
  shows "loop_wf (ChannelDefferedDelete rd s)
    \<and> channels_list (ChannelDefferedDelete rd s) = filter (\<lambda>y. \<not> tobedeleted y) (channels_list s)
    \<and> ChannelDefferedDelete rd s = fold (deferred_body rd) (channel_nodes s) s"
proof -
  have body: "loop_wf (deferred_body rd p t) \<and> (\<exists>pre'. channel_nodes (deferred_body rd p t) = pre' @ ps)"
    if t: "loop_wf t" "channel_nodes t = pre @ p # ps" for t pre p ps
  proof -
    note b = deferred_body_eq [OF t(1), of p]
    obtain us v ws where u: "channels_list t = us @ v # ws" "map ch us = pre" "ch v = p" "map ch ws = ps"
      using t(2) by (auto simp: channel_nodes_def map_eq_append_conv map_eq_Cons_conv)
    have "p \<notin> set ps" using t by (simp add: loop_wf_def)
    then have "\<forall>y \<in> set ws. ch y \<noteq> p" using u(4) by auto
    then have "filter (\<lambda>y. ch y \<noteq> p \<or> \<not> tobedeleted y) ws = ws" by (intro filter_True) auto
    then show ?thesis using b u(1,4) by (auto simp: channel_nodes_def)
  qed
  have "each_safe channel_nodes crash (deferred_body rd) (channel_nodes s) s
      = fold (deferred_body rd) (channel_nodes s) s
    \<and> loop_wf (fold (deferred_body rd) (channel_nodes s) s)"
    by (rule each_safe_fold [where I = loop_wf and pre = "[]"], erule (1) body)
      (simp_all add: assms, simp add: loop_wf_def)
  moreover have "filter (\<lambda>y. ch y \<notin> set (channel_nodes s) \<or> \<not> tobedeleted y) (channels_list s)
      = filter (\<lambda>y. \<not> tobedeleted y) (channels_list s)"
    by (intro filter_cong) (auto simp: channel_nodes_def)
  ultimately show ?thesis
    using deferred_fold [OF assms, of "channel_nodes s"] by (simp add: ChannelDefferedDelete_def)
qed

end

end
