(* ===== verification/Ivy_Socket.thy ===== *)
theory Ivy_Socket
  imports Ivy_Loop Ivy_Fifo Ivy_Buffer
begin

text \<open>
  The sockets, \<^verbatim>\<open>src/ivysocket.c\<close>: TCP servers and clients, the UDP socket of the discovery, line
  framing, and sending with a ring buffer under congestion. The kernel's side of a socket is
  part of its record: the answers \<^verbatim>\<open>send\<close> and \<^verbatim>\<open>recv\<close> will give (\<open>send_answers\<close>,
  \<open>recv_answers\<close>), and the bytes the kernel has taken so far (\<open>wire\<close>). Functions the caller
  passes are numbers (\<open>fnptr\<close>, 0 is null); the record \<open>callbacks\<close> says what they do. The receive
  buffer is the bytes between \<^verbatim>\<open>client->buffer\<close> and \<^verbatim>\<open>client->ptr\<close>. Built without \<^verbatim>\<open>OPENMP\<close>, \<^verbatim>\<open>DEBUG\<close> and
  \<^verbatim>\<open>WIN32\<close>; memory allocation succeeds.
\<close>

datatype SendState = SendOk | SendStillCongestion | SendStateChangeToCongestion
  | SendStateChangeToDecongestion | SendStateFifoFull | SendError | SendParamError

datatype sock_handler = H_DeleteSocket | H_DeleteServerSocket | H_HandleSocket | H_HandleServer
  | H_HandleCongestionWrite | H_App nat

type_synonym fnptr = nat

text \<open>A socket address; the port is the field as stored, in network byte order.\<close>

record sockaddr =
  is_ipv6 :: bool
  ip_addr :: nat
  net_port :: nat

definition htons :: "nat \<Rightarrow> nat" where
  "htons n = (n mod 256) * 256 + (n div 256) mod 256"

definition ntohs :: "nat \<Rightarrow> nat" where
  "ntohs n = htons n"

lemma ntohs_htons [simp]: "n < 65536 \<Longrightarrow> ntohs (htons n) = n"
proof -
  assume "n < 65536"
  then have h: "n div 256 < 256" by (simp add: less_mult_imp_div_less)
  define m where "m = htons n"
  have "m = n mod 256 * 256 + n div 256" using h by (simp add: m_def htons_def)
  then have "m mod 256 = n div 256" "m div 256 = n mod 256" using h by simp_all
  then have "htons m = n div 256 * 256 + n mod 256" by (simp add: htons_def)
  then show ?thesis by (simp add: ntohs_def m_def)
qed

datatype recv_result = RecvError | RecvData bytes

record server =
  sid :: addr
  sfd :: nat
  schannel :: addr
  sport :: nat
  sipv6 :: bool
  screate :: fnptr
  shandle_delete :: fnptr
  shandle_decongestion :: fnptr
  sinterpretation :: fnptr
  accept_answers :: "(nat \<times> sockaddr \<times> nat) option list"

text \<open>
  \<open>app_uuid\<close> is the array of 128 bytes; \<open>local_port\<close> is the port \<^verbatim>\<open>getsockname\<close> reports,
  in network order, \<open>dgram\<close> is set for the UDP socket.
\<close>

record client =
  cid :: addr
  cfd :: nat
  cchannel :: addr
  app_uuid :: bytes
  ipv6 :: bool
  sfrom :: sockaddr
  from_len :: nat
  interpretation_fn :: fnptr
  chandle_delete :: fnptr
  chandle_decongestion :: fnptr
  terminator :: char
  buffer_size :: nat
  rbuf :: bytes
  ifb :: "IvyFifoBuffer option"
  cdata :: addr
  local_port :: nat
  dgram :: bool
  send_answers :: send_script
  recv_answers :: "(recv_result \<times> sockaddr) list"
  wire :: bytes

record sock_state = "sock_handler loop_state" +
  servers_list :: "server list"
  clients_list :: "client list"
  closed_fds :: "nat list"
  exited :: bool
  send_buf :: IvyBuffer
  bcast_buf :: IvyBuffer
  dgram_buf :: IvyBuffer
  dgram6_buf :: IvyBuffer
  datagrams :: "(nat \<times> sockaddr \<times> bytes) list"
  groups :: "(nat \<times> nat) list"

text \<open>The length of an address, as the kernel reports it.\<close>

definition sockaddr_len :: "sockaddr \<Rightarrow> nat" where
  "sockaddr_len a = (if is_ipv6 a then 28 else 16)"

text \<open>
  What the functions given to this module do; a line is a C string. \<open>os_nodelay\<close> is the answer of
  the kernel when \<^verbatim>\<open>TCP_NODELAY\<close> is set on the descriptor of an accepted connection.
\<close>

record 'a callbacks =
  call_interp :: "fnptr \<Rightarrow> addr \<Rightarrow> addr \<Rightarrow> string \<Rightarrow> 'a sock_state_scheme \<Rightarrow> 'a sock_state_scheme"
  call_delete :: "fnptr \<Rightarrow> addr \<Rightarrow> addr \<Rightarrow> 'a sock_state_scheme \<Rightarrow> 'a sock_state_scheme"
  call_decongestion :: "fnptr \<Rightarrow> addr \<Rightarrow> addr \<Rightarrow> 'a sock_state_scheme \<Rightarrow> 'a sock_state_scheme"
  call_create :: "fnptr \<Rightarrow> addr \<Rightarrow> 'a sock_state_scheme \<Rightarrow> addr \<times> 'a sock_state_scheme"
  call_app :: "nat \<Rightarrow> addr \<Rightarrow> 'a sock_state_scheme \<Rightarrow> 'a sock_state_scheme"
  os_nodelay :: "nat \<Rightarrow> bool"

subsection \<open>Access to the lists\<close>

definition find_client :: "addr \<Rightarrow> 'a sock_state_scheme \<Rightarrow> client option" where
  "find_client c s = find (\<lambda>x. cid x = c) (clients_list s)"

definition upd_client :: "addr \<Rightarrow> (client \<Rightarrow> client) \<Rightarrow> 'a sock_state_scheme \<Rightarrow> 'a sock_state_scheme" where
  "upd_client c f s = s\<lparr>clients_list := map (\<lambda>x. if cid x = c then f x else x) (clients_list s)\<rparr>"

definition find_server :: "addr \<Rightarrow> 'a sock_state_scheme \<Rightarrow> server option" where
  "find_server i s = find (\<lambda>x. sid x = i) (servers_list s)"

text \<open>Run \<open>f\<close> on the client a pointer designates; a freed one is undefined behaviour.\<close>

definition with_client ::
  "addr \<Rightarrow> 'a sock_state_scheme \<Rightarrow> (client \<Rightarrow> 'a sock_state_scheme) \<Rightarrow> 'a sock_state_scheme" where
  "with_client c s f =
     (if c = NULL then crash NullDeref s
      else case find_client c s of None \<Rightarrow> crash UseAfterFree s | Some x \<Rightarrow> f x)"

subsection \<open>Setting up and tearing down\<close>

definition SocketInit :: "'a sock_state_scheme \<Rightarrow> 'a sock_state_scheme" where
  "SocketInit s = IvyChannelInit s"

text \<open>The client is looked up again after its delete callback has run.\<close>

definition DeleteSocket :: "'a callbacks \<Rightarrow> addr \<Rightarrow> 'a sock_state_scheme \<Rightarrow> 'a sock_state_scheme" where
  "DeleteSocket cb c s =
     with_client c s (\<lambda>x.
       let s1 = (if chandle_delete x \<noteq> NULL then call_delete cb (chandle_delete x) c (cdata x) s else s)
       in with_client c s1 (\<lambda>y.
            s1\<lparr>closed_fds := cfd y # closed_fds s1,
               clients_list := filter (\<lambda>z. cid z \<noteq> c) (clients_list s1)\<rparr>))"

definition DeleteServerSocket :: "addr \<Rightarrow> 'a sock_state_scheme \<Rightarrow> 'a sock_state_scheme" where
  "DeleteServerSocket i s =
     (case find_server i s of
        None \<Rightarrow> crash UseAfterFree s
      | Some v \<Rightarrow> s\<lparr>closed_fds := sfd v # closed_fds s,
                    servers_list := filter (\<lambda>z. sid z \<noteq> i) (servers_list s)\<rparr>)"

definition SocketClose :: "addr \<Rightarrow> 'a sock_state_scheme \<Rightarrow> 'a sock_state_scheme" where
  "SocketClose c s = (if c = NULL then s else with_client c s (\<lambda>x. IvyChannelRemove (cchannel x) s))"

definition SocketServerClose :: "addr \<Rightarrow> 'a sock_state_scheme \<Rightarrow> 'a sock_state_scheme" where
  "SocketServerClose i s =
     (if i = NULL then s
      else case find_server i s of
        None \<Rightarrow> crash UseAfterFree s
      | Some v \<Rightarrow> IvyChannelRemove (schannel v) s)"

definition SocketServerGetPort :: "addr \<Rightarrow> 'a sock_state_scheme \<Rightarrow> nat" where
  "SocketServerGetPort i s = (if i = NULL then 0 else case find_server i s of None \<Rightarrow> 0 | Some v \<Rightarrow> sport v)"

subsection \<open>Receiving\<close>

text \<open>
  \<^verbatim>\<open>recvfrom\<close> with room for \<open>n\<close> bytes: a stream keeps what did not fit for the next call and gives
  no address (its length is then set to 0), a datagram loses it and gives its sender. With no
  answer left the call fails, and leaves the length as it was set before the call, the size of
  a \<^verbatim>\<open>struct sockaddr_storage\<close>.
\<close>

definition os_recv :: "bool \<Rightarrow> nat \<Rightarrow> (recv_result \<times> sockaddr) list
    \<Rightarrow> recv_result \<times> sockaddr option \<times> (recv_result \<times> sockaddr) list" where
  "os_recv dg n answers =
     (case answers of
        [] \<Rightarrow> (RecvError, None, [])
      | (RecvError, a) # rest \<Rightarrow> (RecvError, None, rest)
      | (RecvData b, a) # rest \<Rightarrow>
          (RecvData (take n b), if dg then Some a else None,
           if \<not> dg \<and> n < length b then (RecvData (drop n b), a) # rest else rest))"

text \<open>
  The framing loop on the bytes received and not yet delivered (\<open>pend\<close>, from \<^verbatim>\<open>ptr\<close> to
  \<^verbatim>\<open>client->ptr\<close>): it replaces each terminator by a NUL, hands the line to the interpretation
  function, and returns the incomplete line. Each turn reads the client again.
\<close>

function handle_lines ::
  "'a callbacks \<Rightarrow> addr \<Rightarrow> bytes \<Rightarrow> 'a sock_state_scheme \<Rightarrow> bytes \<times> 'a sock_state_scheme" where
  "handle_lines cb c pend s =
     (case find_client c s of
        None \<Rightarrow> ([], crash UseAfterFree s)
      | Some x \<Rightarrow>
          (case split_at (terminator x) pend of
             None \<Rightarrow> (pend, s)
           | Some (line, rest) \<Rightarrow>
               handle_lines cb c rest
                 (if interpretation_fn x \<noteq> NULL
                  then call_interp cb (interpretation_fn x) c (cdata x) (cstr line) s else s)))"
  by pat_completeness auto
termination
  by (relation "measure (\<lambda>(cb, c, pend, s). length pend)") (auto dest: split_at_length)

declare handle_lines.simps [simp del]

definition HandleSocket :: "'a callbacks \<Rightarrow> addr \<Rightarrow> 'a sock_state_scheme \<Rightarrow> 'a sock_state_scheme" where
  "HandleSocket cb c s =
     with_client c s (\<lambda>x.
       let bsize = (if buffer_size x - length (rbuf x) = 0 then buffer_size x * 2 else buffer_size x);
           (r, from, rest) = os_recv (dgram x) (bsize - length (rbuf x)) (recv_answers x);
           s1 = upd_client c (\<lambda>y. y\<lparr>buffer_size := bsize, recv_answers := rest,
                  sfrom := (case from of None \<Rightarrow> sfrom y | Some a \<Rightarrow> a),
                  from_len := (case r of RecvError \<Rightarrow> 128
                    | RecvData b \<Rightarrow> (case from of None \<Rightarrow> 0 | Some a \<Rightarrow> sockaddr_len a))\<rparr>) s
       in case r of
            RecvError \<Rightarrow> IvyChannelRemove (cchannel x) s1
          | RecvData b \<Rightarrow>
              if b = [] then IvyChannelRemove (cchannel x) s1
              else (let s2 = upd_client c (\<lambda>y. y\<lparr>rbuf := rbuf y @ b\<rparr>) s1;
                        (pend, s3) = handle_lines cb c (rbuf x @ b) s2
                    in upd_client c (\<lambda>y. y\<lparr>rbuf := pend\<rparr>) s3))"

subsection \<open>Sending\<close>

definition fifo_put :: "addr \<Rightarrow> IvyFifoBuffer \<Rightarrow> bytes \<Rightarrow> 'a sock_state_scheme \<Rightarrow> 'a sock_state_scheme" where
  "fifo_put c f b s =
     (case IvyFifoWrite f b of
        None \<Rightarrow> crash Hang s
      | Some f' \<Rightarrow> upd_client c (\<lambda>y. y\<lparr>ifb := Some f'\<rparr>) s)"

definition BufferizedSocketSendRaw ::
  "addr \<Rightarrow> bytes \<Rightarrow> 'a sock_state_scheme \<Rightarrow> SendState \<times> 'a sock_state_scheme" where
  "BufferizedSocketSendRaw c b s =
     (case find_client c s of
        None \<Rightarrow> (SendError, crash UseAfterFree s)
      | Some x \<Rightarrow>
          (case ifb x of
             Some f \<Rightarrow>
               (let s1 = fifo_put c f b s
                in (case find_client c s1 of
                      None \<Rightarrow> SendStillCongestion
                    | Some y \<Rightarrow>
                        (case ifb y of
                           Some f' \<Rightarrow> if IvyFifoIsFull f' then SendStateFifoFull else SendStillCongestion
                         | None \<Rightarrow> SendStillCongestion), s1))
           | None \<Rightarrow>
               (case os_send (send_answers x) (length b) of
                  (Accept k, rest) \<Rightarrow>
                    (let s1 = upd_client c (\<lambda>y. y\<lparr>send_answers := rest, wire := wire y @ take k b\<rparr>) s
                     in if k = length b then (SendOk, s1)
                        else (SendStateChangeToCongestion,
                              IvyChannelAddWritableEvent (cchannel x) (fifo_put c IvyFifoNew (drop k b) s1)))
                | (SendFail e, rest) \<Rightarrow>
                    (let s1 = upd_client c (\<lambda>y. y\<lparr>send_answers := rest\<rparr>) s
                     in if e = EWOULDBLOCK
                        then (SendStateChangeToCongestion,
                              IvyChannelAddWritableEvent (cchannel x) (fifo_put c IvyFifoNew b s1))
                        else (SendError, s1)))))"

definition SocketSendRaw :: "addr \<Rightarrow> bytes \<Rightarrow> 'a sock_state_scheme \<Rightarrow> SendState \<times> 'a sock_state_scheme" where
  "SocketSendRaw c b s = (if c = NULL then (SendParamError, s) else BufferizedSocketSendRaw c b s)"

definition SocketSendRawWithId ::
  "addr \<Rightarrow> string \<Rightarrow> bytes \<Rightarrow> 'a sock_state_scheme \<Rightarrow> SendState \<times> 'a sock_state_scheme" where
  "SocketSendRawWithId c i b s =
     (let (st1, s1) = BufferizedSocketSendRaw c i s;
          (st2, s2) = BufferizedSocketSendRaw c b s1
      in (if st1 = SendStateChangeToCongestion then st1 else st2, s2))"

text \<open>Format into a static buffer; the text is what the format and its arguments produce.\<close>

definition format_static :: "IvyBuffer \<Rightarrow> string \<Rightarrow> (int \<times> IvyBuffer) option" where
  "format_static b out = make_message False (\<lambda>_. True) b out"

definition buffer_bytes :: "IvyBuffer \<Rightarrow> int \<Rightarrow> bytes" where
  "buffer_bytes b n = (case bdata b of None \<Rightarrow> [] | Some block \<Rightarrow> take (nat n) block)"

definition SocketSend :: "addr \<Rightarrow> string \<Rightarrow> 'a sock_state_scheme \<Rightarrow> SendState \<times> 'a sock_state_scheme" where
  "SocketSend c out s =
     (case format_static ((send_buf s)\<lparr>boffset := 0\<rparr>) out of
        None \<Rightarrow> (SendError, crash Hang s)
      | Some (len, b) \<Rightarrow> SocketSendRaw c (buffer_bytes b len) (s\<lparr>send_buf := b\<rparr>))"

definition client_nodes :: "'a sock_state_scheme \<Rightarrow> addr list" where
  "client_nodes s = map cid (clients_list s)"

text \<open>Unlike \<^verbatim>\<open>SocketSend\<close>, this one does not reset the offset of its buffer.\<close>

definition SocketBroadcast :: "string \<Rightarrow> 'a sock_state_scheme \<Rightarrow> 'a sock_state_scheme" where
  "SocketBroadcast out s =
     (case format_static (bcast_buf s) out of
        None \<Rightarrow> crash Hang s
      | Some (len, b) \<Rightarrow>
          (let s1 = s\<lparr>bcast_buf := b\<rparr>
           in each client_nodes crash (\<lambda>c t. snd (SocketSendRaw c (buffer_bytes b len) t))
                (client_nodes s1) s1))"

definition HandleCongestionWrite ::
  "'a callbacks \<Rightarrow> addr \<Rightarrow> addr \<Rightarrow> 'a sock_state_scheme \<Rightarrow> 'a sock_state_scheme" where
  "HandleCongestionWrite cb chan c s =
     with_client c s (\<lambda>x.
       case ifb x of
         None \<Rightarrow> crash NullDeref s
       | Some f \<Rightarrow>
           (let (remaining, out, f', rest) = IvyFifoSendSocket f (send_answers x) [];
                s1 = upd_client c (\<lambda>y. y\<lparr>ifb := Some f', send_answers := rest, wire := wire y @ out\<rparr>) s
            in if remaining = IVY_FIFO_SEND_ERROR then SocketClose c s1
               else if remaining = 0 then
                 (let s2 = upd_client c (\<lambda>y. y\<lparr>ifb := None\<rparr>) (IvyChannelClearWritableEvent chan s1)
                  in if chandle_decongestion x \<noteq> NULL
                     then call_decongestion cb (chandle_decongestion x) c (cdata x) s2 else s2)
               else s1))"


subsection \<open>New sockets\<close>

text \<open>The array \<^verbatim>\<open>app_uuid\<close> after \<^verbatim>\<open>strcpy\<close> into zeroed memory, or after \<^verbatim>\<open>strncpy\<close>.\<close>

definition UUID_SIZE :: nat where
  "UUID_SIZE = 128"

definition uuid_block :: "string \<Rightarrow> bytes" where
  "uuid_block u = take UUID_SIZE (u @ replicate UUID_SIZE NUL)"

text \<open>A client as the constructors below leave it, before the fields that differ.\<close>

definition fresh_client :: "addr \<Rightarrow> nat \<Rightarrow> bool \<Rightarrow> string \<Rightarrow> client" where
  "fresh_client c fd v6 u =
     \<lparr>cid = c, cfd = fd, cchannel = NULL, app_uuid = uuid_block u, ipv6 = v6,
      sfrom = \<lparr>is_ipv6 = False, ip_addr = 0, net_port = 0\<rparr>, from_len = 0,
      interpretation_fn = NULL, chandle_delete = NULL, chandle_decongestion = NULL,
      terminator = CHR 0x0A, buffer_size = nat IVY_BUFFER_SIZE, rbuf = [], ifb = None, cdata = NULL,
      local_port = 0, dgram = False, send_answers = [], recv_answers = [], wire = []\<rparr>"

definition exit_process :: "'a sock_state_scheme \<Rightarrow> 'a sock_state_scheme" where
  "exit_process s = s\<lparr>exited := True\<rparr>"

text \<open>
  \<^verbatim>\<open>accept\<close> gives the new descriptor, the peer and the local port. The client is linked before
  the \<^verbatim>\<open>create\<close> callback here and after it in the code; the callback does not use the list.
\<close>

definition HandleServer :: "'a callbacks \<Rightarrow> addr \<Rightarrow> 'a sock_state_scheme \<Rightarrow> 'a sock_state_scheme" where
  "HandleServer cb i s =
     (case find_server i s of
        None \<Rightarrow> crash UseAfterFree s
      | Some v \<Rightarrow>
          (case accept_answers v of
             [] \<Rightarrow> s
           | None # rest \<Rightarrow>
               s\<lparr>servers_list := map (\<lambda>z. if sid z = i then z\<lparr>accept_answers := rest\<rparr> else z) (servers_list s)\<rparr>
           | Some (ns, remote, lport) # rest \<Rightarrow>
               (let s1 = s\<lparr>servers_list := map (\<lambda>z. if sid z = i then z\<lparr>accept_answers := rest\<rparr> else z) (servers_list s)\<rparr>
                in if \<not> os_nodelay cb ns then exit_process s1
                else let c = next_addr s1;
                    (chan, s2) = IvyChannelAdd ns c (Some H_DeleteSocket) (Some H_HandleSocket)
                       (Some H_HandleCongestionWrite) (s1\<lparr>next_addr := Suc c\<rparr>);
                    x = (fresh_client c ns (sipv6 v) ''init by HandleServer'')
                          \<lparr>cchannel := chan, sfrom := remote, from_len := sockaddr_len remote, local_port := lport,
                           interpretation_fn := sinterpretation v, chandle_delete := shandle_delete v,
                           chandle_decongestion := shandle_decongestion v\<rparr>;
                    (d, s3) = call_create cb (screate v) c (s2\<lparr>clients_list := x # clients_list s2\<rparr>)
                in upd_client c (\<lambda>y. y\<lparr>cdata := d\<rparr>) s3)))"

text \<open>
  What the kernel answers to \<^verbatim>\<open>socket\<close>, \<^verbatim>\<open>setsockopt\<close>, \<^verbatim>\<open>bind\<close>, \<^verbatim>\<open>getsockname\<close> (the port bound, in
  host order), \<^verbatim>\<open>listen\<close> and \<^verbatim>\<open>connect\<close>.
\<close>

record sock_answers =
  os_socket :: "nat option"
  os_setsockopt :: bool
  os_bind :: bool
  os_getsockname :: "nat option"
  os_listen :: bool
  os_connect :: bool

definition SocketServer ::
  "sock_answers \<Rightarrow> bool \<Rightarrow> nat \<Rightarrow> fnptr \<Rightarrow> fnptr \<Rightarrow> fnptr \<Rightarrow> fnptr \<Rightarrow> 'a sock_state_scheme
   \<Rightarrow> addr \<times> 'a sock_state_scheme" where
  "SocketServer os v6 port create hdelete hdecong interp s =
     (case os_socket os of
        None \<Rightarrow> (NULL, exit_process s)
      | Some fd \<Rightarrow>
          if \<not> os_setsockopt os \<or> \<not> os_bind os then (NULL, exit_process s)
          else (case os_getsockname os of
             None \<Rightarrow> (NULL, exit_process s)
           | Some p \<Rightarrow>
               if \<not> os_listen os then (NULL, exit_process s)
               else (let i = next_addr s;
                         (chan, s1) = IvyChannelAdd fd i (Some H_DeleteServerSocket) (Some H_HandleServer)
                                        None (s\<lparr>next_addr := Suc i\<rparr>);
                         v = \<lparr>sid = i, sfd = fd, schannel = chan, sport = ntohs (htons p), sipv6 = v6,
                              screate = create, shandle_delete = hdelete, shandle_decongestion = hdecong,
                              sinterpretation = interp, accept_answers = []\<rparr>
                     in (i, s1\<lparr>servers_list := v # servers_list s1\<rparr>))))"

definition SocketConnectAddr ::
  "sock_answers \<Rightarrow> bool \<Rightarrow> sockaddr \<Rightarrow> nat \<Rightarrow> addr \<Rightarrow> fnptr \<Rightarrow> fnptr \<Rightarrow> fnptr \<Rightarrow> 'a sock_state_scheme
   \<Rightarrow> addr \<times> 'a sock_state_scheme" where
  "SocketConnectAddr os v6 address port data interp hdelete hdecong s =
     (case os_socket os of
        None \<Rightarrow> (NULL, s)
      | Some fd \<Rightarrow>
          if \<not> os_connect os then (NULL, s)
          else if \<not> os_setsockopt os then (NULL, exit_process s)
          else (let c = next_addr s;
                    (chan, s1) = IvyChannelAdd fd c (Some H_DeleteSocket) (Some H_HandleSocket)
                       (Some H_HandleCongestionWrite) (s\<lparr>next_addr := Suc c\<rparr>);
                    x = (fresh_client c fd v6 ''init by SocketConnectAddr'')
                          \<lparr>cchannel := chan, interpretation_fn := interp, cdata := data,
                           chandle_delete := hdelete, chandle_decongestion := hdecong,
                           local_port := (case os_getsockname os of None \<Rightarrow> 0 | Some p \<Rightarrow> htons p)\<rparr>
                in (c, s1\<lparr>clients_list := x # clients_list s1\<rparr>)))"

definition SocketBroadcastCreate ::
  "sock_answers \<Rightarrow> bool \<Rightarrow> nat \<Rightarrow> addr \<Rightarrow> fnptr \<Rightarrow> 'a sock_state_scheme \<Rightarrow> addr \<times> 'a sock_state_scheme" where
  "SocketBroadcastCreate os v6 port data interp s =
     (case os_socket os of
        None \<Rightarrow> (NULL, s)
      | Some fd \<Rightarrow>
          if \<not> os_setsockopt os \<or> \<not> os_bind os then (NULL, s)
          else (let c = next_addr s;
                    (chan, s1) = IvyChannelAdd fd c (Some H_DeleteSocket) (Some H_HandleSocket)
                       (Some H_HandleCongestionWrite) (s\<lparr>next_addr := Suc c\<rparr>);
                    x = (fresh_client c fd v6 ''init by SocketBroadcastCreate'')
                          \<lparr>cchannel := chan, interpretation_fn := interp, cdata := data, dgram := True,
                           local_port := htons port\<rparr>
                in (c, s1\<lparr>clients_list := x # clients_list s1\<rparr>)))"

subsection \<open>Datagrams and multicast groups\<close>

definition send_datagram :: "addr \<Rightarrow> sockaddr \<Rightarrow> bytes \<Rightarrow> 'a sock_state_scheme \<Rightarrow> 'a sock_state_scheme" where
  "send_datagram c dest b s =
     with_client c s (\<lambda>x. s\<lparr>datagrams := datagrams s @ [(cfd x, dest, b)]\<rparr>)"

definition SocketSendBroadcast ::
  "addr \<Rightarrow> nat \<Rightarrow> nat \<Rightarrow> string \<Rightarrow> 'a sock_state_scheme \<Rightarrow> 'a sock_state_scheme" where
  "SocketSendBroadcast c host port out s =
     (if c = NULL then s
      else case format_static ((dgram_buf s)\<lparr>boffset := 0\<rparr>) out of
        None \<Rightarrow> crash Hang s
      | Some (len, b) \<Rightarrow>
          send_datagram c \<lparr>is_ipv6 = False, ip_addr = host, net_port = htons port\<rparr> (buffer_bytes b len)
            (s\<lparr>dgram_buf := b\<rparr>))"

definition SocketSendBroadcast6 ::
  "addr \<Rightarrow> nat \<Rightarrow> nat \<Rightarrow> string \<Rightarrow> 'a sock_state_scheme \<Rightarrow> 'a sock_state_scheme" where
  "SocketSendBroadcast6 c host port out s =
     (if c = NULL then s
      else case format_static ((dgram6_buf s)\<lparr>boffset := 0\<rparr>) out of
        None \<Rightarrow> crash Hang s
      | Some (len, b) \<Rightarrow>
          send_datagram c \<lparr>is_ipv6 = True, ip_addr = host, net_port = htons port\<rparr> (buffer_bytes b len)
            (s\<lparr>dgram6_buf := b\<rparr>))"

text \<open>The kernel accepts or refuses the membership, then the time to live.\<close>

definition SocketAddMember :: "bool \<Rightarrow> bool \<Rightarrow> addr \<Rightarrow> nat \<Rightarrow> 'a sock_state_scheme \<Rightarrow> bool \<times> 'a sock_state_scheme" where
  "SocketAddMember joined ttl_set c host s =
     (case find_client c s of
        None \<Rightarrow> (False, crash (if c = NULL then NullDeref else UseAfterFree) s)
      | Some x \<Rightarrow>
          if \<not> joined then (False, s) else (ttl_set, s\<lparr>groups := groups s @ [(cfd x, host)]\<rparr>))"

definition SocketAddMember6 :: "bool \<Rightarrow> addr \<Rightarrow> nat \<Rightarrow> 'a sock_state_scheme \<Rightarrow> bool \<times> 'a sock_state_scheme" where
  "SocketAddMember6 joined c host s =
     (case find_client c s of
        None \<Rightarrow> (False, crash (if c = NULL then NullDeref else UseAfterFree) s)
      | Some x \<Rightarrow>
          if \<not> joined then (False, s) else (True, s\<lparr>groups := groups s @ [(cfd x, host)]\<rparr>))"

subsection \<open>Accessors\<close>

text \<open>
  These read through a pointer the caller vouches for; the value given here for a client that is
  no longer there stands for no behaviour of the code, and the callers test for it first.
\<close>

definition SocketSetData :: "addr \<Rightarrow> addr \<Rightarrow> 'a sock_state_scheme \<Rightarrow> 'a sock_state_scheme" where
  "SocketSetData c d s =
     (if c = NULL then s else with_client c s (\<lambda>x. upd_client c (\<lambda>y. y\<lparr>cdata := d\<rparr>) s))"

definition SocketGetData :: "addr \<Rightarrow> 'a sock_state_scheme \<Rightarrow> addr" where
  "SocketGetData c s = (if c = NULL then NULL else case find_client c s of None \<Rightarrow> NULL | Some x \<Rightarrow> cdata x)"

definition SocketGetLocalPort :: "addr \<Rightarrow> 'a sock_state_scheme \<Rightarrow> nat" where
  "SocketGetLocalPort c s =
     (if c = NULL then 0 else case find_client c s of None \<Rightarrow> 0 | Some x \<Rightarrow> ntohs (local_port x))"

text \<open>The field as stored: no \<^verbatim>\<open>ntohs\<close> here.\<close>

definition SocketGetRemotePort :: "addr \<Rightarrow> 'a sock_state_scheme \<Rightarrow> nat" where
  "SocketGetRemotePort c s =
     (if c = NULL then 0 else case find_client c s of None \<Rightarrow> 0 | Some x \<Rightarrow> net_port (sfrom x))"

definition SocketGetRemoteAddr :: "addr \<Rightarrow> 'a sock_state_scheme \<Rightarrow> sockaddr option" where
  "SocketGetRemoteAddr c s =
     (if c = NULL then None else map_option sfrom (find_client c s))"

text \<open>Name resolution is the system's: \<open>None\<close> when \<^verbatim>\<open>getnameinfo\<close> or \<^verbatim>\<open>getpeername\<close> fails.\<close>

definition SocketGetPeerHost ::
  "(nat \<Rightarrow> sockaddr option) \<Rightarrow> (sockaddr \<Rightarrow> string option) \<Rightarrow> addr \<Rightarrow> 'a sock_state_scheme \<Rightarrow> string" where
  "SocketGetPeerHost os_getpeername os_getnameinfo c s =
     (if c = NULL then ''undefined''
      else case find_client c s of
        None \<Rightarrow> ''undefined''
      | Some x \<Rightarrow>
          (case os_getpeername (cfd x) of
             None \<Rightarrow> ''can'' @ [CHR 0x27] @ ''t get peer''
           | Some a \<Rightarrow>
               (case os_getnameinfo a of
                  None \<Rightarrow> ''can'' @ [CHR 0x27] @ ''t translate addr''
                | Some host \<Rightarrow> host)))"

text \<open>The host and port written through the pointers; \<open>None\<close> leaves them as they were.\<close>

definition SocketGetRemoteHost ::
  "(sockaddr \<Rightarrow> string option) \<Rightarrow> addr \<Rightarrow> 'a sock_state_scheme \<Rightarrow> (string \<times> nat option) option" where
  "SocketGetRemoteHost os_getnameinfo c s =
     (if c = NULL then None
      else case find_client c s of
        None \<Rightarrow> None
      | Some x \<Rightarrow>
          if from_len x = 0 then Some (''unknown'', Some 0)
          else (case os_getnameinfo (sfrom x) of
             None \<Rightarrow> Some (''unknown'', None)
           | Some host \<Rightarrow> Some (host, Some (ntohs (net_port (sfrom x))))))"

definition SocketSetUuid :: "addr \<Rightarrow> string \<Rightarrow> 'a sock_state_scheme \<Rightarrow> 'a sock_state_scheme" where
  "SocketSetUuid c u s =
     with_client c s (\<lambda>x. upd_client c (\<lambda>y. y\<lparr>app_uuid := uuid_block u\<rparr>) s)"

text \<open>The string a reader of the array sees; \<open>None\<close> when it runs past its end.\<close>

definition SocketGetUuid :: "addr \<Rightarrow> 'a sock_state_scheme \<Rightarrow> string option" where
  "SocketGetUuid c s =
     (case find_client c s of
        None \<Rightarrow> None
      | Some x \<Rightarrow> if NUL \<in> set (app_uuid x) then Some (cstr (app_uuid x)) else None)"

definition SocketCmpUuid :: "addr \<Rightarrow> addr \<Rightarrow> 'a sock_state_scheme \<Rightarrow> int option" where
  "SocketCmpUuid c1 c2 s =
     (case (find_client c1 s, find_client c2 s) of
        (Some x, Some y) \<Rightarrow> Some (strncmp UUID_SIZE (app_uuid x) (app_uuid y))
      | _ \<Rightarrow> None)"

subsection \<open>Waiting for one reply\<close>

text \<open>
  Each turn the kernel says whether data came in time and what it was. The buffer of \<open>size\<close>
  bytes holds \<open>got\<close> so far; the NUL that ends it is written after the new bytes.
\<close>

datatype wait_event = WaitError | WaitTimeout | WaitRecvError | WaitData bytes
datatype wait_result = Reply int bytes | WaitFault c_fault | Waiting

fun SocketWaitForReply :: "char \<Rightarrow> nat \<Rightarrow> wait_event list \<Rightarrow> bytes \<Rightarrow> wait_result" where
  "SocketWaitForReply term bufsz evs got =
     (if bufsz - length got = 0 then Reply (-1) got
      else case evs of
        [] \<Rightarrow> Waiting
      | WaitError # _ \<Rightarrow> Reply (-1) got
      | WaitTimeout # _ \<Rightarrow> Reply (-2) got
      | WaitRecvError # _ \<Rightarrow> Reply (-1) got
      | WaitData b # rest \<Rightarrow>
          (let got' = got @ take (bufsz - length got) b
           in if b = [] then Reply 0 got
              else if length got' \<ge> bufsz then WaitFault OutOfBounds
              else case split_at term (cstr got') of
                Some (line, _) \<Rightarrow> Reply (int (length line)) line
              | None \<Rightarrow> SocketWaitForReply term bufsz rest got'))"

declare SocketWaitForReply.simps [simp del]

subsection \<open>The handlers in the main loop\<close>

definition sock_run_delete :: "'a callbacks \<Rightarrow> sock_handler \<Rightarrow> addr \<Rightarrow> 'a sock_state_scheme \<Rightarrow> 'a sock_state_scheme" where
  "sock_run_delete cb h d s =
     (case h of
        H_DeleteSocket \<Rightarrow> DeleteSocket cb d s
      | H_DeleteServerSocket \<Rightarrow> DeleteServerSocket d s
      | H_App n \<Rightarrow> call_app cb n d s
      | _ \<Rightarrow> s)"

definition sock_run_io ::
  "'a callbacks \<Rightarrow> sock_handler \<Rightarrow> addr \<Rightarrow> nat \<Rightarrow> addr \<Rightarrow> 'a sock_state_scheme \<Rightarrow> 'a sock_state_scheme" where
  "sock_run_io cb h chan fd d s =
     (case h of
        H_HandleSocket \<Rightarrow> HandleSocket cb d s
      | H_HandleServer \<Rightarrow> HandleServer cb d s
      | H_HandleCongestionWrite \<Rightarrow> HandleCongestionWrite cb chan d s
      | H_App n \<Rightarrow> call_app cb n d s
      | _ \<Rightarrow> s)"

subsection \<open>Frames\<close>

lemma clients_loop_ops [simp, frame_simps]:
  fixes s :: "'a sock_state_scheme"
  shows "clients_list (crash e s) = clients_list s"
    "clients_list (upd_channel k g s) = clients_list s"
    "clients_list (raise_highest fd s) = clients_list s"
    "clients_list (IvyChannelRemove k s) = clients_list s"
    "clients_list (IvyChannelAddWritableEvent k s) = clients_list s"
    "clients_list (IvyChannelClearWritableEvent k s) = clients_list s"
  by (simp_all add: crash_def upd_channel_def raise_highest_def IvyChannelRemove_def FD_SET_wrdy_def
      IvyChannelAddWritableEvent_def IvyChannelClearWritableEvent_def split: option.splits)

lemma servers_loop_ops [simp, frame_simps]:
  fixes s :: "'a sock_state_scheme"
  shows "servers_list (crash e s) = servers_list s"
    "servers_list (upd_channel k g s) = servers_list s"
    "servers_list (IvyChannelRemove k s) = servers_list s"
    "servers_list (IvyChannelAddWritableEvent k s) = servers_list s"
    "servers_list (IvyChannelClearWritableEvent k s) = servers_list s"
  by (simp_all add: crash_def upd_channel_def raise_highest_def IvyChannelRemove_def FD_SET_wrdy_def
      IvyChannelAddWritableEvent_def IvyChannelClearWritableEvent_def split: option.splits)

lemma find_client_loop_ops [simp, frame_simps]:
  fixes s :: "'a sock_state_scheme"
  shows "find_client c (crash e s) = find_client c s"
    "find_client c (upd_channel k g s) = find_client c s"
    "find_client c (IvyChannelRemove k s) = find_client c s"
    "find_client c (IvyChannelAddWritableEvent k s) = find_client c s"
    "find_client c (IvyChannelClearWritableEvent k s) = find_client c s"
  by (simp_all add: find_client_def)

lemma find_map_upd:
  "(\<And>x. k (f x) = k x) \<Longrightarrow>
   find (\<lambda>x. k x = c) (map (\<lambda>x. if k x = d then f x else x) xs)
     = (if c = d then map_option f (find (\<lambda>x. k x = c) xs) else find (\<lambda>x. k x = c) xs)"
  by (induction xs) auto

lemma find_client_upd [simp]:
  "(\<And>x. cid (f x) = cid x) \<Longrightarrow>
   find_client c (upd_client d f s) = (if c = d then map_option f (find_client c s) else find_client c s)"
  by (simp add: find_client_def upd_client_def find_map_upd)

lemma upd_client_loop [simp, frame_simps]:
  "channels_list (upd_client c f s) = channels_list s" "open_fds (upd_client c f s) = open_fds s"
  "wrdy_fds (upd_client c f s) = wrdy_fds s" "highestFd (upd_client c f s) = highestFd s"
  "next_addr (upd_client c f s) = next_addr s" "fault (upd_client c f s) = fault s"
  "chan_view (upd_client c f s) = chan_view s" "servers_list (upd_client c f s) = servers_list s"
  "find_channel k (upd_client c f s) = find_channel k s" "loop_wf (upd_client c f s) = loop_wf s"
  "datagrams (upd_client c f s) = datagrams s" "exited (upd_client c f s) = exited s"
  by (simp_all add: upd_client_def chan_view_def find_channel_def loop_wf_def channel_nodes_def)

lemma find_client_Some:
  "find_client c s = Some x \<Longrightarrow> x \<in> set (clients_list s) \<and> cid x = c"
  by (auto simp: find_client_def find_Some_iff)

lemma map_cid_upd [simp]:
  "(\<And>x. cid (f x) = cid x) \<Longrightarrow> map cid (clients_list (upd_client c f s)) = map cid (clients_list s)"
  by (simp add: upd_client_def comp_def if_distrib cong: if_cong)

lemma client_nodes_simps [simp]:
  "client_nodes (crash e s) = client_nodes s" "client_nodes (IvyChannelRemove k s) = client_nodes s"
  "client_nodes (IvyChannelAddWritableEvent k s) = client_nodes s"
  "client_nodes (IvyChannelClearWritableEvent k s) = client_nodes s"
  "(\<And>x. cid (f x) = cid x) \<Longrightarrow> client_nodes (upd_client c f s) = client_nodes s"
  by (simp_all add: client_nodes_def)

subsection \<open>The byte stream of a client\<close>

text \<open>The bytes accepted for a client and not yet taken by the kernel.\<close>

definition pending :: "client \<Rightarrow> bytes" where
  "pending x = (case ifb x of None \<Rightarrow> [] | Some f \<Rightarrow> fifo_content f)"

definition client_ok :: "client \<Rightarrow> bool" where
  "client_ok x \<longleftrightarrow> (case ifb x of None \<Rightarrow> True | Some f \<Rightarrow> fifo_wf f)"

definition stream :: "client \<Rightarrow> bytes" where
  "stream x = wire x @ pending x"

definition MSG_MAX :: nat where
  "MSG_MAX = 33554432"

lemma fifo_accepts_New: "n < MSG_MAX \<Longrightarrow> fifo_accepts IvyFifoNew n"
proof -
  assume n: "n < MSG_MAX"
  have "n div 262144 < 128" using n by (intro less_mult_imp_div_less) (simp add: MSG_MAX_def)
  then have "n div 262144 + 1 \<le> 128" by simp
  then have "(n div 262144 + 1) * 262144 \<le> 128 * 262144" by (rule mult_le_mono1)
  moreover have "aligned_size n = (n div 262144 + 1) * 262144"
    by (rule aligned_size_eq) (use n in \<open>simp add: MSG_MAX_def\<close>)
  ultimately have "aligned_size n \<le> IVY_FIFO_MAX_ALLOC_SIZE" by (simp add: IVY_FIFO_MAX_ALLOC_SIZE_def)
  then show ?thesis by (simp add: fifo_accepts_def)
qed

lemma fifo_put_new:
  assumes "find_client c s = Some x" "length b < MSG_MAX"
  shows "\<exists>f. fifo_put c IvyFifoNew b s = upd_client c (\<lambda>y. y\<lparr>ifb := Some f\<rparr>) s
    \<and> fifo_wf f \<and> fifo_content f = b \<and> \<not> full f"
proof -
  have l: "length b < 2147483648" using assms(2) by (simp add: MSG_MAX_def)
  show ?thesis using IvyFifoWrite_eq [OF fifo_wf_New l] fifo_accepts_New [OF assms(2)]
    by (auto simp: fifo_put_def)
qed

text \<open>The states in which the message was not kept at all.\<close>

definition dropped :: "SendState \<Rightarrow> bool" where
  "dropped st \<longleftrightarrow> st = SendStateFifoFull \<or> st = SendError \<or> st = SendParamError"

lemma send_raw_spec:
  assumes x: "find_client c s = Some x" "client_ok x" and b: "length b < MSG_MAX"
    and r: "BufferizedSocketSendRaw c b s = (st, s')"
  shows "\<exists>f. (\<forall>y. cid (f y) = cid y \<and> cfd (f y) = cfd y \<and> cchannel (f y) = cchannel y
           \<and> terminator (f y) = terminator y \<and> interpretation_fn (f y) = interpretation_fn y
           \<and> cdata (f y) = cdata y \<and> chandle_delete (f y) = chandle_delete y
           \<and> chandle_decongestion (f y) = chandle_decongestion y)
       \<and> (s' = upd_client c f s
          \<or> (s' = IvyChannelAddWritableEvent (cchannel x) (upd_client c f s) \<and> st = SendStateChangeToCongestion))
       \<and> client_ok (f x) \<and> stream (f x) = stream x @ (if dropped st then [] else b)
       \<and> (st = SendStateChangeToCongestion \<longleftrightarrow> ifb x = None \<and> ifb (f x) \<noteq> None)
       \<and> (ifb x \<noteq> None \<longrightarrow> ifb (f x) \<noteq> None)
       \<and> (st = SendStateChangeToCongestion \<longrightarrow> s' = IvyChannelAddWritableEvent (cchannel x) (upd_client c f s))"
proof (cases "ifb x")
  case (Some f)
  have wf: "fifo_wf f" using x(2) Some by (simp add: client_ok_def)
  have "length b < 2147483648" using b by (simp add: MSG_MAX_def)
  from IvyFifoWrite_eq [OF wf this] obtain f' where
    f': "IvyFifoWrite f b = Some f'" "fifo_wf f'" "full f' = (\<not> fifo_accepts f (length b))"
      "fifo_content f' = (if fifo_accepts f (length b) then fifo_content f @ b else fifo_content f)" by blast
  let ?g = "\<lambda>y. y\<lparr>ifb := Some f'\<rparr>"
  have "s' = upd_client c ?g s" "st = (if full f' then SendStateFifoFull else SendStillCongestion)"
    using r x(1) Some f'(1) by (auto simp: BufferizedSocketSendRaw_def fifo_put_def IvyFifoIsFull_def Let_def)
  then show ?thesis using Some f'
    by (intro exI [of _ ?g]) (auto simp: client_ok_def stream_def pending_def dropped_def)
next
  case None
  obtain a rest where o: "os_send (send_answers x) (length b) = (a, rest)" by force
  show ?thesis
  proof (cases a)
    case (Accept k)
    have k: "k \<le> length b" using o Accept by (auto dest: os_send_le)
    let ?g = "\<lambda>y. y\<lparr>send_answers := rest, wire := wire y @ take k b\<rparr>"
    show ?thesis
    proof (cases "k = length b")
      case True
      then show ?thesis using r x None o Accept
        by (intro exI [of _ ?g])
          (auto simp: BufferizedSocketSendRaw_def client_ok_def stream_def pending_def dropped_def Let_def)
    next
      case False
      have x1: "find_client c (upd_client c ?g s) = Some (?g x)" using x(1) by simp
      have "length (drop k b) < MSG_MAX" using b by simp
      from fifo_put_new [OF x1 this] obtain f where
        f: "fifo_put c IvyFifoNew (drop k b) (upd_client c ?g s)
              = upd_client c (\<lambda>y. y\<lparr>ifb := Some f\<rparr>) (upd_client c ?g s)"
          "fifo_wf f" "fifo_content f = drop k b" by blast
      let ?h = "\<lambda>y. (?g y)\<lparr>ifb := Some f\<rparr>"
      have uu: "upd_client c (\<lambda>y. y\<lparr>ifb := Some f\<rparr>) (upd_client c ?g s) = upd_client c ?h s"
        by (simp add: upd_client_def comp_def if_distrib cong: if_cong)
      have "st = SendStateChangeToCongestion"
        "s' = IvyChannelAddWritableEvent (cchannel x) (upd_client c ?h s)"
        using r x(1) None o Accept False f(1) uu by (auto simp: BufferizedSocketSendRaw_def Let_def)
      then show ?thesis using f None
        by (intro exI [of _ ?h]) (auto simp: client_ok_def stream_def pending_def dropped_def)
    qed
  next
    case (SendFail e)
    let ?g = "\<lambda>y. y\<lparr>send_answers := rest\<rparr>"
    show ?thesis
    proof (cases "e = EWOULDBLOCK")
      case True
      have x1: "find_client c (upd_client c ?g s) = Some (?g x)" using x(1) by simp
      from fifo_put_new [OF x1 b] obtain f where
        f: "fifo_put c IvyFifoNew b (upd_client c ?g s)
              = upd_client c (\<lambda>y. y\<lparr>ifb := Some f\<rparr>) (upd_client c ?g s)"
          "fifo_wf f" "fifo_content f = b" by blast
      let ?h = "\<lambda>y. (?g y)\<lparr>ifb := Some f\<rparr>"
      have uu: "upd_client c (\<lambda>y. y\<lparr>ifb := Some f\<rparr>) (upd_client c ?g s) = upd_client c ?h s"
        by (simp add: upd_client_def comp_def if_distrib cong: if_cong)
      have "st = SendStateChangeToCongestion"
        "s' = IvyChannelAddWritableEvent (cchannel x) (upd_client c ?h s)"
        using r x(1) None o SendFail True f(1) uu by (auto simp: BufferizedSocketSendRaw_def Let_def)
      then show ?thesis using f None
        by (intro exI [of _ ?h]) (auto simp: client_ok_def stream_def pending_def dropped_def)
    next
      case False
      then show ?thesis using r x None o SendFail
        by (intro exI [of _ ?g])
          (auto simp: BufferizedSocketSendRaw_def client_ok_def stream_def pending_def dropped_def Let_def)
    qed
  qed
qed

subsection \<open>The invariant of the socket layer\<close>

text \<open>
  Clients have distinct addresses and descriptors, each owns a channel of the loop with its
  descriptor, and exactly the congested ones (those with a ring buffer) are watched for writing.
\<close>

definition client_inv :: "'a sock_state_scheme \<Rightarrow> client \<Rightarrow> bool" where
  "client_inv s x \<longleftrightarrow> client_ok x \<and> 0 < cid x
     \<and> (\<exists>k. find_channel (cchannel x) s = Some k \<and> ch_fd k = cfd x \<and> ch_data k = cid x)
     \<and> (ifb x \<noteq> None \<longleftrightarrow> cfd x \<in> wrdy_fds s)"

definition sock_inv :: "'a sock_state_scheme \<Rightarrow> bool" where
  "sock_inv s \<longleftrightarrow> loop_wf s \<and> distinct (map cid (clients_list s)) \<and> distinct (map cfd (clients_list s))
     \<and> (\<forall>x \<in> set (clients_list s). client_inv s x)"

lemma sock_inv_find: "sock_inv s \<Longrightarrow> find_client c s = Some x \<Longrightarrow> client_inv s x \<and> cid x = c \<and> 0 < c"
  by (auto simp: sock_inv_def client_inv_def dest: find_client_Some)

lemma sock_inv_same:
  assumes "sock_inv s" "find_client c s = Some x" "y \<in> set (clients_list s)"
  shows "cid y = c \<longleftrightarrow> y = x" "cfd y = cfd x \<longleftrightarrow> y = x"
proof -
  have i: "inj_on cid (set (clients_list s))" "inj_on cfd (set (clients_list s))"
    using assms(1) by (simp_all add: sock_inv_def distinct_map)
  show "cid y = c \<longleftrightarrow> y = x" "cfd y = cfd x \<longleftrightarrow> y = x"
    using i assms(3) find_client_Some [OF assms(2)] by (metis inj_onD)+
qed

lemma set_upd_client:
  "set (clients_list (upd_client c f s)) = (\<lambda>y. if cid y = c then f y else y) ` set (clients_list s)"
  by (simp add: upd_client_def)

lemma map_cfd_upd [simp]:
  "(\<And>x. cfd (f x) = cfd x) \<Longrightarrow> map cfd (clients_list (upd_client c f s)) = map cfd (clients_list s)"
  by (simp add: upd_client_def comp_def if_distrib cong: if_cong)

text \<open>
  One lemma for all the operations on a client: it is updated in place while the watched set
  follows its congestion.
\<close>

lemma sock_inv_upd:
  assumes inv: "sock_inv s" and x: "find_client c s = Some x"
    and f: "\<And>y. cid (f y) = cid y" "\<And>y. cfd (f y) = cfd y" "\<And>y. cchannel (f y) = cchannel y"
    and ok: "client_ok (f x)"
    and t: "clients_list t = clients_list (upd_client c f s)" "channels_list t = channels_list s"
      "open_fds t = open_fds s" "loop_wf t"
      "wrdy_fds t = (if ifb (f x) \<noteq> None then insert (cfd x) (wrdy_fds s) else wrdy_fds s - {cfd x})"
  shows "sock_inv t"
proof -
  have fc: "find_channel k t = find_channel k s" for k using t(2) by (simp add: find_channel_def)
  have "client_inv t z" if zin: "z \<in> set (clients_list t)" for z
  proof -
    obtain y where y: "y \<in> set (clients_list s)" "z = (if cid y = c then f y else y)"
      using zin unfolding t(1) set_upd_client by blast
    have iy: "client_inv s y" using inv y(1) by (simp add: sock_inv_def)
    note same = sock_inv_same [OF inv x y(1)]
    show ?thesis
    proof (cases "y = x")
      case True
      then show ?thesis using iy y(2) same f ok t(5) fc by (auto simp: client_inv_def)
    next
      case False
      then show ?thesis using iy y(2) same t(5) fc by (auto simp: client_inv_def)
    qed
  qed
  then show ?thesis using inv t(1,4) f by (simp add: sock_inv_def)
qed

lemma AddWritable_fields:
  assumes "find_channel k s = Some x" "ch_fd x < FD_SETSIZE"
  shows "wrdy_fds (IvyChannelAddWritableEvent k s) = insert (ch_fd x) (wrdy_fds s)"
    "channels_list (IvyChannelAddWritableEvent k s) = channels_list s"
    "open_fds (IvyChannelAddWritableEvent k s) = open_fds s"
    "fault (IvyChannelAddWritableEvent k s) = fault s"
  using assms by (simp_all add: IvyChannelAddWritableEvent_def FD_SET_wrdy_def)

lemma ClearWritable_fields:
  assumes "find_channel k s = Some x"
  shows "wrdy_fds (IvyChannelClearWritableEvent k s) = wrdy_fds s - {ch_fd x}"
    "channels_list (IvyChannelClearWritableEvent k s) = channels_list s"
    "open_fds (IvyChannelClearWritableEvent k s) = open_fds s"
    "fault (IvyChannelClearWritableEvent k s) = fault s"
  using assms by (simp_all add: IvyChannelClearWritableEvent_def)

lemma channel_fd_bound:
  "loop_wf s \<Longrightarrow> find_channel k s = Some x \<Longrightarrow> ch_fd x < FD_SETSIZE"
  by (auto simp: loop_wf_def dest: find_channel_Some)

lemma client_channel:
  assumes "sock_inv s" "find_client c s = Some x"
  shows "\<exists>k. find_channel (cchannel x) s = Some k \<and> ch_fd k = cfd x \<and> ch_fd k < FD_SETSIZE \<and> ch_data k = c"
proof -
  obtain k where k: "find_channel (cchannel x) s = Some k" "ch_fd k = cfd x" "ch_data k = c"
    using sock_inv_find [OF assms] by (auto simp: client_inv_def)
  moreover have "ch_fd k < FD_SETSIZE"
    using assms(1) k(1) by (intro channel_fd_bound [of s]) (simp_all add: sock_inv_def)
  ultimately show ?thesis by blast
qed

text \<open>Sending keeps the invariant, and changes no other client.\<close>

lemma send_raw_inv:
  assumes inv: "sock_inv s" and x: "find_client c s = Some x" and b: "length b < MSG_MAX"
    and r: "BufferizedSocketSendRaw c b s = (st, s')"
  shows "sock_inv s' \<and> fault s' = fault s
    \<and> (\<exists>y. find_client c s' = Some y \<and> stream y = stream x @ (if dropped st then [] else b)
         \<and> cfd y = cfd x \<and> cdata y = cdata x
         \<and> (st = SendStateChangeToCongestion \<longleftrightarrow> ifb x = None \<and> ifb y \<noteq> None)
         \<and> (ifb x \<noteq> None \<longrightarrow> ifb y \<noteq> None))
    \<and> (\<forall>d. d \<noteq> c \<longrightarrow> find_client d s' = find_client d s)"
proof -
  have cx: "client_inv s x" using sock_inv_find [OF inv x] by simp
  obtain k where k: "find_channel (cchannel x) s = Some k" "ch_fd k = cfd x" "ch_fd k < FD_SETSIZE"
    using client_channel [OF inv x] by blast
  from send_raw_spec [OF x _ b r] cx obtain f where
    f: "\<And>y. cid (f y) = cid y" "\<And>y. cfd (f y) = cfd y" "\<And>y. cchannel (f y) = cchannel y"
      "\<And>y. cdata (f y) = cdata y"
    and s': "s' = upd_client c f s
        \<or> (s' = IvyChannelAddWritableEvent (cchannel x) (upd_client c f s) \<and> st = SendStateChangeToCongestion)"
    and ok: "client_ok (f x)" and str: "stream (f x) = stream x @ (if dropped st then [] else b)"
    and chg: "st = SendStateChangeToCongestion \<longleftrightarrow> ifb x = None \<and> ifb (f x) \<noteq> None"
      "ifb x \<noteq> None \<longrightarrow> ifb (f x) \<noteq> None"
      "st = SendStateChangeToCongestion \<longrightarrow> s' = IvyChannelAddWritableEvent (cchannel x) (upd_client c f s)"
    unfolding client_inv_def by blast
  have fd: "find_client d s' = (if d = c then Some (f x) else find_client d s)" for d
    using s' x f(1) by auto
  have inv': "sock_inv s' \<and> fault s' = fault s"
  proof (cases "st = SendStateChangeToCongestion")
    case True
    then have e: "s' = IvyChannelAddWritableEvent (cchannel x) (upd_client c f s)" using chg(3) by simp
    have ku: "find_channel (cchannel x) (upd_client c f s) = Some k" using k(1) by simp
    note w = AddWritable_fields [OF ku k(3), folded e]
    have "loop_wf s'" unfolding e using inv by (intro IvyChannelAddWritableEvent_wf) (simp add: sock_inv_def)
    then have "sock_inv s'"
      by (intro sock_inv_upd [OF inv x f(1-3) ok]) (use w k True chg(1) e in simp_all)
    then show ?thesis using w(4) by simp
  next
    case False
    then have e: "s' = upd_client c f s" using s' by blast
    have "(ifb (f x) \<noteq> None) = (ifb x \<noteq> None)" using chg(1,2) False by metis
    then have "wrdy_fds s' = (if ifb (f x) \<noteq> None then insert (cfd x) (wrdy_fds s) else wrdy_fds s - {cfd x})"
      using cx by (auto simp: e client_inv_def insert_absorb)
    then have "sock_inv s'"
      by (intro sock_inv_upd [OF inv x f(1-3) ok]) (use e inv in \<open>simp_all add: sock_inv_def\<close>)
    then show ?thesis by (simp add: e)
  qed
  then show ?thesis using fd f str chg(1,2) by auto
qed

lemma find_channel_crash [simp]: "find_channel k (crash e s) = find_channel k s"
  by (simp add: find_channel_def)

lemma sock_inv_crash [simp]: "sock_inv (crash e s) = sock_inv s"
  by (simp add: sock_inv_def client_inv_def)

lemma find_channel_Remove:
  "find_channel k s \<noteq> None \<Longrightarrow> find_channel j (IvyChannelRemove k s)
     = map_option (\<lambda>z. if j = k then z\<lparr>tobedeleted := True\<rparr> else z) (find_channel j s)"
  by (auto simp: IvyChannelRemove_def upd_channel_def find_channel_def find_map_upd option.map_ident)

lemma Remove_fields [simp]:
  "wrdy_fds (IvyChannelRemove k s) = wrdy_fds s" "open_fds (IvyChannelRemove k s) = open_fds s"
  "find_channel k s \<noteq> None \<Longrightarrow> fault (IvyChannelRemove k s) = fault s"
  by (auto simp: IvyChannelRemove_def split: option.splits)

lemma channel_remove_inv:
  assumes "sock_inv s"
  shows "sock_inv (IvyChannelRemove k s)"
proof (cases "find_channel k s")
  case None
  then show ?thesis using assms by (simp add: IvyChannelRemove_def)
next
  case (Some z)
  have "client_inv (IvyChannelRemove k s) y" if y: "y \<in> set (clients_list s)" for y
  proof -
    have iy: "client_inv s y" using assms y by (simp add: sock_inv_def)
    then obtain q where "find_channel (cchannel y) s = Some q" "ch_fd q = cfd y" "ch_data q = cid y"
      by (auto simp: client_inv_def)
    then have "\<exists>q'. find_channel (cchannel y) (IvyChannelRemove k s) = Some q' \<and> ch_fd q' = cfd y \<and> ch_data q' = cid y"
      using Some by (simp add: find_channel_Remove)
    then show ?thesis using iy by (simp add: client_inv_def)
  qed
  then show ?thesis using assms IvyChannelRemove_wf [of s k] by (simp add: sock_inv_def)
qed

text \<open>
  Flushing when \<^verbatim>\<open>select\<close> says the socket is writable, up to the decongestion callback: nothing is
  lost or reordered, and when all has gone the client is no longer watched. A fatal error
  marks the channel for deletion.
\<close>

lemma upd_client_id:
  "upd_client c g (upd_client c f s) = upd_client c (\<lambda>y. if cid (f y) = c then g (f y) else f y) s"
  by (simp add: upd_client_def comp_def if_distrib cong: if_cong)

lemma congestion_write_spec:
  assumes inv: "sock_inv s" and x: "find_client c s = Some x" and f: "ifb x = Some f"
  shows "\<exists>s1. sock_inv s1 \<and> fault s1 = fault s
      \<and> HandleCongestionWrite cb (cchannel x) c s
          = (case find_client c s1 of None \<Rightarrow> s1
             | Some y \<Rightarrow> if ifb y = None \<and> chandle_decongestion x \<noteq> NULL
                 then call_decongestion cb (chandle_decongestion x) c (cdata x) s1 else s1)
      \<and> (\<exists>y. find_client c s1 = Some y \<and> stream y = stream x \<and> cdata y = cdata x
           \<and> chandle_decongestion y = chandle_decongestion x)
      \<and> (\<forall>d. d \<noteq> c \<longrightarrow> find_client d s1 = find_client d s)"
proof -
  have cx: "client_inv s x" "cid x = c" "0 < c" using sock_inv_find [OF inv x] by auto
  have wf: "fifo_wf f" using cx(1) f by (simp add: client_inv_def client_ok_def)
  obtain k where k: "find_channel (cchannel x) s = Some k" "ch_fd k = cfd x" "ch_fd k < FD_SETSIZE"
    using client_channel [OF inv x] by blast
  obtain res out f' rest where r: "IvyFifoSendSocket f (send_answers x) [] = (res, out, f', rest)"
    by (metis prod_cases4)
  from IvyFifoSendSocket_eq [OF wf r] have
    wf': "fifo_wf f'" and cont: "out @ fifo_content f' = fifo_content f"
    and res: "res = IVY_FIFO_SEND_ERROR \<or> res = length (fifo_content f')" by auto
  let ?g = "\<lambda>y. y\<lparr>ifb := Some f', send_answers := rest, wire := wire y @ out\<rparr>"
  let ?s1 = "upd_client c ?g s"
  have x1: "find_client c ?s1 = Some (?g x)" using x by simp
  have inv1: "sock_inv ?s1"
  proof (rule sock_inv_upd [OF inv x, of ?g])
    show "client_ok (?g x)" using wf' by (simp add: client_ok_def)
    show "loop_wf ?s1" using inv by (simp add: sock_inv_def)
    show "wrdy_fds ?s1 = (if ifb (?g x) \<noteq> None then insert (cfd x) (wrdy_fds s) else wrdy_fds s - {cfd x})"
      using cx(1) f by (auto simp: client_inv_def)
  qed simp_all
  have str1: "stream (?g x) = stream x" using f cont by (simp add: stream_def pending_def)
  show ?thesis
  proof (cases "res = IVY_FIFO_SEND_ERROR")
    case True
    let ?t = "IvyChannelRemove (cchannel x) ?s1"
    have k1: "find_channel (cchannel x) ?s1 = Some k" using k by simp
    have HC: "HandleCongestionWrite cb (cchannel x) c s = ?t"
      using x cx(3) f r True x1 by (simp add: HandleCongestionWrite_def with_client_def SocketClose_def)
    have "sock_inv ?t" by (rule channel_remove_inv [OF inv1])
    moreover have "fault ?t = fault s" using k1 by simp
    ultimately show ?thesis
      using HC x str1 by (intro exI [of _ ?t]) (simp)
  next
    case False
    then have res: "res = length (fifo_content f')" using res by simp
    show ?thesis
    proof (cases "res = 0")
      case nz: False
      have HC: "HandleCongestionWrite cb (cchannel x) c s = ?s1"
        using x cx(3) f r False nz by (simp add: HandleCongestionWrite_def with_client_def)
      show ?thesis using HC x str1 inv1 by (intro exI [of _ ?s1]) simp
    next
      case zero: True
      let ?h = "\<lambda>y. (?g y)\<lparr>ifb := None\<rparr>"
      let ?t = "upd_client c (\<lambda>y. y\<lparr>ifb := None\<rparr>) (IvyChannelClearWritableEvent (cchannel x) ?s1)"
      have k1: "find_channel (cchannel x) ?s1 = Some k" using k by simp
      note w = ClearWritable_fields [OF k1]
      have empty: "fifo_content f' = []" using res zero by simp
      have HC: "HandleCongestionWrite cb (cchannel x) c s
          = (if chandle_decongestion x \<noteq> NULL
             then call_decongestion cb (chandle_decongestion x) c (cdata x) ?t else ?t)"
        using x cx(3) f r False zero
        by (simp add: HandleCongestionWrite_def with_client_def IVY_FIFO_SEND_ERROR_def)
      have tx: "find_client c ?t = Some (?h x)" using x by simp
      have cl: "clients_list ?t = clients_list (upd_client c ?h s)"
        by (simp add: upd_client_def comp_def if_distrib cong: if_cong)
      have "loop_wf ?t"
        using inv1 by (simp add: IvyChannelClearWritableEvent_wf sock_inv_def)
      then have "sock_inv ?t"
        by (intro sock_inv_upd [OF inv x, of ?h]) (use w cl k in \<open>simp_all add: client_ok_def\<close>)
      moreover have "stream (?h x) = stream x"
        using f cont empty by (simp add: stream_def pending_def)
      moreover have "fault ?t = fault s" using w(4) by simp
      moreover have "\<forall>d. d \<noteq> c \<longrightarrow> find_client d ?t = find_client d s" by simp
      moreover obtain t where "t = ?t" by blast
      ultimately show ?thesis using HC tx by (intro exI [of _ t]) (simp del: find_client_upd)
    qed
  qed
qed

subsection \<open>Runs of sends and flushes\<close>

datatype send_op = OpSend bytes | OpWritable

text \<open>
  \<open>OpWritable\<close> is a turn of the loop in which \<^verbatim>\<open>select\<close> would report the socket writable; it
  reports only watched sockets. The result lists the messages that were not dropped.
\<close>

fun run_send_ops :: "'a callbacks \<Rightarrow> addr \<Rightarrow> send_op list \<Rightarrow> 'a sock_state_scheme
    \<Rightarrow> bytes list \<times> 'a sock_state_scheme" where
  "run_send_ops cb c [] s = ([], s)"
| "run_send_ops cb c (OpSend b # ops) s =
     (let (st, s1) = SocketSendRaw c b s; (acc, s2) = run_send_ops cb c ops s1
      in (if dropped st then acc else b # acc, s2))"
| "run_send_ops cb c (OpWritable # ops) s =
     run_send_ops cb c ops
       (case find_client c s of
          None \<Rightarrow> s
        | Some x \<Rightarrow> if cfd x \<in> wrdy_fds s then HandleCongestionWrite cb (cchannel x) c s else s)"

definition small_send :: "send_op \<Rightarrow> bool" where
  "small_send op \<longleftrightarrow> (case op of OpSend b \<Rightarrow> length b < MSG_MAX | OpWritable \<Rightarrow> True)"

text \<open>A decongestion callback that leaves the sockets alone.\<close>

definition quiet_decongestion :: "'a callbacks \<Rightarrow> addr \<Rightarrow> bool" where
  "quiet_decongestion cb c \<longleftrightarrow> (\<forall>f d t. sock_inv t \<longrightarrow>
     sock_inv (call_decongestion cb f c d t) \<and> find_client c (call_decongestion cb f c d t) = find_client c t)"

lemma run_send_ops_stream:
  assumes "sock_inv s" "find_client c s = Some x" "\<forall>op \<in> set ops. small_send op"
    "quiet_decongestion cb c" "run_send_ops cb c ops s = (acc, s')"
  shows "sock_inv s' \<and> (\<exists>y. find_client c s' = Some y \<and> stream y = stream x @ concat acc)"
  using assms
proof (induction ops arbitrary: s x acc)
  case (Cons op ops)
  show ?case
  proof (cases op)
    case (OpSend b)
    have c: "c \<noteq> 0" using sock_inv_find [OF Cons.prems(1,2)] by simp
    have b: "length b < MSG_MAX" using Cons.prems(3) OpSend by (simp add: small_send_def)
    obtain st s1 where r: "BufferizedSocketSendRaw c b s = (st, s1)" by force
    obtain acc1 where r1: "run_send_ops cb c ops s1 = (acc1, s')" "acc = (if dropped st then acc1 else b # acc1)"
      using Cons.prems(5) OpSend r c by (auto simp: SocketSendRaw_def split: prod.splits)
    from send_raw_inv [OF Cons.prems(1,2) b r] obtain y where
      y: "sock_inv s1" "find_client c s1 = Some y" "stream y = stream x @ (if dropped st then [] else b)"
      by blast
    from Cons.IH [OF y(1,2) _ Cons.prems(4) r1(1)] Cons.prems(3) y(3) r1(2) show ?thesis by auto
  next
    case OpWritable
    show ?thesis
    proof (cases "cfd x \<in> wrdy_fds s")
      case False
      then show ?thesis using Cons OpWritable by simp
    next
      case True
      then obtain f where f: "ifb x = Some f"
        using sock_inv_find [OF Cons.prems(1,2)] by (auto simp: client_inv_def)
      from congestion_write_spec [OF Cons.prems(1,2) f, of cb] obtain s1 y where
        s1: "sock_inv s1" "find_client c s1 = Some y" "stream y = stream x"
          "HandleCongestionWrite cb (cchannel x) c s
             = (if ifb y = None \<and> chandle_decongestion x \<noteq> NULL
                then call_decongestion cb (chandle_decongestion x) c (cdata x) s1 else s1)"
        by fastforce
      let ?t = "HandleCongestionWrite cb (cchannel x) c s"
      have t: "sock_inv ?t" "find_client c ?t = Some y"
        using s1 Cons.prems(4) by (auto simp: quiet_decongestion_def)
      have r: "run_send_ops cb c ops ?t = (acc, s')"
        using Cons.prems(2,5) OpWritable True by simp
      from Cons.IH [OF t _ Cons.prems(4) r] Cons.prems(3) s1(3) show ?thesis by simp
    qed
  qed
qed simp

subsection \<open>Framing\<close>

text \<open>The specification: the complete lines of a byte string, and the incomplete rest.\<close>

function lines_of :: "char \<Rightarrow> bytes \<Rightarrow> bytes list \<times> bytes" where
  "lines_of t pend =
     (case split_at t pend of
        None \<Rightarrow> ([], pend)
      | Some (l, r) \<Rightarrow> (l # fst (lines_of t r), snd (lines_of t r)))"
  by pat_completeness auto
termination
  by (relation "measure (\<lambda>(t, pend). length pend)") (auto dest: split_at_length)

declare lines_of.simps [simp del]

lemma lines_of_line [simp]:
  "t \<notin> set l \<Longrightarrow> lines_of t (l @ t # r) = (l # fst (lines_of t r), snd (lines_of t r))"
  by (subst lines_of.simps) simp

lemma lines_of_none [simp]: "t \<notin> set r \<Longrightarrow> lines_of t r = ([], r)"
  by (subst lines_of.simps) (simp add: split_at_None [THEN iffD2])

lemma lines_of_append:
  "lines_of t (a @ b) = (fst (lines_of t a) @ fst (lines_of t (snd (lines_of t a) @ b)),
                         snd (lines_of t (snd (lines_of t a) @ b)))"
proof (induction a rule: length_induct)
  case (1 a)
  show ?case
  proof (cases "split_at t a")
    case None
    then show ?thesis by simp
  next
    case (Some p)
    obtain l r where p: "p = (l, r)" by force
    then have a: "a = l @ t # r" "t \<notin> set l" using split_at_Some Some by auto
    then have "length r < length a" by simp
    then have "lines_of t (r @ b) = (fst (lines_of t r) @ fst (lines_of t (snd (lines_of t r) @ b)),
                         snd (lines_of t (snd (lines_of t r) @ b)))"
      using "1.IH" by blast
    then show ?thesis using a by simp
  qed
qed

text \<open>Writing lines and reading them back.\<close>

lemma lines_of_lines:
  "\<forall>l \<in> set ls. t \<notin> set l \<Longrightarrow> t \<notin> set r \<Longrightarrow> lines_of t (concat (map (\<lambda>l. l @ [t]) ls) @ r) = (ls, r)"
  by (induction ls) auto

text \<open>Updates that only touch the receiving side of a client.\<close>

definition recv_only :: "(client \<Rightarrow> client) \<Rightarrow> bool" where
  "recv_only g \<longleftrightarrow> (\<forall>y. g y = y\<lparr>buffer_size := buffer_size (g y), rbuf := rbuf (g y),
     recv_answers := recv_answers (g y), sfrom := sfrom (g y), from_len := from_len (g y)\<rparr>)"

lemma recv_onlyI:
  "recv_only (\<lambda>y. y\<lparr>rbuf := b y\<rparr>)"
  "recv_only (\<lambda>y. y\<lparr>buffer_size := n y, recv_answers := r y, sfrom := a y, from_len := k y\<rparr>)"
  "recv_only (\<lambda>y. y\<lparr>buffer_size := n y, recv_answers := r y, from_len := k y\<rparr>)"
  by (simp_all add: recv_only_def)

lemma lines_of_rest: "t \<notin> set (snd (lines_of t pend)) \<and> length (snd (lines_of t pend)) \<le> length pend"
proof (induction pend rule: length_induct)
  case (1 pend)
  show ?case
  proof (cases "split_at t pend")
    case (Some p)
    obtain l r where "p = (l, r)" by force
    then have a: "pend = l @ t # r" "t \<notin> set l" using split_at_Some Some by auto
    then have "length r < length pend" by simp
    from "1.IH" [rule_format, OF this] a show ?thesis by simp
  qed simp
qed

text \<open>
  What the reader of a client's lines promises, for the lines in \<open>P\<close>: it keeps the client, and
  what it does to the observed part of the state is a function of that part and of the line.
\<close>

locale line_reader =
  fixes cb :: "'a callbacks" and c :: addr and f :: fnptr and d :: addr
    and Inv :: "'a sock_state_scheme \<Rightarrow> bool" and P :: "string \<Rightarrow> bool"
    and obs :: "'a sock_state_scheme \<Rightarrow> 'o" and step :: "'o \<Rightarrow> string \<Rightarrow> 'o"
  assumes f_nonnull: "f \<noteq> NULL"
    and call_client: "Inv s \<Longrightarrow> P l \<Longrightarrow> find_client c (call_interp cb f c d l s) = find_client c s"
    and call_obs: "Inv s \<Longrightarrow> P l \<Longrightarrow> obs (call_interp cb f c d l s) = step (obs s) l"
    and call_inv: "Inv s \<Longrightarrow> P l \<Longrightarrow> Inv (call_interp cb f c d l s)"
    and recv_obs: "recv_only g \<Longrightarrow> obs (upd_client c g s) = obs s"
    and recv_inv: "recv_only g \<Longrightarrow> Inv s \<Longrightarrow> Inv (upd_client c g s)"
begin

lemma handle_lines_spec:
  assumes "Inv s" "find_client c s = Some x" "interpretation_fn x = f" "cdata x = d"
    "\<forall>l \<in> set (fst (lines_of (terminator x) pend)). P (cstr l)"
  shows "\<exists>s'. handle_lines cb c pend s = (snd (lines_of (terminator x) pend), s')
    \<and> Inv s' \<and> find_client c s' = Some x
    \<and> obs s' = foldl step (obs s) (map cstr (fst (lines_of (terminator x) pend)))"
  using assms
proof (induction pend arbitrary: s rule: length_induct)
  case (1 pend)
  show ?case
  proof (cases "split_at (terminator x) pend")
    case None
    then have "handle_lines cb c pend s = (pend, s)" using "1.prems" by (subst handle_lines.simps) simp
    then show ?thesis using "1.prems" None by simp
  next
    case (Some p)
    obtain l r where p: "p = (l, r)" by force
    then have a: "pend = l @ terminator x # r" "terminator x \<notin> set l" using split_at_Some Some by auto
    then have sm: "length r < length pend" by simp
    let ?s = "call_interp cb f c d (cstr l) s"
    have l: "P (cstr l)" using "1.prems"(5) a by simp
    have "\<forall>l \<in> set (fst (lines_of (terminator x) r)). P (cstr l)" using "1.prems"(5) a by simp
    then obtain s' where s': "handle_lines cb c r ?s = (snd (lines_of (terminator x) r), s')"
      "Inv s'" "find_client c s' = Some x"
      "obs s' = foldl step (obs ?s) (map cstr (fst (lines_of (terminator x) r)))"
      using "1.IH" [rule_format, OF sm, of ?s] call_client [OF "1.prems"(1) l] call_inv [OF "1.prems"(1) l]
        "1.prems"(2,3,4) by auto
    have "handle_lines cb c pend s = handle_lines cb c r ?s"
      using "1.prems" Some p f_nonnull by (subst handle_lines.simps) simp
    then show ?thesis using s' a call_obs [OF "1.prems"(1) l] by simp
  qed
qed

text \<open>One reception: as much as the buffer has room for, after it is doubled when it is full.\<close>

definition room :: "client \<Rightarrow> nat" where
  "room x = (if buffer_size x - length (rbuf x) = 0 then buffer_size x * 2 else buffer_size x) - length (rbuf x)"

definition received :: "client \<Rightarrow> bytes \<Rightarrow> sockaddr \<Rightarrow> (recv_result \<times> sockaddr) list \<Rightarrow> client" where
  "received x b a rest =
     x\<lparr>buffer_size := room x + length (rbuf x),
       rbuf := snd (lines_of (terminator x) (rbuf x @ take (room x) b)),
       recv_answers := (if room x < length b then (RecvData (drop (room x) b), a) # rest else rest),
       from_len := 0\<rparr>"

lemma HandleSocket_spec:
  assumes "Inv s" "find_client c s = Some x" "interpretation_fn x = f" "cdata x = d" "c \<noteq> NULL"
    "recv_answers x = (RecvData b, a) # rest" "b \<noteq> []" "\<not> dgram x"
    "length (rbuf x) \<le> buffer_size x" "0 < buffer_size x"
    "\<forall>l \<in> set (fst (lines_of (terminator x) (rbuf x @ take (room x) b))). P (cstr l)"
  shows "Inv (HandleSocket cb c s) \<and> find_client c (HandleSocket cb c s) = Some (received x b a rest)
    \<and> obs (HandleSocket cb c s)
        = foldl step (obs s) (map cstr (fst (lines_of (terminator x) (rbuf x @ take (room x) b))))"
proof -
  let ?n = "room x" and ?b = "take (room x) b"
  let ?bs = "if buffer_size x - length (rbuf x) = 0 then buffer_size x * 2 else buffer_size x"
  let ?rest = "if room x < length b then (RecvData (drop (room x) b), a) # rest else rest"
  let ?g = "\<lambda>y. y\<lparr>buffer_size := ?bs, recv_answers := ?rest, from_len := 0\<rparr>"
  let ?s1 = "upd_client c (\<lambda>y. y\<lparr>rbuf := rbuf y @ ?b\<rparr>) (upd_client c ?g s)"
  let ?x1 = "(?g x)\<lparr>rbuf := rbuf x @ ?b\<rparr>"
  have n: "?bs = room x + length (rbuf x)" "0 < room x" using assms(9,10) by (auto simp: room_def)
  have i1: "Inv ?s1" "obs ?s1 = obs s" using assms(1) by (simp_all add: recv_obs recv_inv recv_onlyI)
  have f1: "find_client c ?s1 = Some ?x1" using assms(2) by simp
  from handle_lines_spec [OF i1(1) f1, of "rbuf x @ ?b"] assms(3,4,11) obtain s' where
    s': "handle_lines cb c (rbuf x @ ?b) ?s1 = (snd (lines_of (terminator x) (rbuf x @ ?b)), s')"
      "Inv s'" "find_client c s' = Some ?x1"
      "obs s' = foldl step (obs s) (map cstr (fst (lines_of (terminator x) (rbuf x @ ?b))))"
    using i1(2) by auto
  have "os_recv (dgram x) (?bs - length (rbuf x)) (recv_answers x) = (RecvData ?b, None, ?rest)"
    using assms(6,8) n(1) by (simp add: os_recv_def)
  moreover have "?b \<noteq> []" using assms(7) n(2) by simp
  ultimately have "HandleSocket cb c s
      = upd_client c (\<lambda>y. y\<lparr>rbuf := snd (lines_of (terminator x) (rbuf x @ ?b))\<rparr>) s'"
    using assms(2,5) s'(1) by (simp add: HandleSocket_def with_client_def Let_def)
  then show ?thesis using s'(2-4) n(1) by (simp add: recv_obs recv_inv recv_onlyI received_def)
qed

text \<open>
  A byte string received in any pieces is delivered as its lines, once each and in order, whatever
  the pieces and however long the lines.
\<close>

lemma HandleSocket_pieces:
  assumes "Inv s" "find_client c s = Some x" "interpretation_fn x = f" "cdata x = d" "c \<noteq> NULL"
    "recv_answers x = map (\<lambda>b. (RecvData b, a)) bs" "\<forall>b \<in> set bs. b \<noteq> []" "\<not> dgram x"
    "length (rbuf x) \<le> buffer_size x" "0 < buffer_size x" "terminator x \<notin> set (rbuf x)"
    "\<forall>l \<in> set (fst (lines_of (terminator x) (rbuf x @ concat bs))). P (cstr l)"
  shows "\<exists>n y. Inv ((HandleSocket cb c ^^ n) s) \<and> find_client c ((HandleSocket cb c ^^ n) s) = Some y
    \<and> rbuf y = snd (lines_of (terminator x) (rbuf x @ concat bs)) \<and> recv_answers y = []
    \<and> obs ((HandleSocket cb c ^^ n) s)
        = foldl step (obs s) (map cstr (fst (lines_of (terminator x) (rbuf x @ concat bs))))"
  using assms
proof (induction "length (concat bs)" arbitrary: s x bs rule: less_induct)
  case less
  show ?case
  proof (cases bs)
    case Nil
    then show ?thesis using less.prems by (intro exI [of _ 0] exI [of _ x]) simp
  next
    case (Cons b bs')
    let ?t = "terminator x" and ?s = "HandleSocket cb c s"
    let ?bs = "if room x < length b then drop (room x) b # bs' else bs'"
    define y where "y = received x b a (map (\<lambda>b. (RecvData b, a)) bs')"
    have n: "0 < room x" using less.prems(9,10) by (auto simp: room_def)
    have b: "b \<noteq> []" using less.prems(7) Cons by simp
    have cat: "concat bs = take (room x) b @ concat ?bs" using Cons by (simp flip: append_assoc)
    note split = lines_of_append [of ?t "rbuf x @ take (room x) b" "concat ?bs"]
    have all: "rbuf x @ concat bs = (rbuf x @ take (room x) b) @ concat ?bs" using cat by simp
    have P1: "\<forall>l \<in> set (fst (lines_of ?t (rbuf x @ take (room x) b))). P (cstr l)"
      using less.prems(12) unfolding all split by simp
    from HandleSocket_spec [OF less.prems(1-5) _ b less.prems(8-10) P1] less.prems(6) Cons
    have h: "Inv ?s" "find_client c ?s = Some y"
      "obs ?s = foldl step (obs s) (map cstr (fst (lines_of ?t (rbuf x @ take (room x) b))))"
      by (simp_all add: y_def)
    have y: "interpretation_fn y = f" "cdata y = d" "terminator y = ?t" "\<not> dgram y"
      "recv_answers y = map (\<lambda>b. (RecvData b, a)) ?bs"
      "rbuf y = snd (lines_of ?t (rbuf x @ take (room x) b))"
      "buffer_size y = room x + length (rbuf x)"
      using less.prems(3,4,8) by (simp_all add: y_def received_def)
    have l: "length (concat ?bs) < length (concat bs)" using cat n b by (simp del: concat.simps)
    have ne: "\<forall>b \<in> set ?bs. b \<noteq> []" using less.prems(7) Cons by auto
    have le: "length (rbuf y) \<le> buffer_size y"
      using lines_of_rest [of ?t "rbuf x @ take (room x) b"] y(6,7) by (auto simp: min_le_iff_disj)
    have P2: "\<forall>l \<in> set (fst (lines_of (terminator y) (rbuf y @ concat ?bs))). P (cstr l)"
      using less.prems(12) unfolding all split y(3,6) by simp
    have pos: "0 < buffer_size y" "terminator y \<notin> set (rbuf y)"
      using y(3,6,7) n lines_of_rest [of ?t "rbuf x @ take (room x) b"] by simp_all
    from less.hyps [OF l h(1,2) y(1,2) less.prems(5) y(5) ne y(4) le pos P2] obtain m z where
      m: "Inv ((HandleSocket cb c ^^ m) ?s)"
      "find_client c ((HandleSocket cb c ^^ m) ?s) = Some z"
      "rbuf z = snd (lines_of ?t (rbuf y @ concat ?bs))" "recv_answers z = []"
      "obs ((HandleSocket cb c ^^ m) ?s) = foldl step (obs ?s) (map cstr (fst (lines_of ?t (rbuf y @ concat ?bs))))"
      unfolding y(3) by blast
    have eq: "(HandleSocket cb c ^^ Suc m) s = (HandleSocket cb c ^^ m) ?s"
      by (simp add: funpow_swap1)
    show ?thesis
      unfolding all split by (rule exI [of _ "Suc m"], rule exI [of _ z])
        (use m h(3) y(6) eq in simp)
  qed
qed

end

subsection \<open>The static buffers\<close>

lemma buffer_bytes_text:
  assumes "buffer_text b = t" "n \<le> length t"
  shows "buffer_bytes b (int n) = take n t"
  using assms by (auto simp: buffer_text_def buffer_bytes_def split: option.splits)

lemma format_static_spec:
  assumes "buffer_wf b"
  shows "\<exists>b'. format_static b out = Some (int (length out), b') \<and> buffer_wf b'
    \<and> buffer_text b' = (if bsize b = 0 then [] else buffer_text b) @ out"
  using make_message_c99 [OF assms, of "\<lambda>_. True" out] by (auto simp: format_static_def)

lemma format_static_fresh:
  assumes "buffer_wf b"
  shows "\<exists>b'. format_static (b\<lparr>boffset := 0\<rparr>) out = Some (int (length out), b') \<and> buffer_wf b'
    \<and> buffer_bytes b' (int (length out)) = out"
proof -
  have "buffer_wf (b\<lparr>boffset := 0\<rparr>)" using assms by (auto simp: buffer_wf_def split: option.splits)
  from format_static_spec [OF this, of out] obtain b' where
    b': "format_static (b\<lparr>boffset := 0\<rparr>) out = Some (int (length out), b')" "buffer_wf b'"
      "buffer_text b' = out"
    by (auto simp: buffer_text_def split: option.splits if_splits)
  then show ?thesis using buffer_bytes_text [of b' out "length out"] by simp
qed

text \<open>\<^verbatim>\<open>SocketSend\<close> sends the formatted string.\<close>

lemma SocketSend_spec:
  assumes "buffer_wf (send_buf s)"
  shows "\<exists>b. SocketSend c out s = SocketSendRaw c out (s\<lparr>send_buf := b\<rparr>) \<and> buffer_wf b"
  using format_static_fresh [OF assms, of out] by (auto simp: SocketSend_def)

subsection \<open>Properties\<close>

text \<open>A state with one connected client, whose kernel takes three bytes and then nothing.\<close>

definition init_buffer :: IvyBuffer where
  "init_buffer = \<lparr>bdata = None, bsize = 0, boffset = 0\<rparr>"

definition client_on :: "nat \<Rightarrow> addr \<Rightarrow> addr \<Rightarrow> client" where
  "client_on fd c chan = (fresh_client c fd False ''init by SocketConnectAddr'')\<lparr>cchannel := chan\<rparr>"

definition one_client :: "client \<Rightarrow> sock_state" where
  "one_client x =
     \<lparr>channels_list = [\<lparr>ch = 2, ch_fd = 4, ch_data = 1, tobedeleted = False,
        handle_delete = Some H_DeleteSocket, handle_read = Some H_HandleSocket,
        handle_write = Some H_HandleCongestionWrite\<rparr>],
      channel_initialized = True, open_fds = {4},
      wrdy_fds = (if ifb x = None then {} else {4}), highestFd = 5, main_loop = True,
      timer_st = init_timers, next_addr = 3, fault = None, servers_list = [], clients_list = [x],
      closed_fds = [], exited = False, send_buf = init_buffer, bcast_buf = init_buffer,
      dgram_buf = init_buffer, dgram6_buf = init_buffer, datagrams = [], groups = []\<rparr>"

lemma one_client_inv:
  assumes "cid x = 1" "cfd x = 4" "cchannel x = 2" "client_ok x"
  shows "sock_inv (one_client x)" "find_client 1 (one_client x) = Some x"
  using assms
  by (auto simp: sock_inv_def one_client_def loop_wf_def channel_nodes_def client_inv_def find_channel_def
      find_client_def FD_SETSIZE_def)

definition no_callbacks :: "'a callbacks" where
  "no_callbacks = \<lparr>call_interp = (\<lambda>f c d l s. s), call_delete = (\<lambda>f c d s. s),
     call_decongestion = (\<lambda>f c d s. s), call_create = (\<lambda>f c s. (0, s)), call_app = (\<lambda>n d s. s),
     os_nodelay = (\<lambda>fd. True)\<rparr>"

text \<open>
  (C13) Over any sequence of sends and of turns in which the socket is writable, whatever the kernel
  answers, the bytes the kernel has taken followed by those waiting in the ring buffer are those
  at the start followed by the messages that were not reported as dropped, in order: no byte is
  lost, repeated or reordered. And the socket stays watched for writing exactly while it is
  congested.
\<close>

theorem socket_stream:
  assumes "sock_inv s" "find_client c s = Some x" "\<forall>op \<in> set ops. small_send op"
    "quiet_decongestion cb c" "run_send_ops cb c ops s = (acc, s')"
  shows "sock_inv s' \<and> (\<exists>y. find_client c s' = Some y \<and> stream y = stream x @ concat acc)"
  using assms by (rule run_send_ops_stream)

lemma quiet_no_callbacks: "quiet_decongestion no_callbacks c"
  by (simp add: quiet_decongestion_def no_callbacks_def)

theorem socket_stream_witness:
  "\<exists>acc s' y. run_send_ops no_callbacks 1 [OpSend ''hello'', OpSend ''x'', OpWritable]
       (one_client ((client_on 4 1 2)\<lparr>send_answers := [Accept 3, Accept 9]\<rparr>)) = (acc, s')
     \<and> find_client 1 s' = Some y \<and> wire y @ pending y = concat acc"
proof -
  let ?x = "(client_on 4 1 2)\<lparr>send_answers := [Accept 3, Accept 9]\<rparr>"
  let ?ops = "[OpSend ''hello'', OpSend ''x'', OpWritable]"
  have x: "sock_inv (one_client ?x)" "find_client 1 (one_client ?x) = Some ?x"
    by (rule one_client_inv; simp add: client_on_def fresh_client_def client_ok_def)+
  have sm: "\<forall>op \<in> set ?ops. small_send op" by (simp add: small_send_def MSG_MAX_def)
  obtain acc s' where r: "run_send_ops no_callbacks 1 ?ops (one_client ?x) = (acc, s')" by force
  have "stream ?x = []" by (simp add: stream_def pending_def client_on_def fresh_client_def)
  then show ?thesis
    using socket_stream [OF x sm quiet_no_callbacks r] r unfolding stream_def by fastforce
qed

text \<open>
  (C32) The promise of \<open>socket_stream\<close> is per call, and \<^verbatim>\<open>SocketSendRawWithId\<close> makes two: when the
  ring buffer has room for the identifier but the body would need a larger block than allowed,
  the identifier alone stays in the stream, the call reports a full buffer, and the peer will
  read it glued to the next message.
\<close>

theorem send_with_id_torn:
  assumes inv: "sock_inv s" and x: "find_client c s = Some x" "ifb x = Some f" "\<not> full f"
    and room: "length i < fifo_end f - length (fifo_content f)"
    and big: "fifo_end f - length (fifo_content f) - length i \<le> length b" "length b < MSG_MAX"
      "IVY_FIFO_MAX_ALLOC_SIZE < aligned_size (length b + length (fifo_content f) + length i)"
  shows "\<exists>s' y. SocketSendRawWithId c i b s = (SendStateFifoFull, s')
    \<and> find_client c s' = Some y \<and> stream y = stream x @ i"
proof -
  have cx: "client_inv s x" "0 < c" using sock_inv_find [OF inv x(1)] by auto
  have wf: "fifo_wf f" using cx(1) x(2) by (simp add: client_inv_def client_ok_def)
  have a1: "fifo_accepts f (length i)" using room x(3) by (simp add: fifo_accepts_def)
  obtain f1 where f1: "fifo_write_loop f i = Some f1" "fifo_wf f1" "full f1 = full f"
    "fifo_content f1 = fifo_content f @ i" "fifo_end f1 = fifo_end f" using fifo_write_loop_eq [OF wf room] by blast
  have w1: "IvyFifoWrite f i = Some f1" using room wf x(3) f1(1) by (simp add: IvyFifoWrite_def)
  have lb: "length b < 2147483648" using big(2) by (simp add: MSG_MAX_def)
  have a2: "\<not> fifo_accepts f1 (length b)"
    using big(1,3) f1(4,5) by (auto simp: fifo_accepts_def add.assoc)
  obtain f2 where f2: "IvyFifoWrite f1 b = Some f2" "full f2" "fifo_content f2 = fifo_content f1"
    using IvyFifoWrite_eq [OF f1(2) lb] a2 by auto
  let ?s1 = "upd_client c (\<lambda>y. y\<lparr>ifb := Some f1\<rparr>) s"
  let ?s2 = "upd_client c (\<lambda>y. y\<lparr>ifb := Some f2\<rparr>) ?s1"
  have "BufferizedSocketSendRaw c i s = (SendStillCongestion, ?s1)"
    using x w1 f1(3) by (simp add: BufferizedSocketSendRaw_def fifo_put_def IvyFifoIsFull_def)
  moreover have "BufferizedSocketSendRaw c b ?s1 = (SendStateFifoFull, ?s2)"
    using x(1) f2(1,2) by (simp add: BufferizedSocketSendRaw_def fifo_put_def IvyFifoIsFull_def)
  ultimately have "SocketSendRawWithId c i b s = (SendStateFifoFull, ?s2)"
    by (simp add: SocketSendRawWithId_def)
  moreover have "find_client c ?s2 = Some (x\<lparr>ifb := Some f2\<rparr>)" using x(1) by simp
  moreover have "stream (x\<lparr>ifb := Some f2\<rparr>) = stream x @ i"
    using x(2) f1(4) f2(3) by (simp add: stream_def pending_def)
  ultimately show ?thesis by blast
qed

definition nearly_full :: "bytes \<Rightarrow> client" where
  "nearly_full block = (client_on 4 1 2)
     \<lparr>ifb := Some \<lparr>buffer = block, rptr = 0, wptr = 33554400, full = False\<rparr>\<rparr>"

theorem send_with_id_torn_witness:
  "\<exists>x b s' y. SocketSendRawWithId 1 ''1 x'' b (one_client x) = (SendStateFifoFull, s')
     \<and> find_client 1 s' = Some y \<and> stream y = stream x @ ''1 x''"
proof -
  obtain block :: bytes where l: "length block = 33554432"
    by (rule that [of "replicate 33554432 NUL"]) (rule length_replicate)
  obtain b :: bytes where b: "length b = 40" by (rule that [of "replicate 40 NUL"]) (rule length_replicate)
  let ?f = "\<lparr>buffer = block, rptr = 0, wptr = 33554400, full = False\<rparr>"
  let ?x = "nearly_full block"
  have c: "length (fifo_content ?f) = 33554400" using l by (simp add: fifo_content_def)
  have "client_ok ?x" using l
    by (simp add: nearly_full_def client_ok_def fifo_wf_def IVY_FIFO_MAX_ALLOC_SIZE_def)
  then have x: "sock_inv (one_client ?x)" "find_client 1 (one_client ?x) = Some ?x"
    by (intro one_client_inv; simp add: nearly_full_def client_on_def fresh_client_def)+
  have i: "ifb ?x = Some ?f" "\<not> full ?f" by (simp_all add: nearly_full_def)
  have "aligned_size (40 + 33554400 + 3) = 33816576"
    by (subst aligned_size_eq) simp_all
  then show ?thesis
    using send_with_id_torn [OF x i, of "''1 x''" b] b c l
    by (auto simp: MSG_MAX_def IVY_FIFO_MAX_ALLOC_SIZE_def)
qed

text \<open>
  \<^verbatim>\<open>SocketBroadcast\<close> never resets the offset of its static buffer, yet sends from the start of the
  block as many bytes as it has just formatted: from the second call on, every client is sent the
  beginning of the earlier messages instead of the new one.
\<close>

theorem socket_broadcast_stale:
  assumes "buffer_wf (bcast_buf s)" "bsize (bcast_buf s) \<noteq> 0"
  shows "\<exists>b. buffer_text b = buffer_text (bcast_buf s) @ out
    \<and> SocketBroadcast out s
      = each client_nodes crash
          (\<lambda>c t. snd (SocketSendRaw c (take (length out) (buffer_text (bcast_buf s) @ out)) t))
          (client_nodes s) (s\<lparr>bcast_buf := b\<rparr>)"
proof -
  from format_static_spec [OF assms(1), of out] assms(2) obtain b where
    b: "format_static (bcast_buf s) out = Some (int (length out), b)"
      "buffer_text b = buffer_text (bcast_buf s) @ out" by auto
  have "buffer_bytes b (int (length out)) = take (length out) (buffer_text (bcast_buf s) @ out)"
    by (rule buffer_bytes_text [OF b(2)]) simp
  then show ?thesis using b by (intro exI [of _ b]) (simp add: SocketBroadcast_def client_nodes_def)
qed

definition after_hello :: sock_state where
  "after_hello = (one_client (client_on 4 1 2))
     \<lparr>bcast_buf := \<lparr>bdata = Some (''hello'' @ [NUL]), bsize = 6, boffset = 5\<rparr>\<rparr>"

theorem socket_broadcast_stale_witness:
  "\<exists>b. SocketBroadcast ''abc'' after_hello
     = each client_nodes crash (\<lambda>c t. snd (SocketSendRaw c ''hel'' t)) [1] (after_hello\<lparr>bcast_buf := b\<rparr>)"
proof -
  have "buffer_wf (bcast_buf after_hello)" "bsize (bcast_buf after_hello) \<noteq> 0"
    "buffer_text (bcast_buf after_hello) = ''hello''" "client_nodes after_hello = [1]"
    by (simp_all add: after_hello_def buffer_wf_def buffer_text_def one_client_def client_nodes_def
        client_on_def fresh_client_def)
  then show ?thesis using socket_broadcast_stale [of after_hello "''abc''"] by auto
qed

text \<open>
  \<^verbatim>\<open>SocketWaitForReply\<close> given a chunk that holds a whole line: it returns the line and its
  length when the chunk is shorter than the buffer; a chunk that fills the buffer exactly (the
  kernel is asked for that many bytes) makes it write the final NUL one byte past the end.
\<close>

theorem wait_for_reply:
  assumes "b = line @ t # rest" "t \<notin> set line" "NUL \<notin> set line" "t \<noteq> NUL" "0 < n"
  shows "SocketWaitForReply t n (WaitData b # evs) [] =
    (if length b < n then Reply (int (length line)) line else WaitFault OutOfBounds)"
proof -
  have "cstr b = line @ t # cstr rest"
    using assms(1,3,4) by (auto simp: cstr_def takeWhile_append)
  moreover have "b \<noteq> []" "split_at t (line @ t # cstr rest) = Some (line, cstr rest)"
    using assms(1,2) by simp_all
  moreover have "length b < n \<Longrightarrow> take n b = b" "\<not> length b < n \<Longrightarrow> length (take n b) = n" by simp_all
  ultimately show ?thesis using assms(5)
    by (subst SocketWaitForReply.simps) (cases "length b < n"; simp add: Let_def del: length_take)
qed

theorem wait_for_reply_witness:
  "SocketWaitForReply (CHR 0x0A) 3 [WaitData (''ab'' @ [CHR 0x0A])] [] = WaitFault OutOfBounds
   \<and> SocketWaitForReply (CHR 0x0A) 4 [WaitData (''ab'' @ [CHR 0x0A])] [] = Reply 2 ''ab''"
  using wait_for_reply [of "''ab'' @ [CHR 0x0A]" "''ab''" "CHR 0x0A" "[]" 3 "[]"]
    wait_for_reply [of "''ab'' @ [CHR 0x0A]" "''ab''" "CHR 0x0A" "[]" 4 "[]"] by simp

end
