(* ===== verification/Ivy_Bind.thy ===== *)
theory Ivy_Bind
  imports Ivy_Prelude "HOL-Library.Sublist"
begin

text \<open>
  Compiled subscriptions and the filter on them, \<^verbatim>\<open>src/ivybind.c\<close> built with \<^verbatim>\<open>USE_PCRE_REGEX\<close>. The
  PCRE2 library is a parameter, the record \<open>pcre\<close>: whether an expression compiles (or the
  offset and text of the error), how many groups it has, and what matching a string gives: the
  offsets of the whole match and of the groups up to the last one set, \<open>None\<close> for a group
  that took no part. Memory allocation succeeds.
\<close>

type_synonym ovector = "(nat \<times> nat) option list"

record pcre =
  pcre_error :: "string \<Rightarrow> (int \<times> string) option"
  pcre_groups :: "string \<Rightarrow> nat"
  pcre_match :: "string \<Rightarrow> string \<Rightarrow> ovector option"

text \<open>A binding is the compiled expression with the data of its last match.\<close>

record ivy_binding =
  b_regexp :: string
  nb_match :: nat
  match_data :: ovector

datatype compile_result = Compiled ivy_binding | CompileError int string

definition INT_MAX :: int where
  "INT_MAX = 2147483647"

definition IvyBindingCompile :: "pcre \<Rightarrow> string \<Rightarrow> compile_result" where
  "IvyBindingCompile px expression =
     (case pcre_error px expression of
        None \<Rightarrow> Compiled \<lparr>b_regexp = expression, nb_match = 0,
                  match_data = replicate (pcre_groups px expression + 1) None\<rparr>
      | Some (offset, msg) \<Rightarrow>
          CompileError (if offset > INT_MAX then INT_MAX else offset) msg)"

text \<open>The result and the binding, whose match data is overwritten; a null binding matches nothing.\<close>

definition IvyBindingExec :: "pcre \<Rightarrow> ivy_binding option \<Rightarrow> string \<Rightarrow> nat \<times> ivy_binding option" where
  "IvyBindingExec px bind message =
     (case bind of
        None \<Rightarrow> (0, None)
      | Some b \<Rightarrow>
          (case pcre_match px (b_regexp b) message of
             None \<Rightarrow> (0, Some (b\<lparr>nb_match := 0\<rparr>))
           | Some ov \<Rightarrow>
               if length ov < 1 then (0, Some (b\<lparr>nb_match := 0\<rparr>))
               else (length ov, Some (b\<lparr>nb_match := length ov,
                 match_data := ov @ replicate (pcre_groups px (b_regexp b) + 1 - length ov) None\<rparr>))))"

text \<open>The argument as a string; empty where the code gives a null pointer and length 0.\<close>

definition IvyBindingMatch :: "ivy_binding \<Rightarrow> string \<Rightarrow> int \<Rightarrow> string" where
  "IvyBindingMatch b message argnum =
     (if nb_match b < 1 \<or> argnum < 0 \<or> nat argnum \<ge> length (match_data b) then []
      else case match_data b ! nat argnum of
        None \<Rightarrow> []
      | Some (start, fin) \<Rightarrow>
          if fin < start \<or> int (fin - start) > INT_MAX then []
          else take (fin - start) (drop start message))"

subsection \<open>The filter\<close>

record filter_state =
  messages_classes :: "string list"
  token_extract :: "ivy_binding option"

definition init_filter :: filter_state where
  "init_filter = \<lparr>messages_classes = [], token_extract = None\<rparr>"

definition TOKEN_REGEXP :: string where
  "TOKEN_REGEXP = ''^'' @ [CHR 0x5C] @ ''^([a-zA-Z_0-9-]+).*''"

definition IvyBindingAddFilter :: "pcre \<Rightarrow> string option \<Rightarrow> filter_state \<Rightarrow> filter_state" where
  "IvyBindingAddFilter px arg fs =
     (let fs1 = (case arg of None \<Rightarrow> fs | Some w \<Rightarrow> fs\<lparr>messages_classes := w # messages_classes fs\<rparr>)
      in if token_extract fs1 = None
         then fs1\<lparr>token_extract :=
                (case IvyBindingCompile px TOKEN_REGEXP of Compiled b \<Rightarrow> Some b | CompileError _ _ \<Rightarrow> None)\<rparr>
         else fs1)"

definition IvyBindingSetFilter :: "pcre \<Rightarrow> string list \<Rightarrow> filter_state \<Rightarrow> filter_state" where
  "IvyBindingSetFilter px argv fs = fold (\<lambda>a. IvyBindingAddFilter px (Some a)) argv fs"

definition IvyBindingRemoveFilter :: "string \<Rightarrow> filter_state \<Rightarrow> filter_state" where
  "IvyBindingRemoveFilter arg fs =
     fs\<lparr>messages_classes := filter (\<lambda>w. w \<noteq> arg) (messages_classes fs)\<rparr>"

text \<open>
  \<open>True\<close> when the subscription is accepted. \<^verbatim>\<open>token\<close> points into the expression, and only
  \<^verbatim>\<open>tokenlen\<close> bytes of it are compared with each word.
\<close>

definition IvyBindingFilter :: "pcre \<Rightarrow> string \<Rightarrow> filter_state \<Rightarrow> bool \<times> filter_state" where
  "IvyBindingFilter px expression fs =
     (if (case expression of c # _ \<Rightarrow> c = CHR ''^'' | [] \<Rightarrow> False) \<and> messages_classes fs \<noteq> [] then
        (let (err, tx) = IvyBindingExec px (token_extract fs) expression;
             fs1 = fs\<lparr>token_extract := tx\<rparr>
         in if err < 1 then (True, fs1)
            else (case tx of
               None \<Rightarrow> (True, fs1)
             | Some b \<Rightarrow>
                 (let token = IvyBindingMatch b expression 1
                  in (find (\<lambda>w. strncmp (length token) w token = 0) (messages_classes fs1) \<noteq> None, fs1))))
      else (True, fs))"

text \<open>Whether the warning is printed.\<close>

definition IvyBindindFilterCheck :: "string \<Rightarrow> filter_state \<Rightarrow> bool" where
  "IvyBindindFilterCheck message fs \<longleftrightarrow> find (\<lambda>w. w = message) (messages_classes fs) = None"

definition IvyBindingTerminate :: "filter_state \<Rightarrow> filter_state" where
  "IvyBindingTerminate fs = fs\<lparr>messages_classes := [], token_extract := None\<rparr>"

subsection \<open>What the library relies on in PCRE2\<close>

text \<open>
  Documented: a successful match reports at least the whole match and at most one entry per
  group more, with offsets inside the subject.
\<close>

definition pcre_sound :: "pcre \<Rightarrow> bool" where
  "pcre_sound px \<longleftrightarrow> (\<forall>re subj ov. pcre_match px re subj = Some ov \<longrightarrow>
     0 < length ov \<and> length ov \<le> pcre_groups px re + 1
     \<and> (\<forall>a b. Some (a, b) \<in> set ov \<longrightarrow> a \<le> length subj \<and> b \<le> length subj))"

definition token_char :: "char \<Rightarrow> bool" where
  "token_char c \<longleftrightarrow> is_digit c \<or> (65 \<le> (of_char c :: nat) \<and> (of_char c :: nat) \<le> 90)
     \<or> (97 \<le> (of_char c :: nat) \<and> (of_char c :: nat) \<le> 122) \<or> c = CHR ''_'' \<or> c = CHR ''-''"

definition token_of :: "string \<Rightarrow> string" where
  "token_of expression = takeWhile token_char (tl expression)"

text \<open>What the token expression means: a caret, then the longest run of word characters.\<close>

definition pcre_token :: "pcre \<Rightarrow> bool" where
  "pcre_token px \<longleftrightarrow> pcre_error px TOKEN_REGEXP = None \<and> pcre_groups px TOKEN_REGEXP = 1
     \<and> (\<forall>r. token_of (CHR ''^'' # r) = [] \<longrightarrow> pcre_match px TOKEN_REGEXP (CHR ''^'' # r) = None)
     \<and> (\<forall>r. token_of (CHR ''^'' # r) \<noteq> [] \<longrightarrow>
          (\<exists>e. pcre_match px TOKEN_REGEXP (CHR ''^'' # r)
               = Some [Some (0, e), Some (1, 1 + length (token_of (CHR ''^'' # r)))]))"

definition filter_ready :: "filter_state \<Rightarrow> bool" where
  "filter_ready fs \<longleftrightarrow> (messages_classes fs \<noteq> [] \<longrightarrow>
     (\<exists>b. token_extract fs = Some b \<and> b_regexp b = TOKEN_REGEXP))"

lemma AddFilter_ready:
  assumes "pcre_token px" "filter_ready fs"
    "token_extract fs = None \<or> (\<exists>b. token_extract fs = Some b \<and> b_regexp b = TOKEN_REGEXP)"
  shows "filter_ready (IvyBindingAddFilter px a fs)
    \<and> (\<exists>b. token_extract (IvyBindingAddFilter px a fs) = Some b \<and> b_regexp b = TOKEN_REGEXP)"
  using assms by (auto simp: IvyBindingAddFilter_def IvyBindingCompile_def pcre_token_def filter_ready_def
      split: option.splits)

lemma SetFilter_ready:
  assumes "pcre_token px"
  shows "filter_ready fs \<Longrightarrow> token_extract fs = None \<or> (\<exists>b. token_extract fs = Some b \<and> b_regexp b = TOKEN_REGEXP)
    \<Longrightarrow> filter_ready (IvyBindingSetFilter px argv fs)
      \<and> messages_classes (IvyBindingSetFilter px argv fs) = rev argv @ messages_classes fs"
proof (induction argv arbitrary: fs)
  case (Cons a argv)
  note r = AddFilter_ready [OF assms Cons.prems, of "Some a"]
  have "messages_classes (IvyBindingAddFilter px (Some a) fs) = a # messages_classes fs"
    by (simp add: IvyBindingAddFilter_def Let_def)
  then show ?case using Cons.IH [of "IvyBindingAddFilter px (Some a) fs"] r
    by (simp add: IvyBindingSetFilter_def)
qed (simp add: IvyBindingSetFilter_def)

lemma strncmp_token:
  assumes "NUL \<notin> set w" "NUL \<notin> set t"
  shows "strncmp (length t) w t = 0 \<longleftrightarrow> prefix t w"
proof -
  have "take (length t) w = t \<longleftrightarrow> prefix t w"
    by (metis append_eq_conv_conj prefix_def append_take_drop_id)
  then show ?thesis using strncmp_zero [OF assms] by simp
qed

lemma token_no_NUL: "NUL \<notin> set (token_of e)"
  by (auto simp: token_of_def token_char_def is_digit_def dest: set_takeWhileD)

text \<open>The decision of the filter, and what it leaves.\<close>

lemma Filter_spec:
  assumes px: "pcre_token px" and fs: "filter_ready fs" "\<forall>w \<in> set (messages_classes fs). NUL \<notin> set w"
    and len: "length e < 2147483648"
  shows "fst (IvyBindingFilter px e fs) \<longleftrightarrow>
    (\<not> prefix ''^'' e \<or> messages_classes fs = [] \<or> token_of e = []
     \<or> (\<exists>w \<in> set (messages_classes fs). prefix (token_of e) w))"
proof (cases "prefix ''^'' e \<and> messages_classes fs \<noteq> []")
  case False
  then show ?thesis by (cases e) (auto simp: IvyBindingFilter_def)
next
  case True
  then obtain r where e: "e = CHR ''^'' # r" by (cases e) auto
  obtain b where b: "token_extract fs = Some b" "b_regexp b = TOKEN_REGEXP"
    using fs(1) True by (auto simp: filter_ready_def)
  show ?thesis
  proof (cases "token_of e = []")
    case True
    then have "pcre_match px TOKEN_REGEXP e = None" using px e by (simp add: pcre_token_def)
    then show ?thesis using b True e by (simp add: IvyBindingFilter_def IvyBindingExec_def)
  next
    case tok: False
    then obtain f where m: "pcre_match px TOKEN_REGEXP e = Some [Some (0, f), Some (1, 1 + length (token_of e))]"
      using px e by (auto simp: pcre_token_def)
    let ?b = "b\<lparr>nb_match := 2, match_data := [Some (0, f), Some (1, 1 + length (token_of e))]\<rparr>"
    have x: "IvyBindingExec px (token_extract fs) e = (2, Some ?b)"
      using b m px by (simp add: IvyBindingExec_def pcre_token_def)
    have "length (token_of e) \<le> length r" using e by (simp add: token_of_def length_takeWhile_le)
    then have "IvyBindingMatch ?b e 1 = take (length (token_of e)) r"
      using e len by (simp add: IvyBindingMatch_def INT_MAX_def)
    also have "\<dots> = token_of e" using e by (simp add: token_of_def takeWhile_eq_take [symmetric])
    finally have t: "IvyBindingMatch ?b e 1 = token_of e" .
    have "find (\<lambda>w. strncmp (length (token_of e)) w (token_of e) = 0) (messages_classes fs) \<noteq> None
      \<longleftrightarrow> (\<exists>w \<in> set (messages_classes fs). prefix (token_of e) w)"
      using fs(2) strncmp_token token_no_NUL [of e] by (auto simp: find_None_iff)
    then show ?thesis using True x t tok e by (simp add: IvyBindingFilter_def Let_def)
  qed
qed

text \<open>
  (C27) The filter accepts a subscription exactly when no filter is set, the subscription is not
  anchored with a caret, no word follows the caret, or the word that follows it is a prefix of one
  of the filter words (not only one of them: \<^verbatim>\<open>strncmp\<close> stops at the length of the token).
\<close>

theorem filter_decision:
  assumes "pcre_token px" "filter_ready fs" "\<forall>w \<in> set (messages_classes fs). NUL \<notin> set w"
    "length e < 2147483648"
  shows "fst (IvyBindingFilter px e fs) \<longleftrightarrow>
    (\<not> prefix ''^'' e \<or> messages_classes fs = [] \<or> token_of e = []
     \<or> (\<exists>w \<in> set (messages_classes fs). prefix (token_of e) w))"
  using assms by (rule Filter_spec)

text \<open>An instance of the library that knows only the token expression.\<close>

definition token_pcre :: pcre where
  "token_pcre = \<lparr>pcre_error = (\<lambda>_. None), pcre_groups = (\<lambda>_. 1),
     pcre_match = (\<lambda>re s. if re = TOKEN_REGEXP \<and> prefix ''^'' s \<and> token_of s \<noteq> []
       then Some [Some (0, length s), Some (1, 1 + length (token_of s))] else None)\<rparr>"

lemma token_pcre_token: "pcre_token token_pcre"
  by (auto simp: pcre_token_def token_pcre_def)

theorem filter_decision_witness:
  "fst (IvyBindingFilter token_pcre ''^stat.*'' (IvyBindingSetFilter token_pcre [''status''] init_filter))
   \<and> \<not> fst (IvyBindingFilter token_pcre ''^pos.*'' (IvyBindingSetFilter token_pcre [''status''] init_filter))"
proof -
  let ?fs = "IvyBindingSetFilter token_pcre [''status''] init_filter"
  have r: "filter_ready ?fs" "messages_classes ?fs = [''status'']"
    using SetFilter_ready [OF token_pcre_token, of init_filter "[''status'']"]
    by (simp_all add: filter_ready_def init_filter_def)
  have n: "\<forall>w \<in> set (messages_classes ?fs). NUL \<notin> set w" using r(2) by simp
  have t: "token_of ''^stat.*'' = ''stat''" "token_of ''^pos.*'' = ''pos''"
    by (simp_all add: token_of_def token_char_def is_digit_def)
  show ?thesis
    using filter_decision [OF token_pcre_token r(1) n, of "''^stat.*''"]
      filter_decision [OF token_pcre_token r(1) n, of "''^pos.*''"] r(2) t by simp
qed

end
