(* ===== verification/Ivy_Wire.thy ===== *)
theory Ivy_Wire
  imports Ivy_Prelude
begin

text \<open>
  The text protocol of the bus, from \<^verbatim>\<open>src/ivy.c\<close>: a line is the decimal message type, a blank, the
  decimal identifier, \<^verbatim>\<open>ARG_START\<close> and a text; the arguments of a message end each with
  \<^verbatim>\<open>ARG_END\<close>. The formats of \<^verbatim>\<open>MsgSendTo\<close> and \<^verbatim>\<open>RegexpCall\<close>, the parsing at the head of
  \<^verbatim>\<open>Receive\<close>, the splitting of arguments, and the check for control characters.
\<close>

abbreviation ARG_START :: char where
  "ARG_START \<equiv> CHR 0x02"

abbreviation ARG_END :: char where
  "ARG_END \<equiv> CHR 0x03"

abbreviation NL :: char where
  "NL \<equiv> CHR 0x0A"

datatype MsgType = Bye | AddRegexp | Msg | Error | DelRegexp | EndRegexp | StartRegexp | DirectMsg
  | Die | Ping | Pong

fun msg_num :: "MsgType \<Rightarrow> int" where
  "msg_num Bye = 0"
| "msg_num AddRegexp = 1"
| "msg_num Msg = 2"
| "msg_num Error = 3"
| "msg_num DelRegexp = 4"
| "msg_num EndRegexp = 5"
| "msg_num StartRegexp = 6"
| "msg_num DirectMsg = 7"
| "msg_num Die = 8"
| "msg_num Ping = 9"
| "msg_num Pong = 10"

definition msg_of_num :: "int \<Rightarrow> MsgType option" where
  "msg_of_num k = find (\<lambda>t. msg_num t = k)
     [Bye, AddRegexp, Msg, Error, DelRegexp, EndRegexp, StartRegexp, DirectMsg, Die, Ping, Pong]"

text \<open>The head of a line, \<^verbatim>\<open>"%d %d" ARG_START\<close>, and the line of \<^verbatim>\<open>MsgSendTo\<close>.\<close>

definition wire_head :: "int \<Rightarrow> int \<Rightarrow> string" where
  "wire_head k i = dec_int k @ '' '' @ dec_int i @ [ARG_START]"

definition wire_line :: "MsgType \<Rightarrow> int \<Rightarrow> string \<Rightarrow> string" where
  "wire_line t i m = wire_head (msg_num t) i @ m @ [NL]"

text \<open>\<^verbatim>\<open>sscanf (line, "%d %d", ...)\<close> with its count, and \<^verbatim>\<open>strstr (line, ARG_START)\<close>.\<close>

definition parse_line :: "string \<Rightarrow> (int \<times> int \<times> string) option" where
  "parse_line line =
     (case scan_int line of
        None \<Rightarrow> None
      | Some (k, r) \<Rightarrow>
          (case scan_int r of
             None \<Rightarrow> None
           | Some (i, _) \<Rightarrow>
               (case split_at ARG_START line of
                  None \<Rightarrow> None
                | Some (_, arg) \<Rightarrow> Some (k, i, arg))))"

text \<open>The next argument and what follows it.\<close>

definition nextArg :: "string \<Rightarrow> (string \<times> string) option" where
  "nextArg s =
     (if s = [] then None
      else case split_at ARG_END s of
        None \<Rightarrow> Some (s, [])
      | Some (a, r) \<Rightarrow> Some (a, r))"

definition MAX_MATCHING_ARGS :: nat where
  "MAX_MATCHING_ARGS = 120"

lemma nextArg_less: "nextArg s = Some (a, r) \<Longrightarrow> length r < length s"
  by (auto simp: nextArg_def split_at_length split: if_splits option.splits)

text \<open>The loop that fills \<^verbatim>\<open>argv\<close>; \<open>None\<close> when there are more arguments than it has room for.\<close>

function collect_args :: "nat \<Rightarrow> string \<Rightarrow> string list option" where
  "collect_args argc s =
     (case nextArg s of
        None \<Rightarrow> Some []
      | Some (a, r) \<Rightarrow>
          if argc \<ge> MAX_MATCHING_ARGS then None
          else map_option (\<lambda>as. a # as) (collect_args (argc + 1) r))"
  by pat_completeness auto
termination
  by (relation "measure (\<lambda>(argc, s). length s)") (auto dest: nextArg_less)

declare collect_args.simps [simp del]

text \<open>The body \<^verbatim>\<open>RegexpCall\<close> builds from the captured arguments.\<close>

definition wire_args :: "string list \<Rightarrow> string" where
  "wire_args args = concat (map (\<lambda>a. a @ [ARG_END]) args)"

text \<open>The check of \<^verbatim>\<open>IvySendMsg\<close>, with \<^verbatim>\<open>char\<close> signed.\<close>

definition IvyCheckBuffer :: "string \<Rightarrow> bool" where
  "IvyCheckBuffer b \<longleftrightarrow> (\<exists>c \<in> set (cstr b). schar c < 32)"

subsection \<open>Round trips\<close>

lemma not_digit_seps [simp]: "\<not> is_digit ARG_START" "\<not> is_digit ARG_END" "\<not> is_digit NL" "\<not> is_digit (CHR '' '')"
  by (simp_all add: is_digit_def)

lemma dec_nat_set: "c \<in> set (dec_nat n) \<Longrightarrow> is_digit c"
  using dec_nat_digits by blast

lemma dec_int_set: "c \<in> set (dec_int i) \<Longrightarrow> is_digit c \<or> c = CHR ''-''"
  by (auto simp: dec_int_def dest: dec_nat_set split: if_splits)

lemma dec_int_clean: "ARG_START \<notin> set (dec_int i)" "NL \<notin> set (dec_int i)" "NUL \<notin> set (dec_int i)"
  using dec_int_set by (auto simp: is_digit_def dest!: dec_int_set)

lemma msg_of_num_num [simp]: "msg_of_num (msg_num t) = Some t"
  by (cases t) (simp_all add: msg_of_num_def)

lemma msg_num_range: "0 \<le> msg_num t \<and> msg_num t \<le> 10"
  by (cases t) simp_all

lemma parse_wire_head: "parse_line (wire_head k i @ m) = Some (k, i, m)"
proof -
  have "scan_int (wire_head k i @ m) = Some (k, '' '' @ dec_int i @ ARG_START # m)"
    using scan_int_dec_int [of "'' '' @ dec_int i @ ARG_START # m" k] by (simp add: wire_head_def)
  moreover have "scan_int ('' '' @ dec_int i @ ARG_START # m) = Some (i, ARG_START # m)"
    using scan_int_dec_int [of "ARG_START # m" i] by (simp add: scan_int_skip_space is_space_def)
  moreover have "split_at ARG_START (wire_head k i @ m) = Some (dec_int k @ '' '' @ dec_int i, m)"
    using split_at_append [of ARG_START "dec_int k @ '' '' @ dec_int i" m] dec_int_clean(1)
    by (simp add: wire_head_def)
  ultimately show ?thesis by (simp add: parse_line_def)
qed

lemma wire_head_clean: "NL \<notin> set (wire_head k i)" "NUL \<notin> set (wire_head k i)"
  using dec_int_clean by (auto simp: wire_head_def)

lemma nextArg_Nil [simp]: "nextArg [] = None"
  by (simp add: nextArg_def)

lemma nextArg_arg [simp]: "ARG_END \<notin> set a \<Longrightarrow> nextArg (a @ ARG_END # r) = Some (a, r)"
  by (simp add: nextArg_def)

lemma wire_args_simps [simp]: "wire_args [] = []" "wire_args (a # as) = a @ ARG_END # wire_args as"
  by (simp_all add: wire_args_def)

lemma wire_args_clean:
  "c \<noteq> ARG_END \<Longrightarrow> \<forall>a \<in> set args. c \<notin> set a \<Longrightarrow> c \<notin> set (wire_args args)"
  by (induction args) auto

lemma collect_wire_args:
  assumes "\<forall>a \<in> set args. ARG_END \<notin> set a"
  shows "collect_args argc (wire_args args)
    = (if argc + length args \<le> MAX_MATCHING_ARGS \<or> args = [] then Some args else None)"
  using assms
proof (induction args arbitrary: argc)
  case Nil
  then show ?case by (simp add: collect_args.simps)
next
  case (Cons a args)
  show ?case
    using Cons by (subst collect_args.simps) auto
qed

subsection \<open>Properties\<close>

lemma split_wire_line:
  "NL \<notin> set a \<Longrightarrow> split_at NL (wire_head k i @ a @ NL # rest) = Some (wire_head k i @ a, rest)"
  using split_at_append [of NL "wire_head k i @ a" rest] wire_head_clean(1) by simp

lemma parse_wire_line: "NUL \<notin> set m \<Longrightarrow> parse_line (cstr (wire_head k i @ m)) = Some (k, i, m)"
  using wire_head_clean(2) by (simp add: parse_wire_head)

text \<open>
  (C16) A line printed by \<^verbatim>\<open>MsgSendTo\<close>, followed in the stream by anything, is cut out by the framing
  of \<^verbatim>\<open>HandleSocket\<close> at its own end, and the \<^verbatim>\<open>sscanf\<close> and \<^verbatim>\<open>strstr\<close> of \<^verbatim>\<open>Receive\<close> read back the type,
  the identifier and the text, also when the text has blanks, digits or separators in it.
\<close>

theorem wire_roundtrip:
  assumes "NL \<notin> set m" "NUL \<notin> set m"
  shows "\<exists>line. split_at NL (wire_line t i m @ rest) = Some (line, rest)
    \<and> parse_line (cstr line) = Some (msg_num t, i, m) \<and> msg_of_num (msg_num t) = Some t"
  using split_wire_line [OF assms(1), of "msg_num t" i rest] parse_wire_line [OF assms(2), of "msg_num t" i]
  by (simp add: wire_line_def)

theorem wire_roundtrip_witness:
  "\<exists>line. split_at NL (wire_line AddRegexp (- 4) ''^a (b) 2'' @ ''3 '') = Some (line, ''3 '')
    \<and> parse_line (cstr line) = Some (msg_num AddRegexp, - 4, ''^a (b) 2'') \<and> msg_of_num (msg_num AddRegexp) = Some AddRegexp"
  by (rule wire_roundtrip) simp_all

text \<open>
  A newline in a text is not refused (only \<^verbatim>\<open>IvySendMsg\<close> checks, and only when \<^verbatim>\<open>IVY_DEBUG_BINARY\<close>
  is set): what precedes it is the text the peer reads, and what follows becomes a line of its own, so
  a text can carry a second message of any type and identifier.
\<close>

theorem newline_injects_line:
  assumes "NL \<notin> set a" "NL \<notin> set b" "NUL \<notin> set a" "NUL \<notin> set b"
  shows "\<exists>line1 line2.
    split_at NL (wire_line t i (a @ NL # wire_head (msg_num u) j @ b)) = Some (line1, line2 @ [NL])
    \<and> split_at NL (line2 @ [NL]) = Some (line2, [])
    \<and> parse_line (cstr line1) = Some (msg_num t, i, a) \<and> parse_line (cstr line2) = Some (msg_num u, j, b)"
  using split_wire_line [OF assms(1), of "msg_num t" i "wire_head (msg_num u) j @ b @ [NL]"]
    split_wire_line [OF assms(2), of "msg_num u" j "[]"]
    parse_wire_line [OF assms(3), of "msg_num t" i] parse_wire_line [OF assms(4), of "msg_num u" j]
  by (intro exI [of _ "wire_head (msg_num t) i @ a"] exI [of _ "wire_head (msg_num u) j @ b"])
    (simp add: wire_line_def)

theorem newline_injects_line_witness:
  "\<exists>line1 line2.
    split_at NL (wire_line DirectMsg 1 (''hello'' @ NL # wire_head (msg_num Die) 0 @ [])) = Some (line1, line2 @ [NL])
    \<and> split_at NL (line2 @ [NL]) = Some (line2, [])
    \<and> parse_line (cstr line1) = Some (msg_num DirectMsg, 1, ''hello'') \<and> parse_line (cstr line2) = Some (msg_num Die, 0, [])"
  by (rule newline_injects_line) simp_all

text \<open>
  (C17) The arguments of a message are read back as they were sent, empty ones included, when no
  argument holds the separator; a message with more than 120 of them is rejected as a whole.
\<close>

theorem args_roundtrip:
  assumes "\<forall>a \<in> set args. ARG_END \<notin> set a"
  shows "collect_args 0 (wire_args args) = (if length args \<le> MAX_MATCHING_ARGS then Some args else None)"
  using collect_wire_args [OF assms, of 0] by auto

theorem args_roundtrip_witness:
  "collect_args 0 (wire_args [''one'', '''', ''3'']) = Some [''one'', '''', ''3'']"
  using args_roundtrip [of "[''one'', '''', ''3'']"] by (simp add: MAX_MATCHING_ARGS_def)

text \<open>
  The check for binary data reads characters as signed: besides control characters it refuses
  every byte of 128 and more, so no accented or multi-byte text passes it.
\<close>

theorem check_buffer_ascii:
  assumes "NUL \<notin> set b"
  shows "\<not> IvyCheckBuffer b \<longleftrightarrow> (\<forall>c \<in> set b. 32 \<le> (of_char c :: int) \<and> (of_char c :: int) < 128)"
proof -
  have "schar c < 32 \<longleftrightarrow> \<not> (32 \<le> (of_char c :: int) \<and> (of_char c :: int) < 128)" for c
  proof -
    have "(of_char c :: int) < 256" by (metis of_char_mod_256 pos_mod_bound zero_less_numeral)
    then show ?thesis by (auto simp: schar_def)
  qed
  then show ?thesis using assms by (auto simp: IvyCheckBuffer_def)
qed

theorem check_buffer_ascii_witness:
  "\<not> IvyCheckBuffer ''abc'' \<and> IvyCheckBuffer [CHR 0xC3, CHR 0xA9]"
  using check_buffer_ascii [of "''abc''"] check_buffer_ascii [of "[CHR 0xC3, CHR 0xA9]"] by simp

end
