(* ===== verification/Ivy_Interval.thy ===== *)
theory Ivy_Interval
  imports Ivy_Prelude "HOL-Library.Word"
begin

text \<open>
  Interval subscriptions: the generator of regular expressions for numeric intervals,
  \<^verbatim>\<open>src/intervalRegexp.c\<close>, and \<^verbatim>\<open>substituteInterval\<close> of \<^verbatim>\<open>src/ivy.c\<close> which expands
  \<^verbatim>\<open>(?Imin#max)\<close> in a subscription. A generated string, a reported failure and undefined
  behaviour are three results. \<^verbatim>\<open>size_t\<close> is a 64-bit word; strings live in arrays of the sizes the
  code gives them, and an access outside an array is a fault.
\<close>

datatype 'a gen = Gen 'a | GenFail | GenFault c_fault

fun bind_gen :: "'a gen \<Rightarrow> ('a \<Rightarrow> 'b gen) \<Rightarrow> 'b gen" where
  "bind_gen (Gen x) f = f x"
| "bind_gen GenFail f = GenFail"
| "bind_gen (GenFault e) f = GenFault e"

text \<open>
  \<^verbatim>\<open>CHECK_AND_RETURN\<close>: the test lets a string of exactly \<open>buflen\<close> characters through, whose final
  NUL is then written past the end.
\<close>

definition CHECK_AND_RETURN :: "nat \<Rightarrow> string \<Rightarrow> string gen" where
  "CHECK_AND_RETURN buflen locBuf =
     (if length locBuf \<le> buflen then
        (if length locBuf = buflen then GenFault OutOfBounds else Gen locBuf)
      else GenFail)"

text \<open>\<^verbatim>\<open>AddLocBuf\<close>: \<^verbatim>\<open>snprintf\<close> at the end of a local buffer of \<open>sz\<close> bytes.\<close>

definition AddLocBuf :: "nat \<Rightarrow> string \<Rightarrow> string \<Rightarrow> string" where
  "AddLocBuf sz locBuf s = locBuf @ take (sz - length locBuf - 1) s"

definition BSL :: char where
  "BSL = CHR 0x5C"

definition longtoa :: "nat \<Rightarrow> int \<Rightarrow> string" where
  "longtoa buflen n = take (buflen - 1) (dec_int n)"

definition reverse :: "string \<Rightarrow> string" where
  "reverse s = rev s"

definition substr :: "nat \<Rightarrow> string \<Rightarrow> 64 word \<Rightarrow> 64 word \<Rightarrow> string gen" where
  "substr buflen expr pos len =
     (let len' = min len (of_nat (length expr) - pos);
          s = take (unat len') (drop (unat pos) expr)
      in if length s \<ge> 512 then GenFault OutOfBounds else CHECK_AND_RETURN buflen s)"

definition genPostRank :: "nat \<Rightarrow> int \<Rightarrow> string gen" where
  "genPostRank buflen rank =
     CHECK_AND_RETURN buflen
       (if rank \<le> 1 then []
        else if rank = 2 then BSL # ''d''
        else BSL # ''d{'' @ dec_int (rank - 1) @ ''}'')"

text \<open>The digit at a rank counted from the end, from 1.\<close>

definition digit_at :: "string \<Rightarrow> int \<Rightarrow> char gen" where
  "digit_at s rank =
     (let i = int (length s) - rank
      in if i < 0 \<or> i > int (length s) then GenFault OutOfBounds
         else Gen (if i = int (length s) then NUL else s ! nat i))"

definition genRank :: "nat \<Rightarrow> string \<Rightarrow> string \<Rightarrow> int \<Rightarrow> string gen" where
  "genRank buflen mn mx rank =
     bind_gen (digit_at mn rank) (\<lambda>a. bind_gen (digit_at mx rank) (\<lambda>b.
       let lmin = (if schar a < schar b then a else b);
           lmax = (if schar a > schar b then a else b)
       in CHECK_AND_RETURN buflen
            (if lmin = CHR ''0'' \<and> lmax = CHR ''9'' then BSL # ''d''
             else if lmin = lmax then [lmin]
             else if schar lmax = schar lmin + 1 then ''['' @ [lmin, lmax] @ '']''
             else ''['' @ [lmin] @ ''-'' @ [lmax] @ '']'')))"

definition genPreRank :: "nat \<Rightarrow> string \<Rightarrow> string \<Rightarrow> int \<Rightarrow> string gen" where
  "genPreRank buflen mn mx rank =
     (let lmin = dropWhile (\<lambda>c. c = CHR ''0'') mn;
          lmax = dropWhile (\<lambda>c. c = CHR ''0'') mx
      in bind_gen (substr 512 lmin 0 (of_nat (length lmin) - of_int rank)) (\<lambda>locBuf.
           bind_gen (substr 512 lmax 0 (of_nat (length lmax) - of_int rank)) (\<lambda>locBufMax.
             if strncmp 512 locBuf locBufMax \<noteq> 0 then GenFail
             else CHECK_AND_RETURN buflen locBuf)))"

definition genAtRank :: "nat \<Rightarrow> string \<Rightarrow> string \<Rightarrow> int \<Rightarrow> string gen" where
  "genAtRank buflen mn mx rank =
     bind_gen (genPreRank 512 mn mx rank) (\<lambda>a.
       bind_gen (genRank (512 - length a) mn mx rank) (\<lambda>b.
         bind_gen (genPostRank (512 - length (a @ b)) rank) (\<lambda>c.
           CHECK_AND_RETURN buflen (a @ b @ c))))"

subsection \<open>The next bound\<close>

lemma word_wrap_0: "\<not> (32 \<le> i) \<Longrightarrow> \<not> (32 \<le> i - 1) \<Longrightarrow> unat (i - 1) < unat (i :: 64 word)"
proof (cases "i = 0")
  case True
  assume "\<not> 32 \<le> i - 1"
  moreover have "32 \<le> i - 1" unfolding True diff_0 by (rule word_order.extremum)
  ultimately show ?thesis by contradiction
next
  case False
  then have "unat (i - 1) = unat i - 1" by (rule unat_minus_one)
  moreover have "unat i \<noteq> 0" using False by (simp add: unat_eq_zero)
  ultimately show ?thesis by simp
qed

text \<open>
  The three loops that reverse the digits into arrays of 32 bytes. Their index is a \<^verbatim>\<open>size_t\<close>
  compared with \<^verbatim>\<open>>= 0\<close>, which always holds. \<open>src i\<close> is the character stored for index \<open>i\<close>, or a
  fault, and \<open>dst i\<close> the place where it goes.
\<close>

function rev_loop :: "64 word \<Rightarrow> (64 word \<Rightarrow> c_fault + char) \<Rightarrow> 64 word \<Rightarrow> string \<Rightarrow> (c_fault + string)" where
  "rev_loop base src i block =
     (if i \<ge> 32 then Inl OutOfBounds
      else case src i of
        Inl e \<Rightarrow> Inl e
      | Inr c \<Rightarrow>
          if base - i \<ge> 32 then Inl OutOfBounds
          else rev_loop base src (i - 1) (block[unat (base - i) := c]))"
  by pat_completeness auto

termination
  by (relation "measure (\<lambda>(base, src, i, block). if i \<ge> 32 then 0 else unat i + 1)") (auto dest: word_wrap_0)

declare rev_loop.simps [simp del]

text \<open>Reading a character of a string kept in an array of 32 bytes.\<close>

definition char_at :: "string \<Rightarrow> 64 word \<Rightarrow> c_fault + char" where
  "char_at s i = (if i \<ge> 32 then Inl OutOfBounds
     else Inr (if unat i < length s then s ! unat i else NUL))"

record NextMax =
  nm_max :: int
  nm_rank :: int

fun first_nonzero :: "nat \<Rightarrow> string \<Rightarrow> nat \<Rightarrow> nat" where
  "first_nonzero 0 revMin r = r"
| "first_nonzero (Suc k) revMin r = (if revMin ! r = CHR ''0'' then first_nonzero k revMin (r + 1) else r)"

fun last_different :: "string \<Rightarrow> string \<Rightarrow> nat \<Rightarrow> nat" where
  "last_different revMin revMax 0 = 0"
| "last_different revMin revMax (Suc r) =
     (if revMin ! Suc r = revMax ! Suc r then last_different revMin revMax r else Suc r)"

definition atoi :: "string \<Rightarrow> int" where
  "atoi s = (case scan_int s of None \<Rightarrow> 0 | Some (i, _) \<Rightarrow> i)"

text \<open>What follows the loops, on the reversed digits.\<close>

definition nextMax_rest :: "nat \<Rightarrow> string \<Rightarrow> string \<Rightarrow> string \<Rightarrow> NextMax" where
  "nextMax_rest nbDigitsMax mx revMin revMax =
     (let rankRev = first_nonzero nbDigitsMax revMin 0;
          rankForw = last_different revMin revMax (nbDigitsMax - 1);
          (rank, revMin') =
            (if rankForw \<le> rankRev then
               (rankForw, replicate rankForw (CHR ''9'')
                  @ [char_of ((of_char (revMax ! rankForw) :: nat) - (if rankForw \<noteq> 0 then 1 else 0))]
                  @ drop (rankForw + 1) revMin)
             else (rankRev, replicate (rankRev + 1) (CHR ''9'') @ drop (rankRev + 1) revMin));
          m = atoi (reverse (cstr revMin'));
          currMax = atoi mx
      in \<lparr>nm_max = (if m > currMax then currMax else m), nm_rank = int rank + 1\<rparr>)"

definition nextMax :: "string \<Rightarrow> string \<Rightarrow> c_fault + NextMax" where
  "nextMax mn mx =
     (let nMin = of_nat (length mn); nMax = of_nat (length mx); block = replicate 32 NUL
      in case rev_loop (nMin - 1) (char_at mn) (nMin - 1) block of
           Inl e \<Rightarrow> Inl e
         | Inr revMin1 \<Rightarrow>
             (case rev_loop nMax (\<lambda>_. Inr (CHR ''0'')) (nMax - nMin) revMin1 of
                Inl e \<Rightarrow> Inl e
              | Inr revMin2 \<Rightarrow>
                  (case rev_loop (nMax - 1) (char_at mx) (nMax - 1) block of
                     Inl e \<Rightarrow> Inl e
                   | Inr revMax \<Rightarrow>
                       Inr (nextMax_rest (length mx) mx (revMin2[length mx := NUL]) (revMax[length mx := NUL])))))"

subsection \<open>The generator\<close>

text \<open>The \<^verbatim>\<open>do\<close> loop, which fills at most 64 sub-expressions; \<open>regs\<close> are those filled so far.\<close>

function strict_loop :: "int \<Rightarrow> int \<Rightarrow> string list \<Rightarrow> string list gen" where
  "strict_loop mn mx regs =
     (case nextMax (longtoa 32 mn) (longtoa 32 mx) of
        Inl e \<Rightarrow> GenFault e
      | Inr nMax \<Rightarrow>
          bind_gen (genAtRank 128 (longtoa 32 mn) (longtoa 32 (nm_max nMax)) (nm_rank nMax)) (\<lambda>r.
            if length regs + 1 \<ge> 64 then GenFail
            else if nm_max nMax \<noteq> mx then strict_loop (nm_max nMax + 1) mx (regs @ [r])
            else Gen (regs @ [r])))"
  by pat_completeness auto
termination
  by (relation "measure (\<lambda>(mn, mx, regs). 64 - length regs)") auto

declare strict_loop.simps [simp del]

text \<open>
  For equal bounds the number is printed at the end of \<^verbatim>\<open>locBuf\<close>, found by \<^verbatim>\<open>strlen\<close> in an array
  that nothing has been written to.
\<close>

definition strictPosRegexpGen :: "nat \<Rightarrow> int \<Rightarrow> int \<Rightarrow> string \<Rightarrow> string \<Rightarrow> string gen" where
  "strictPosRegexpGen buflen mn mx decimalPart boundDecimalPart =
     (if mn \<le> 0 \<or> mx \<le> 0 then GenFail
      else if mn = mx then GenFault ReadUninit
      else bind_gen (strict_loop mn (mx - 1) []) (\<lambda>regs.
        let alts = concat (map (\<lambda>r. ''(?:'' @ r @ decimalPart @ '')|'') regs)
        in CHECK_AND_RETURN buflen
             (butlast alts @ ''|(?:'' @ longtoa 32 mx @ boundDecimalPart @ '')'')))"

definition decimal_part :: "bool \<Rightarrow> string" where
  "decimal_part flottant = (if flottant then ''(?:'' @ [BSL] @ ''.'' @ [BSL] @ ''d+)?'' else [])"

definition bound_decimal_part :: "bool \<Rightarrow> string" where
  "bound_decimal_part flottant = (if flottant then ''(?:'' @ [BSL] @ ''.0+)?'' else [])"

text \<open>The end common to all cases.\<close>

definition gen_close :: "nat \<Rightarrow> string \<Rightarrow> string gen" where
  "gen_close buflen locBuf =
     CHECK_AND_RETURN buflen (AddLocBuf 8192 locBuf ('')(?!['' @ [BSL] @ ''d.])''))"

text \<open>A part generated at the end of the local buffer.\<close>

definition gen_part :: "string \<Rightarrow> (nat \<Rightarrow> string gen) \<Rightarrow> string gen" where
  "gen_part locBuf g = bind_gen (g (8192 - length locBuf)) (\<lambda>s. Gen (locBuf @ s))"

fun regexpGen_pos :: "nat \<Rightarrow> int \<Rightarrow> int \<Rightarrow> bool \<Rightarrow> string gen" where
  "regexpGen_pos buflen mn mx flottant =
     (let d = decimal_part flottant; b = bound_decimal_part flottant; l0 = ''(?:''
      in if mn = mx then gen_close buflen (AddLocBuf 8192 l0 (dec_int mn @ d))
         else if mn < 0 \<and> mx < 0 then
           bind_gen (gen_part (AddLocBuf 8192 l0 (BSL # ''-(?:'')) (\<lambda>n. strictPosRegexpGen n (- mn) (- mx) d b))
             (\<lambda>l. gen_close buflen (AddLocBuf 8192 l '')''))
         else if mn < 0 then
           bind_gen (gen_part (AddLocBuf 8192 l0 (''(?:0'' @ b @ '')|(?:-0'' @ d @ '')|-(?:''))
               (\<lambda>n. strictPosRegexpGen n 1 (- mn) d b))
             (\<lambda>l. gen_close buflen (AddLocBuf 8192 l '')''))
         else if mn = 0 then
           bind_gen (gen_part (AddLocBuf 8192 l0 (''(?:0'' @ d @ '')|'')) (\<lambda>n. strictPosRegexpGen n 1 mx d b))
             (gen_close buflen)
         else bind_gen (gen_part l0 (\<lambda>n. strictPosRegexpGen n mn mx d b)) (gen_close buflen))"

text \<open>
  The bounds are put in order first; an interval across zero is made of its two halves, which
  are one level of recursion.
\<close>

definition regexpGen :: "nat \<Rightarrow> int \<Rightarrow> int \<Rightarrow> bool \<Rightarrow> string gen" where
  "regexpGen buflen mn mx flottant =
     (let lo = min mn mx; hi = max mn mx
      in if lo < 0 \<and> hi > 0 then
           bind_gen (gen_part (AddLocBuf 8192 ''(?:'' ''(?:'') (\<lambda>n. regexpGen_pos n lo 0 flottant)) (\<lambda>l1.
             bind_gen (gen_part (AddLocBuf 8192 l1 ''|'') (\<lambda>n. regexpGen_pos n 0 hi flottant)) (\<lambda>l2.
               gen_close buflen (AddLocBuf 8192 l2 '')'')))
         else regexpGen_pos buflen lo hi flottant)"

subsection \<open>Expanding the intervals of a subscription\<close>

text \<open>\<^verbatim>\<open>strstr\<close> as a split before the first occurrence.\<close>

definition ITV_START :: string where
  "ITV_START = ''(?I''"

fun find_itv :: "string \<Rightarrow> (string \<times> string) option" where
  "find_itv [] = None"
| "find_itv (c # cs) =
     (if take 3 (c # cs) = ITV_START then Some ([], c # cs)
      else map_option (\<lambda>(a, b). (c # a, b)) (find_itv cs))"

text \<open>
  \<^verbatim>\<open>sscanf (itvPos, "(?I%d#%d%c", ...)\<close>; when a conversion fails the code goes on with variables it
  never set.
\<close>

definition scan_itv :: "string \<Rightarrow> (int \<times> int \<times> char) option" where
  "scan_itv s =
     (case scan_int (drop 3 s) of
        None \<Rightarrow> None
      | Some (mn, r) \<Rightarrow>
          (case r of
             c # r1 \<Rightarrow>
               if c = CHR ''#'' then
                 (case scan_int r1 of
                    None \<Rightarrow> None
                  | Some (mx, r2) \<Rightarrow> (case r2 of [] \<Rightarrow> None | d # _ \<Rightarrow> Some (mn, mx, d)))
               else None
           | [] \<Rightarrow> None))"

definition DST_SIZE :: nat where
  "DST_SIZE = 8192"

lemma find_itv_append: "find_itv s = Some (a, b) \<Longrightarrow> s = a @ b"
  by (induction s arbitrary: a) (auto split: if_splits)

text \<open>
  The loop, with what is already in the destination; its result is the new subscription. The
  result of \<^verbatim>\<open>regexpGen\<close> is not looked at, so after a failure the destination has no end.
\<close>

function subst_loop :: "string \<Rightarrow> string \<Rightarrow> string gen" where
  "subst_loop dst cur =
     (case find_itv cur of
        None \<Rightarrow>
          if length dst + length cur \<ge> DST_SIZE then GenFault OutOfBounds else Gen (dst @ cur)
      | Some (before, itv) \<Rightarrow>
          if length dst + length before > DST_SIZE then GenFault OutOfBounds
          else case scan_itv itv of
            None \<Rightarrow> GenFault ReadUninit
          | Some (mn, mx, d) \<Rightarrow>
              (case regexpGen (DST_SIZE - length (dst @ before)) mn mx (d \<noteq> CHR ''i'') of
                 GenFault e \<Rightarrow> GenFault e
               | GenFail \<Rightarrow> GenFault ReadUninit
               | Gen r \<Rightarrow>
                   (case split_at (CHR '')'') itv of
                      None \<Rightarrow> GenFault NullDeref
                    | Some (_, rest) \<Rightarrow> subst_loop (dst @ before @ r) rest)))"
  by pat_completeness auto

termination
  by (relation "measure (\<lambda>(dst, cur). length cur)") (auto dest!: find_itv_append split_at_length)

declare subst_loop.simps [simp del]

definition substituteInterval :: "string \<Rightarrow> string gen" where
  "substituteInterval src = (if find_itv src = None then Gen src else subst_loop [] src)"

subsection \<open>Properties\<close>

lemma rev_loop_faults:
  assumes "\<And>j e. src j = Inl e \<Longrightarrow> e = OutOfBounds"
  shows "rev_loop base src i block = Inl OutOfBounds"
  using assms
proof (induction base src i block rule: rev_loop.induct)
  case (1 base src i block)
  show ?case
    using 1 by (subst rev_loop.simps) (auto split: sum.splits)
qed

lemma nextMax_faults: "nextMax mn mx = Inl OutOfBounds"
proof -
  have "rev_loop (of_nat (length mn) - 1) (char_at mn) (of_nat (length mn) - 1) (replicate 32 NUL)
      = Inl OutOfBounds"
    by (rule rev_loop_faults) (auto simp: char_at_def split: if_splits)
  then show ?thesis by (simp add: nextMax_def Let_def)
qed

lemma strict_faults:
  assumes "0 < mn" "0 < mx"
  shows "strictPosRegexpGen buflen mn mx d b = GenFault (if mn = mx then ReadUninit else OutOfBounds)"
  using assms by (simp add: strictPosRegexpGen_def strict_loop.simps nextMax_faults)

text \<open>Where the generation of the interval from \<open>lo\<close> to \<open>hi\<close> leaves defined behaviour.\<close>

definition itv_fault :: "int \<Rightarrow> int \<Rightarrow> c_fault" where
  "itv_fault lo hi = (if (lo = -1 \<and> 0 \<le> hi) \<or> (lo = 0 \<and> hi = 1) then ReadUninit else OutOfBounds)"

lemma regexpGen_pos_faults:
  assumes "lo < hi" "\<not> (lo < 0 \<and> 0 < hi)"
  shows "regexpGen_pos buflen lo hi f = GenFault (itv_fault lo hi)"
  using assms by (auto simp: gen_part_def strict_faults itv_fault_def Let_def)

lemma regexpGen_faults:
  assumes "mn \<noteq> mx"
  shows "regexpGen buflen mn mx f = GenFault (itv_fault (min mn mx) (max mn mx))"
proof (cases "min mn mx < 0 \<and> 0 < max mn mx")
  case True
  have "regexpGen_pos n (min mn mx) 0 f = GenFault (itv_fault (min mn mx) 0)" for n
    using True by (intro regexpGen_pos_faults) auto
  moreover have "itv_fault (min mn mx) 0 = itv_fault (min mn mx) (max mn mx)"
    using True unfolding itv_fault_def by simp
  ultimately show ?thesis using True by (simp add: regexpGen_def gen_part_def Let_def del: regexpGen_pos.simps)
next
  case False
  have "regexpGen_pos buflen (min mn mx) (max mn mx) f = GenFault (itv_fault (min mn mx) (max mn mx))"
    using assms False by (intro regexpGen_pos_faults) auto
  then show ?thesis unfolding regexpGen_def Let_def if_not_P [OF False] .
qed

lemma find_itv_here: "find_itv (ITV_START @ s) = Some ([], ITV_START @ s)"
  by (simp add: ITV_START_def)

lemma find_itv_after:
  "CHR ''('' \<notin> set a \<Longrightarrow> find_itv (a @ ITV_START @ s) = Some (a, ITV_START @ s)"
proof (induction a)
  case Nil
  then show ?case by (simp add: find_itv_here)
next
  case (Cons c a)
  have "c \<noteq> CHR ''(''" using Cons.prems by auto
  then have "take 3 (c # a @ ITV_START @ s) \<noteq> ITV_START" by (simp add: ITV_START_def)
  then show ?case using Cons by simp
qed



text \<open>
  A subscription without an interval is left as it is; one with an interval of two different
  bounds makes \<^verbatim>\<open>substituteInterval\<close>, and with it \<^verbatim>\<open>IvyBindMsg\<close>, leave defined behaviour.
\<close>

theorem substitute_interval:
  assumes "CHR ''('' \<notin> set a" "length a \<le> DST_SIZE" "mn \<noteq> mx" "\<not> is_digit d"
  shows "substituteInterval a = Gen a
    \<and> substituteInterval (a @ ITV_START @ dec_int mn @ ''#'' @ dec_int mx @ d # rest)
        = GenFault (itv_fault (min mn mx) (max mn mx))"
proof
  have "find_itv a = None" using assms(1) by (induction a) (auto simp: ITV_START_def)
  then show "substituteInterval a = Gen a" by (simp add: substituteInterval_def)
  let ?itv = "ITV_START @ dec_int mn @ ''#'' @ dec_int mx @ d # rest"
  note f = find_itv_after [OF assms(1), of "dec_int mn @ ''#'' @ dec_int mx @ d # rest"]
  have "substituteInterval (a @ ?itv) = subst_loop [] (a @ ?itv)"
    using f by (simp add: substituteInterval_def)
  moreover have "subst_loop [] (a @ ?itv) = GenFault (itv_fault (min mn mx) (max mn mx))"
  proof -
    have "scan_int (dec_int mn @ ''#'' @ dec_int mx @ d # rest) = Some (mn, ''#'' @ dec_int mx @ d # rest)"
      by (rule scan_int_dec_int) (simp add: is_digit_def)
    moreover have "scan_int (dec_int mx @ d # rest) = Some (mx, d # rest)"
      by (rule scan_int_dec_int) (simp add: assms(4))
    ultimately have "scan_itv ?itv = Some (mn, mx, d)" by (simp add: scan_itv_def ITV_START_def)
    then show ?thesis using f assms(2) by (subst subst_loop.simps) (simp add: regexpGen_faults [OF assms(3)])
  qed
  ultimately show "substituteInterval (a @ ?itv) = GenFault (itv_fault (min mn mx) (max mn mx))" by simp
qed

theorem substitute_interval_witness:
  "substituteInterval ''x '' = Gen ''x ''
   \<and> substituteInterval (''x '' @ ITV_START @ dec_int 1 @ ''#'' @ dec_int 5 @ CHR ''i'' # '')'') = GenFault OutOfBounds"
  using substitute_interval [of "''x ''" 1 5 "CHR ''i''" "'')''"]
  by (simp add: DST_SIZE_def is_digit_def itv_fault_def)

end
