(* ===== verification/Ivy_State.thy ===== *)
theory Ivy_State
  imports Ivy_Socket Ivy_Bind Ivy_Wire Ivy_Discovery
begin

text \<open>
  The state of the bus, the static variables of \<^verbatim>\<open>src/ivy.c\<close>, on top of the sockets and the loop,
  and \<^verbatim>\<open>MsgSendTo\<close>. The application's callbacks are numbers, 0 for none; a call is recorded in
  \<open>events\<close> with its arguments. What an application does in reaction (further calls of the API) is
  not part of the handler.
\<close>

datatype app_event = IvyApplicationConnected | IvyApplicationDisconnected | IvyApplicationCongestion
  | IvyApplicationDecongestion | IvyApplicationFifoFull

datatype bind_event = IvyAddBind | IvyRemoveBind | IvyFilterBind | IvyChangeBind

datatype event =
    EvApp addr app_event
  | EvBind addr int string bind_event
  | EvDie addr int
  | EvPong addr int
  | EvMsg addr addr "string list"
  | EvDirect addr int string

text \<open>\<^verbatim>\<open>struct _global_reg_lst\<close>, \<^verbatim>\<open>struct _clnt_lst_dict\<close>, \<^verbatim>\<open>struct _msg_snd_dict\<close>, \<^verbatim>\<open>struct _msg_rcv\<close>.\<close>

record glob_reg =
  gid :: addr
  str_regexp :: "string option"
  reg_id :: int

record ivy_client =
  aid :: addr
  aclient :: addr
  app_name :: "string option"
  app_port :: nat
  app_id :: int
  srcRegList :: "glob_reg list"
  readyToSend :: int
  ignore_subsequent_msg :: bool
  ping_ts :: "int \<times> int"
  ping_id :: int

record dict_entry =
  eid :: addr
  regexp_src :: string
  clientList :: "ivy_client list"
  binding :: "ivy_binding option"

record msg_rcv =
  rid :: addr
  msg_id :: int
  regexp :: "string option"
  mcallback :: fnptr
  muser_data :: nat

text \<open>The hash table iterates in insertion order, so it is a list of entries.\<close>

record ivy_state = sock_state +
  debug_filter :: bool
  debug_binary_msg :: bool
  ivy_ipv6 :: bool
  serv :: addr
  ApplicationPort :: nat
  SupervisionPort :: nat
  broadcast :: addr
  ApplicationName :: "string option"
  ApplicationID :: string
  direct_callback :: fnptr
  application_callback :: fnptr
  application_bind_callback :: fnptr
  application_die_callback :: fnptr
  application_pong_callback :: fnptr
  msg_recv :: "msg_rcv list"
  recv_id :: int
  allClients :: "ivy_client list"
  messSndByRegexp :: "dict_entry list"
  ready_message :: "string option"
  filters :: filter_state
  arg_buf :: IvyBuffer
  arg_buf_unique :: IvyBuffer
  bind_buf :: IvyBuffer
  change_buf :: IvyBuffer
  msg_buf :: IvyBuffer
  error_buf :: IvyBuffer
  time_of_day :: "int \<times> int"
  events :: "event list"

definition log_event :: "event \<Rightarrow> 'a ivy_state_scheme \<Rightarrow> 'a ivy_state_scheme" where
  "log_event e s = s\<lparr>events := events s @ [e]\<rparr>"

text \<open>\<^verbatim>\<open>%s\<close> of a null pointer, as the C library prints it.\<close>

definition cstring_arg :: "string option \<Rightarrow> string" where
  "cstring_arg m = (case m of None \<Rightarrow> ''(null)'' | Some t \<Rightarrow> t)"

text \<open>What the application is told of the state of a send.\<close>

definition notify_send :: "SendState \<Rightarrow> addr \<Rightarrow> 'a ivy_state_scheme \<Rightarrow> 'a ivy_state_scheme" where
  "notify_send st a s =
     (if application_callback s \<noteq> NULL then
        (case st of
           SendStateChangeToCongestion \<Rightarrow> log_event (EvApp a IvyApplicationCongestion) s
         | SendStateFifoFull \<Rightarrow> log_event (EvApp a IvyApplicationFifoFull) s
         | _ \<Rightarrow> s)
      else s)"

definition MsgSendTo ::
  "ivy_client \<Rightarrow> MsgType \<Rightarrow> int \<Rightarrow> string \<Rightarrow> 'a ivy_state_scheme \<Rightarrow> SendState \<times> 'a ivy_state_scheme" where
  "MsgSendTo c t i m s =
     (let (st, s1) = SocketSend (aclient c) (wire_line t i m) s
      in (st, notify_send st (aid c) s1))"

definition send_to :: "ivy_client \<Rightarrow> MsgType \<Rightarrow> int \<Rightarrow> string \<Rightarrow> 'a ivy_state_scheme \<Rightarrow> 'a ivy_state_scheme" where
  "send_to c t i m s = snd (MsgSendTo c t i m s)"

subsection \<open>Access to the client list\<close>

definition find_ivy_client :: "addr \<Rightarrow> 'a ivy_state_scheme \<Rightarrow> ivy_client option" where
  "find_ivy_client a s = find (\<lambda>c. aid c = a) (allClients s)"

definition find_by_socket :: "addr \<Rightarrow> 'a ivy_state_scheme \<Rightarrow> ivy_client option" where
  "find_by_socket k s = find (\<lambda>c. aclient c = k) (allClients s)"

definition upd_ivy_client :: "addr \<Rightarrow> (ivy_client \<Rightarrow> ivy_client) \<Rightarrow> 'a ivy_state_scheme \<Rightarrow> 'a ivy_state_scheme" where
  "upd_ivy_client a f s = s\<lparr>allClients := map (\<lambda>c. if aid c = a then f c else c) (allClients s)\<rparr>"

definition ivy_client_nodes :: "'a ivy_state_scheme \<Rightarrow> addr list" where
  "ivy_client_nodes s = map aid (allClients s)"

subsection \<open>What the socket layer leaves alone\<close>

text \<open>The part of the state that belongs to this module.\<close>

definition bus_view where
  "bus_view s = (allClients s, messSndByRegexp s, msg_recv s, recv_id s, ready_message s, filters s,
     application_callback s, application_bind_callback s, application_die_callback s,
     application_pong_callback s, direct_callback s, serv s, broadcast s, ApplicationPort s,
     ApplicationName s, ApplicationID s)"

lemma bus_view_simps:
  "bus_view s = bus_view t \<Longrightarrow> allClients s = allClients t \<and> messSndByRegexp s = messSndByRegexp t
     \<and> msg_recv s = msg_recv t \<and> filters s = filters t
     \<and> application_callback s = application_callback t
     \<and> application_bind_callback s = application_bind_callback t
     \<and> ready_message s = ready_message t"
  by (simp add: bus_view_def)

text \<open>
  The operations below the bus do not know its fields: they change a state only through the
  fields of the sockets. \<open>sock_more\<close> is the rest of the record.
\<close>

lemma more_upd_client [simp]:
  fixes s :: "'a sock_state_scheme"
  shows "sock_state.more (upd_client c f s) = sock_state.more s"
  by (simp add: upd_client_def)

lemma more_crash [simp]:
  fixes s :: "'a sock_state_scheme"
  shows "sock_state.more (crash e s) = sock_state.more s"
  by (simp add: crash_def)

lemma more_channel_ops [simp]:
  fixes s :: "'a sock_state_scheme"
  shows "sock_state.more (IvyChannelAddWritableEvent k s) = sock_state.more s"
    "sock_state.more (IvyChannelClearWritableEvent k s) = sock_state.more s"
    "sock_state.more (IvyChannelRemove k s) = sock_state.more s"
  by (simp_all add: IvyChannelAddWritableEvent_def IvyChannelClearWritableEvent_def IvyChannelRemove_def
      FD_SET_wrdy_def raise_highest_def upd_channel_def crash_def split: option.splits)

lemma more_fifo_put [simp]:
  fixes s :: "'a sock_state_scheme"
  shows "sock_state.more (fifo_put c f b s) = sock_state.more s"
  by (simp add: fifo_put_def split: option.splits)

lemma more_send_raw:
  fixes s :: "'a sock_state_scheme"
  shows "sock_state.more (snd (BufferizedSocketSendRaw c b s)) = sock_state.more s"
  by (auto simp: BufferizedSocketSendRaw_def Let_def split: option.splits prod.splits send_result.splits)

lemma more_SocketSendRaw [simp]:
  fixes s :: "'a sock_state_scheme"
  shows "sock_state.more (snd (SocketSendRaw c b s)) = sock_state.more s"
  by (simp add: SocketSendRaw_def more_send_raw)

lemma more_SocketSend [simp]:
  fixes s :: "'a sock_state_scheme"
  shows "sock_state.more (snd (SocketSend c out s)) = sock_state.more s"
  by (auto simp: SocketSend_def split: option.splits)

lemma more_with_client [simp]:
  fixes s :: "'a sock_state_scheme"
  shows "(\<And>x. sock_state.more (f x) = sock_state.more s) \<Longrightarrow> sock_state.more (with_client c s f) = sock_state.more s"
  by (simp add: with_client_def split: option.splits)

lemma more_SocketClose [simp]:
  fixes s :: "'a sock_state_scheme"
  shows "sock_state.more (SocketClose c s) = sock_state.more s"
  by (simp add: SocketClose_def)

lemma next_channel_ops [simp]:
  "next_addr (IvyChannelAddWritableEvent k s) = next_addr s"
  "next_addr (IvyChannelClearWritableEvent k s) = next_addr s"
  "next_addr (IvyChannelRemove k s) = next_addr s"
  by (simp_all add: IvyChannelAddWritableEvent_def IvyChannelClearWritableEvent_def IvyChannelRemove_def
      FD_SET_wrdy_def raise_highest_def upd_channel_def crash_def split: option.splits)

lemma next_fifo_put [simp]: "next_addr (fifo_put c f b s) = next_addr s"
  by (simp add: fifo_put_def split: option.splits)

lemma next_SocketSend [simp]: "next_addr (snd (SocketSend c out s)) = next_addr s"
  by (auto simp: SocketSend_def SocketSendRaw_def BufferizedSocketSendRaw_def Let_def
      split: option.splits prod.splits send_result.splits)

lemma bus_view_more:
  "sock_state.more s = sock_state.more t \<Longrightarrow> bus_view s = bus_view t \<and> events s = events t"
  by (cases s; cases t) (simp add: bus_view_def)

lemma MsgSendTo_view: "bus_view (snd (MsgSendTo c t i m s)) = bus_view s"
proof -
  obtain st s1 where r: "SocketSend (aclient c) (wire_line t i m) s = (st, s1)" by force
  have "sock_state.more s1 = sock_state.more s" using more_SocketSend [of "aclient c" "wire_line t i m" s] r by simp
  then have "bus_view s1 = bus_view s" using bus_view_more by blast
  moreover have "bus_view (notify_send st (aid c) s1) = bus_view s1"
    by (auto simp: notify_send_def log_event_def bus_view_def split: SendState.splits)
  ultimately show ?thesis using r by (simp add: MsgSendTo_def)
qed

lemma send_to_view [simp, frame_simps]: "bus_view (send_to c t i m s) = bus_view s"
  by (simp add: send_to_def MsgSendTo_view)

lemma send_to_same [simp, frame_simps]:
  "allClients (send_to c t i m s) = allClients s" "messSndByRegexp (send_to c t i m s) = messSndByRegexp s"
  "msg_recv (send_to c t i m s) = msg_recv s"
  "application_bind_callback (send_to c t i m s) = application_bind_callback s"
  using bus_view_simps [OF send_to_view [of c t i m s]] by simp_all

lemma send_to_next [simp, frame_simps]: "next_addr (send_to c t i m s) = next_addr s"
proof -
  obtain st s1 where r: "SocketSend (aclient c) (wire_line t i m) s = (st, s1)" by force
  have "next_addr s1 = next_addr s" using next_SocketSend [of "aclient c" "wire_line t i m" s] r by simp
  then show ?thesis using r
    by (simp add: send_to_def MsgSendTo_def notify_send_def log_event_def split: SendState.splits)
qed

lemma log_event_same [simp, frame_simps]:
  "allClients (log_event e s) = allClients s" "messSndByRegexp (log_event e s) = messSndByRegexp s"
  "fault (log_event e s) = fault s" "next_addr (log_event e s) = next_addr s"
  "clients_list (log_event e s) = clients_list s" "find_client c (log_event e s) = find_client c s"
  "msg_recv (log_event e s) = msg_recv s" "filters (log_event e s) = filters s"
  by (simp_all add: log_event_def find_client_def)

text \<open>The static variables as the program starts, on given sockets, and a peer with its socket.\<close>

definition bus_on :: "sock_state \<Rightarrow> ivy_state" where
  "bus_on s = sock_state.extend s
     (ivy_state.fields False False False NULL 0 0 NULL None [] NULL NULL NULL NULL NULL [] 0 [] [] None
        init_filter init_buffer init_buffer init_buffer init_buffer init_buffer init_buffer (0, 0) [])"

definition peer_on :: "addr \<Rightarrow> addr \<Rightarrow> string \<Rightarrow> glob_reg list \<Rightarrow> ivy_client" where
  "peer_on a k name regs =
     \<lparr>aid = a, aclient = k, app_name = Some name, app_port = 0, app_id = 0, srcRegList = regs,
      readyToSend = 1, ignore_subsequent_msg = False, ping_ts = (0, 0), ping_id = 0\<rparr>"

definition no_sockets :: sock_state where
  "no_sockets =
     \<lparr>channels_list = [], channel_initialized = True, open_fds = {}, wrdy_fds = {}, highestFd = 0,
      main_loop = True, timer_st = init_timers, next_addr = 1, fault = None, servers_list = [],
      clients_list = [], closed_fds = [], exited = False, send_buf = init_buffer, bcast_buf = init_buffer,
      dgram_buf = init_buffer, dgram6_buf = init_buffer, datagrams = [], groups = []\<rparr>"

lemma bus_on_simps [simp]:
  "allClients (bus_on s) = []" "messSndByRegexp (bus_on s) = []" "msg_recv (bus_on s) = []"
  "fault (bus_on s) = fault s" "next_addr (bus_on s) = next_addr s" "clients_list (bus_on s) = clients_list s"
  "channels_list (bus_on s) = channels_list s" "events (bus_on s) = []" "recv_id (bus_on s) = 0"
  "application_callback (bus_on s) = NULL" "application_bind_callback (bus_on s) = NULL"
  "filters (bus_on s) = init_filter" "find_client c (bus_on s) = find_client c s"
  "send_buf (bus_on s) = send_buf s" "arg_buf (bus_on s) = init_buffer" "ready_message (bus_on s) = None"
  "debug_filter (bus_on s) = False" "debug_binary_msg (bus_on s) = False"
  by (simp_all add: bus_on_def sock_state.defs ivy_state.defs find_client_def)

end
