(* ===== verification/Ivy_Dict.thy ===== *)
theory Ivy_Dict
  imports Ivy_State
begin

text \<open>
  The dictionary of subscriptions of \<^verbatim>\<open>src/ivy.c\<close>: for each subscription source, the compiled
  binding and the peers that asked for it, and, on the side of each peer, the list of its
  subscriptions. The functions keep the two in step. \<open>px\<close> is the regular expression library.
  A peer is passed as the structure the pointer designates; the copy in the dictionary is a
  structure of its own, as in the code.
\<close>

definition find_entry :: "string \<Rightarrow> 'a ivy_state_scheme \<Rightarrow> dict_entry option" where
  "find_entry r s = find (\<lambda>e. regexp_src e = r) (messSndByRegexp s)"

definition dict_nodes :: "'a ivy_state_scheme \<Rightarrow> addr list" where
  "dict_nodes s = map eid (messSndByRegexp s)"

text \<open>
  The two cleaning functions differ in their test. The loop over the peers is the filter that
  \<open>list_clean_is_filter\<close> says it is; an entry without peers leaves the table.
\<close>

definition clean_entry :: "(ivy_client \<Rightarrow> bool) \<Rightarrow> addr \<Rightarrow> 'a ivy_state_scheme \<Rightarrow> 'a ivy_state_scheme" where
  "clean_entry P e s =
     s\<lparr>messSndByRegexp := filter (\<lambda>x. eid x = e \<longrightarrow> clientList x \<noteq> [])
         (map (\<lambda>x. if eid x = e then x\<lparr>clientList := filter (\<lambda>c. \<not> P c) (clientList x)\<rparr> else x)
            (messSndByRegexp s))\<rparr>"

definition delOneIvyClientFromDictionaryEntry ::
  "addr \<Rightarrow> ivy_client \<Rightarrow> 'a ivy_state_scheme \<Rightarrow> 'a ivy_state_scheme" where
  "delOneIvyClientFromDictionaryEntry e client s =
     clean_entry (\<lambda>c. aclient c = aclient client \<and> app_id c = app_id client) e s"

definition delOneClientFromDictionaryEntry :: "addr \<Rightarrow> addr \<Rightarrow> 'a ivy_state_scheme \<Rightarrow> 'a ivy_state_scheme" where
  "delOneClientFromDictionaryEntry e sock s = clean_entry (\<lambda>c. aclient c = sock) e s"

definition delRegexpForOneClientFromDictionary ::
  "string \<Rightarrow> ivy_client \<Rightarrow> 'a ivy_state_scheme \<Rightarrow> 'a ivy_state_scheme" where
  "delRegexpForOneClientFromDictionary r client s =
     (case find_entry r s of
        None \<Rightarrow> s
      | Some e \<Rightarrow> delOneIvyClientFromDictionaryEntry (eid e) client s)"

definition freeClient :: "ivy_client \<Rightarrow> ivy_client" where
  "freeClient c = (if app_name c \<noteq> None then c\<lparr>app_name := None, srcRegList := []\<rparr> else c)"

text \<open>
  The body of the loop over all entries: the copies of the peers are freed, their list is emptied, the entry
  leaves the table. The structure of an entry outlives its removal, so the loop goes on from it.
\<close>

definition del_all_body :: "dict_entry \<Rightarrow> dict_entry list \<Rightarrow> dict_entry list" where
  "del_all_body e d =
     (let d1 = map (\<lambda>x. if eid x = eid e then x\<lparr>clientList := map freeClient (clientList x)\<rparr> else x) d;
          d2 = map (\<lambda>x. if eid x = eid e then x\<lparr>clientList := []\<rparr> else x) d1
      in filter (\<lambda>x. eid x \<noteq> eid e) d2)"

definition delAllRegexpsFromDictionary :: "'a ivy_state_scheme \<Rightarrow> 'a ivy_state_scheme" where
  "delAllRegexpsFromDictionary s =
     s\<lparr>messSndByRegexp := fold del_all_body (messSndByRegexp s) (messSndByRegexp s)\<rparr>"

lemma del_all_body_filter: "del_all_body e d = filter (\<lambda>x. eid x \<noteq> eid e) d"
  by (induction d) (simp_all add: del_all_body_def Let_def)

lemma fold_remove_entries: "set (fold del_all_body xs d) = {x \<in> set d. eid x \<notin> eid ` set xs}"
  by (induction xs arbitrary: d) (auto simp: del_all_body_filter)

lemma delAllRegexps_empty: "delAllRegexpsFromDictionary s = s\<lparr>messSndByRegexp := []\<rparr>"
proof -
  have "set (fold del_all_body (messSndByRegexp s) (messSndByRegexp s)) = {}"
    unfolding fold_remove_entries by auto
  then show ?thesis by (simp add: delAllRegexpsFromDictionary_def)
qed

text \<open>An expression that does not compile is reported to the peer, and entered all the same.\<close>

definition new_entry :: "pcre \<Rightarrow> string \<Rightarrow> ivy_client \<Rightarrow> 'a ivy_state_scheme \<Rightarrow> 'a ivy_state_scheme" where
  "new_entry px r client s =
     (let e = next_addr s; s1 = s\<lparr>next_addr := Suc e\<rparr>;
          (b, s2) =
            (case IvyBindingCompile px r of
               Compiled b \<Rightarrow> (Some b, s1)
             | CompileError erroffset errbuf \<Rightarrow>
                 (None, send_to client Error erroffset
                    (take 1023 (''Error compiling '' @ [CHR 0x27] @ r @ [CHR 0x27] @ '', '' @ errbuf)) s1))
      in s2\<lparr>messSndByRegexp := messSndByRegexp s2
              @ [\<lparr>eid = e, regexp_src = r, clientList = [], binding = b\<rparr>]\<rparr>)"

text \<open>The structure of a peer in an entry: a copy without its list of subscriptions.\<close>

definition peer_copy :: "addr \<Rightarrow> ivy_client \<Rightarrow> ivy_client" where
  "peer_copy a client =
     \<lparr>aid = a, aclient = aclient client, app_name = app_name client,
      app_port = app_port client, app_id = app_id client, srcRegList = [],
      readyToSend = 0, ignore_subsequent_msg = False, ping_ts = (0, 0), ping_id = 0\<rparr>"

lemma peer_copy_simps [simp]: "aclient (peer_copy a c) = aclient c" "app_id (peer_copy a c) = app_id c"
  by (simp_all add: peer_copy_def)

definition addRegexpToDictionary :: "pcre \<Rightarrow> string \<Rightarrow> ivy_client \<Rightarrow> 'a ivy_state_scheme \<Rightarrow> 'a ivy_state_scheme" where
  "addRegexpToDictionary px r client s =
     (let s1 = (case find_entry r s of None \<Rightarrow> new_entry px r client s | Some _ \<Rightarrow> s)
      in if app_name client = None then crash NullDeref s1
         else (let a = next_addr s1; c = peer_copy a client
               in s1\<lparr>next_addr := Suc a,
                     messSndByRegexp := map (\<lambda>x. if regexp_src x = r then x\<lparr>clientList := c # clientList x\<rparr> else x)
                       (messSndByRegexp s1)\<rparr>))"

definition changeRegexpInDictionary :: "pcre \<Rightarrow> string \<Rightarrow> ivy_client \<Rightarrow> 'a ivy_state_scheme \<Rightarrow> 'a ivy_state_scheme" where
  "changeRegexpInDictionary px r client s =
     addRegexpToDictionary px r client (delRegexpForOneClientFromDictionary r client s)"

definition log_bind :: "ivy_client \<Rightarrow> int \<Rightarrow> string \<Rightarrow> bind_event \<Rightarrow> 'a ivy_state_scheme \<Rightarrow> 'a ivy_state_scheme" where
  "log_bind client i r ev s =
     (if application_bind_callback s \<noteq> NULL then log_event (EvBind (aid client) i r ev) s else s)"

definition addRegexp :: "pcre \<Rightarrow> string \<Rightarrow> ivy_client \<Rightarrow> 'a ivy_state_scheme \<Rightarrow> 'a ivy_state_scheme" where
  "addRegexp px r client s =
     (let s1 = addRegexpToDictionary px r client s
      in case find_by_socket (aclient client) s1 of
           None \<Rightarrow> crash NullDeref s1
         | Some itr \<Rightarrow>
             (let g = next_addr s1;
                  s2 = upd_ivy_client (aid itr)
                    (\<lambda>c. c\<lparr>srcRegList := \<lparr>gid = g, str_regexp = Some r, reg_id = app_id client\<rparr> # srcRegList c\<rparr>)
                    (s1\<lparr>next_addr := Suc g\<rparr>)
              in log_bind client (app_id client) r IvyAddBind s2))"

definition changeRegexp :: "pcre \<Rightarrow> string \<Rightarrow> ivy_client \<Rightarrow> 'a ivy_state_scheme \<Rightarrow> 'a ivy_state_scheme" where
  "changeRegexp px r client s =
     (let s1 = changeRegexpInDictionary px r client s;
          s2 = (case find_by_socket (aclient client) s1 of
                  None \<Rightarrow> s1
                | Some itr \<Rightarrow> upd_ivy_client (aid itr)
                    (\<lambda>c. c\<lparr>srcRegList := map (\<lambda>g. if reg_id g = app_id client
                       then g\<lparr>str_regexp := Some r\<rparr> else g) (srcRegList c)\<rparr>) s1)
      in log_bind client (app_id client) r IvyChangeBind s2)"

text \<open>Only the first structure of the peer in the entry is looked at.\<close>

definition addOrChangeRegexp :: "pcre \<Rightarrow> string \<Rightarrow> ivy_client \<Rightarrow> 'a ivy_state_scheme \<Rightarrow> 'a ivy_state_scheme" where
  "addOrChangeRegexp px r client s =
     (case find_entry r s of
        None \<Rightarrow> addRegexp px r client s
      | Some e \<Rightarrow>
          (case find (\<lambda>c. aclient c = aclient client) (clientList e) of
             None \<Rightarrow> addRegexp px r client s
           | Some itr \<Rightarrow>
               if app_id itr = app_id client then changeRegexp px r client s
               else addRegexp px r client s))"

text \<open>
  The subscriptions of the peer \<open>a\<close> (an element of the list of peers) whose identifier is \<open>i\<close> are
  removed one by one; \<open>client\<close> is the structure given, whose own identifier selects what is
  taken from the dictionary.
\<close>

definition reg_nodes :: "addr \<Rightarrow> 'a ivy_state_scheme \<Rightarrow> addr list" where
  "reg_nodes a s = (case find_ivy_client a s of None \<Rightarrow> [] | Some c \<Rightarrow> map gid (srcRegList c))"

definition find_reg :: "addr \<Rightarrow> addr \<Rightarrow> 'a ivy_state_scheme \<Rightarrow> glob_reg option" where
  "find_reg a g s = (case find_ivy_client a s of None \<Rightarrow> None | Some c \<Rightarrow> find (\<lambda>x. gid x = g) (srcRegList c))"

definition del_reg_body :: "addr \<Rightarrow> ivy_client \<Rightarrow> int \<Rightarrow> addr \<Rightarrow> 'a ivy_state_scheme \<Rightarrow> 'a ivy_state_scheme" where
  "del_reg_body a client i g s =
     (case find_reg a g s of
        None \<Rightarrow> crash UseAfterFree s
      | Some x \<Rightarrow>
          if reg_id x = i then
            upd_ivy_client a (\<lambda>c. c\<lparr>srcRegList := filter (\<lambda>y. gid y \<noteq> g) (srcRegList c)\<rparr>)
              (case str_regexp x of None \<Rightarrow> s | Some r \<Rightarrow> delRegexpForOneClientFromDictionary r client s)
          else s)"

definition delRegexpForOneClient :: "ivy_client \<Rightarrow> int \<Rightarrow> 'a ivy_state_scheme \<Rightarrow> bool \<times> 'a ivy_state_scheme" where
  "delRegexpForOneClient client i s =
     (case find_by_socket (aclient client) s of
        None \<Rightarrow> (False, s)
      | Some itr \<Rightarrow>
          (\<exists>g \<in> set (srcRegList itr). reg_id g = i,
           each_safe (reg_nodes (aid itr)) crash (del_reg_body (aid itr) client i) (reg_nodes (aid itr) s) s))"

text \<open>The body of the inner loop of \<^verbatim>\<open>delOneClient\<close>, for the peer \<open>a\<close>.\<close>

definition del_client_reg :: "addr \<Rightarrow> addr \<Rightarrow> 'a ivy_state_scheme \<Rightarrow> 'a ivy_state_scheme" where
  "del_client_reg a g s =
     (case (find_ivy_client a s, find_reg a g s) of
        (Some c, Some x) \<Rightarrow> snd (delRegexpForOneClient c (reg_id x) s)
      | _ \<Rightarrow> crash UseAfterFree s)"

definition del_client_body :: "addr \<Rightarrow> addr \<Rightarrow> 'a ivy_state_scheme \<Rightarrow> 'a ivy_state_scheme" where
  "del_client_body sock a s =
     (case find_ivy_client a s of
        None \<Rightarrow> crash UseAfterFree s
      | Some c \<Rightarrow>
          if aclient c = sock then
            (let s1 = each_safe (reg_nodes a) crash (del_client_reg a) (reg_nodes a s) s
             in s1\<lparr>allClients := filter (\<lambda>x. aid x \<noteq> a) (allClients s1)\<rparr>)
          else s)"

definition delOneClient :: "addr \<Rightarrow> 'a ivy_state_scheme \<Rightarrow> 'a ivy_state_scheme" where
  "delOneClient sock s =
     (let s1 = each_safe ivy_client_nodes crash (del_client_body sock) (ivy_client_nodes s) s
      in each_safe dict_nodes crash (\<lambda>e. delOneClientFromDictionaryEntry e sock) (dict_nodes s1) s1)"

subsection \<open>The subscriptions as a relation\<close>

text \<open>Who subscribes to what: the source, the socket of the peer and the identifier.\<close>

definition subs_of :: "dict_entry list \<Rightarrow> (string \<times> addr \<times> int) set" where
  "subs_of d = {(regexp_src e, aclient c, app_id c) | e c. e \<in> set d \<and> c \<in> set (clientList e)}"

definition subs :: "'a ivy_state_scheme \<Rightarrow> (string \<times> addr \<times> int) set" where
  "subs s = subs_of (messSndByRegexp s)"

definition dict_wf :: "dict_entry list \<Rightarrow> bool" where
  "dict_wf d \<longleftrightarrow> distinct (map regexp_src d) \<and> distinct (map eid d) \<and> (\<forall>e \<in> set d. clientList e \<noteq> [])"

text \<open>All addresses in the bus are below the next one to be given.\<close>

definition bus_addrs :: "'a ivy_state_scheme \<Rightarrow> bool" where
  "bus_addrs s \<longleftrightarrow> (\<forall>e \<in> set (messSndByRegexp s). eid e < next_addr s)
     \<and> (\<forall>c \<in> set (allClients s). aid c < next_addr s \<and> (\<forall>g \<in> set (srcRegList c). gid g < next_addr s))"

definition clean_entries :: "(ivy_client \<Rightarrow> bool) \<Rightarrow> addr \<Rightarrow> dict_entry list \<Rightarrow> dict_entry list" where
  "clean_entries P e d = filter (\<lambda>x. eid x = e \<longrightarrow> clientList x \<noteq> [])
     (map (\<lambda>x. if eid x = e then x\<lparr>clientList := filter (\<lambda>c. \<not> P c) (clientList x)\<rparr> else x) d)"

lemma clean_entry_eq: "clean_entry P e s = s\<lparr>messSndByRegexp := clean_entries P e (messSndByRegexp s)\<rparr>"
  by (simp add: clean_entry_def clean_entries_def)

lemma clean_entries_simps [simp]:
  "clean_entries P e [] = []"
  "clean_entries P e (x # d) =
     (if eid x = e then (if filter (\<lambda>c. \<not> P c) (clientList x) = [] then []
        else [x\<lparr>clientList := filter (\<lambda>c. \<not> P c) (clientList x)\<rparr>]) else [x]) @ clean_entries P e d"
  by (simp_all add: clean_entries_def)

lemma clean_entries_sub:
  "set (map regexp_src (clean_entries P e d)) \<subseteq> set (map regexp_src d)"
  "set (map eid (clean_entries P e d)) \<subseteq> set (map eid d)"
  by (induction d) auto

lemma clean_entries_wf:
  "dict_wf d \<Longrightarrow> dict_wf (clean_entries P e d)"
proof (induction d)
  case (Cons x d)
  then have "dict_wf (clean_entries P e d)" by (simp add: dict_wf_def)
  moreover have "regexp_src x \<notin> set (map regexp_src (clean_entries P e d))"
    "eid x \<notin> set (map eid (clean_entries P e d))"
    using Cons.prems clean_entries_sub [of P e d] by (auto simp: dict_wf_def)
  moreover have "clientList x \<noteq> []" using Cons.prems by (simp add: dict_wf_def)
  ultimately show ?case by (auto simp: dict_wf_def)
qed simp

lemma subs_of_Cons: "subs_of (x # d) = {(regexp_src x, aclient c, app_id c) | c. c \<in> set (clientList x)} \<union> subs_of d"
  by (auto simp: subs_of_def)

lemma subs_of_Nil [simp]: "subs_of [] = {}"
  by (simp add: subs_of_def)

lemma subs_of_append: "subs_of (d @ d') = subs_of d \<union> subs_of d'"
  by (induction d) (auto simp: subs_of_Cons)

lemma subs_key: "(r, k, i) \<in> subs_of d \<Longrightarrow> r \<in> set (map regexp_src d)"
  by (induction d) (auto simp: subs_of_Cons)

lemma clean_entries_other: "e \<notin> set (map eid d) \<Longrightarrow> clean_entries P e d = d"
  by (induction d) auto

text \<open>Cleaning an entry takes exactly the peers that satisfy the test from its source.\<close>

lemma subs_clean_entries:
  assumes "dict_wf d" "x \<in> set d" "eid x = e"
    and P: "P = (\<lambda>c. Q (aclient c) (app_id c))"
  shows "subs_of (clean_entries P e d) = subs_of d - {(regexp_src x, k, i) | k i. Q k i}"
  using assms(1-3)
proof (induction d)
  case (Cons y d)
  have wf: "dict_wf d" using Cons.prems(1) by (simp add: dict_wf_def)
  show ?case
  proof (cases "x = y")
    case True
    have "e \<notin> set (map eid d)" using Cons.prems(1,3) True by (simp add: dict_wf_def)
    then have c: "clean_entries P e d = d" by (rule clean_entries_other)
    have "regexp_src x \<notin> set (map regexp_src d)" using Cons.prems(1) True by (simp add: dict_wf_def)
    then have "subs_of d - {(regexp_src x, k, i) | k i. Q k i} = subs_of d" by (auto dest: subs_key)
    then show ?thesis using True Cons.prems(3) c unfolding P
      by (auto simp: subs_of_Cons filter_empty_conv)
  next
    case False
    then have x: "x \<in> set d" using Cons.prems(2) by simp
    have "eid y \<noteq> e" "regexp_src y \<noteq> regexp_src x"
      using Cons.prems(1,3) x by (auto simp: dict_wf_def)
    then show ?thesis using Cons.IH [OF wf x Cons.prems(3)] by (auto simp: subs_of_Cons)
  qed
qed simp

lemma find_entry_Some: "find_entry r s = Some e \<Longrightarrow> e \<in> set (messSndByRegexp s) \<and> regexp_src e = r"
  by (auto simp: find_entry_def find_Some_iff)

lemma find_entry_None: "find_entry r s = None \<longleftrightarrow> r \<notin> set (map regexp_src (messSndByRegexp s))"
  by (auto simp: find_entry_def find_None_iff)

lemma del_from_dict:
  assumes "dict_wf (messSndByRegexp s)"
  shows "\<exists>d. delRegexpForOneClientFromDictionary r c s = s\<lparr>messSndByRegexp := d\<rparr> \<and> dict_wf d
    \<and> subs_of d = subs s - {(r, aclient c, app_id c)}"
proof (cases "find_entry r s")
  case None
  then have "subs s - {(r, aclient c, app_id c)} = subs s"
    by (auto simp: find_entry_None subs_def dest: subs_key)
  then show ?thesis using None assms
    by (intro exI [of _ "messSndByRegexp s"]) (simp add: delRegexpForOneClientFromDictionary_def subs_def)
next
  case (Some e)
  let ?P = "\<lambda>x. aclient x = aclient c \<and> app_id x = app_id c"
  have e: "e \<in> set (messSndByRegexp s)" "regexp_src e = r" using find_entry_Some [OF Some] by auto
  have "subs_of (clean_entries ?P (eid e) (messSndByRegexp s))
      = subs s - {(r, k, i) | k i. k = aclient c \<and> i = app_id c}"
    using subs_clean_entries [OF assms e(1) refl, of ?P "\<lambda>k i. k = aclient c \<and> i = app_id c", OF refl] e(2)
    by (simp add: subs_def)
  then show ?thesis using Some clean_entries_wf [OF assms]
    by (intro exI [of _ "clean_entries ?P (eid e) (messSndByRegexp s)"])
      (simp add: delRegexpForOneClientFromDictionary_def delOneIvyClientFromDictionaryEntry_def clean_entry_eq)
qed

text \<open>Adding a peer to an entry, made first if there is none.\<close>

lemma subs_add_peer_gen:
  "subs_of (map (\<lambda>x. if regexp_src x = r then x\<lparr>clientList := c # clientList x\<rparr> else x) d)
    = subs_of d \<union> (if r \<in> set (map regexp_src d) then {(r, aclient c, app_id c)} else {})"
  by (induction d) (auto simp: subs_of_Cons)

lemma subs_add_peer:
  assumes "r \<in> set (map regexp_src d)"
  shows "subs_of (map (\<lambda>x. if regexp_src x = r then x\<lparr>clientList := c # clientList x\<rparr> else x) d)
    = insert (r, aclient c, app_id c) (subs_of d)"
  unfolding subs_add_peer_gen using assms by simp

lemma add_to_dict_subs:
  assumes "app_name c \<noteq> None"
  shows "subs (addRegexpToDictionary px r c s) = insert (r, aclient c, app_id c) (subs s)"
proof -
  let ?s1 = "case find_entry r s of None \<Rightarrow> new_entry px r c s | Some _ \<Rightarrow> s"
  have k: "r \<in> set (map regexp_src (messSndByRegexp ?s1)) \<and> subs_of (messSndByRegexp ?s1) = subs s"
  proof (cases "find_entry r s")
    case None
    have "\<exists>b. messSndByRegexp (new_entry px r c s)
        = messSndByRegexp s @ [\<lparr>eid = next_addr s, regexp_src = r, clientList = [], binding = b\<rparr>]"
      by (auto simp: new_entry_def Let_def split: compile_result.splits)
    then show ?thesis using None by (auto simp: subs_def subs_of_append subs_of_Cons)
  next
    case (Some e)
    then show ?thesis using find_entry_Some [OF Some] by (auto simp: subs_def)
  qed
  have "messSndByRegexp (addRegexpToDictionary px r c s)
      = map (\<lambda>x. if regexp_src x = r then x\<lparr>clientList := peer_copy (next_addr ?s1) c # clientList x\<rparr> else x)
          (messSndByRegexp ?s1)"
    using assms by (cases "app_name c") (simp_all add: addRegexpToDictionary_def Let_def)
  then show ?thesis
    using subs_add_peer [of r "messSndByRegexp ?s1" "peer_copy (next_addr ?s1) c"] k by (simp add: subs_def)
qed

subsection \<open>Forgetting a peer\<close>

text \<open>
  What the peer lists promise: distinct structures and sockets, and no identifier twice among the
  subscriptions of a peer.
\<close>

definition peers_ok :: "'a ivy_state_scheme \<Rightarrow> bool" where
  "peers_ok s \<longleftrightarrow> distinct (map aid (allClients s)) \<and> distinct (map aclient (allClients s))
     \<and> (\<forall>c \<in> set (allClients s). distinct (map gid (srcRegList c)))"

definition peers_wf :: "'a ivy_state_scheme \<Rightarrow> bool" where
  "peers_wf s \<longleftrightarrow> peers_ok s \<and> (\<forall>c \<in> set (allClients s). distinct (map reg_id (srcRegList c)))"

lemma peers_wf_ok: "peers_wf s \<Longrightarrow> peers_ok s"
  by (simp add: peers_wf_def)

text \<open>The state \<open>s0\<close> with the subscriptions of the peer \<open>a\<close> and the dictionary replaced.\<close>

definition at_peer where
  "at_peer s0 a rl d = s0\<lparr>allClients := map (\<lambda>c. if aid c = a then c\<lparr>srcRegList := rl\<rparr> else c) (allClients s0),
     messSndByRegexp := d\<rparr>"

definition dict_minus :: "'a ivy_state_scheme \<Rightarrow> addr \<Rightarrow> dict_entry list \<Rightarrow> bool" where
  "dict_minus s0 k d \<longleftrightarrow> dict_wf d \<and> subs_of d \<subseteq> subs s0 \<and> subs s0 \<subseteq> subs_of d \<union> {t. fst (snd t) = k}"

lemma find_ivy_client_Some: "find_ivy_client a s = Some c \<Longrightarrow> c \<in> set (allClients s) \<and> aid c = a"
  by (auto simp: find_ivy_client_def find_Some_iff)

lemma find_by_socket_Some: "find_by_socket k s = Some c \<Longrightarrow> c \<in> set (allClients s) \<and> aclient c = k"
  by (auto simp: find_by_socket_def find_Some_iff)

lemma find_unique:
  assumes "distinct (map f xs)" "x \<in> set xs"
  shows "find (\<lambda>y. f y = f x) xs = Some x"
proof (cases "find (\<lambda>y. f y = f x) xs")
  case None
  then show ?thesis using assms(2) by (auto simp: find_None_iff)
next
  case (Some y)
  then have "y \<in> set xs" "f y = f x" by (auto simp: find_Some_iff)
  then show ?thesis using assms Some by (metis distinct_map inj_onD)
qed

lemma at_peer_find:
  assumes "find_ivy_client a s0 = Some c0"
  shows "find_ivy_client a (at_peer s0 a rl d) = Some (c0\<lparr>srcRegList := rl\<rparr>)"
  using find_map_upd [of aid "\<lambda>c. c\<lparr>srcRegList := rl\<rparr>" a a "allClients s0"] assms
  by (simp add: at_peer_def find_ivy_client_def)

lemma at_peer_socket:
  assumes "peers_ok s0" "find_ivy_client a s0 = Some c0"
  shows "find_by_socket (aclient c0) (at_peer s0 a rl d) = Some (c0\<lparr>srcRegList := rl\<rparr>)"
proof -
  let ?g = "\<lambda>c. if aid c = a then c\<lparr>srcRegList := rl\<rparr> else c"
  have "map aclient (map ?g (allClients s0)) = map aclient (allClients s0)" by simp
  then have "distinct (map aclient (map ?g (allClients s0)))" using assms(1) by (simp only: peers_ok_def)
  moreover have "c0\<lparr>srcRegList := rl\<rparr> \<in> set (map ?g (allClients s0))"
    using find_ivy_client_Some [OF assms(2)] by force
  ultimately have "find (\<lambda>y. aclient y = aclient (c0\<lparr>srcRegList := rl\<rparr>)) (map ?g (allClients s0))
      = Some (c0\<lparr>srcRegList := rl\<rparr>)"
    by (rule find_unique)
  then show ?thesis by (simp add: find_by_socket_def at_peer_def)
qed

lemma at_peer_self:
  assumes "peers_ok s0" "find_ivy_client a s0 = Some c0"
  shows "at_peer s0 a (srcRegList c0) (messSndByRegexp s0) = s0"
proof -
  have "c = c0" if "c \<in> set (allClients s0)" "aid c = a" for c
    using assms that find_ivy_client_Some [OF assms(2)] unfolding peers_ok_def
    by (metis distinct_map inj_onD)
  then have "map (\<lambda>c. if aid c = a then c\<lparr>srcRegList := srcRegList c0\<rparr> else c) (allClients s0) = allClients s0"
    by (intro map_idI) auto
  then show ?thesis by (simp add: at_peer_def)
qed

lemma at_peer_upd:
  "upd_ivy_client a (\<lambda>c. c\<lparr>srcRegList := f (srcRegList c)\<rparr>) ((at_peer s0 a rl d)\<lparr>messSndByRegexp := d'\<rparr>)
     = at_peer s0 a (f rl) d'"
  by (simp add: upd_ivy_client_def at_peer_def comp_def if_distrib cong: if_cong)

lemma dict_minus_del:
  assumes "dict_minus s0 (aclient c) d"
  shows "\<exists>d'. delRegexpForOneClientFromDictionary r c (at_peer s0 a rl d) = (at_peer s0 a rl d)\<lparr>messSndByRegexp := d'\<rparr>
    \<and> dict_minus s0 (aclient c) d'"
proof -
  have "dict_wf (messSndByRegexp (at_peer s0 a rl d))" using assms by (simp add: dict_minus_def at_peer_def)
  from del_from_dict [OF this, of r c] obtain d' where
    "delRegexpForOneClientFromDictionary r c (at_peer s0 a rl d) = (at_peer s0 a rl d)\<lparr>messSndByRegexp := d'\<rparr>"
    "dict_wf d'" "subs_of d' = subs_of d - {(r, aclient c, app_id c)}"
    by (auto simp: subs_def at_peer_def)
  then show ?thesis using assms by (intro exI [of _ d']) (auto simp: dict_minus_def)
qed

lemma del_reg_body_step:
  assumes c0: "find_ivy_client a s0 = Some c0" and d: "dict_minus s0 (aclient cl) d"
    and rl: "distinct (map gid rl)" "x \<in> set rl"
  shows "\<exists>d'. dict_minus s0 (aclient cl) d'
    \<and> del_reg_body a cl i (gid x) (at_peer s0 a rl d)
      = at_peer s0 a (filter (\<lambda>y. gid y = gid x \<longrightarrow> reg_id y \<noteq> i) rl) d'"
proof -
  have fr: "find_reg a (gid x) (at_peer s0 a rl d) = Some x"
    using at_peer_find [OF c0] find_unique [OF rl] by (simp add: find_reg_def)
  have same: "y = x" if "y \<in> set rl" "gid y = gid x" for y
    using rl that by (metis distinct_map inj_onD)
  show ?thesis
  proof (cases "reg_id x = i")
    case True
    have f: "filter (\<lambda>y. gid y = gid x \<longrightarrow> reg_id y \<noteq> i) rl = filter (\<lambda>y. gid y \<noteq> gid x) rl"
      using same True by (intro filter_cong) auto
    obtain d' where d': "dict_minus s0 (aclient cl) d'"
      "(case str_regexp x of None \<Rightarrow> at_peer s0 a rl d
         | Some r \<Rightarrow> delRegexpForOneClientFromDictionary r cl (at_peer s0 a rl d))
        = (at_peer s0 a rl d)\<lparr>messSndByRegexp := d'\<rparr>"
    proof (cases "str_regexp x")
      case None
      then show thesis using that [of d] d by (simp add: at_peer_def)
    next
      case (Some r)
      then show thesis using that dict_minus_del [OF d, of r a rl] by auto
    qed
    show ?thesis unfolding f
      by (rule exI [of _ d']) (simp add: del_reg_body_def fr True d' at_peer_upd)
  next
    case False
    have "filter (\<lambda>y. gid y = gid x \<longrightarrow> reg_id y \<noteq> i) rl = rl"
      using same False by (intro filter_True) auto
    then show ?thesis using fr False d by (intro exI [of _ d]) (simp add: del_reg_body_def)
  qed
qed

lemma reg_nodes_at:
  "find_ivy_client a s0 = Some c0 \<Longrightarrow> reg_nodes a (at_peer s0 a rl d) = map gid rl"
  by (simp add: reg_nodes_def at_peer_find)

lemma filter_one_node:
  assumes "distinct (map gid rl)" "map gid rl = pre @ p # ps"
  obtains pre' where "map gid (filter (\<lambda>y. gid y = p \<longrightarrow> Q y) rl) = pre' @ ps"
proof -
  obtain us v ws where u: "rl = us @ v # ws" "map gid ws = ps"
    using assms(2) by (auto simp: map_eq_append_conv map_eq_Cons_conv)
  have "p \<notin> set ps" using assms(1) unfolding assms(2) by simp
  then have "\<forall>y \<in> set ws. gid y \<noteq> p" unfolding u(2) [symmetric] by auto
  then have w: "filter (\<lambda>y. gid y = p \<longrightarrow> Q y) ws = ws" by (intro filter_True) auto
  show thesis
    by (rule that [of "map gid (filter (\<lambda>y. gid y = p \<longrightarrow> Q y) us @ (if gid v = p \<longrightarrow> Q v then [v] else []))"])
      (simp add: u w)
qed

text \<open>Removing one identifier of a peer: the loop ends, and takes those subscriptions.\<close>

lemma del_reg_loop:
  assumes c0: "find_ivy_client a s0 = Some c0"
  shows "dict_minus s0 (aclient cl) d \<Longrightarrow> distinct (map gid rl) \<Longrightarrow> map gid rl = pre @ ps \<Longrightarrow>
    \<exists>d'. dict_minus s0 (aclient cl) d' \<and>
      fold (del_reg_body a cl i) ps (at_peer s0 a rl d)
        = at_peer s0 a (filter (\<lambda>y. gid y \<in> set ps \<longrightarrow> reg_id y \<noteq> i) rl) d'"
proof (induction ps arbitrary: rl d pre)
  case (Cons p ps)
  have "p \<in> gid ` set rl" using Cons.prems(3) by (metis in_set_conv_decomp list.set_map)
  then obtain x where x: "x \<in> set rl" "gid x = p" by auto
  from del_reg_body_step [OF c0 Cons.prems(1,2) x(1), of i] obtain d1 where
    d1: "dict_minus s0 (aclient cl) d1"
      "del_reg_body a cl i p (at_peer s0 a rl d)
        = at_peer s0 a (filter (\<lambda>y. gid y = p \<longrightarrow> reg_id y \<noteq> i) rl) d1" using x(2) by auto
  let ?rl = "filter (\<lambda>y. gid y = p \<longrightarrow> reg_id y \<noteq> i) rl"
  obtain pre' where "map gid ?rl = pre' @ ps"
    using filter_one_node [OF Cons.prems(2,3), of "\<lambda>y. reg_id y \<noteq> i"] by blast
  moreover have "distinct (map gid ?rl)" using Cons.prems(2) by (simp add: distinct_map_filter)
  ultimately obtain d2 where "dict_minus s0 (aclient cl) d2"
    "fold (del_reg_body a cl i) ps (at_peer s0 a ?rl d1)
       = at_peer s0 a (filter (\<lambda>y. gid y \<in> set ps \<longrightarrow> reg_id y \<noteq> i) ?rl) d2"
    using Cons.IH [OF d1(1)] by blast
  moreover have "filter (\<lambda>y. gid y \<in> set ps \<longrightarrow> reg_id y \<noteq> i) ?rl
      = filter (\<lambda>y. gid y \<in> set (p # ps) \<longrightarrow> reg_id y \<noteq> i) rl"
    unfolding filter_filter by (rule filter_cong) auto
  ultimately show ?case using d1(2) by auto
qed (auto intro!: exI)

lemma delRegexpForOneClient_at:
  assumes wf: "peers_ok s0" and c0: "find_ivy_client a s0 = Some c0" and cl: "aclient cl = aclient c0"
    and d: "dict_minus s0 (aclient c0) d" and rl: "distinct (map gid rl)"
  shows "\<exists>d'. dict_minus s0 (aclient c0) d' \<and>
    delRegexpForOneClient cl i (at_peer s0 a rl d)
      = (\<exists>g \<in> set rl. reg_id g = i, at_peer s0 a (filter (\<lambda>y. reg_id y \<noteq> i) rl) d')"
proof -
  let ?I = "\<lambda>t. \<exists>rl d. t = at_peer s0 a rl d \<and> dict_minus s0 (aclient cl) d \<and> distinct (map gid rl)"
  have d': "dict_minus s0 (aclient cl) d" using d cl by simp
  have step: "?I (del_reg_body a cl i p t) \<and> (\<exists>pre'. reg_nodes a (del_reg_body a cl i p t) = pre' @ ps)"
    if t: "?I t" "reg_nodes a t = pre @ p # ps" for t pre p ps
  proof -
    obtain rl d where t': "t = at_peer s0 a rl d" "dict_minus s0 (aclient cl) d" "distinct (map gid rl)"
      using t(1) by blast
    then have m: "map gid rl = pre @ p # ps" using t(2) reg_nodes_at [OF c0] by simp
    then have "p \<in> gid ` set rl" by (metis in_set_conv_decomp list.set_map)
    then obtain x where x: "x \<in> set rl" "gid x = p" by auto
    from del_reg_body_step [OF c0 t'(2,3) x(1), of i] obtain d1 where
      d1: "dict_minus s0 (aclient cl) d1" "del_reg_body a cl i p t
        = at_peer s0 a (filter (\<lambda>y. gid y = p \<longrightarrow> reg_id y \<noteq> i) rl) d1" using x(2) t'(1) by auto
    obtain pre' where "map gid (filter (\<lambda>y. gid y = p \<longrightarrow> reg_id y \<noteq> i) rl) = pre' @ ps"
      using filter_one_node [OF t'(3) m, of "\<lambda>y. reg_id y \<noteq> i"] by blast
    moreover have "?I (del_reg_body a cl i p t)"
      unfolding d1(2) by (intro exI conjI, rule refl, rule d1(1)) (simp add: distinct_map_filter t'(3))
    ultimately show ?thesis using d1(2) reg_nodes_at [OF c0] by auto
  qed
  let ?s = "at_peer s0 a rl d"
  have nodes: "reg_nodes a ?s = map gid rl" by (rule reg_nodes_at [OF c0])
  have dist: "distinct (reg_nodes a t)" if "?I t" for t using that reg_nodes_at [OF c0] by auto
  have I0: "?I ?s" using d' rl by blast
  have "each_safe (reg_nodes a) crash (del_reg_body a cl i) (reg_nodes a ?s) ?s
      = fold (del_reg_body a cl i) (reg_nodes a ?s) ?s \<and> ?I (fold (del_reg_body a cl i) (reg_nodes a ?s) ?s)"
    by (rule each_safe_fold [where I = ?I and pre = "[]"], erule (1) step, erule dist, rule I0, simp)
  then have f: "each_safe (reg_nodes a) crash (del_reg_body a cl i) (reg_nodes a ?s) ?s
      = fold (del_reg_body a cl i) (map gid rl) ?s" using nodes by simp
  obtain d2 where d2: "dict_minus s0 (aclient cl) d2" "fold (del_reg_body a cl i) (map gid rl) ?s
        = at_peer s0 a (filter (\<lambda>y. gid y \<in> set (map gid rl) \<longrightarrow> reg_id y \<noteq> i) rl) d2"
    using del_reg_loop [OF c0 d' rl, of "[]" "map gid rl" i] by auto
  have "filter (\<lambda>y. gid y \<in> set (map gid rl) \<longrightarrow> reg_id y \<noteq> i) rl = filter (\<lambda>y. reg_id y \<noteq> i) rl"
    by (rule filter_cong) auto
  moreover have "aid c0 = a" using find_ivy_client_Some [OF c0] by simp
  ultimately show ?thesis
    using at_peer_socket [OF wf c0, of rl d] f d2 cl by (auto simp: delRegexpForOneClient_def)
qed

lemma filter_own_id:
  assumes "distinct (map gid rl)" "distinct (map reg_id rl)" "x \<in> set rl"
  shows "filter (\<lambda>y. reg_id y \<noteq> reg_id x) rl = filter (\<lambda>y. gid y \<noteq> gid x) rl"
  using assms by (intro filter_cong) (auto simp: distinct_map dest: inj_onD)

text \<open>The inner loop of \<^verbatim>\<open>delOneClient\<close> empties the list of subscriptions of the peer.\<close>

lemma del_client_regs:
  assumes wf: "peers_ok s0" and c0: "find_ivy_client a s0 = Some c0" and d: "dict_wf (messSndByRegexp s0)"
    and ids: "distinct (map reg_id (srcRegList c0))"
  shows "\<exists>d'. dict_minus s0 (aclient c0) d'
    \<and> each_safe (reg_nodes a) crash (del_client_reg a) (reg_nodes a s0) s0 = at_peer s0 a [] d'"
proof -
  let ?I = "\<lambda>t. \<exists>rl d. t = at_peer s0 a rl d \<and> dict_minus s0 (aclient c0) d \<and> distinct (map gid rl)
    \<and> distinct (map reg_id rl)"
  let ?f = "\<lambda>p rl. filter (\<lambda>y. gid y \<noteq> p) rl"
  have body: "\<exists>d'. dict_minus s0 (aclient c0) d' \<and> del_client_reg a p (at_peer s0 a rl d) = at_peer s0 a (?f p rl) d'"
    if t: "dict_minus s0 (aclient c0) d" "distinct (map gid rl)" "distinct (map reg_id rl)" "p \<in> set (map gid rl)"
    for rl d p
  proof -
    obtain x where x: "x \<in> set rl" "gid x = p" using t(4) by auto
    have fr: "find_reg a p (at_peer s0 a rl d) = Some x"
      using at_peer_find [OF c0] find_unique [OF t(2) x(1)] x(2) by (simp add: find_reg_def)
    have "aclient (c0\<lparr>srcRegList := rl\<rparr>) = aclient c0" by simp
    from delRegexpForOneClient_at [OF wf c0 this t(1,2), of "reg_id x"] obtain d' where
      "dict_minus s0 (aclient c0) d'"
      "delRegexpForOneClient (c0\<lparr>srcRegList := rl\<rparr>) (reg_id x) (at_peer s0 a rl d)
         = (\<exists>g \<in> set rl. reg_id g = reg_id x, at_peer s0 a (filter (\<lambda>y. reg_id y \<noteq> reg_id x) rl) d')"
      by blast
    then show ?thesis
      using fr at_peer_find [OF c0] filter_own_id [OF t(2,3) x(1)] x(2) by (auto simp: del_client_reg_def)
  qed
  have step: "?I (del_client_reg a p t) \<and> (\<exists>pre'. reg_nodes a (del_client_reg a p t) = pre' @ ps)"
    if t: "?I t" "reg_nodes a t = pre @ p # ps" for t pre p ps
  proof -
    obtain rl d where t': "t = at_peer s0 a rl d" "dict_minus s0 (aclient c0) d" "distinct (map gid rl)"
      "distinct (map reg_id rl)" using t(1) by blast
    have m: "map gid rl = pre @ p # ps" using t(2) reg_nodes_at [OF c0] t'(1) by simp
    then have "p \<in> set (map gid rl)" by simp
    from body [OF t'(2-4) this] obtain d' where
      d': "dict_minus s0 (aclient c0) d'" "del_client_reg a p t = at_peer s0 a (?f p rl) d'" using t'(1) by blast
    obtain pre' where "map gid (?f p rl) = pre' @ ps"
      using filter_one_node [OF t'(3) m, of "\<lambda>_. False"] by auto
    moreover have "?I (del_client_reg a p t)"
      unfolding d'(2) by (intro exI conjI, rule refl, rule d'(1)) (simp_all add: distinct_map_filter t'(3,4))
    ultimately show ?thesis using d'(2) reg_nodes_at [OF c0] by auto
  qed
  have c0in: "c0 \<in> set (allClients s0)" "aid c0 = a" using find_ivy_client_Some [OF c0] by auto
  have rl0: "distinct (map gid (srcRegList c0))" "distinct (map reg_id (srcRegList c0))"
    using wf c0in(1) ids by (auto simp: peers_ok_def)
  have dm0: "dict_minus s0 (aclient c0) (messSndByRegexp s0)" using d by (auto simp: dict_minus_def subs_def)
  have I0: "?I s0" by (intro exI conjI, rule at_peer_self [OF wf c0, symmetric], rule dm0, rule rl0(1), rule rl0(2))
  have dist: "distinct (reg_nodes a t)" if "?I t" for t using that reg_nodes_at [OF c0] by auto
  have "each_safe (reg_nodes a) crash (del_client_reg a) (reg_nodes a s0) s0
      = fold (del_client_reg a) (reg_nodes a s0) s0 \<and> ?I (fold (del_client_reg a) (reg_nodes a s0) s0)"
    by (rule each_safe_fold [where I = ?I and pre = "[]"], erule (1) step, erule dist, rule I0, simp)
  then have f: "each_safe (reg_nodes a) crash (del_client_reg a) (reg_nodes a s0) s0
      = fold (del_client_reg a) (reg_nodes a s0) s0" by simp
  have loop: "\<exists>d'. dict_minus s0 (aclient c0) d'
      \<and> fold (del_client_reg a) ps (at_peer s0 a rl d) = at_peer s0 a (filter (\<lambda>y. gid y \<notin> set ps) rl) d'"
    if "dict_minus s0 (aclient c0) d" "distinct (map gid rl)" "distinct (map reg_id rl)"
      "set ps \<subseteq> set (map gid rl)" "distinct ps" for ps rl d
    using that
  proof (induction ps arbitrary: rl d)
    case Nil
    then show ?case by auto
  next
    case (Cons p ps)
    from body [OF Cons.prems(1-3)] Cons.prems(4) obtain d1 where
      d1: "dict_minus s0 (aclient c0) d1" "del_client_reg a p (at_peer s0 a rl d) = at_peer s0 a (?f p rl) d1"
      by auto
    have "set (map gid (?f p rl)) = set (map gid rl) - {p}" by auto
    then have "set ps \<subseteq> set (map gid (?f p rl))" using Cons.prems(4,5) by auto
    from Cons.IH [OF d1(1) _ _ this] Cons.prems(2,3,5) obtain d2 where
      d2: "dict_minus s0 (aclient c0) d2" "fold (del_client_reg a) ps (at_peer s0 a (?f p rl) d1)
        = at_peer s0 a (filter (\<lambda>y. gid y \<notin> set ps) (?f p rl)) d2"
      by (auto simp: distinct_map_filter)
    have "filter (\<lambda>y. gid y \<notin> set ps) (?f p rl) = filter (\<lambda>y. gid y \<notin> set (p # ps)) rl"
      unfolding filter_filter by (rule filter_cong) auto
    then show ?case using d1(2) d2 by (intro exI [of _ d2]) simp
  qed
  have n0: "reg_nodes a s0 = map gid (srcRegList c0)" using c0 by (simp add: reg_nodes_def)
  have "filter (\<lambda>y. gid y \<notin> set (reg_nodes a s0)) (srcRegList c0) = []"
    unfolding n0 by (auto simp: filter_empty_conv)
  then show ?thesis
    using loop [OF dm0 rl0, of "reg_nodes a s0"] rl0 at_peer_self [OF wf c0] f n0 by auto
qed

text \<open>The loop over the entries of the dictionary.\<close>

definition clean_all :: "(ivy_client \<Rightarrow> bool) \<Rightarrow> dict_entry list \<Rightarrow> dict_entry list" where
  "clean_all P d = filter (\<lambda>x. clientList x \<noteq> [])
     (map (\<lambda>x. x\<lparr>clientList := filter (\<lambda>c. \<not> P c) (clientList x)\<rparr>) d)"

lemma clean_entries_append: "clean_entries P e (d @ d') = clean_entries P e d @ clean_entries P e d'"
  by (simp add: clean_entries_def)

lemma fold_clean:
  "distinct (map eid (pre @ d)) \<Longrightarrow> fold (clean_entries P) (map eid d) (pre @ d) = pre @ clean_all P d"
proof (induction d arbitrary: pre)
  case (Cons x d)
  let ?x = "if filter (\<lambda>c. \<not> P c) (clientList x) = [] then []
    else [x\<lparr>clientList := filter (\<lambda>c. \<not> P c) (clientList x)\<rparr>]"
  have "eid x \<notin> set (map eid pre)" "eid x \<notin> set (map eid d)" using Cons.prems by auto
  then have "clean_entries P (eid x) (pre @ x # d) = (pre @ ?x) @ d"
    by (simp add: clean_entries_append clean_entries_other)
  moreover have "distinct (map eid ((pre @ ?x) @ d))" using Cons.prems by auto
  ultimately show ?case using Cons.IH [of "pre @ ?x"] by (simp add: clean_all_def)
qed (simp add: clean_all_def)

lemma subs_clean_all: "subs_of (clean_all (\<lambda>c. aclient c = k) d) = {t \<in> subs_of d. fst (snd t) \<noteq> k}"
proof (induction d)
  case Nil
  then show ?case by (simp add: clean_all_def)
next
  case (Cons x d)
  let ?P = "\<lambda>c. aclient c = k"
  let ?x = "if filter (\<lambda>c. \<not> ?P c) (clientList x) = [] then []
    else [x\<lparr>clientList := filter (\<lambda>c. \<not> ?P c) (clientList x)\<rparr>]"
  have "clean_all ?P (x # d) = ?x @ clean_all ?P d" by (simp add: clean_all_def)
  moreover have "subs_of ?x = {(regexp_src x, aclient c, app_id c) | c. c \<in> set (clientList x) \<and> aclient c \<noteq> k}"
    by (auto simp: subs_of_Cons filter_empty_conv)
  ultimately have "subs_of (clean_all ?P (x # d))
      = {(regexp_src x, aclient c, app_id c) | c. c \<in> set (clientList x) \<and> aclient c \<noteq> k}
        \<union> {t \<in> subs_of d. fst (snd t) \<noteq> k}"
    using Cons.IH by (simp only: subs_of_append)
  then show ?case unfolding subs_of_Cons by auto
qed

lemma clean_entries_nodes:
  assumes "distinct (map eid d)" "map eid d = pre @ p # ps"
  shows "\<exists>pre'. map eid (clean_entries P p d) = pre' @ ps"
proof -
  obtain us v ws where u: "d = us @ v # ws" "map eid us = pre" "eid v = p" "map eid ws = ps"
    using assms(2) by (auto simp: map_eq_append_conv map_eq_Cons_conv)
  have "p \<notin> set ps" using assms(1) unfolding assms(2) by simp
  then have "clean_entries P p ws = ws" using u(4) by (intro clean_entries_other) simp
  then show ?thesis using u by (intro exI [of _ "map eid (clean_entries P p us) @ map eid (clean_entries P p [v])"])
      (simp add: clean_entries_append)
qed

lemma del_from_entries:
  assumes "dict_wf (messSndByRegexp s)"
  shows "each_safe dict_nodes crash (\<lambda>e. delOneClientFromDictionaryEntry e sock) (dict_nodes s) s
    = s\<lparr>messSndByRegexp := clean_all (\<lambda>c. aclient c = sock) (messSndByRegexp s)\<rparr>"
proof -
  let ?P = "\<lambda>c. aclient c = sock"
  let ?I = "\<lambda>t. dict_wf (messSndByRegexp t)"
  have step: "?I (delOneClientFromDictionaryEntry p sock t)
      \<and> (\<exists>pre'. dict_nodes (delOneClientFromDictionaryEntry p sock t) = pre' @ ps)"
    if "?I t" "dict_nodes t = pre @ p # ps" for t pre p ps
    using that clean_entries_wf [of "messSndByRegexp t" ?P p] clean_entries_nodes [of "messSndByRegexp t" pre p ps ?P]
    by (simp add: delOneClientFromDictionaryEntry_def clean_entry_eq dict_nodes_def dict_wf_def)
  have dist: "distinct (dict_nodes t)" if "?I t" for t using that by (simp add: dict_nodes_def dict_wf_def)
  have "each_safe dict_nodes crash (\<lambda>e. delOneClientFromDictionaryEntry e sock) (dict_nodes s) s
      = fold (\<lambda>e. delOneClientFromDictionaryEntry e sock) (dict_nodes s) s
    \<and> ?I (fold (\<lambda>e. delOneClientFromDictionaryEntry e sock) (dict_nodes s) s)"
    by (rule each_safe_fold [where I = ?I and pre = "[]"], erule (1) step, erule dist, rule assms, simp)
  then have e: "each_safe dict_nodes crash (\<lambda>e. delOneClientFromDictionaryEntry e sock) (dict_nodes s) s
      = fold (\<lambda>e. delOneClientFromDictionaryEntry e sock) (dict_nodes s) s" by (rule conjunct1)
  have f: "fold (\<lambda>e. delOneClientFromDictionaryEntry e sock) ps t
      = t\<lparr>messSndByRegexp := fold (clean_entries ?P) ps (messSndByRegexp t)\<rparr>" for ps t
    by (induction ps arbitrary: t) (simp_all add: delOneClientFromDictionaryEntry_def clean_entry_eq)
  have "fold (clean_entries ?P) (dict_nodes s) (messSndByRegexp s) = clean_all ?P (messSndByRegexp s)"
    using fold_clean [of "[]" "messSndByRegexp s" ?P] assms by (simp add: dict_nodes_def dict_wf_def)
  then show ?thesis unfolding e f by (rule arg_cong)
qed

lemma clean_all_wf: "dict_wf d \<Longrightarrow> dict_wf (clean_all P d)"
proof (induction d)
  case (Cons x d)
  have "set (map regexp_src (clean_all P d)) \<subseteq> set (map regexp_src d)"
    "set (map eid (clean_all P d)) \<subseteq> set (map eid d)" by (auto simp: clean_all_def)
  then show ?case using Cons by (auto simp: dict_wf_def clean_all_def)
qed (simp add: clean_all_def)

text \<open>The loop over the peers passes over the ones with another socket.\<close>

lemma del_client_skip:
  assumes "distinct (map aid (allClients s))" "c \<in> set (allClients s)" "aclient c \<noteq> sock"
  shows "del_client_body sock (aid c) s = s"
proof -
  have "find_ivy_client (aid c) s = Some c" unfolding find_ivy_client_def by (rule find_unique [OF assms(1,2)])
  then show ?thesis using assms(3) by (simp add: del_client_body_def)
qed

lemma filter_peer_upd:
  "filter (\<lambda>x. aid x \<noteq> p) (map (\<lambda>c. if aid c = p then c\<lparr>srcRegList := rl\<rparr> else c) xs)
    = filter (\<lambda>x. aid x \<noteq> p) xs"
  by (induction xs) auto

lemma del_client_take:
  assumes wf: "peers_ok s" and d: "dict_wf (messSndByRegexp s)" and c: "c \<in> set (allClients s)"
    and ids: "distinct (map reg_id (srcRegList c))"
  shows "\<exists>d'. dict_minus s (aclient c) d' \<and> del_client_body (aclient c) (aid c) s
    = s\<lparr>allClients := filter (\<lambda>x. aid x \<noteq> aid c) (allClients s), messSndByRegexp := d'\<rparr>"
proof -
  have f: "find_ivy_client (aid c) s = Some c"
    unfolding find_ivy_client_def using wf by (intro find_unique c) (simp add: peers_ok_def)
  from del_client_regs [OF wf f d ids] obtain d' where d': "dict_minus s (aclient c) d'"
    "each_safe (reg_nodes (aid c)) crash (del_client_reg (aid c)) (reg_nodes (aid c) s) s = at_peer s (aid c) [] d'"
    by blast
  have "del_client_body (aclient c) (aid c) s
      = (at_peer s (aid c) [] d')\<lparr>allClients := filter (\<lambda>x. aid x \<noteq> aid c) (allClients (at_peer s (aid c) [] d'))\<rparr>"
    using f d'(2) by (simp add: del_client_body_def Let_def)
  also have "\<dots> = s\<lparr>allClients := filter (\<lambda>x. aid x \<noteq> aid c) (allClients s), messSndByRegexp := d'\<rparr>"
    by (simp add: at_peer_def filter_peer_upd)
  finally show ?thesis using d'(1) by blast
qed

lemma del_clients_skip:
  assumes "distinct (map aid (allClients s))"
  shows "\<forall>c \<in> set us. aclient c \<noteq> sock \<Longrightarrow> allClients s = pre @ us @ vs \<Longrightarrow>
    each_safe ivy_client_nodes crash (del_client_body sock) (map aid us @ map aid vs) s
      = each_safe ivy_client_nodes crash (del_client_body sock) (map aid vs) s"
proof (induction us arbitrary: pre)
  case (Cons u us)
  have n: "ivy_client_nodes s = map aid pre @ aid u # map aid us @ map aid vs"
    using Cons.prems(2) by (simp add: ivy_client_nodes_def)
  have "aid u \<notin> set (map aid pre)" using assms unfolding Cons.prems(2) by auto
  from succ_of_append [OF this, of "map aid us @ map aid vs"]
  have sc: "succ_of (aid u) (ivy_client_nodes s)
    = Some (case map aid us @ map aid vs of [] \<Rightarrow> NULL | y # _ \<Rightarrow> y)" unfolding n .
  have "del_client_body sock (aid u) s = s"
    using assms Cons.prems by (intro del_client_skip) simp_all
  moreover have "each_safe ivy_client_nodes crash (del_client_body sock) (map aid us @ map aid vs) s
      = each_safe ivy_client_nodes crash (del_client_body sock) (map aid vs) s"
    using Cons.prems by (intro Cons.IH [of "pre @ [u]"]) simp_all
  ultimately show ?case using sc dropWhile_head [of "map aid us @ map aid vs"] by simp
qed simp

text \<open>The whole of the first loop: the peer and its subscriptions, as far as its own list knows them.\<close>

lemma del_clients_loop:
  assumes wf: "peers_ok s" and d: "dict_wf (messSndByRegexp s)"
    and ids: "\<forall>c \<in> set (allClients s). aclient c = sock \<longrightarrow> distinct (map reg_id (srcRegList c))"
  shows "\<exists>d'. each_safe ivy_client_nodes crash (del_client_body sock) (ivy_client_nodes s) s
      = s\<lparr>allClients := filter (\<lambda>c. aclient c \<noteq> sock) (allClients s), messSndByRegexp := d'\<rparr>
    \<and> dict_minus s sock d'"
proof (cases "sock \<in> set (map aclient (allClients s))")
  case False
  have "distinct (map aid (allClients s))" "\<forall>c \<in> set (allClients s). aclient c \<noteq> sock"
    using wf False by (auto simp: peers_ok_def)
  from del_clients_skip [OF this, of "[]" "[]"]
  have "each_safe ivy_client_nodes crash (del_client_body sock) (ivy_client_nodes s) s = s"
    by (simp add: ivy_client_nodes_def)
  moreover have "filter (\<lambda>c. aclient c \<noteq> sock) (allClients s) = allClients s"
    using False by (intro filter_True) auto
  moreover have "dict_minus s sock (messSndByRegexp s)" using d by (auto simp: dict_minus_def subs_def)
  ultimately show ?thesis by (intro exI [of _ "messSndByRegexp s"]) simp
next
  case True
  then obtain us c ws where u: "allClients s = us @ c # ws" "aclient c = sock"
    by (auto simp: in_set_conv_decomp map_eq_append_conv map_eq_Cons_conv)
  have dist: "distinct (map aid (us @ c # ws))" "distinct (map aclient (us @ c # ws))"
    using wf u(1) by (simp_all only: peers_ok_def)
  have other: "\<forall>x \<in> set us. aclient x \<noteq> sock" "\<forall>x \<in> set ws. aclient x \<noteq> sock"
    using dist(2) u(2) by (auto simp: image_iff)
  from del_client_take [OF wf d, of c] u ids obtain d' where
    d': "dict_minus s sock d'" "del_client_body sock (aid c) s
      = s\<lparr>allClients := filter (\<lambda>x. aid x \<noteq> aid c) (allClients s), messSndByRegexp := d'\<rparr>" by auto
  have "filter (\<lambda>x. aid x \<noteq> aid c) us = us" "filter (\<lambda>x. aid x \<noteq> aid c) ws = ws"
    using dist(1) by (auto intro!: filter_True simp: image_iff)
  then have fa: "filter (\<lambda>x. aid x \<noteq> aid c) (allClients s) = us @ ws" using u(1) by simp
  have fs: "filter (\<lambda>x. aclient x \<noteq> sock) (allClients s) = us @ ws"
    using u other by (simp add: filter_id_conv)
  let ?t = "s\<lparr>allClients := us @ ws, messSndByRegexp := d'\<rparr>"
  have "each_safe ivy_client_nodes crash (del_client_body sock) (map aid us @ map aid (c # ws)) s
      = each_safe ivy_client_nodes crash (del_client_body sock) (map aid (c # ws)) s"
    using dist(1) other(1) u(1) by (intro del_clients_skip [where pre = "[]"]) simp_all
  also have "\<dots> = each_safe ivy_client_nodes crash (del_client_body sock) (map aid ws) ?t"
  proof -
    have n: "ivy_client_nodes s = map aid us @ aid c # map aid ws" using u(1) by (simp add: ivy_client_nodes_def)
    have "aid c \<notin> set (map aid us)" using dist(1) by simp
    from succ_of_append [OF this, of "map aid ws"]
    have "succ_of (aid c) (ivy_client_nodes s) = Some (case map aid ws of [] \<Rightarrow> NULL | y # _ \<Rightarrow> y)" unfolding n .
    then show ?thesis using dropWhile_head [of "map aid ws"] d'(2) fa by simp
  qed
  also have "\<dots> = ?t"
  proof -
    have "distinct (map aid (allClients ?t))" using dist(1) by simp
    from del_clients_skip [OF this other(2), of us "[]"] show ?thesis by simp
  qed
  finally show ?thesis using d'(1) fs u(1) by (intro exI [of _ d']) (simp add: ivy_client_nodes_def)
qed

lemma delOneClient_own:
  assumes wf: "peers_ok s" and d: "dict_wf (messSndByRegexp s)"
    and ids: "\<forall>c \<in> set (allClients s). aclient c = sock \<longrightarrow> distinct (map reg_id (srcRegList c))"
  shows "\<exists>d'. delOneClient sock s
      = s\<lparr>allClients := filter (\<lambda>c. aclient c \<noteq> sock) (allClients s), messSndByRegexp := d'\<rparr>
    \<and> dict_wf d' \<and> subs_of d' = {t \<in> subs s. fst (snd t) \<noteq> sock}"
proof -
  obtain d1 where l: "each_safe ivy_client_nodes crash (del_client_body sock) (ivy_client_nodes s) s
      = s\<lparr>allClients := filter (\<lambda>c. aclient c \<noteq> sock) (allClients s), messSndByRegexp := d1\<rparr>"
    "dict_minus s sock d1" using del_clients_loop [OF wf d ids] by blast
  let ?t = "s\<lparr>allClients := filter (\<lambda>c. aclient c \<noteq> sock) (allClients s), messSndByRegexp := d1\<rparr>"
  have w: "dict_wf (messSndByRegexp ?t)" using l(2) by (simp add: dict_minus_def)
  have "delOneClient sock s = ?t\<lparr>messSndByRegexp := clean_all (\<lambda>c. aclient c = sock) (messSndByRegexp ?t)\<rparr>"
    unfolding delOneClient_def l(1) Let_def by (rule del_from_entries [OF w])
  moreover have "subs_of (clean_all (\<lambda>c. aclient c = sock) d1) = {t \<in> subs s. fst (snd t) \<noteq> sock}"
    unfolding subs_clean_all using l(2) by (auto simp: dict_minus_def)
  ultimately show ?thesis using clean_all_wf [OF w]
    by (intro exI [of _ "clean_all (\<lambda>c. aclient c = sock) d1"]) simp
qed

lemma delOneClient_effect:
  assumes "peers_wf s" "dict_wf (messSndByRegexp s)"
  shows "\<exists>d'. delOneClient sock s
      = s\<lparr>allClients := filter (\<lambda>c. aclient c \<noteq> sock) (allClients s), messSndByRegexp := d'\<rparr>
    \<and> dict_wf d' \<and> subs_of d' = {t \<in> subs s. fst (snd t) \<noteq> sock}"
  using assms by (intro delOneClient_own) (auto simp: peers_wf_def)

subsection \<open>Two subscriptions of a peer with one identifier\<close>

lemma fault_crash: "fault s = Some e \<Longrightarrow> fault (crash f s) = Some e"
  by (simp add: crash_def)

lemma fault_clean [simp]: "fault (clean_entry P e s) = fault s"
  by (simp add: clean_entry_def)

lemma fault_del_dict [simp]: "fault (delRegexpForOneClientFromDictionary r c s) = fault s"
  by (simp add: delRegexpForOneClientFromDictionary_def delOneIvyClientFromDictionaryEntry_def split: option.splits)

lemma fault_upd_ivy_client [simp]: "fault (upd_ivy_client a f s) = fault s"
  by (simp add: upd_ivy_client_def)

lemma fault_del_reg_body: "fault s = Some e \<Longrightarrow> fault (del_reg_body a c i g s) = Some e"
  by (auto simp: del_reg_body_def crash_def split: option.splits)

lemma fault_delRegexp: "fault s = Some e \<Longrightarrow> fault (snd (delRegexpForOneClient c i s)) = Some e"
  unfolding delRegexpForOneClient_def
  by (simp split: option.splits)
    (intro allI impI each_safe_keeps [where Q = "\<lambda>t. fault t = Some e"];
      simp add: fault_del_reg_body fault_crash)

lemma fault_del_client_reg: "fault s = Some e \<Longrightarrow> fault (del_client_reg a g s) = Some e"
  by (simp add: del_client_reg_def fault_delRegexp fault_crash split: option.splits)

lemma fault_del_client_body: "fault s = Some e \<Longrightarrow> fault (del_client_body k a s) = Some e"
proof -
  assume f: "fault s = Some e"
  have "fault (each_safe (reg_nodes a) crash (del_client_reg a) (reg_nodes a s) s) = Some e"
    by (rule each_safe_keeps [where Q = "\<lambda>t. fault t = Some e"]) (rule fault_del_client_reg fault_crash f, assumption?)+
  then show ?thesis using f by (simp add: del_client_body_def Let_def fault_crash split: option.splits)
qed

lemma succ_of_notin: "p \<notin> set xs \<Longrightarrow> succ_of p xs = None"
  by (induction xs) auto

text \<open>The first of the two takes the second with it, which the loop had saved as the next.\<close>

lemma dup_ids_stale:
  assumes ok: "peers_ok s" and d: "dict_wf (messSndByRegexp s)" and c: "c \<in> set (allClients s)"
    and rl: "srcRegList c = x # y # rest" "reg_id x = reg_id y" and nf: "fault s = None"
  shows "fault (del_client_body (aclient c) (aid c) s) = Some UseAfterFree"
proof -
  let ?a = "aid c" and ?k = "aclient c"
  have f: "find_ivy_client ?a s = Some c"
    unfolding find_ivy_client_def using ok by (intro find_unique c) (simp add: peers_ok_def)
  have dist: "distinct (map gid (srcRegList c))" using ok c by (simp add: peers_ok_def)
  have dm: "dict_minus s ?k (messSndByRegexp s)" using d by (auto simp: dict_minus_def subs_def)
  from delRegexpForOneClient_at [OF ok f refl dm dist, of "reg_id x"] obtain d' where
    d': "delRegexpForOneClient c (reg_id x) (at_peer s ?a (srcRegList c) (messSndByRegexp s))
      = (\<exists>g \<in> set (srcRegList c). reg_id g = reg_id x,
         at_peer s ?a (filter (\<lambda>z. reg_id z \<noteq> reg_id x) (srcRegList c)) d')" by blast
  let ?rl = "filter (\<lambda>z. reg_id z \<noteq> reg_id x) (srcRegList c)"
  let ?t = "at_peer s ?a ?rl d'"
  have "find_reg ?a (gid x) s = Some x" using f rl(1) by (simp add: find_reg_def)
  then have b: "del_client_reg ?a (gid x) s = ?t"
    using f d' at_peer_self [OF ok f] by (simp add: del_client_reg_def)
  have n: "reg_nodes ?a s = gid x # gid y # map gid rest" using f rl(1) by (simp add: reg_nodes_def)
  have "gid y \<notin> set (map gid ?rl)" using dist rl by auto
  then have st: "succ_of (gid y) (reg_nodes ?a ?t) = None"
    unfolding reg_nodes_at [OF f] by (rule succ_of_notin)
  have "each_safe (reg_nodes ?a) crash (del_client_reg ?a) (reg_nodes ?a s) s = crash UseAfterFree ?t"
    unfolding n using n b st by simp
  moreover have "fault (crash UseAfterFree ?t) = Some UseAfterFree" using nf by (simp add: at_peer_def crash_def)
  ultimately show ?thesis using f by (simp add: del_client_body_def Let_def)
qed

lemma dup_ids_fault:
  assumes ok: "peers_ok s" and d: "dict_wf (messSndByRegexp s)" and c: "c \<in> set (allClients s)"
    and rl: "srcRegList c = x # y # rest" "reg_id x = reg_id y" and nf: "fault s = None"
  shows "fault (delOneClient (aclient c) s) = Some UseAfterFree"
proof -
  let ?b = "del_client_body (aclient c)"
  obtain us ws where u: "allClients s = us @ c # ws" using c by (auto simp: in_set_conv_decomp)
  have dist: "distinct (map aid (us @ c # ws))" "distinct (map aclient (us @ c # ws))"
    using ok u by (simp_all only: peers_ok_def)
  have us: "\<forall>z \<in> set us. aclient z \<noteq> aclient c" using dist(2) by (auto simp: image_iff)
  have "each_safe ivy_client_nodes crash ?b (map aid us @ map aid (c # ws)) s
      = each_safe ivy_client_nodes crash ?b (map aid (c # ws)) s"
    using dist(1) us u by (intro del_clients_skip [where pre = "[]"]) simp_all
  moreover have "succ_of (aid c) (ivy_client_nodes s) = Some (case map aid ws of [] \<Rightarrow> NULL | z # _ \<Rightarrow> z)"
    using succ_of_append [of "aid c" "map aid us" "map aid ws"] dist(1) u by (simp add: ivy_client_nodes_def)
  ultimately have e: "each_safe ivy_client_nodes crash ?b (ivy_client_nodes s) s
      = each_safe ivy_client_nodes crash ?b (map aid ws) (?b (aid c) s)"
    using u dropWhile_head [of "map aid ws"] by (simp add: ivy_client_nodes_def)
  have f1: "fault (each_safe ivy_client_nodes crash ?b (ivy_client_nodes s) s) = Some UseAfterFree"
    unfolding e
    by (rule each_safe_keeps [where Q = "\<lambda>t. fault t = Some UseAfterFree"])
      (rule fault_del_client_body fault_crash dup_ids_stale [OF assms], assumption?)+
  show ?thesis unfolding delOneClient_def Let_def
    by (rule each_safe_keeps [where Q = "\<lambda>t. fault t = Some UseAfterFree"])
      (use f1 fault_crash in \<open>simp_all add: delOneClientFromDictionaryEntry_def\<close>)
qed

text \<open>What \<^verbatim>\<open>addOrChangeRegexp\<close> does when the source is new for the peer.\<close>

definition addr_fresh :: "'a ivy_state_scheme \<Rightarrow> bool" where
  "addr_fresh s \<longleftrightarrow> (\<forall>e \<in> set (messSndByRegexp s). eid e < next_addr s)
     \<and> (\<forall>c \<in> set (allClients s). \<forall>g \<in> set (srcRegList c). gid g < next_addr s)"

lemma new_entry_eq:
  "\<exists>b s2. new_entry px r c s = s2\<lparr>messSndByRegexp := messSndByRegexp s
      @ [\<lparr>eid = next_addr s, regexp_src = r, clientList = [], binding = b\<rparr>]\<rparr>
    \<and> allClients s2 = allClients s"
  by (auto simp: new_entry_def Let_def intro!: exI split: compile_result.splits)

lemma new_entry_frame [simp]:
  "allClients (new_entry px r c s) = allClients s" "next_addr (new_entry px r c s) = Suc (next_addr s)"
  by (auto simp: new_entry_def Let_def split: compile_result.splits)

lemma dict_wf_add_peer:
  assumes "distinct (map regexp_src d)" "distinct (map eid d)"
    "\<forall>e \<in> set d. regexp_src e \<noteq> r \<longrightarrow> clientList e \<noteq> []"
  shows "dict_wf (map (\<lambda>x. if regexp_src x = r then x\<lparr>clientList := c # clientList x\<rparr> else x) d)"
proof -
  let ?g = "\<lambda>x. if regexp_src x = r then x\<lparr>clientList := c # clientList x\<rparr> else x"
  have "map regexp_src (map ?g d) = map regexp_src d" "map eid (map ?g d) = map eid d" by simp_all
  then have "distinct (map regexp_src (map ?g d))" "distinct (map eid (map ?g d))"
    using assms(1,2) by (simp_all only:)
  moreover have "\<forall>e \<in> set (map ?g d). clientList e \<noteq> []" using assms(3) by auto
  ultimately show ?thesis unfolding dict_wf_def by blast
qed

lemma add_to_dict:
  assumes name: "app_name c \<noteq> None" and d: "dict_wf (messSndByRegexp s)" and fresh: "addr_fresh s"
  shows "\<exists>t. addRegexpToDictionary px r c s = t \<and> allClients t = allClients s \<and> dict_wf (messSndByRegexp t)
    \<and> subs t = insert (r, aclient c, app_id c) (subs s) \<and> next_addr s < next_addr t"
proof -
  define s1 where "s1 = (case find_entry r s of None \<Rightarrow> new_entry px r c s | Some _ \<Rightarrow> s)"
  let ?g = "\<lambda>x. if regexp_src x = r then x\<lparr>clientList := peer_copy (next_addr s1) c # clientList x\<rparr> else x"
  have t: "addRegexpToDictionary px r c s
      = s1\<lparr>next_addr := Suc (next_addr s1), messSndByRegexp := map ?g (messSndByRegexp s1)\<rparr>"
    using name by (cases "app_name c") (simp_all add: addRegexpToDictionary_def Let_def s1_def)
  have s1: "allClients s1 = allClients s" "next_addr s \<le> next_addr s1"
    by (auto simp: s1_def split: option.splits)
  have "dict_wf (map ?g (messSndByRegexp s1))"
  proof (cases "find_entry r s")
    case None
    then obtain b where m: "messSndByRegexp s1 = messSndByRegexp s
        @ [\<lparr>eid = next_addr s, regexp_src = r, clientList = [], binding = b\<rparr>]"
      using new_entry_eq [of px r c s] by (auto simp: s1_def)
    have "r \<notin> set (map regexp_src (messSndByRegexp s))" using None find_entry_None [of r s] by blast
    moreover have "next_addr s \<notin> set (map eid (messSndByRegexp s))" using fresh by (auto simp: addr_fresh_def)
    ultimately show ?thesis using d unfolding m by (intro dict_wf_add_peer) (auto simp: dict_wf_def)
  next
    case (Some e)
    then show ?thesis using d by (intro dict_wf_add_peer) (auto simp: s1_def dict_wf_def)
  qed
  then show ?thesis using t s1 add_to_dict_subs [OF name, of px r s] by simp
qed

text \<open>A peer that subscribes to a source it has no subscription to, whatever the identifier.\<close>

lemma new_subscription:
  assumes c: "c \<in> set (allClients s)" and ok: "peers_ok s" and d: "dict_wf (messSndByRegexp s)"
    and fresh: "addr_fresh s" and name: "app_name c \<noteq> None"
    and new: "\<forall>i. (r, aclient c, i) \<notin> subs s"
  shows "\<exists>t g. addOrChangeRegexp px r c s = t \<and> peers_ok t \<and> dict_wf (messSndByRegexp t)
    \<and> subs t = insert (r, aclient c, app_id c) (subs s)
    \<and> reg_id g = app_id c \<and> c\<lparr>srcRegList := g # srcRegList c\<rparr> \<in> set (allClients t)"
proof -
  have "addOrChangeRegexp px r c s = addRegexp px r c s"
  proof (cases "find_entry r s")
    case (Some e)
    have "find (\<lambda>x. aclient x = aclient c) (clientList e) = None"
      using new find_entry_Some [OF Some] by (auto simp: find_None_iff subs_def subs_of_def)
    then show ?thesis using Some by (simp add: addOrChangeRegexp_def)
  qed (simp add: addOrChangeRegexp_def)
  moreover obtain s1 where s1: "addRegexpToDictionary px r c s = s1" "allClients s1 = allClients s"
    "dict_wf (messSndByRegexp s1)" "subs s1 = insert (r, aclient c, app_id c) (subs s)"
    "next_addr s < next_addr s1" using add_to_dict [OF name d fresh] by blast
  moreover have f: "find_by_socket (aclient c) s1 = Some c"
    unfolding find_by_socket_def s1(2) using ok by (intro find_unique c) (simp add: peers_ok_def)
  moreover define g where "g = \<lparr>gid = next_addr s1, str_regexp = Some r, reg_id = app_id c\<rparr>"
  moreover define t where "t = upd_ivy_client (aid c) (\<lambda>x. x\<lparr>srcRegList := g # srcRegList x\<rparr>)
    (s1\<lparr>next_addr := Suc (next_addr s1)\<rparr>)"
  ultimately have e: "addOrChangeRegexp px r c s = log_bind c (app_id c) r IvyAddBind t"
    by (simp add: addRegexp_def Let_def)
  have at: "allClients t = map (\<lambda>x. if aid x = aid c then x\<lparr>srcRegList := g # srcRegList x\<rparr> else x) (allClients s)"
    by (simp add: t_def upd_ivy_client_def s1(2))
  have "next_addr s1 \<notin> set (map gid (srcRegList x))" if "x \<in> set (allClients s)" for x
    using fresh s1(5) that by (fastforce simp: addr_fresh_def)
  then have "\<forall>x \<in> set (allClients t). distinct (map gid (srcRegList x))"
    using ok unfolding at by (auto simp: peers_ok_def g_def)
  moreover have "map aid (allClients t) = map aid (allClients s)" "map aclient (allClients t) = map aclient (allClients s)"
    unfolding at by simp_all
  ultimately have "peers_ok t" using ok by (simp only: peers_ok_def)
  moreover have "c\<lparr>srcRegList := g # srcRegList c\<rparr> \<in> set (allClients t)" unfolding at using c by force
  moreover have "dict_wf (messSndByRegexp t)" "subs t = insert (r, aclient c, app_id c) (subs s)"
    using s1(3,4) by (simp_all add: t_def upd_ivy_client_def subs_def)
  moreover have "reg_id g = app_id c" by (simp add: g_def)
  moreover define u where "u = log_bind c (app_id c) r IvyAddBind t"
  moreover have "allClients u = allClients t" "messSndByRegexp u = messSndByRegexp t"
    by (simp_all add: u_def log_bind_def)
  ultimately show ?thesis unfolding e by (intro exI [of _ u] exI [of _ g]) (simp add: peers_ok_def subs_def)
qed

text \<open>Nothing goes wrong when the expression has an entry already or compiles.\<close>

lemma new_subscription_faultless:
  assumes "c \<in> set (allClients s)" "app_name c \<noteq> None" "\<forall>i. (r, aclient c, i) \<notin> subs s"
    "find_entry r s \<noteq> None \<or> pcre_error px r = None"
  shows "fault (addOrChangeRegexp px r c s) = fault s"
proof -
  have "addOrChangeRegexp px r c s = addRegexp px r c s"
  proof (cases "find_entry r s")
    case (Some e)
    have "find (\<lambda>x. aclient x = aclient c) (clientList e) = None"
      using assms(3) find_entry_Some [OF Some] by (auto simp: find_None_iff subs_def subs_of_def)
    then show ?thesis using Some by (simp add: addOrChangeRegexp_def)
  qed (simp add: addOrChangeRegexp_def)
  moreover have d: "fault (addRegexpToDictionary px r c s) = fault s"
    "allClients (addRegexpToDictionary px r c s) = allClients s"
    using assms(2,4) by (auto simp: addRegexpToDictionary_def new_entry_def IvyBindingCompile_def Let_def split: option.splits)
  moreover have "find_by_socket (aclient c) (addRegexpToDictionary px r c s) \<noteq> None"
    unfolding find_by_socket_def d(2) using assms(1) by (auto simp: find_None_iff)
  ultimately show ?thesis
    by (auto simp: addRegexp_def log_bind_def log_event_def upd_ivy_client_def Let_def)
qed

subsection \<open>Properties\<close>

text \<open>
  (C6) A subscription to a source the peer does not have yet adds exactly one triple (source,
  socket, identifier) to the dictionary, keeps the dictionary well formed (one entry for a source, none
  empty), and is put at the head of the peer's own list. It holds whatever the identifier: when the
  identifier was in use for another source, that earlier subscription stays in the dictionary, so
  a subscription changed with \<^verbatim>\<open>IvyChangeMsg\<close> keeps matching its old expression.
\<close>

theorem subscription_added:
  assumes "c \<in> set (allClients s)" "peers_ok s" "dict_wf (messSndByRegexp s)" "addr_fresh s"
    "app_name c \<noteq> None" "\<forall>i. (r, aclient c, i) \<notin> subs s"
  shows "subs (addOrChangeRegexp px r c s) = insert (r, aclient c, app_id c) (subs s)
    \<and> dict_wf (messSndByRegexp (addOrChangeRegexp px r c s))
    \<and> (\<exists>g. reg_id g = app_id c
         \<and> c\<lparr>srcRegList := g # srcRegList c\<rparr> \<in> set (allClients (addOrChangeRegexp px r c s)))"
  using new_subscription [OF assms(1-6)] by blast

definition reg7 :: glob_reg where
  "reg7 = \<lparr>gid = 7, str_regexp = Some ''a'', reg_id = 1\<rparr>"

definition peer_A :: ivy_client where
  "peer_A = (peer_on 5 10 ''A'' [reg7])\<lparr>app_id := 1\<rparr>"

definition peer_B :: ivy_client where
  "peer_B = peer_on 6 20 ''B'' []"

text \<open>Two peers, one of which subscribes to one source.\<close>

definition two_peers :: ivy_state where
  "two_peers = (bus_on no_sockets)\<lparr>next_addr := 30, allClients := [peer_A, peer_B],
     messSndByRegexp := [\<lparr>eid = 8, regexp_src = ''a'', clientList = [peer_copy 9 peer_A], binding = None\<rparr>]\<rparr>"

lemma two_peers_wf:
  "peers_wf two_peers" "peers_ok two_peers" "dict_wf (messSndByRegexp two_peers)" "addr_fresh two_peers"
  "subs two_peers = {(''a'', 10, 1)}" "allClients two_peers = [peer_A, peer_B]"
  by (auto simp: two_peers_def peers_wf_def peers_ok_def dict_wf_def addr_fresh_def subs_def subs_of_def
      peer_A_def peer_B_def peer_on_def reg7_def peer_copy_def)

lemma peer_A_simps: "app_name peer_A \<noteq> None" "aclient peer_A = 10" "app_id peer_A = 1" "srcRegList peer_A = [reg7]"
  by (simp_all add: peer_A_def peer_on_def)

definition some_pcre :: pcre where
  "some_pcre = \<lparr>pcre_error = (\<lambda>r. None), pcre_groups = (\<lambda>r. 0), pcre_match = (\<lambda>r m. None)\<rparr>"

theorem subscription_added_witness:
  "subs (addOrChangeRegexp some_pcre ''b'' peer_A two_peers) = {(''b'', 10, 1), (''a'', 10, 1)}"
  using subscription_added [of peer_A two_peers "''b''" some_pcre] two_peers_wf peer_A_simps by simp

text \<open>
  (C5) Forgetting a peer that is gone takes it out of the list of peers and takes all its subscriptions
  out of the dictionary, and changes nothing else: not the other peers, not their subscriptions. The
  nested loops that free nodes of three lists while they traverse them end and read no freed node,
  provided that no two subscriptions of the peer have the same identifier.
\<close>

theorem peer_forgotten:
  assumes "peers_wf s" "dict_wf (messSndByRegexp s)"
  shows "\<exists>d. delOneClient sock s
      = s\<lparr>allClients := filter (\<lambda>c. aclient c \<noteq> sock) (allClients s), messSndByRegexp := d\<rparr>
    \<and> dict_wf d \<and> subs_of d = {t \<in> subs s. fst (snd t) \<noteq> sock}"
  by (rule delOneClient_effect [OF assms])

theorem peer_forgotten_witness:
  "allClients (delOneClient 10 two_peers) = [peer_B] \<and> subs (delOneClient 10 two_peers) = {}"
proof -
  obtain d where "delOneClient 10 two_peers
      = two_peers\<lparr>allClients := filter (\<lambda>c. aclient c \<noteq> 10) (allClients two_peers), messSndByRegexp := d\<rparr>"
    "subs_of d = {t \<in> subs two_peers. fst (snd t) \<noteq> 10}"
    using peer_forgotten [OF two_peers_wf(1,3), of 10] by blast
  then show ?thesis using two_peers_wf(5,6) peer_A_simps(2) by (simp add: subs_def peer_B_def peer_on_def)
qed

text \<open>
  (C34) Where that proviso fails. A peer changes the expression of its most recent subscription, to one
  that compiles or has an entry already and to which it was not subscribed, and then disconnects: the
  change goes well, and \<^verbatim>\<open>delOneClient\<close> reads freed memory. The change adds a second subscription with
  the same identifier in front of the first, and removing the one frees both while the loop has the
  second saved as its next node.
\<close>

theorem change_then_leave:
  assumes "c \<in> set (allClients s)" "peers_ok s" "dict_wf (messSndByRegexp s)" "addr_fresh s"
    "app_name c \<noteq> None" "srcRegList c = g # rest" "reg_id g = app_id c"
    "\<forall>i. (r, aclient c, i) \<notin> subs s" "find_entry r s \<noteq> None \<or> pcre_error px r = None" "fault s = None"
  shows "fault (addOrChangeRegexp px r c s) = None
    \<and> fault (delOneClient (aclient c) (addOrChangeRegexp px r c s)) = Some UseAfterFree"
proof
  show nf: "fault (addOrChangeRegexp px r c s) = None"
    using new_subscription_faultless [OF assms(1,5,8,9)] assms(10) by simp
  obtain t h where t: "addOrChangeRegexp px r c s = t" "peers_ok t" "dict_wf (messSndByRegexp t)"
    "reg_id h = app_id c" "c\<lparr>srcRegList := h # srcRegList c\<rparr> \<in> set (allClients t)"
    using new_subscription [OF assms(1-5,8)] by blast
  have "fault (delOneClient (aclient (c\<lparr>srcRegList := h # srcRegList c\<rparr>)) t) = Some UseAfterFree"
    by (rule dup_ids_fault [OF t(2,3,5), of h g rest]) (use assms(6,7) t(4) nf t(1) in simp_all)
  then show "fault (delOneClient (aclient c) (addOrChangeRegexp px r c s)) = Some UseAfterFree" using t(1) by simp
qed

theorem change_then_leave_witness:
  "fault two_peers = None
   \<and> fault (delOneClient 10 (addOrChangeRegexp some_pcre ''b'' peer_A two_peers)) = Some UseAfterFree"
proof -
  have f: "fault two_peers = None" by (simp add: two_peers_def no_sockets_def)
  have "fault (delOneClient (aclient peer_A) (addOrChangeRegexp some_pcre ''b'' peer_A two_peers)) = Some UseAfterFree"
    by (rule change_then_leave [where g = reg7 and rest = "[]", THEN conjunct2])
      (simp_all only: two_peers_wf peer_A_simps f, simp_all add: reg7_def some_pcre_def)
  then show ?thesis using f by (simp add: peer_A_simps)
qed

end
