(* ===== verification/Ivy_Send.thy ===== *)
theory Ivy_Send
  imports Ivy_Dict
begin

text \<open>
  Sending a message to its subscribers, from \<^verbatim>\<open>src/ivy.c\<close>: \<^verbatim>\<open>RegexpCall\<close>, \<^verbatim>\<open>RegexpCallUnique\<close>,
  \<^verbatim>\<open>ClientCall\<close> and \<^verbatim>\<open>IvySendMsg\<close>. The hash table is walked in the order of the list. The list of
  the peers of an entry cannot change during the loop over it, since nothing in the loop reaches
  the dictionary, so the loop is a fold.
\<close>

text \<open>The binding keeps the data of its last match.\<close>

definition put_binding :: "addr \<Rightarrow> ivy_binding option \<Rightarrow> 'a ivy_state_scheme \<Rightarrow> 'a ivy_state_scheme" where
  "put_binding e b s =
     s\<lparr>messSndByRegexp := map (\<lambda>x. if eid x = e then x\<lparr>binding := b\<rparr> else x) (messSndByRegexp s)\<rparr>"

definition match_texts :: "ivy_binding option \<Rightarrow> string \<Rightarrow> nat \<Rightarrow> string list" where
  "match_texts b message rc =
     map (\<lambda>i. (case b of None \<Rightarrow> [] | Some x \<Rightarrow> IvyBindingMatch x message (int i)) @ [ARG_END]) [1..<rc] @ [[NL]]"

fun print_all :: "IvyBuffer \<Rightarrow> string list \<Rightarrow> IvyBuffer option" where
  "print_all b [] = Some b"
| "print_all b (t # ts) =
     (case make_message_var False (\<lambda>_. True) b t of
        None \<Rightarrow> None
      | Some (_, b') \<Rightarrow> print_all b' ts)"

text \<open>One peer: the identifier and the arguments, and the count.\<close>

definition send_match :: "IvyBuffer \<Rightarrow> ivy_client \<Rightarrow> nat \<times> 'a ivy_state_scheme \<Rightarrow> nat \<times> 'a ivy_state_scheme" where
  "send_match buf clnt ns =
     (case ns of (n, s) \<Rightarrow>
        (let (state, s1) = SocketSendRawWithId (aclient clnt) (wire_head (msg_num Msg) (app_id clnt))
                             (buffer_bytes buf (boffset buf)) s
         in (n + 1, notify_send state (aid clnt) s1)))"

definition RegexpCall :: "pcre \<Rightarrow> addr \<Rightarrow> string \<Rightarrow> 'a ivy_state_scheme \<Rightarrow> nat \<times> 'a ivy_state_scheme" where
  "RegexpCall px e message s =
     (case find (\<lambda>x. eid x = e) (messSndByRegexp s) of
        None \<Rightarrow> (0, crash UseAfterFree s)
      | Some en \<Rightarrow>
          (let (rc, b) = IvyBindingExec px (binding en) message;
               s1 = put_binding e b s
           in if rc < 1 then (0, s1)
              else (case print_all ((arg_buf s1)\<lparr>boffset := 0\<rparr>) (match_texts b message rc) of
                 None \<Rightarrow> (0, crash Hang s1)
               | Some buf \<Rightarrow> fold (send_match buf) (clientList en) (0, s1\<lparr>arg_buf := buf\<rparr>))))"

text \<open>The same for one peer only; a full ring buffer is not reported here.\<close>

definition send_match_unique ::
  "IvyBuffer \<Rightarrow> addr \<Rightarrow> ivy_client \<Rightarrow> nat \<times> 'a ivy_state_scheme \<Rightarrow> nat \<times> 'a ivy_state_scheme" where
  "send_match_unique buf clientUnique clnt ns =
     (case ns of (n, s) \<Rightarrow>
        if clientUnique \<noteq> aclient clnt then (n, s)
        else (let (state, s1) = SocketSendRawWithId (aclient clnt) (wire_head (msg_num Msg) (app_id clnt))
                                  (buffer_bytes buf (boffset buf)) s
              in (n + 1, if state = SendStateChangeToCongestion then notify_send state (aid clnt) s1 else s1)))"

definition RegexpCallUnique ::
  "pcre \<Rightarrow> addr \<Rightarrow> string \<Rightarrow> addr \<Rightarrow> 'a ivy_state_scheme \<Rightarrow> nat \<times> 'a ivy_state_scheme" where
  "RegexpCallUnique px e message clientUnique s =
     (case find (\<lambda>x. eid x = e) (messSndByRegexp s) of
        None \<Rightarrow> (0, crash UseAfterFree s)
      | Some en \<Rightarrow>
          (let (rc, b) = IvyBindingExec px (binding en) message;
               s1 = put_binding e b s
           in if rc < 1 then (0, s1)
              else (case print_all ((arg_buf_unique s1)\<lparr>boffset := 0\<rparr>) (match_texts b message rc) of
                 None \<Rightarrow> (0, crash Hang s1)
               | Some buf \<Rightarrow>
                   fold (send_match_unique buf clientUnique) (clientList en) (0, s1\<lparr>arg_buf_unique := buf\<rparr>))))"

text \<open>Add up the matches of all entries; the warnings printed at the end are left out.\<close>

definition count_calls :: "(addr \<Rightarrow> 's \<Rightarrow> nat \<times> 's) \<Rightarrow> addr list \<Rightarrow> 's \<Rightarrow> nat \<times> 's" where
  "count_calls call es s = fold (\<lambda>e (n, t). case call e t of (k, t') \<Rightarrow> (n + k, t')) es (0, s)"

definition ClientCall :: "pcre \<Rightarrow> ivy_client \<Rightarrow> string \<Rightarrow> 'a ivy_state_scheme \<Rightarrow> nat \<times> 'a ivy_state_scheme" where
  "ClientCall px clnt message s =
     count_calls (\<lambda>e. RegexpCallUnique px e message (aclient clnt)) (dict_nodes s) s"

text \<open>
  \<open>fmt\<close> is the format (\<open>None\<close> for a null pointer) and \<open>out\<close> what it produces with the arguments.
\<close>

definition IvySendMsg :: "pcre \<Rightarrow> string option \<Rightarrow> string \<Rightarrow> 'a ivy_state_scheme \<Rightarrow> nat \<times> 'a ivy_state_scheme" where
  "IvySendMsg px fmt out s =
     (if fmt = None \<or> fmt = Some [] then (0, s)
      else case make_message False (\<lambda>_. True) ((msg_buf s)\<lparr>boffset := 0\<rparr>) out of
        None \<Rightarrow> (0, crash Hang s)
      | Some (_, b) \<Rightarrow>
          (let s1 = s\<lparr>msg_buf := b\<rparr>; message = cstr (case bdata b of None \<Rightarrow> [] | Some block \<Rightarrow> block)
           in if debug_binary_msg s1 \<and> IvyCheckBuffer message then (0, s1)
              else count_calls (\<lambda>e. RegexpCall px e message) (dict_nodes s1) s1))"

subsection \<open>A socket that keeps up\<close>

text \<open>
  The kernel reports no fatal error on the socket, and the ring buffer, if there is one, has room
  for \<open>n\<close> more bytes within the limit on its size.
\<close>

definition no_fatal :: "send_script \<Rightarrow> bool" where
  "no_fatal rs \<longleftrightarrow> (\<forall>e. SendFail e \<in> set rs \<longrightarrow> e = EWOULDBLOCK)"

definition keeps :: "client \<Rightarrow> nat \<Rightarrow> bool" where
  "keeps x n \<longleftrightarrow> no_fatal (send_answers x) \<and> (\<forall>f. ifb x = Some f \<longrightarrow> \<not> full f)
     \<and> length (pending x) + n < MSG_MAX"

lemma keeps_mono: "keeps x n \<Longrightarrow> m \<le> n \<Longrightarrow> keeps x m"
  by (simp add: keeps_def)

lemma os_send_no_fatal:
  "os_send rs n = (a, rest) \<Longrightarrow> no_fatal rs \<Longrightarrow> no_fatal rest \<and> (\<forall>e. a = SendFail e \<longrightarrow> e = EWOULDBLOCK)"
  by (cases "(rs, n)" rule: os_send.cases) (auto simp: no_fatal_def)

lemma fifo_accepts_small:
  assumes "\<not> full f" "length (fifo_content f) + n < MSG_MAX"
  shows "fifo_accepts f n"
proof -
  let ?m = "n + length (fifo_content f)"
  have m: "?m < 33554432" using assms(2) by (simp add: MSG_MAX_def)
  then have "?m div 262144 < 128" by (intro less_mult_imp_div_less) simp
  then have "(?m div 262144 + 1) * 262144 \<le> 128 * 262144" by (intro mult_le_mono1) simp
  moreover have "aligned_size ?m = (?m div 262144 + 1) * 262144" by (rule aligned_size_eq) (use m in simp)
  ultimately have "aligned_size ?m \<le> IVY_FIFO_MAX_ALLOC_SIZE" by (simp add: IVY_FIFO_MAX_ALLOC_SIZE_def)
  then show ?thesis using assms(1) by (simp add: fifo_accepts_def)
qed

lemma send_raw_keeps:
  assumes x: "find_client c s = Some x" "client_ok x" and k: "keeps x n" and b: "length b \<le> n"
    and r: "BufferizedSocketSendRaw c b s = (st, s')"
  shows "\<not> dropped st \<and> (\<exists>y. find_client c s' = Some y \<and> keeps y (n - length b))"
proof (cases "ifb x")
  case (Some f)
  have wf: "fifo_wf f" using x(2) Some by (simp add: client_ok_def)
  have p: "\<not> full f" "length (fifo_content f) + n < MSG_MAX" using k Some by (simp_all add: keeps_def pending_def)
  have "fifo_accepts f (length b)" using p b by (intro fifo_accepts_small) simp_all
  moreover have "length b < 2147483648" using p b by (simp add: MSG_MAX_def)
  ultimately obtain f' where f': "IvyFifoWrite f b = Some f'" "\<not> full f'" "fifo_content f' = fifo_content f @ b"
    using IvyFifoWrite_eq [OF wf, of b] by auto
  have "s' = upd_client c (\<lambda>y. y\<lparr>ifb := Some f'\<rparr>) s" "st = SendStillCongestion"
    using r x(1) Some f'(1,2) by (auto simp: BufferizedSocketSendRaw_def fifo_put_def IvyFifoIsFull_def Let_def)
  then show ?thesis using x(1) f' k p b by (auto simp: dropped_def keeps_def pending_def)
next
  case None
  obtain a rest where o: "os_send (send_answers x) (length b) = (a, rest)" by force
  have nf: "no_fatal rest" "\<And>e. a = SendFail e \<Longrightarrow> e = EWOULDBLOCK"
    using os_send_no_fatal [OF o] k by (simp_all add: keeps_def)
  have n: "n < MSG_MAX" using k by (simp add: keeps_def)
  have new: "\<exists>f. fifo_put c IvyFifoNew d t = upd_client c (\<lambda>y. y\<lparr>ifb := Some f\<rparr>) t \<and> fifo_content f = d \<and> \<not> full f"
    if "find_client c t = Some z" "length d \<le> length b" for t z and d :: bytes
  proof -
    have "length d < MSG_MAX" using that(2) b n by simp
    from fifo_put_new [OF that(1) this] show ?thesis by blast
  qed
  show ?thesis
  proof (cases a)
    case (Accept j)
    have j: "j \<le> length b" using o Accept by (auto dest: os_send_le)
    let ?g = "\<lambda>y. y\<lparr>send_answers := rest, wire := wire y @ take j b\<rparr>"
    have x1: "find_client c (upd_client c ?g s) = Some (?g x)" using x(1) by simp
    from new [OF x1, of "drop j b"] obtain f where
      f: "fifo_put c IvyFifoNew (drop j b) (upd_client c ?g s)
            = upd_client c (\<lambda>y. y\<lparr>ifb := Some f\<rparr>) (upd_client c ?g s)"
        "fifo_content f = drop j b" "\<not> full f" by auto
    show ?thesis
      using r x None o Accept f nf(1) n b j
      by (auto simp: BufferizedSocketSendRaw_def Let_def dropped_def keeps_def pending_def split: if_splits)
  next
    case (SendFail e)
    let ?g = "\<lambda>y. y\<lparr>send_answers := rest\<rparr>"
    have x1: "find_client c (upd_client c ?g s) = Some (?g x)" using x(1) by simp
    from new [OF x1, of b] obtain f where
      f: "fifo_put c IvyFifoNew b (upd_client c ?g s)
            = upd_client c (\<lambda>y. y\<lparr>ifb := Some f\<rparr>) (upd_client c ?g s)"
        "fifo_content f = b" "\<not> full f" by auto
    show ?thesis
      using r x None o SendFail f nf n b
      by (auto simp: BufferizedSocketSendRaw_def Let_def dropped_def keeps_def pending_def)
  qed
qed

text \<open>A line sent in two calls, when there is room for it.\<close>

lemma send_with_id_keeps:
  assumes inv: "sock_inv s" and x: "find_client c s = Some x" and k: "keeps x n"
    and l: "length i + length b \<le> n" and r: "SocketSendRawWithId c i b s = (st, s')"
  shows "sock_inv s' \<and> fault s' = fault s
    \<and> (\<exists>y. find_client c s' = Some y \<and> stream y = stream x @ i @ b \<and> keeps y (n - (length i + length b)))
    \<and> (\<forall>d. d \<noteq> c \<longrightarrow> find_client d s' = find_client d s)"
proof -
  have n: "n < MSG_MAX" using k by (simp add: keeps_def)
  obtain st1 s1 where r1: "BufferizedSocketSendRaw c i s = (st1, s1)" by force
  obtain st2 s2 where r2: "BufferizedSocketSendRaw c b s1 = (st2, s2)" by force
  have e: "s' = s2" using r r1 r2 by (simp add: SocketSendRawWithId_def)
  have ok: "client_ok x" using sock_inv_find [OF inv x] by (simp add: client_inv_def)
  have li: "length i \<le> n" "length i < MSG_MAX" "length b < MSG_MAX" using l n by simp_all
  note k1 = send_raw_keeps [OF x ok k li(1) r1]
  from send_raw_inv [OF inv x li(2) r1] k1 obtain y where
    y: "sock_inv s1" "fault s1 = fault s" "find_client c s1 = Some y" "stream y = stream x @ i"
      "keeps y (n - length i)" "\<forall>d. d \<noteq> c \<longrightarrow> find_client d s1 = find_client d s" by auto
  have ok1: "client_ok y" using sock_inv_find [OF y(1,3)] by (simp add: client_inv_def)
  have lb: "length b \<le> n - length i" using l by simp
  note k2 = send_raw_keeps [OF y(3) ok1 y(5) lb r2]
  from send_raw_inv [OF y(1,3) li(3) r2] k2 obtain z where
    z: "sock_inv s2" "fault s2 = fault s1" "find_client c s2 = Some z" "stream z = stream y @ b"
      "keeps z (n - length i - length b)" "\<forall>d. d \<noteq> c \<longrightarrow> find_client d s2 = find_client d s1" by auto
  show ?thesis using e y z by simp
qed

subsection \<open>What sending leaves alone\<close>

lemma more_send_with_id:
  fixes s :: "'a sock_state_scheme"
  shows "sock_state.more (snd (SocketSendRawWithId c i b s)) = sock_state.more s"
  by (simp add: SocketSendRawWithId_def Let_def split_def more_send_raw)

text \<open>Logging changes nothing but the log.\<close>

lemma sock_inv_log [simp]: "sock_inv (log_event e s) = sock_inv s"
  by (simp add: log_event_def sock_inv_def loop_wf_def channel_nodes_def client_inv_def find_channel_def)

lemma notify_send_cases: "notify_send st a s = s \<or> (\<exists>e. notify_send st a s = log_event e s)"
  by (cases st) (auto simp: notify_send_def)

lemma notify_send_same [simp]:
  "sock_inv (notify_send st a s) = sock_inv s" "fault (notify_send st a s) = fault s"
  "find_client c (notify_send st a s) = find_client c s"
  "messSndByRegexp (notify_send st a s) = messSndByRegexp s" "arg_buf (notify_send st a s) = arg_buf s"
proof -
  consider "notify_send st a s = s" | e where "notify_send st a s = log_event e s"
    using notify_send_cases by blast
  then have "sock_inv (notify_send st a s) = sock_inv s \<and> fault (notify_send st a s) = fault s
    \<and> find_client c (notify_send st a s) = find_client c s
    \<and> messSndByRegexp (notify_send st a s) = messSndByRegexp s \<and> arg_buf (notify_send st a s) = arg_buf s"
  proof cases
    case 2
    then show ?thesis by (simp, simp add: log_event_def)
  qed simp
  then show "sock_inv (notify_send st a s) = sock_inv s" "fault (notify_send st a s) = fault s"
    "find_client c (notify_send st a s) = find_client c s"
    "messSndByRegexp (notify_send st a s) = messSndByRegexp s" "arg_buf (notify_send st a s) = arg_buf s"
    by blast+
qed

lemma bus_more_fields:
  "sock_state.more s = sock_state.more t \<Longrightarrow>
     messSndByRegexp s = messSndByRegexp t \<and> arg_buf s = arg_buf t \<and> allClients s = allClients t"
  by (cases s; cases t) simp

lemma put_binding_same [simp]:
  "sock_inv (put_binding e b s) = sock_inv s" "fault (put_binding e b s) = fault s"
  "find_client c (put_binding e b s) = find_client c s" "arg_buf (put_binding e b s) = arg_buf s"
  "sock_inv (s\<lparr>arg_buf := buf\<rparr>) = sock_inv s" "find_client c (s\<lparr>arg_buf := buf\<rparr>) = find_client c s"
  by (simp_all add: put_binding_def sock_inv_def loop_wf_def channel_nodes_def client_inv_def
      find_channel_def find_client_def)

subsection \<open>The lines a message becomes\<close>

text \<open>The captured arguments when the entry matches, and the line for each of its peers.\<close>

definition capture :: "ovector \<Rightarrow> string \<Rightarrow> nat \<Rightarrow> string" where
  "capture ov message i = (case ov ! i of None \<Rightarrow> [] | Some (a, b) \<Rightarrow> take (b - a) (drop a message))"

definition captures :: "pcre \<Rightarrow> string \<Rightarrow> dict_entry \<Rightarrow> string list option" where
  "captures px message en =
     (case binding en of
        None \<Rightarrow> None
      | Some b \<Rightarrow> map_option (\<lambda>ov. map (capture ov message) [1..<length ov]) (pcre_match px (b_regexp b) message))"

definition msg_line :: "string list \<Rightarrow> ivy_client \<Rightarrow> addr \<times> string" where
  "msg_line args c = (aclient c, wire_head (msg_num Msg) (app_id c) @ wire_args args @ [NL])"

definition entry_lines :: "pcre \<Rightarrow> string \<Rightarrow> dict_entry \<Rightarrow> (addr \<times> string) list" where
  "entry_lines px message en =
     (case captures px message en of None \<Rightarrow> [] | Some args \<Rightarrow> map (msg_line args) (clientList en))"

definition sent_to :: "addr \<Rightarrow> (addr \<times> string) list \<Rightarrow> string" where
  "sent_to k ds = concat (map snd (filter (\<lambda>d. fst d = k) ds))"

definition total :: "(addr \<times> string) list \<Rightarrow> nat" where
  "total ds = length (concat (map snd ds))"

lemma sent_to_simps [simp]:
  "sent_to k [] = []" "sent_to k (d # ds) = (if fst d = k then snd d else []) @ sent_to k ds"
  "sent_to k (ds @ ds') = sent_to k ds @ sent_to k ds'"
  by (simp_all add: sent_to_def)

lemma total_simps [simp]:
  "total [] = 0" "total (d # ds) = length (snd d) + total ds" "total (ds @ ds') = total ds + total ds'"
  by (simp_all add: total_def)

text \<open>All sockets have room for \<open>n\<close> bytes; the effect of sending the lines \<open>ds\<close>.\<close>

definition ready :: "nat \<Rightarrow> 'a ivy_state_scheme \<Rightarrow> bool" where
  "ready n s \<longleftrightarrow> sock_inv s \<and> (\<forall>k x. find_client k s = Some x \<longrightarrow> keeps x n)"

definition streams_after :: "(addr \<times> string) list \<Rightarrow> 'a ivy_state_scheme \<Rightarrow> 'a ivy_state_scheme \<Rightarrow> bool" where
  "streams_after ds s t \<longleftrightarrow> fault t = fault s
     \<and> (\<forall>k. (find_client k t = None) = (find_client k s = None))
     \<and> (\<forall>k x. find_client k s = Some x \<longrightarrow> (\<exists>y. find_client k t = Some y \<and> stream y = stream x @ sent_to k ds))"

lemma streams_after_trans:
  assumes "streams_after ds s t" "streams_after ds' t u"
  shows "streams_after (ds @ ds') s u"
  unfolding streams_after_def
proof (intro conjI allI impI)
  show "fault u = fault s" "(find_client k u = None) = (find_client k s = None)" for k
    using assms by (simp_all add: streams_after_def)
  fix k x assume "find_client k s = Some x"
  then obtain y where y: "find_client k t = Some y" "stream y = stream x @ sent_to k ds"
    using assms(1) unfolding streams_after_def by blast
  then obtain z where "find_client k u = Some z" "stream z = stream y @ sent_to k ds'"
    using assms(2) unfolding streams_after_def by blast
  then show "\<exists>y. find_client k u = Some y \<and> stream y = stream x @ sent_to k (ds @ ds')" using y by simp
qed

lemma streams_after_refl: "streams_after [] s s"
  by (simp add: streams_after_def)

text \<open>One peer of an entry.\<close>

lemma send_match_step:
  assumes rd: "ready n s" and x: "find_client (aclient c) s \<noteq> None"
    and bt: "buffer_text buf = wire_args args @ [NL]" and l: "length (snd (msg_line args c)) \<le> n"
    and r: "send_match buf c (m, s) = (m', t)"
  shows "m' = m + 1 \<and> ready (n - length (snd (msg_line args c))) t \<and> streams_after [msg_line args c] s t
    \<and> messSndByRegexp t = messSndByRegexp s \<and> arg_buf t = arg_buf s"
proof -
  let ?i = "wire_head (msg_num Msg) (app_id c)" and ?b = "wire_args args @ [NL]"
  obtain x where x: "find_client (aclient c) s = Some x" using x by auto
  have bb: "buffer_bytes buf (boffset buf) = ?b"
    using bt by (simp add: buffer_bytes_def buffer_text_def)
  obtain st s1 where w: "SocketSendRawWithId (aclient c) ?i ?b s = (st, s1)" by force
  have t: "m' = m + 1" "t = notify_send st (aid c) s1" using r w bb by (simp_all add: send_match_def)
  have inv: "sock_inv s" and k: "keeps x n" using rd x by (auto simp: ready_def)
  have l': "length ?i + length ?b \<le> n" using l by (simp add: msg_line_def)
  from send_with_id_keeps [OF inv x k l' w] obtain y where
    y: "sock_inv s1" "fault s1 = fault s" "find_client (aclient c) s1 = Some y" "stream y = stream x @ ?i @ ?b"
      "keeps y (n - (length ?i + length ?b))" "\<forall>d. d \<noteq> aclient c \<longrightarrow> find_client d s1 = find_client d s" by blast
  have ln: "length (snd (msg_line args c)) = length ?i + length ?b" by (simp add: msg_line_def)
  have more: "messSndByRegexp s1 = messSndByRegexp s" "arg_buf s1 = arg_buf s"
    using more_send_with_id [of "aclient c" ?i ?b s] w by (auto dest: bus_more_fields)
  have "keeps z (n - (length ?i + length ?b))" if z: "find_client k s1 = Some z" for k z
  proof (cases "k = aclient c")
    case True
    then show ?thesis using z y(3,5) by simp
  next
    case False
    then have "keeps z n" using z y(6) rd by (simp add: ready_def)
    then show ?thesis by (rule keeps_mono) simp
  qed
  then have "ready (n - length (snd (msg_line args c))) t"
    unfolding ready_def t(2) ln using y(1) by simp
  moreover have "streams_after [msg_line args c] s t"
  proof -
    have "(find_client k s1 = None) = (find_client k s = None)" for k
      using y(3,6) x by (cases "k = aclient c") simp_all
    moreover have "\<exists>z. find_client k s1 = Some z \<and> stream z = stream w @ sent_to k [msg_line args c]"
      if w: "find_client k s = Some w" for k w
      using y(3,4,6) x w by (cases "k = aclient c") (simp_all add: msg_line_def)
    ultimately show ?thesis unfolding streams_after_def t(2) using y(2) by simp
  qed
  ultimately show ?thesis using t more by simp
qed

lemma send_match_fold:
  assumes bt: "buffer_text buf = wire_args args @ [NL]"
  shows "ready n s \<Longrightarrow> \<forall>c \<in> set cs. find_client (aclient c) s \<noteq> None \<Longrightarrow> total (map (msg_line args) cs) \<le> n \<Longrightarrow>
    fold (send_match buf) cs (m, s) = (m', t) \<Longrightarrow>
    m' = m + length cs \<and> ready (n - total (map (msg_line args) cs)) t \<and> streams_after (map (msg_line args) cs) s t
      \<and> messSndByRegexp t = messSndByRegexp s \<and> arg_buf t = arg_buf s"
proof (induction cs arbitrary: n m s)
  case Nil
  then show ?case by (simp add: streams_after_refl)
next
  case (Cons c cs)
  obtain m1 s1 where r1: "send_match buf c (m, s) = (m1, s1)" by force
  have l: "length (snd (msg_line args c)) \<le> n" and x: "find_client (aclient c) s \<noteq> None" using Cons.prems(2,3) by simp_all
  note h = send_match_step [OF Cons.prems(1) x bt l r1]
  have sa: "streams_after [msg_line args c] s s1" using h by simp
  have "\<forall>c \<in> set cs. find_client (aclient c) s1 \<noteq> None"
    using sa Cons.prems(2) unfolding streams_after_def by (metis list.set_intros(2))
  moreover have "total (map (msg_line args) cs) \<le> n - length (snd (msg_line args c))" using Cons.prems(3) by simp
  moreover have "fold (send_match buf) cs (m1, s1) = (m', t)" using Cons.prems(4) r1 by simp
  ultimately have ih: "m' = m1 + length cs"
    "ready (n - length (snd (msg_line args c)) - total (map (msg_line args) cs)) t"
    "streams_after (map (msg_line args) cs) s1 t" "messSndByRegexp t = messSndByRegexp s1" "arg_buf t = arg_buf s1"
    using Cons.IH [of "n - length (snd (msg_line args c))" s1 m1] h by blast+
  show ?case using ih h streams_after_trans [OF sa ih(3)] by simp
qed

text \<open>The buffer after the arguments have been printed.\<close>

lemma print_all_text:
  "buffer_wf b \<Longrightarrow> \<exists>b'. print_all b ts = Some b' \<and> buffer_wf b' \<and> buffer_text b' = buffer_text b @ concat ts"
proof (induction ts arbitrary: b)
  case (Cons t ts)
  have "bsize b = 0 \<Longrightarrow> buffer_text b = []"
    using Cons.prems by (auto simp: buffer_wf_def buffer_text_def split: option.splits)
  moreover obtain b1 where "make_message False (\<lambda>_. True) b t = Some (int (length t), b1)" "buffer_wf b1"
    "buffer_text b1 = (if bsize b = 0 then [] else buffer_text b) @ t"
    using make_message_c99 [OF Cons.prems, of "\<lambda>_. True" t] by blast
  ultimately have b1: "make_message_var False (\<lambda>_. True) b t = Some (int (length t), b1)" "buffer_wf b1"
    "buffer_text b1 = buffer_text b @ t"
    by (simp_all add: make_message_var_def split: if_splits)
  from Cons.IH [OF b1(2)] b1(1,3) show ?case by auto
qed simp

lemma buffer_reset: "buffer_wf b \<Longrightarrow> buffer_wf (b\<lparr>boffset := 0\<rparr>) \<and> buffer_text (b\<lparr>boffset := 0\<rparr>) = []"
  by (auto simp: buffer_wf_def buffer_text_def split: option.splits)

lemma match_texts_args:
  assumes "b = Some (x\<lparr>nb_match := length ov, match_data := ov @ rest\<rparr>)" "0 < length ov" "int (length message) \<le> Ivy_Bind.INT_MAX"
    "\<forall>a b. Some (a, b) \<in> set ov \<longrightarrow> a \<le> length message \<and> b \<le> length message"
  shows "concat (match_texts b message (length ov)) = wire_args (map (capture ov message) [1..<length ov]) @ [NL]"
proof -
  have "IvyBindingMatch (the b) message (int i) = capture ov message i" if i: "i < length ov" for i
  proof (cases "ov ! i")
    case (Some p)
    obtain u v where p: "p = (u, v)" by force
    then have "Some (u, v) \<in> set ov" using i Some by (metis nth_mem)
    then have "int (v - u) \<le> Ivy_Bind.INT_MAX" using assms(3,4) by fastforce
    then show ?thesis using assms(1,2) i Some p by (simp add: IvyBindingMatch_def capture_def nth_append)
  qed (use assms(1,2) i in \<open>simp add: IvyBindingMatch_def capture_def nth_append\<close>)
  then have "map (\<lambda>i. (case b of None \<Rightarrow> [] | Some x \<Rightarrow> IvyBindingMatch x message (int i)) @ [ARG_END]) [1..<length ov]
      = map (\<lambda>a. a @ [ARG_END]) (map (capture ov message) [1..<length ov])"
    using assms(1) by simp
  then show ?thesis unfolding match_texts_def wire_args_def by (simp only: concat_append map_map, simp)
qed

text \<open>Entries up to the data of the last match.\<close>

definition entry_view :: "dict_entry \<Rightarrow> addr \<times> string \<times> ivy_client list \<times> string option" where
  "entry_view en = (eid en, regexp_src en, clientList en, map_option b_regexp (binding en))"

definition dict_view :: "'a ivy_state_scheme \<Rightarrow> (addr \<times> string \<times> ivy_client list \<times> string option) list" where
  "dict_view s = map entry_view (messSndByRegexp s)"

lemma entry_lines_view: "entry_view en = entry_view en' \<Longrightarrow> entry_lines px m en = entry_lines px m en'"
  by (cases "binding en"; cases "binding en'") (auto simp: entry_view_def entry_lines_def captures_def split: option.splits)

lemma dict_view_put_binding:
  assumes "distinct (map eid (messSndByRegexp s))" "en \<in> set (messSndByRegexp s)"
    "map_option b_regexp b = map_option b_regexp (binding en)"
  shows "dict_view (put_binding (eid en) b s) = dict_view s"
proof -
  have "x = en" if "x \<in> set (messSndByRegexp s)" "eid x = eid en" for x
    using assms(1,2) that by (metis distinct_map inj_onD)
  then show ?thesis using assms(3) unfolding dict_view_def put_binding_def
    by (auto simp: entry_view_def intro!: map_cong)
qed

lemma dict_view_eids: "dict_view s = dict_view t \<Longrightarrow> map eid (messSndByRegexp s) = map eid (messSndByRegexp t)"
proof -
  assume "dict_view s = dict_view t"
  then have "map fst (dict_view s) = map fst (dict_view t)" by simp
  then show ?thesis by (simp add: dict_view_def entry_view_def comp_def)
qed

lemma dict_view_mess: "messSndByRegexp s = messSndByRegexp t \<Longrightarrow> dict_view s = dict_view t"
  by (simp add: dict_view_def)

text \<open>One entry.\<close>

lemma RegexpCall_spec:
  assumes rd: "ready n s" and buf: "buffer_wf (arg_buf s)" and px: "pcre_sound px"
    and en: "en \<in> set (messSndByRegexp s)" "distinct (map eid (messSndByRegexp s))"
    and peers: "\<forall>c \<in> set (clientList en). find_client (aclient c) s \<noteq> None"
    and len: "int (length message) \<le> Ivy_Bind.INT_MAX" "total (entry_lines px message en) \<le> n"
  shows "\<exists>t. RegexpCall px (eid en) message s = (length (entry_lines px message en), t)
    \<and> ready (n - total (entry_lines px message en)) t \<and> buffer_wf (arg_buf t)
    \<and> streams_after (entry_lines px message en) s t \<and> dict_view t = dict_view s"
proof -
  have f: "find (\<lambda>x. eid x = eid en) (messSndByRegexp s) = Some en" by (rule find_unique [OF en(2,1)])
  obtain rc b where ex: "IvyBindingExec px (binding en) message = (rc, b)" by force
  define s1 where "s1 = put_binding (eid en) b s"
  have bv: "map_option b_regexp b = map_option b_regexp (binding en)"
    using ex by (auto simp: IvyBindingExec_def split: option.splits if_splits)
  note dv = dict_view_put_binding [OF en(2,1) bv, folded s1_def]
  have rd1: "ready n s1" "streams_after [] s s1" "arg_buf s1 = arg_buf s"
    using rd by (simp_all add: s1_def ready_def streams_after_def)
  show ?thesis
  proof (cases "captures px message en")
    case None
    then have "rc < 1" using ex px
      by (auto simp: captures_def IvyBindingExec_def pcre_sound_def split: option.splits if_splits)
    then have "RegexpCall px (eid en) message s = (0, s1)" using f ex by (simp add: RegexpCall_def s1_def)
    then show ?thesis using None rd1 buf dv by (simp add: entry_lines_def)
  next
    case (Some args)
    then obtain x ov where x: "binding en = Some x" "pcre_match px (b_regexp x) message = Some ov"
      "args = map (capture ov message) [1..<length ov]" by (auto simp: captures_def split: option.splits)
    have ov: "0 < length ov" "\<forall>a b. Some (a, b) \<in> set ov \<longrightarrow> a \<le> length message \<and> b \<le> length message"
      using px x(2) unfolding pcre_sound_def by blast+
    then have b: "rc = length ov" "b = Some (x\<lparr>nb_match := length ov,
        match_data := ov @ replicate (pcre_groups px (b_regexp x) + 1 - length ov) None\<rparr>)"
      using ex x by (auto simp: IvyBindingExec_def)
    obtain buf' where buf': "print_all ((arg_buf s1)\<lparr>boffset := 0\<rparr>) (match_texts b message rc) = Some buf'"
      "buffer_wf buf'" "buffer_text buf' = concat (match_texts b message rc)"
      using print_all_text buffer_reset [OF buf] rd1(3) by fastforce
    have bt: "buffer_text buf' = wire_args args @ [NL]"
      using match_texts_args [OF b(2) ov(1) len(1) ov(2)] buf'(3) b(1) x(3) by simp
    let ?s2 = "s1\<lparr>arg_buf := buf'\<rparr>"
    obtain m t where r: "fold (send_match buf') (clientList en) (0, ?s2) = (m, t)" by force
    have e: "RegexpCall px (eid en) message s = (m, t)"
      using f ex buf'(1) b(1) ov(1) r by (simp add: RegexpCall_def Let_def s1_def)
    have rd2: "ready n ?s2" "streams_after [] s1 ?s2" "dict_view ?s2 = dict_view s1"
      using rd1(1) by (simp_all add: ready_def streams_after_def dict_view_def)
    have peers2: "\<forall>c \<in> set (clientList en). find_client (aclient c) ?s2 \<noteq> None"
      using peers by (simp add: s1_def)
    have el: "entry_lines px message en = map (msg_line args) (clientList en)" using Some by (simp add: entry_lines_def)
    have l2: "total (map (msg_line args) (clientList en)) \<le> n" using len(2) el by simp
    note h = send_match_fold [OF bt rd2(1) peers2 l2 r]
    have "streams_after ([] @ [] @ entry_lines px message en) s t"
      unfolding el using h by (intro streams_after_trans [OF rd1(2)] streams_after_trans [OF rd2(2)]) simp
    moreover have "dict_view t = dict_view s" using h dv rd2(3) dict_view_mess [of t ?s2] by simp
    ultimately show ?thesis unfolding e el using h buf'(2) by simp
  qed
qed

text \<open>All entries in turn.\<close>

definition message_lines :: "pcre \<Rightarrow> string \<Rightarrow> dict_entry list \<Rightarrow> (addr \<times> string) list" where
  "message_lines px message d = concat (map (entry_lines px message) d)"

definition peers_alive :: "'a ivy_state_scheme \<Rightarrow> bool" where
  "peers_alive s \<longleftrightarrow> (\<forall>en \<in> set (messSndByRegexp s). \<forall>c \<in> set (clientList en). find_client (aclient c) s \<noteq> None)"

lemma peers_alive_view:
  fixes s t :: "'a ivy_state_scheme"
  assumes "dict_view t = dict_view s" "\<forall>k. (find_client k t = None) = (find_client k s = None)" "peers_alive s"
  shows "peers_alive t"
proof -
  have v: "peers_alive u \<longleftrightarrow> (\<forall>v \<in> set (dict_view u). \<forall>c \<in> set (fst (snd (snd v))). find_client (aclient c) u \<noteq> None)"
    for u :: "'a ivy_state_scheme"
    by (simp add: peers_alive_def dict_view_def entry_view_def)
  show ?thesis using assms(3) unfolding v assms(1) by (simp only: assms(2) not_False_eq_True)
qed

lemma entry_lines_map:
  assumes "length d = length d'" "map entry_view d = map entry_view d'"
  shows "map (entry_lines px m) d = map (entry_lines px m) d'"
  using assms
proof (induction d d' rule: list_induct2)
  case (Cons x xs y ys)
  then have "entry_view x = entry_view y" by simp
  from entry_lines_view [OF this, of px m] show ?case using Cons by simp
qed simp

lemma message_lines_view: "dict_view s = dict_view t \<Longrightarrow>
  message_lines px m (messSndByRegexp s) = message_lines px m (messSndByRegexp t)"
proof -
  assume "dict_view s = dict_view t"
  then have v: "map entry_view (messSndByRegexp s) = map entry_view (messSndByRegexp t)"
    by (simp only: dict_view_def)
  show ?thesis unfolding message_lines_def entry_lines_map [OF map_eq_imp_length_eq [OF v] v] by (rule refl)
qed

lemma count_RegexpCall:
  assumes px: "pcre_sound px" and len: "int (length message) \<le> Ivy_Bind.INT_MAX"
  shows "ready n s \<Longrightarrow> buffer_wf (arg_buf s) \<Longrightarrow> distinct (map eid (messSndByRegexp s)) \<Longrightarrow> peers_alive s \<Longrightarrow>
    messSndByRegexp s = pre @ ens \<or> map entry_view (messSndByRegexp s) = map entry_view (pre @ ens) \<Longrightarrow>
    total (message_lines px message ens) \<le> n \<Longrightarrow>
    \<exists>t. fold (\<lambda>e (m, t). case RegexpCall px e message t of (k, t') \<Rightarrow> (m + k, t')) (map eid ens) (m, s)
        = (m + length (message_lines px message ens), t)
      \<and> sock_inv t \<and> streams_after (message_lines px message ens) s t"
proof (induction ens arbitrary: n s m pre)
  case Nil
  then show ?case by (simp add: message_lines_def streams_after_refl ready_def)
next
  case (Cons en ens)
  have v: "map entry_view (messSndByRegexp s) = map entry_view (pre @ en # ens)" using Cons.prems(5) by auto
  then obtain en' where en': "en' \<in> set (messSndByRegexp s)" "entry_view en' = entry_view en"
    by (metis (no_types, lifting) image_iff in_set_conv_decomp list.set_map)
  note el = entry_lines_view [OF en'(2), of px message]
  have id: "eid en' = eid en" using en'(2) by (simp add: entry_view_def)
  have "\<forall>c \<in> set (clientList en'). find_client (aclient c) s \<noteq> None"
    using Cons.prems(4) en'(1) by (auto simp: peers_alive_def)
  moreover have "total (entry_lines px message en') \<le> n" using Cons.prems(6) el by (simp add: message_lines_def)
  ultimately obtain s1 where s1:
    "RegexpCall px (eid en) message s = (length (entry_lines px message en), s1)"
    "ready (n - total (entry_lines px message en)) s1" "buffer_wf (arg_buf s1)"
    "streams_after (entry_lines px message en) s s1" "dict_view s1 = dict_view s"
    using RegexpCall_spec [OF Cons.prems(1,2) px en'(1) Cons.prems(3) _ len] el id by metis
  have d1: "distinct (map eid (messSndByRegexp s1))" using dict_view_eids [OF s1(5)] Cons.prems(3) by simp
  have p1: "peers_alive s1" using s1(4) by (intro peers_alive_view [OF s1(5) _ Cons.prems(4)]) (simp add: streams_after_def)
  have v1: "map entry_view (messSndByRegexp s1) = map entry_view ((pre @ [en]) @ ens)"
    using s1(5) v by (simp add: dict_view_def)
  have l1: "total (message_lines px message ens) \<le> n - total (entry_lines px message en)"
    using Cons.prems(6) by (simp add: message_lines_def)
  from Cons.IH [OF s1(2,3) d1 p1 disjI2 [OF v1] l1, of "m + length (entry_lines px message en)"] obtain t where
    t: "fold (\<lambda>e (m, t). case RegexpCall px e message t of (k, t') \<Rightarrow> (m + k, t')) (map eid ens)
          (m + length (entry_lines px message en), s1)
        = (m + length (entry_lines px message en) + length (message_lines px message ens), t)"
      "sock_inv t" "streams_after (message_lines px message ens) s1 t" by blast
  have "streams_after (message_lines px message (en # ens)) s t"
    using streams_after_trans [OF s1(4) t(3)] by (simp add: message_lines_def)
  then show ?case using t(1,2) s1(1) by (simp add: message_lines_def add.assoc)
qed

subsection \<open>Properties\<close>

lemma cstr_append_NUL: "NUL \<notin> set a \<Longrightarrow> cstr (a @ NUL # r) = a"
  by (induction a) (auto simp: cstr_def)

lemma msg_buf_same [simp]:
  "sock_inv (s\<lparr>msg_buf := buf\<rparr>) = sock_inv s" "find_client c (s\<lparr>msg_buf := buf\<rparr>) = find_client c s"
  by (simp_all add: sock_inv_def loop_wf_def channel_nodes_def client_inv_def find_channel_def find_client_def)

lemma IvySendMsg_lines:
  assumes "pcre_sound px" "ready n s" "peers_alive s" "distinct (map eid (messSndByRegexp s))"
    "buffer_wf (arg_buf s)" "buffer_wf (msg_buf s)" "\<not> debug_binary_msg s"
    "f \<noteq> []" "NUL \<notin> set out" "int (length out) \<le> Ivy_Bind.INT_MAX"
    "total (message_lines px out (messSndByRegexp s)) \<le> n"
  shows "\<exists>t. IvySendMsg px (Some f) out s = (length (message_lines px out (messSndByRegexp s)), t)
    \<and> sock_inv t \<and> streams_after (message_lines px out (messSndByRegexp s)) s t"
proof -
  obtain b where b: "make_message False (\<lambda>_. True) ((msg_buf s)\<lparr>boffset := 0\<rparr>) out = Some (int (length out), b)"
    "buffer_text b = out" "\<exists>block. bdata b = Some block \<and> block ! length (buffer_text b) = NUL" "buffer_wf b"
    using make_message_c99 [of "(msg_buf s)\<lparr>boffset := 0\<rparr>" "\<lambda>_. True" out] buffer_reset [OF assms(6)]
    by (auto split: if_splits)
  obtain block where bl: "bdata b = Some block" "block ! length out = NUL" using b(2,3) by auto
  have w: "int (length block) = bsize b" "0 \<le> boffset b" "boffset b < bsize b"
    using b(4) bl(1) by (simp_all add: buffer_wf_def)
  have tk: "take (nat (boffset b)) block = out" using b(2) bl(1) by (simp add: buffer_text_def)
  moreover have off: "nat (boffset b) < length block" using w by linarith
  ultimately have "block = out @ block ! nat (boffset b) # drop (Suc (nat (boffset b))) block"
    "length out = nat (boffset b)"
    using id_take_nth_drop [OF off] by auto
  then have "block = out @ NUL # drop (Suc (nat (boffset b))) block" using bl(2) by simp
  then have m: "cstr block = out" using assms(9) by (metis cstr_append_NUL)
  let ?s1 = "s\<lparr>msg_buf := b\<rparr>"
  have s1: "ready n ?s1" "peers_alive ?s1" "streams_after [] s ?s1"
    using assms(2,3) by (simp_all add: ready_def peers_alive_def streams_after_def)
  from count_RegexpCall [OF assms(1,10) s1(1) _ _ s1(2), of "[]" "messSndByRegexp s" 0] assms(4,5,11)
  obtain t where t: "count_calls (\<lambda>e. RegexpCall px e out) (dict_nodes ?s1) ?s1
      = (length (message_lines px out (messSndByRegexp s)), t)" "sock_inv t"
    "streams_after (message_lines px out (messSndByRegexp s)) ?s1 t"
    by (auto simp: count_calls_def dict_nodes_def)
  have "IvySendMsg px (Some f) out s = (length (message_lines px out (messSndByRegexp s)), t)"
    using assms(7,8) b(1) bl(1) m t(1) by (simp add: IvySendMsg_def Let_def)
  then show ?thesis using t(2) streams_after_trans [OF s1(3) t(3)] by simp
qed

text \<open>
  (C3) Sending a message. When every socket keeps up (no fatal error from the kernel, room left in
  the ring buffers for what this message adds), \<^verbatim>\<open>IvySendMsg\<close> returns the number of peers and
  subscriptions that match, and the byte stream of every socket grows by exactly the lines of the
  matching subscriptions of that peer, in the order of the dictionary, each with the identifier of
  the subscription and the captured arguments, whatever the kernel takes at once; sockets without
  a matching subscription get nothing, and no undefined behaviour is met.
\<close>

theorem send_msg_delivers:
  assumes "pcre_sound px" "ready n s" "peers_alive s" "distinct (map eid (messSndByRegexp s))"
    "buffer_wf (arg_buf s)" "buffer_wf (msg_buf s)" "\<not> debug_binary_msg s"
    "f \<noteq> []" "NUL \<notin> set out" "int (length out) \<le> Ivy_Bind.INT_MAX"
    "total (message_lines px out (messSndByRegexp s)) \<le> n"
  shows "\<exists>t. IvySendMsg px (Some f) out s = (length (message_lines px out (messSndByRegexp s)), t)
    \<and> sock_inv t \<and> streams_after (message_lines px out (messSndByRegexp s)) s t"
  by (rule IvySendMsg_lines [OF assms])

text \<open>An expression that captures everything, a peer that subscribes to it on a fresh socket.\<close>

definition pcre_all :: pcre where
  "pcre_all = \<lparr>pcre_error = (\<lambda>r. None), pcre_groups = (\<lambda>r. 1),
     pcre_match = (\<lambda>r m. Some [Some (0, length m), Some (0, length m)])\<rparr>"

definition entry_all :: dict_entry where
  "entry_all = \<lparr>eid = 8, regexp_src = ''(.*)'', clientList = [(peer_on 9 1 ''A'' [])\<lparr>app_id := 7\<rparr>],
     binding = Some \<lparr>b_regexp = ''(.*)'', nb_match = 0, match_data = [None, None]\<rparr>\<rparr>"

definition bus_all :: ivy_state where
  "bus_all = (bus_on (one_client (client_on 4 1 2)))\<lparr>messSndByRegexp := [entry_all]\<rparr>"

lemma pcre_all_sound: "pcre_sound pcre_all"
  by (simp add: pcre_sound_def pcre_all_def)

lemma line_all: "entry_lines pcre_all m entry_all = [(1, wire_head 2 7 @ m @ [ARG_END, NL])]"
  by (simp add: entry_lines_def captures_def entry_all_def pcre_all_def capture_def msg_line_def peer_on_def
      upt_rec)

lemma bus_more_socks:
  "sock_inv (s\<lparr>messSndByRegexp := d\<rparr>) = sock_inv s" "find_client c (s\<lparr>messSndByRegexp := d\<rparr>) = find_client c s"
  by (simp_all add: sock_inv_def loop_wf_def channel_nodes_def client_inv_def find_channel_def find_client_def)

lemma bus_on_socks [simp]: "sock_inv (bus_on s) = sock_inv s" "wrdy_fds (bus_on s) = wrdy_fds s"
  "chan_view (bus_on s) = chan_view s"
  by (simp_all add: bus_on_def sock_state.defs ivy_state.defs sock_inv_def loop_wf_def channel_nodes_def
      client_inv_def find_channel_def chan_view_def)

lemma bus_all_ready:
  assumes "n < MSG_MAX"
  shows "ready n bus_all" "peers_alive bus_all" "find_client 1 bus_all = Some (client_on 4 1 2)"
proof -
  have x: "sock_inv (one_client (client_on 4 1 2))" "find_client 1 (one_client (client_on 4 1 2)) = Some (client_on 4 1 2)"
    by (rule one_client_inv; simp add: client_on_def fresh_client_def client_ok_def)+
  show f: "find_client 1 bus_all = Some (client_on 4 1 2)" using x(2) by (simp add: bus_all_def bus_more_socks)
  have "keeps y n" if y: "find_client k bus_all = Some y" for k y
  proof -
    have "y \<in> set (clients_list bus_all)" using y by (auto simp: find_client_def find_Some_iff)
    then have "y = client_on 4 1 2" by (simp add: bus_all_def one_client_def)
    then show ?thesis using assms by (simp add: keeps_def no_fatal_def client_on_def fresh_client_def pending_def)
  qed
  then show "ready n bus_all" using x(1) by (simp add: ready_def bus_all_def bus_more_socks)
  show "peers_alive bus_all"
    using f by (simp add: peers_alive_def bus_all_def entry_all_def peer_on_def)
qed

theorem send_msg_delivers_witness:
  "\<exists>t y. IvySendMsg pcre_all (Some ''%s'') ''hi'' bus_all = (1, t)
     \<and> find_client 1 t = Some y \<and> stream y = wire_head 2 7 @ ''hi'' @ [ARG_END, NL]"
proof -
  let ?l = "wire_head 2 7 @ ''hi'' @ [ARG_END, NL]"
  have h: "dec_int 2 = ''2''" "dec_int 7 = ''7''" by code_simp+
  have m: "messSndByRegexp bus_all = [entry_all]" by (simp add: bus_all_def)
  have ml: "message_lines pcre_all ''hi'' [entry_all] = [(1, ?l)]" by (simp add: message_lines_def line_all)
  have n: "(100::nat) < MSG_MAX" by (simp add: MSG_MAX_def)
  have b: "buffer_wf (arg_buf bus_all)" "buffer_wf (msg_buf bus_all)" "\<not> debug_binary_msg bus_all"
    "distinct (map eid (messSndByRegexp bus_all))"
    by (simp_all add: bus_all_def bus_on_def sock_state.defs ivy_state.defs buffer_wf_def init_buffer_def)
  have l: "total (message_lines pcre_all ''hi'' (messSndByRegexp bus_all)) \<le> 100"
    unfolding m ml by (simp add: wire_head_def h)
  from send_msg_delivers [OF pcre_all_sound bus_all_ready(1,2) [OF n] b(4,1-3) _ _ _ l, of "''%s''"]
  obtain t where t: "IvySendMsg pcre_all (Some ''%s'') ''hi'' bus_all = (1, t)" "streams_after [(1, ?l)] bus_all t"
    unfolding m ml by (auto simp: Ivy_Bind.INT_MAX_def)
  then obtain y where "find_client 1 t = Some y" "stream y = stream (client_on 4 1 2) @ ?l"
    using bus_all_ready(3) [OF n] unfolding streams_after_def by fastforce
  then show ?thesis using t(1) by (simp add: stream_def pending_def client_on_def fresh_client_def)
qed

end
