(* ===== verification/Ivy_Bus.thy ===== *)
theory Ivy_Bus
  imports Ivy_Send
begin

text \<open>
  The protocol of the bus, from \<^verbatim>\<open>src/ivy.c\<close>: what a line received from a peer does
  (\<^verbatim>\<open>Receive\<close>), how peers come (\<^verbatim>\<open>ClientCreate\<close>, \<^verbatim>\<open>BroadcastReceive\<close>, \<^verbatim>\<open>SendService\<close>) and go
  (\<^verbatim>\<open>ClientDelete\<close>, \<^verbatim>\<open>IvyCleanup\<close>). The functions this module gives to the sockets are the numbers
  below, and \<open>bus_callbacks\<close> says what they do.
\<close>

definition FN_Receive :: fnptr where "FN_Receive = 1"
definition FN_ClientDelete :: fnptr where "FN_ClientDelete = 2"
definition FN_ClientDecongestion :: fnptr where "FN_ClientDecongestion = 3"
definition FN_ClientCreate :: fnptr where "FN_ClientCreate = 4"
definition FN_BroadcastReceive :: fnptr where "FN_BroadcastReceive = 5"

lemma FN_nonnull: "0 < FN_Receive" "0 < FN_ClientDelete" "0 < FN_ClientDecongestion" "0 < FN_ClientCreate"
  "0 < FN_BroadcastReceive"
  by (simp_all add: FN_Receive_def FN_ClientDelete_def FN_ClientDecongestion_def FN_ClientCreate_def
      FN_BroadcastReceive_def)

text \<open>
  The environment: the regular expression library, name resolution, and, for the moment given by
  the next address, what the kernel answers to the calls that make a connection and what an
  uninitialised port on the stack holds.
\<close>

record bus_env =
  be_pcre :: pcre
  be_nameinfo :: "sockaddr \<Rightarrow> string option"
  be_sock :: "addr \<Rightarrow> sock_answers"
  be_stack :: "addr \<Rightarrow> nat"
  be_nodelay :: "nat \<Rightarrow> bool"

subsection \<open>Looking for a second connection of the same application\<close>

text \<open>
  The port of the socket is in network order and the one of the application in host order; the
  code compares them as they are.
\<close>

fun check_connected :: "addr \<Rightarrow> nat \<Rightarrow> ivy_client list \<Rightarrow> 'a ivy_state_scheme \<Rightarrow> ivy_client option \<times> 'a ivy_state_scheme" where
  "check_connected sclnt remoteport [] s = (None, s)"
| "check_connected sclnt remoteport (i # is) s =
     (if aclient i \<noteq> sclnt \<and> remoteport = app_port i then
        (case (SocketGetRemoteAddr (aclient i) s, SocketGetRemoteAddr sclnt s) of
           (Some addr1, Some addr2) \<Rightarrow>
             if ip_addr addr1 = ip_addr addr2 then (Some i, s) else check_connected sclnt remoteport is s
         | _ \<Rightarrow> (None, crash UseAfterFree s))
      else check_connected sclnt remoteport is s)"

definition CheckConnected :: "addr \<Rightarrow> 'a ivy_state_scheme \<Rightarrow> ivy_client option \<times> 'a ivy_state_scheme" where
  "CheckConnected sclnt s =
     (let remoteport = SocketGetRemotePort sclnt s
      in if remoteport = 0 then (None, s) else check_connected sclnt remoteport (allClients s) s)"

subsection \<open>Leaving the bus\<close>

definition cleanup_body :: "addr \<Rightarrow> 'a ivy_state_scheme \<Rightarrow> 'a ivy_state_scheme" where
  "cleanup_body a s =
     (case find_ivy_client a s of
        None \<Rightarrow> crash UseAfterFree s
      | Some clnt \<Rightarrow>
          (let s1 = SocketClose (aclient clnt) (send_to clnt Bye 0 [] s)
           in s1\<lparr>allClients := filter (\<lambda>x. aid x \<noteq> a) (allClients s1)\<rparr>))"

definition IvyCleanup :: "'a ivy_state_scheme \<Rightarrow> 'a ivy_state_scheme" where
  "IvyCleanup s =
     (let s1 = each_safe ivy_client_nodes crash cleanup_body (ivy_client_nodes s) s;
          s2 = delAllRegexpsFromDictionary (s1\<lparr>allClients := []\<rparr>)
      in SocketClose (broadcast s2) (SocketServerClose (serv s2) s2))"

subsection \<open>A line from a peer\<close>

definition IvySendError :: "ivy_client \<Rightarrow> int \<Rightarrow> string \<Rightarrow> 'a ivy_state_scheme \<Rightarrow> 'a ivy_state_scheme" where
  "IvySendError app i out s =
     (case format_static ((error_buf s)\<lparr>boffset := 0\<rparr>) out of
        None \<Rightarrow> crash Hang s
      | Some (_, b) \<Rightarrow>
          send_to app Error i (cstr (case bdata b of None \<Rightarrow> [] | Some block \<Rightarrow> block)) (s\<lparr>error_buf := b\<rparr>))"

definition recv_bad_format :: "addr \<Rightarrow> ivy_client \<Rightarrow> 'a ivy_state_scheme \<Rightarrow> 'a ivy_state_scheme" where
  "recv_bad_format c clnt s =
     (let clnt1 = clnt\<lparr>aclient := c\<rparr>;
          s1 = upd_ivy_client (aid clnt) (\<lambda>x. x\<lparr>aclient := c\<rparr>) s;
          s2 = send_to clnt1 Error (msg_num Error)
                 (''bad format request expected '' @ [CHR 0x27] @ ''type id ...'' @ [CHR 0x27]) s1
      in SocketClose c (send_to clnt1 Bye 0 [] s2))"

definition recv_add_regexp :: "bus_env \<Rightarrow> ivy_client \<Rightarrow> int \<Rightarrow> string \<Rightarrow> 'a ivy_state_scheme \<Rightarrow> 'a ivy_state_scheme" where
  "recv_add_regexp env clnt i arg s =
     (let (accepted, fs) = IvyBindingFilter (be_pcre env) arg (filters s);
          s1 = s\<lparr>filters := fs\<rparr>
      in if \<not> accepted then log_bind clnt i arg IvyFilterBind s1
         else addOrChangeRegexp (be_pcre env) arg clnt s1)"

definition recv_del_regexp :: "ivy_client \<Rightarrow> int \<Rightarrow> string \<Rightarrow> 'a ivy_state_scheme \<Rightarrow> 'a ivy_state_scheme" where
  "recv_del_regexp clnt i arg s =
     (let (removed, s1) = delRegexpForOneClient clnt i s
      in if removed then log_bind clnt i arg IvyRemoveBind s1 else s1)"

text \<open>Of two connections with the same application, the one whose largest port is larger is closed.\<close>

definition recv_start_regexp :: "ivy_client \<Rightarrow> int \<Rightarrow> string \<Rightarrow> 'a ivy_state_scheme \<Rightarrow> 'a ivy_state_scheme" where
  "recv_start_regexp clnt i arg s =
     (let port = nat (i mod 65536);
          clnt1 = clnt\<lparr>app_name := Some arg, app_port := port\<rparr>;
          s1 = upd_ivy_client (aid clnt) (\<lambda>x. x\<lparr>app_name := Some arg, app_port := port\<rparr>) s;
          (other, s2) = CheckConnected (aclient clnt1) s1
      in case other of
           None \<Rightarrow> s2
         | Some o1 \<Rightarrow>
             (let target =
                (if max (SocketGetLocalPort (aclient o1) s2) (SocketGetRemotePort (aclient o1) s2)
                    > max (SocketGetLocalPort (aclient clnt1) s2) (SocketGetRemotePort (aclient clnt1) s2)
                 then o1 else clnt1);
                  s3 = SocketClose (aclient target) (IvySendError target 0 ''Application already connected'' s2)
              in upd_ivy_client (aid target) (\<lambda>x. x\<lparr>ignore_subsequent_msg := True\<rparr>) s3))"

definition recv_end_regexp :: "bus_env \<Rightarrow> ivy_client \<Rightarrow> 'a ivy_state_scheme \<Rightarrow> 'a ivy_state_scheme" where
  "recv_end_regexp env clnt s =
     (let s1 = (if application_callback s \<noteq> NULL then log_event (EvApp (aid clnt) IvyApplicationConnected) s else s);
          s2 = upd_ivy_client (aid clnt) (\<lambda>x. x\<lparr>readyToSend := readyToSend x + 1\<rparr>) s1
      in case ready_message s2 of
           Some m \<Rightarrow> if readyToSend clnt + 1 = 2 then snd (ClientCall (be_pcre env) clnt m s2) else s2
         | None \<Rightarrow> s2)"

definition recv_msg :: "ivy_client \<Rightarrow> int \<Rightarrow> string \<Rightarrow> 'a ivy_state_scheme \<Rightarrow> 'a ivy_state_scheme" where
  "recv_msg clnt i arg s =
     (case find (\<lambda>r. msg_id r = i) (msg_recv s) of
        None \<Rightarrow> s
      | Some rcv \<Rightarrow>
          (case collect_args 0 arg of
             None \<Rightarrow> s
           | Some argv \<Rightarrow>
               if mcallback rcv \<noteq> NULL then log_event (EvMsg (aid clnt) (rid rcv) argv) s else s))"

definition recv_die :: "ivy_client \<Rightarrow> int \<Rightarrow> 'a ivy_state_scheme \<Rightarrow> 'a ivy_state_scheme" where
  "recv_die clnt i s =
     (let s1 = (if application_die_callback s \<noteq> NULL then log_event (EvDie (aid clnt) i) s else s)
      in IvyChannelStop (IvyCleanup s1))"

definition timersub :: "int \<times> int \<Rightarrow> int \<times> int \<Rightarrow> int \<times> int" where
  "timersub a b =
     (let sec = fst a - fst b; usec = snd a - snd b
      in if usec < 0 then (sec - 1, usec + 1000000) else (sec, usec))"

text \<open>The answer to a ping: the round trip in microseconds, negative when it is not to the last ping.\<close>

definition recv_pong :: "ivy_client \<Rightarrow> int \<Rightarrow> 'a ivy_state_scheme \<Rightarrow> 'a ivy_state_scheme" where
  "recv_pong clnt i s =
     (if application_pong_callback s \<noteq> NULL \<and> ping_ts clnt \<noteq> (0, 0) then
        (let diff = timersub (time_of_day s) (ping_ts clnt);
             roundTripOrTimout = min (fst diff) 2000 * 1000000 + snd diff;
             s1 = upd_ivy_client (aid clnt) (\<lambda>x. x\<lparr>ping_ts := (0, 0)\<rparr>) s
         in log_event (EvPong (aid clnt)
              (if i \<noteq> ping_id clnt then - roundTripOrTimout else roundTripOrTimout)) s1)
      else s)"

definition receive_kind :: "bus_env \<Rightarrow> addr \<Rightarrow> MsgType option \<Rightarrow> ivy_client \<Rightarrow> int \<Rightarrow> string
    \<Rightarrow> 'a ivy_state_scheme \<Rightarrow> 'a ivy_state_scheme" where
  "receive_kind env c kind clnt i arg s =
     (case kind of
        None \<Rightarrow> s
      | Some k \<Rightarrow>
          (case k of
             Bye \<Rightarrow> SocketClose c s
           | Error \<Rightarrow> s
           | AddRegexp \<Rightarrow> recv_add_regexp env clnt i arg s
           | DelRegexp \<Rightarrow> recv_del_regexp clnt i arg s
           | StartRegexp \<Rightarrow> recv_start_regexp clnt i arg s
           | EndRegexp \<Rightarrow> recv_end_regexp env clnt s
           | Msg \<Rightarrow> recv_msg clnt i arg s
           | DirectMsg \<Rightarrow>
               if direct_callback s \<noteq> NULL then log_event (EvDirect (aid clnt) i arg) s else s
           | Die \<Rightarrow> recv_die clnt i s
           | Ping \<Rightarrow> send_to clnt Pong i [] s
           | Pong \<Rightarrow> recv_pong clnt i s))"

text \<open>\<open>d\<close> is the structure of the peer, the data of its socket \<open>c\<close>.\<close>

definition Receive :: "bus_env \<Rightarrow> addr \<Rightarrow> addr \<Rightarrow> string \<Rightarrow> 'a ivy_state_scheme \<Rightarrow> 'a ivy_state_scheme" where
  "Receive env c d line s =
     (if d = NULL then crash NullDeref s
      else case find_ivy_client d s of
        None \<Rightarrow> crash UseAfterFree s
      | Some clnt \<Rightarrow>
          if ignore_subsequent_msg clnt then s
          else (case parse_line line of
             None \<Rightarrow> recv_bad_format c clnt s
           | Some (kind, i, arg) \<Rightarrow>
               receive_kind env c (msg_of_num kind) (clnt\<lparr>app_id := i\<rparr>) i arg
                 (upd_ivy_client d (\<lambda>x. x\<lparr>app_id := i\<rparr>) s)))"

subsection \<open>Peers that come and go\<close>

text \<open>The structure is put in the list after the subscriptions have been sent.\<close>

definition SendService :: "bus_env \<Rightarrow> addr \<Rightarrow> string \<Rightarrow> 'a ivy_state_scheme \<Rightarrow> addr \<times> 'a ivy_state_scheme" where
  "SendService env c appname s =
     (let a = next_addr s;
          clnt = \<lparr>aid = a, aclient = c, app_name = Some appname, app_port = 0, app_id = 0, srcRegList = [],
                  readyToSend = 0, ignore_subsequent_msg = False, ping_ts = (0, 0), ping_id = 0\<rparr>;
          s1 = send_to clnt StartRegexp (int (ApplicationPort s)) (cstring_arg (ApplicationName s))
                 (s\<lparr>next_addr := Suc a\<rparr>);
          s2 = fold (\<lambda>m t. send_to clnt AddRegexp (msg_id m) (cstring_arg (regexp m)) t) (msg_recv s1) s1;
          s3 = send_to clnt EndRegexp 0 [] s2;
          clnt1 = clnt\<lparr>readyToSend := readyToSend clnt + 1\<rparr>;
          s4 = s3\<lparr>allClients := clnt1 # allClients s3\<rparr>
      in (a, case ready_message s4 of
               Some m \<Rightarrow> if readyToSend clnt1 = 2 then snd (ClientCall (be_pcre env) clnt1 m s4) else s4
             | None \<Rightarrow> s4))"

definition ClientDelete :: "addr \<Rightarrow> addr \<Rightarrow> 'a ivy_state_scheme \<Rightarrow> 'a ivy_state_scheme" where
  "ClientDelete c d s =
     delOneClient c
       (if application_callback s \<noteq> NULL then log_event (EvApp d IvyApplicationDisconnected) s else s)"

definition ClientDecongestion :: "addr \<Rightarrow> addr \<Rightarrow> 'a ivy_state_scheme \<Rightarrow> 'a ivy_state_scheme" where
  "ClientDecongestion c d s =
     (if application_callback s \<noteq> NULL then log_event (EvApp d IvyApplicationDecongestion) s else s)"

definition ClientCreate :: "bus_env \<Rightarrow> addr \<Rightarrow> 'a ivy_state_scheme \<Rightarrow> addr \<times> 'a ivy_state_scheme" where
  "ClientCreate env c s =
     (case SocketGetRemoteHost (be_nameinfo env) c s of
        None \<Rightarrow> (NULL, crash UseAfterFree s)
      | Some (remotehost, remoteport) \<Rightarrow>
          (let port = (case remoteport of Some p \<Rightarrow> p | None \<Rightarrow> be_stack env (next_addr s) mod 65536);
               appName = take 63 ('' '' @ remotehost @ '':'' @ dec_nat port);
               (already, s1) = CheckConnected c s
           in if already \<noteq> None then (NULL, SocketClose c s1) else SendService env c appName s1))"

definition IVYMAJOR_VERSION :: nat where
  "IVYMAJOR_VERSION = 3"

definition BroadcastReceive :: "bus_env \<Rightarrow> addr \<Rightarrow> addr \<Rightarrow> string \<Rightarrow> 'a ivy_state_scheme \<Rightarrow> 'a ivy_state_scheme" where
  "BroadcastReceive env c d line s =
     (case IvyParseDiscovery line 128 2048 of
        None \<Rightarrow> s
      | Some (version, serviceport, appid, appname) \<Rightarrow>
          if version \<noteq> IVYMAJOR_VERSION then s
          else if appid = ApplicationID s then s
          else (case SocketGetRemoteAddr c s of
             None \<Rightarrow> crash UseAfterFree s
           | Some a \<Rightarrow>
               (let (app, s1) = SocketConnectAddr (be_sock env (next_addr s)) (ivy_ipv6 s) a serviceport NULL
                                  FN_Receive FN_ClientDelete FN_ClientDecongestion s
                in if app = NULL then SocketSetData app NULL s1
                   else (let (clnt, s2) = SendService env app appname s1
                         in SocketSetUuid app appid (SocketSetData app clnt s2)))))"

text \<open>What the numbers stand for; other ones are the application's, and do nothing here.\<close>

definition bus_callbacks where
  "bus_callbacks env =
     \<lparr>call_interp = (\<lambda>f c d line s. if f = FN_Receive then Receive env c d line s
        else if f = FN_BroadcastReceive then BroadcastReceive env c d line s else s),
      call_delete = (\<lambda>f c d s. if f = FN_ClientDelete then ClientDelete c d s else s),
      call_decongestion = (\<lambda>f c d s. if f = FN_ClientDecongestion then ClientDecongestion c d s else s),
      call_create = (\<lambda>f c s. if f = FN_ClientCreate then ClientCreate env c s else (NULL, s)),
      call_app = (\<lambda>n d s. s), os_nodelay = be_nodelay env\<rparr>"

lemma bus_callbacks_simps [simp]:
  "call_interp (bus_callbacks env) FN_Receive c d line s = Receive env c d line s"
  "call_interp (bus_callbacks env) FN_BroadcastReceive c d line s = BroadcastReceive env c d line s"
  "call_delete (bus_callbacks env) FN_ClientDelete c d s = ClientDelete c d s"
  "call_delete (bus_callbacks env) f c d s = (if f = FN_ClientDelete then ClientDelete c d s else s)"
  "call_decongestion (bus_callbacks env) FN_ClientDecongestion c d s = ClientDecongestion c d s"
  "call_create (bus_callbacks env) FN_ClientCreate c s = ClientCreate env c s"
  "call_app (bus_callbacks env) n d s = s"
  "os_nodelay (bus_callbacks env) = be_nodelay env"
  by (simp_all add: bus_callbacks_def FN_Receive_def FN_BroadcastReceive_def)

subsection \<open>The deletion of a peer leaves the channels alone\<close>

lemma view_del_reg_body [simp]:
  "chan_view (del_reg_body a c i g s) = chan_view s" "next_addr (del_reg_body a c i g s) = next_addr s"
  by (auto simp: del_reg_body_def upd_ivy_client_def chan_view_def delRegexpForOneClientFromDictionary_def
      delOneIvyClientFromDictionaryEntry_def clean_entry_def split: option.splits)

text \<open>A traversal keeps what its body keeps.\<close>

lemma each_safe_view:
  assumes "\<And>p t. chan_view (body p t) = chan_view t" "\<And>p t. next_addr (body p t) = next_addr t"
  shows "chan_view (each_safe nodes crash body ps s) = chan_view s
    \<and> next_addr (each_safe nodes crash body ps s) = next_addr s"
  by (rule each_safe_keeps [where Q = "\<lambda>t. chan_view t = chan_view s \<and> next_addr t = next_addr s"])
    (simp_all add: assms)

lemma view_delRegexp [simp]:
  "chan_view (snd (delRegexpForOneClient c i s)) = chan_view s"
  "next_addr (snd (delRegexpForOneClient c i s)) = next_addr s"
  by (auto simp: delRegexpForOneClient_def each_safe_view split: option.splits)

lemma view_del_client_reg [simp]:
  "chan_view (del_client_reg a g s) = chan_view s" "next_addr (del_client_reg a g s) = next_addr s"
  by (auto simp: del_client_reg_def split: option.splits)

lemma chan_view_allClients [simp]: "chan_view (s\<lparr>allClients := cs\<rparr>) = chan_view s"
  by (simp add: chan_view_def)

lemma view_del_client_body [simp]:
  "chan_view (del_client_body k a s) = chan_view s" "next_addr (del_client_body k a s) = next_addr s"
  by (auto simp: del_client_body_def Let_def each_safe_view split: option.splits)

lemma view_del_from_entry [simp]:
  "chan_view (delOneClientFromDictionaryEntry e k s) = chan_view s"
  "next_addr (delOneClientFromDictionaryEntry e k s) = next_addr s"
  by (simp_all add: delOneClientFromDictionaryEntry_def clean_entry_def chan_view_def)

lemma view_delOneClient [simp]:
  "chan_view (delOneClient k s) = chan_view s" "next_addr (delOneClient k s) = next_addr s"
  by (auto simp: delOneClient_def Let_def each_safe_view)

lemma view_log_event [simp]: "chan_view (log_event e s) = chan_view s"
  by (simp add: log_event_def chan_view_def)

lemma view_ClientDelete [simp]:
  "chan_view (ClientDelete c d s) = chan_view s" "next_addr (ClientDelete c d s) = next_addr s"
  by (simp_all add: ClientDelete_def)

lemma view_run_delete:
  "chan_view (sock_run_delete (bus_callbacks env) h d s) = chan_view s
   \<and> next_addr (sock_run_delete (bus_callbacks env) h d s) = next_addr s"
  by (cases h)
    (auto simp: sock_run_delete_def DeleteSocket_def DeleteServerSocket_def with_client_def Let_def
      chan_view_def [of "_\<lparr>closed_fds := _, clients_list := _\<rparr>"]
      chan_view_def [of "_\<lparr>closed_fds := _, servers_list := _\<rparr>"] chan_view_def [symmetric]
      split: option.splits)

interpretation bus_quiet: quiet_delete "sock_run_delete (bus_callbacks env)" for env
  by unfold_locales (simp_all add: view_run_delete)

text \<open>
  (C15) The deferred deletion of the main loop, with the deletion handlers of the bus: it ends, takes
  exactly the channels marked for deletion out of the table, runs the handlers once for each of them in
  the order of the list, and leaves a table in which descriptors and channels agree.
\<close>

theorem deferred_delete_bus:
  assumes "loop_wf s"
  shows "loop_wf (ChannelDefferedDelete (sock_run_delete (bus_callbacks env)) s)
    \<and> channels_list (ChannelDefferedDelete (sock_run_delete (bus_callbacks env)) s)
        = filter (\<lambda>y. \<not> tobedeleted y) (channels_list s)
    \<and> ChannelDefferedDelete (sock_run_delete (bus_callbacks env)) s
        = fold (deferred_body (sock_run_delete (bus_callbacks env))) (channel_nodes s) s"
  by (rule bus_quiet.deferred_delete [OF assms])

definition some_env :: bus_env where
  "some_env = \<lparr>be_pcre = pcre_all, be_nameinfo = (\<lambda>a. None),
     be_sock = (\<lambda>a. \<lparr>os_socket = None, os_setsockopt = True, os_bind = True, os_getsockname = None,
        os_listen = True, os_connect = True\<rparr>), be_stack = (\<lambda>a. 0), be_nodelay = (\<lambda>fd. True)\<rparr>"

lemma some_env_nodelay [simp]: "be_nodelay some_env fd"
  by (simp add: some_env_def)

definition closing_bus :: ivy_state where
  "closing_bus = IvyChannelRemove 2 (bus_on (one_client ((client_on 4 1 2)\<lparr>chandle_delete := FN_ClientDelete\<rparr>)))"

theorem deferred_delete_bus_witness:
  "channels_list closing_bus \<noteq> []
   \<and> channels_list (ChannelDefferedDelete (sock_run_delete (bus_callbacks some_env)) closing_bus) = []"
proof -
  let ?x = "(client_on 4 1 2)\<lparr>chandle_delete := FN_ClientDelete\<rparr>"
  have "sock_inv (bus_on (one_client ?x))"
    by (simp, rule one_client_inv; simp add: client_on_def fresh_client_def client_ok_def)
  then have "sock_inv closing_bus" unfolding closing_bus_def by (rule channel_remove_inv)
  then have w: "loop_wf closing_bus" by (simp add: sock_inv_def)
  have c: "channels_list closing_bus = [\<lparr>ch = 2, ch_fd = 4, ch_data = 1, tobedeleted = True,
      handle_delete = Some H_DeleteSocket, handle_read = Some H_HandleSocket,
      handle_write = Some H_HandleCongestionWrite\<rparr>]"
    by (simp add: closing_bus_def IvyChannelRemove_def find_channel_def upd_channel_def one_client_def)
  have "channels_list (ChannelDefferedDelete (sock_run_delete (bus_callbacks some_env)) closing_bus)
      = filter (\<lambda>y. \<not> tobedeleted y) (channels_list closing_bus)"
    using deferred_delete_bus [OF w, of some_env] by blast
  then show ?thesis using c by simp
qed

subsection \<open>Receiving messages\<close>

text \<open>
  The lines that carry data for the application: a message or a direct message. What one does to
  what the application sees.
\<close>

definition app_line :: "string \<Rightarrow> bool" where
  "app_line l \<longleftrightarrow> (\<exists>k i arg. parse_line l = Some (k, i, arg) \<and> (msg_of_num k = Some Msg \<or> msg_of_num k = Some DirectMsg))"

type_synonym app_obs = "event list \<times> msg_rcv list \<times> fnptr"

definition app_obs :: "'a ivy_state_scheme \<Rightarrow> app_obs" where
  "app_obs s = (events s, msg_recv s, direct_callback s)"

definition app_event_of :: "addr \<Rightarrow> msg_rcv list \<Rightarrow> fnptr \<Rightarrow> string \<Rightarrow> event list" where
  "app_event_of d rs direct l =
     (case parse_line l of
        None \<Rightarrow> []
      | Some (k, i, arg) \<Rightarrow>
          if msg_of_num k = Some Msg then
            (case find (\<lambda>r. msg_id r = i) rs of
               None \<Rightarrow> []
             | Some rcv \<Rightarrow>
                 (case collect_args 0 arg of
                    None \<Rightarrow> []
                  | Some argv \<Rightarrow> if mcallback rcv \<noteq> NULL then [EvMsg d (rid rcv) argv] else []))
          else if direct \<noteq> NULL then [EvDirect d i arg] else [])"

definition app_step :: "addr \<Rightarrow> app_obs \<Rightarrow> string \<Rightarrow> app_obs" where
  "app_step d ob l = (case ob of (ev, rs, direct) \<Rightarrow> (ev @ app_event_of d rs direct l, rs, direct))"

definition peer_listens :: "addr \<Rightarrow> 'a ivy_state_scheme \<Rightarrow> bool" where
  "peer_listens d s \<longleftrightarrow> d \<noteq> NULL \<and> (\<exists>clnt. find_ivy_client d s = Some clnt \<and> \<not> ignore_subsequent_msg clnt)"

lemma find_ivy_upd [simp]:
  "(\<And>x. aid (f x) = aid x) \<Longrightarrow> find_ivy_client a (upd_ivy_client b f s)
     = (if a = b then map_option f (find_ivy_client a s) else find_ivy_client a s)"
  by (simp add: find_ivy_client_def upd_ivy_client_def find_map_upd)

lemma upd_ivy_same [simp]:
  "find_client c (upd_ivy_client a f s) = find_client c s" "events (upd_ivy_client a f s) = events s"
  "msg_recv (upd_ivy_client a f s) = msg_recv s" "direct_callback (upd_ivy_client a f s) = direct_callback s"
  by (simp_all add: upd_ivy_client_def find_client_def)

lemma log_event_bus [simp]:
  "find_ivy_client a (log_event e s) = find_ivy_client a s" "events (log_event e s) = events s @ [e]"
  "direct_callback (log_event e s) = direct_callback s"
  by (simp_all add: find_ivy_client_def log_event_def)

lemma Receive_app_line:
  assumes "peer_listens d s" "app_line l"
  shows "peer_listens d (Receive env c d l s) \<and> find_client k (Receive env c d l s) = find_client k s
    \<and> app_obs (Receive env c d l s) = app_step d (app_obs s) l"
proof -
  obtain clnt where cl: "d \<noteq> NULL" "find_ivy_client d s = Some clnt" "\<not> ignore_subsequent_msg clnt"
    using assms(1) by (auto simp: peer_listens_def)
  have id: "aid clnt = d" using find_ivy_client_Some [OF cl(2)] by simp
  obtain kk i arg where l: "parse_line l = Some (kk, i, arg)" "msg_of_num kk = Some Msg \<or> msg_of_num kk = Some DirectMsg"
    using assms(2) by (auto simp: app_line_def)
  let ?s = "upd_ivy_client d (\<lambda>x. x\<lparr>app_id := i\<rparr>) s"
  have r: "Receive env c d l s = receive_kind env c (msg_of_num kk) (clnt\<lparr>app_id := i\<rparr>) i arg ?s"
    using cl l(1) by (simp add: Receive_def)
  have p: "peer_listens d ?s" "app_obs ?s = app_obs s" using cl by (simp_all add: peer_listens_def app_obs_def)
  show ?thesis
  proof (cases "msg_of_num kk = Some Msg")
    case True
    then show ?thesis unfolding r using p l(1) id
      by (auto simp: receive_kind_def recv_msg_def app_obs_def app_step_def app_event_of_def peer_listens_def
          split: option.splits)
  next
    case False
    then show ?thesis unfolding r using p l id
      by (auto simp: receive_kind_def app_obs_def app_step_def app_event_of_def peer_listens_def)
  qed
qed

lemma recv_only_bus:
  "app_obs (upd_client c g s) = app_obs s" "peer_listens d (upd_client c g s) = peer_listens d s"
  by (simp_all add: app_obs_def upd_client_def peer_listens_def find_ivy_client_def)

interpretation msgs: line_reader "bus_callbacks env" c FN_Receive d "peer_listens d" app_line app_obs "app_step d"
  for env c d
  by unfold_locales (simp_all add: FN_nonnull Receive_app_line recv_only_bus)

lemma app_steps:
  "foldl (app_step d) (ev, rs, direct) ls = (ev @ concat (map (app_event_of d rs direct) ls), rs, direct)"
  by (induction ls arbitrary: ev) (simp_all add: app_step_def)

text \<open>A socket that is set up to read lines for the peer \<open>d\<close>, with the data the kernel will give.\<close>

definition reads_for :: "addr \<Rightarrow> sockaddr \<Rightarrow> bytes list \<Rightarrow> client \<Rightarrow> bool" where
  "reads_for d a bs x \<longleftrightarrow> interpretation_fn x = FN_Receive \<and> cdata x = d \<and> \<not> dgram x
     \<and> recv_answers x = map (\<lambda>b. (RecvData b, a)) bs \<and> (\<forall>b \<in> set bs. b \<noteq> [])
     \<and> length (rbuf x) \<le> buffer_size x \<and> 0 < buffer_size x \<and> terminator x \<notin> set (rbuf x)"

lemma receive_pieces:
  assumes p: "peer_listens d s" and x: "find_client c s = Some x" "reads_for d a bs x" "c \<noteq> NULL"
    and l: "\<forall>l \<in> set (fst (lines_of (terminator x) (rbuf x @ concat bs))). app_line (cstr l)"
  shows "\<exists>n y. find_client c ((HandleSocket (bus_callbacks env) c ^^ n) s) = Some y
    \<and> rbuf y = snd (lines_of (terminator x) (rbuf x @ concat bs)) \<and> recv_answers y = []
    \<and> events ((HandleSocket (bus_callbacks env) c ^^ n) s)
        = events s @ concat (map (app_event_of d (msg_recv s) (direct_callback s))
            (map cstr (fst (lines_of (terminator x) (rbuf x @ concat bs)))))"
proof -
  have r: "interpretation_fn x = FN_Receive" "cdata x = d" "recv_answers x = map (\<lambda>b. (RecvData b, a)) bs"
    "\<forall>b \<in> set bs. b \<noteq> []" "\<not> dgram x" "length (rbuf x) \<le> buffer_size x" "0 < buffer_size x"
    "terminator x \<notin> set (rbuf x)" using x(2) by (simp_all add: reads_for_def)
  from msgs.HandleSocket_pieces [OF p x(1) r(1,2) x(3) r(3-8) l, of env] obtain n y where
    n: "find_client c ((HandleSocket (bus_callbacks env) c ^^ n) s) = Some y"
      "rbuf y = snd (lines_of (terminator x) (rbuf x @ concat bs))" "recv_answers y = []"
      "app_obs ((HandleSocket (bus_callbacks env) c ^^ n) s)
        = foldl (app_step d) (app_obs s) (map cstr (fst (lines_of (terminator x) (rbuf x @ concat bs))))"
    by blast
  have "events ((HandleSocket (bus_callbacks env) c ^^ n) s)
      = fst (foldl (app_step d) (app_obs s) (map cstr (fst (lines_of (terminator x) (rbuf x @ concat bs)))))"
    unfolding n(4) [symmetric] by (simp add: app_obs_def)
  also have "\<dots> = events s @ concat (map (app_event_of d (msg_recv s) (direct_callback s))
      (map cstr (fst (lines_of (terminator x) (rbuf x @ concat bs)))))"
    unfolding app_obs_def app_steps by (rule fst_conv)
  finally show ?thesis using n(1-3) by blast
qed

text \<open>
  (C4) Framing and dispatch. The bytes of a peer that sends messages and direct messages, cut by
  the network in any pieces and whatever the size of the lines, reach the application as its
  lines, each once and in order: the callback of the subscription with the line's identifier gets
  the arguments of the line, a line for no subscription or with too many arguments none; and what
  is left in the buffer is the incomplete line.
\<close>

theorem receive_stream:
  assumes "peer_listens d s" "find_client c s = Some x" "reads_for d a bs x" "c \<noteq> NULL"
    "\<forall>l \<in> set (fst (lines_of (terminator x) (rbuf x @ concat bs))). app_line (cstr l)"
  shows "\<exists>n y. find_client c ((HandleSocket (bus_callbacks env) c ^^ n) s) = Some y
    \<and> rbuf y = snd (lines_of (terminator x) (rbuf x @ concat bs)) \<and> recv_answers y = []
    \<and> events ((HandleSocket (bus_callbacks env) c ^^ n) s)
        = events s @ concat (map (app_event_of d (msg_recv s) (direct_callback s))
            (map cstr (fst (lines_of (terminator x) (rbuf x @ concat bs)))))"
  by (rule receive_pieces [OF assms])

text \<open>A bus with one subscription and a peer whose line comes in two pieces.\<close>

definition hearing_client :: "bytes list \<Rightarrow> client" where
  "hearing_client bs = (client_on 4 1 2)\<lparr>interpretation_fn := FN_Receive, cdata := 5,
     recv_answers := map (\<lambda>b. (RecvData b, \<lparr>is_ipv6 = False, ip_addr = 0, net_port = 0\<rparr>)) bs\<rparr>"

definition hearing_bus :: "bytes list \<Rightarrow> ivy_state" where
  "hearing_bus bs = (bus_on (one_client (hearing_client bs)))
     \<lparr>allClients := [peer_on 5 1 ''A'' []], msg_recv := [\<lparr>rid = 20, msg_id = 3, regexp = Some ''(.*)'', mcallback = 9, muser_data = 0\<rparr>]\<rparr>"

lemma hearing_bus_simps:
  "peer_listens 5 (hearing_bus bs)" "find_client 1 (hearing_bus bs) = Some (hearing_client bs)"
  "events (hearing_bus bs) = []" "terminator (hearing_client bs) = NL" "rbuf (hearing_client bs) = []"
  "msg_recv (hearing_bus bs) = [\<lparr>rid = 20, msg_id = 3, regexp = Some ''(.*)'', mcallback = 9, muser_data = 0\<rparr>]"
  "\<forall>b \<in> set bs. b \<noteq> [] \<Longrightarrow> reads_for 5 \<lparr>is_ipv6 = False, ip_addr = 0, net_port = 0\<rparr> bs (hearing_client bs)"
proof -
  have "find_client 1 (one_client (hearing_client bs)) = Some (hearing_client bs)"
    by (rule one_client_inv; simp add: hearing_client_def client_on_def fresh_client_def client_ok_def)
  then have "find_client 1 (bus_on (one_client (hearing_client bs))) = Some (hearing_client bs)" by simp
  then show "find_client 1 (hearing_bus bs) = Some (hearing_client bs)"
    by (simp add: hearing_bus_def find_client_def)
qed (simp_all add: hearing_bus_def peer_listens_def find_ivy_client_def peer_on_def hearing_client_def client_on_def
    fresh_client_def reads_for_def IVY_BUFFER_SIZE_def)

text \<open>The lines of messages.\<close>

definition clean_args :: "string list \<Rightarrow> bool" where
  "clean_args args \<longleftrightarrow> length args \<le> MAX_MATCHING_ARGS
     \<and> (\<forall>a \<in> set args. ARG_END \<notin> set a \<and> NL \<notin> set a \<and> NUL \<notin> set a)"

lemma app_event_msg:
  assumes "clean_args args" "find (\<lambda>r. msg_id r = i) rs = Some rcv" "mcallback rcv \<noteq> NULL"
  shows "app_event_of d rs direct (wire_head (msg_num Msg) i @ wire_args args) = [EvMsg d (rid rcv) args]"
  using assms collect_wire_args [of args 0] msg_of_num_num [of Msg]
  by (auto simp: app_event_of_def clean_args_def parse_wire_head)

lemma app_line_msg: "app_line (wire_head (msg_num Msg) i @ m)"
  using msg_of_num_num [of Msg] by (simp add: app_line_def parse_wire_head)

lemma msg_line_clean:
  assumes "clean_args args"
  shows "NL \<notin> set (wire_head k i @ wire_args args)" "NUL \<notin> set (wire_head k i @ wire_args args)"
  using assms wire_args_clean [of NL args] wire_args_clean [of NUL args] wire_head_clean [of k i]
  by (auto simp: clean_args_def)

theorem receive_stream_witness:
  "\<exists>n. events ((HandleSocket (bus_callbacks some_env) 1 ^^ n)
      (hearing_bus [wire_head 2 3 @ ''a'', [ARG_END] @ ''b'' @ [ARG_END, NL]]))
    = [EvMsg 5 20 [''a'', ''b'']]"
proof -
  let ?bs = "[wire_head 2 3 @ ''a'', [ARG_END] @ ''b'' @ [ARG_END, NL]]"
  let ?l = "wire_head (msg_num Msg) 3 @ wire_args [''a'', ''b'']"
  have cat: "concat ?bs = ?l @ NL # []" by simp
  have cl: "clean_args [''a'', ''b'']" by (simp add: clean_args_def MAX_MATCHING_ARGS_def)
  have ls: "lines_of NL (?l @ NL # []) = ([?l], [])"
    using lines_of_line [OF msg_line_clean(1) [OF cl], of "msg_num Msg" 3 "[]"] by simp
  have cs: "cstr ?l = ?l" by (rule cstr_id [OF msg_line_clean(2) [OF cl]])
  have h: "\<forall>b \<in> set ?bs. b \<noteq> []" by (simp add: wire_head_def)
  have "\<forall>l \<in> set (fst (lines_of (terminator (hearing_client ?bs)) (rbuf (hearing_client ?bs) @ concat ?bs))). app_line (cstr l)"
    unfolding hearing_bus_simps(4,5) cat append_Nil ls using cs app_line_msg [of 3] by simp
  from receive_stream [OF hearing_bus_simps(1,2) hearing_bus_simps(7) [OF h] _ this, of some_env] obtain n where
    n: "events ((HandleSocket (bus_callbacks some_env) 1 ^^ n) (hearing_bus ?bs))
      = concat (map (app_event_of 5 (msg_recv (hearing_bus ?bs)) (direct_callback (hearing_bus ?bs))) [cstr ?l])"
    unfolding hearing_bus_simps(3,4,5) cat append_Nil ls by auto
  have "app_event_of 5 (msg_recv (hearing_bus ?bs)) (direct_callback (hearing_bus ?bs)) ?l = [EvMsg 5 20 [''a'', ''b'']]"
    using app_event_msg [OF cl, of 3 "msg_recv (hearing_bus ?bs)"] by (simp add: hearing_bus_simps(6))
  then show ?thesis using n cs by (intro exI [of _ n]) simp
qed

end
