(* ===== verification/Ivy_Api.thy ===== *)
theory Ivy_Api
  imports Ivy_Bus Ivy_Interval
begin

text \<open>
  The functions applications call, from \<^verbatim>\<open>src/ivy.c\<close>: starting and stopping, subscriptions
  (\<^verbatim>\<open>IvyBindMsg\<close>, \<^verbatim>\<open>IvyChangeMsg\<close>, \<^verbatim>\<open>IvyUnbindMsg\<close>), direct messages and pings, and what they may ask
  about peers. A format and its arguments are the string they produce.
\<close>

subsection \<open>Set up\<close>

text \<open>\<^verbatim>\<open>currentTime\<close> in milliseconds; \<open>rnd\<close> is what \<^verbatim>\<open>rand\<close> gives after it is seeded with that time.\<close>

definition ivy_currentTime :: "int \<times> int \<Rightarrow> nat" where
  "ivy_currentTime stamp = nat ((fst stamp * 1000 + snd stamp div 1000) mod 2 ^ 64)"

definition GenApplicationUniqueIdentifier :: "(nat \<Rightarrow> nat) \<Rightarrow> 'a ivy_state_scheme \<Rightarrow> string" where
  "GenApplicationUniqueIdentifier rnd s =
     (let curtime = ivy_currentTime (time_of_day s)
      in take 127 (dec_nat (rnd curtime) @ '':'' @ dec_nat curtime @ '':'' @ dec_nat (ApplicationPort s)))"

definition IvyInit ::
  "string option \<Rightarrow> string option \<Rightarrow> fnptr \<Rightarrow> fnptr \<Rightarrow> bool \<Rightarrow> 'a ivy_state_scheme \<Rightarrow> 'a ivy_state_scheme" where
  "IvyInit appname rdy app_cb die_cb env_debug_binary s =
     (let s1 = SocketInit s;
          s2 = (case appname of None \<Rightarrow> s1 | Some n \<Rightarrow> s1\<lparr>ApplicationName := Some n\<rparr>);
          s3 = s2\<lparr>application_callback := app_cb, application_die_callback := die_cb\<rparr>;
          s4 = (case rdy of None \<Rightarrow> s3 | Some m \<Rightarrow> s3\<lparr>ready_message := Some m\<rparr>)
      in if env_debug_binary then s4\<lparr>debug_binary_msg := True\<rparr> else s4)"

text \<open>The two strings are freed and the pointers kept: no field changes, their contents are gone.\<close>

definition IvyTerminate :: "'a ivy_state_scheme \<Rightarrow> 'a ivy_state_scheme" where
  "IvyTerminate s = s\<lparr>filters := IvyBindingTerminate (filters s)\<rparr>"

definition IvySetBindCallback :: "fnptr \<Rightarrow> 'a ivy_state_scheme \<Rightarrow> 'a ivy_state_scheme" where
  "IvySetBindCallback f s = s\<lparr>application_bind_callback := f\<rparr>"

definition IvySetPongCallback :: "fnptr \<Rightarrow> 'a ivy_state_scheme \<Rightarrow> 'a ivy_state_scheme" where
  "IvySetPongCallback f s = s\<lparr>application_pong_callback := f\<rparr>"

definition IvySetFilter :: "pcre \<Rightarrow> string list \<Rightarrow> bool \<Rightarrow> 'a ivy_state_scheme \<Rightarrow> 'a ivy_state_scheme" where
  "IvySetFilter px argv env_debug_filter s =
     (let s1 = s\<lparr>filters := IvyBindingSetFilter px argv (filters s)\<rparr>
      in if env_debug_filter then s1\<lparr>debug_filter := True\<rparr> else s1)"

definition IvyAddFilter :: "pcre \<Rightarrow> string option \<Rightarrow> bool \<Rightarrow> 'a ivy_state_scheme \<Rightarrow> 'a ivy_state_scheme" where
  "IvyAddFilter px arg env_debug_filter s =
     (let s1 = s\<lparr>filters := IvyBindingAddFilter px arg (filters s)\<rparr>
      in if env_debug_filter then s1\<lparr>debug_filter := True\<rparr> else s1)"

definition IvyRemoveFilter :: "string \<Rightarrow> 'a ivy_state_scheme \<Rightarrow> 'a ivy_state_scheme" where
  "IvyRemoveFilter arg s = s\<lparr>filters := IvyBindingRemoveFilter arg (filters s)\<rparr>"

definition IvyStop :: "'a ivy_state_scheme \<Rightarrow> 'a ivy_state_scheme" where
  "IvyStop s = IvyChannelStop s"

subsection \<open>Subscriptions of the application\<close>

definition find_rcv :: "addr \<Rightarrow> 'a ivy_state_scheme \<Rightarrow> msg_rcv option" where
  "find_rcv m s = find (\<lambda>r. rid r = m) (msg_recv s)"

text \<open>One line to every peer, in the order of the list.\<close>

definition tell_peers :: "MsgType \<Rightarrow> int \<Rightarrow> string \<Rightarrow> 'a ivy_state_scheme \<Rightarrow> 'a ivy_state_scheme" where
  "tell_peers t i m s = fold (\<lambda>clnt u. send_to clnt t i m u) (allClients s) s"

definition IvyUnbindMsg :: "addr \<Rightarrow> 'a ivy_state_scheme \<Rightarrow> 'a ivy_state_scheme" where
  "IvyUnbindMsg msg s =
     (case find_rcv msg s of
        None \<Rightarrow> crash UseAfterFree s
      | Some r \<Rightarrow>
          (let s1 = tell_peers DelRegexp (msg_id r) [] s
           in s1\<lparr>msg_recv := filter (\<lambda>x. rid x \<noteq> msg) (msg_recv s1)\<rparr>))"

text \<open>
  The text of a subscription: formatted, with its intervals expanded. After an expansion the
  buffer has a new block of \<open>DST_SIZE\<close> bytes, and its size field is not updated.
\<close>

definition bind_text :: "IvyBuffer \<Rightarrow> string \<Rightarrow> (string \<times> IvyBuffer) gen" where
  "bind_text buf out =
     (case format_static (buf\<lparr>boffset := 0\<rparr>) out of
        None \<Rightarrow> GenFault Hang
      | Some (_, b) \<Rightarrow>
          (let t = cstr (case bdata b of None \<Rightarrow> [] | Some block \<Rightarrow> block)
           in bind_gen (substituteInterval t) (\<lambda>r.
                Gen (r, if find_itv t = None then b
                        else b\<lparr>bdata := Some (memcpy_at (replicate DST_SIZE NUL) 0 (r @ [NUL]))\<rparr>))))"

definition IvyBindMsg :: "fnptr \<Rightarrow> nat \<Rightarrow> string \<Rightarrow> 'a ivy_state_scheme \<Rightarrow> addr \<times> 'a ivy_state_scheme" where
  "IvyBindMsg cb udata out s =
     (case bind_text (bind_buf s) out of
        GenFault e \<Rightarrow> (NULL, crash e s)
      | GenFail \<Rightarrow> (NULL, crash OutOfBounds s)
      | Gen (text1, b) \<Rightarrow>
          (let a = next_addr s;
               m = \<lparr>rid = a, msg_id = recv_id s, regexp = Some text1, mcallback = cb, muser_data = udata\<rparr>;
               s1 = s\<lparr>bind_buf := b, next_addr := Suc a, recv_id := recv_id s + 1, msg_recv := m # msg_recv s\<rparr>
           in (a, tell_peers AddRegexp (msg_id m) text1 s1)))"

definition IvyChangeMsg :: "addr \<Rightarrow> string \<Rightarrow> 'a ivy_state_scheme \<Rightarrow> 'a ivy_state_scheme" where
  "IvyChangeMsg msg out s =
     (case bind_text (change_buf s) out of
        GenFault e \<Rightarrow> crash e s
      | GenFail \<Rightarrow> crash OutOfBounds s
      | Gen (text1, b) \<Rightarrow>
          (case find_rcv msg s of
             None \<Rightarrow> crash UseAfterFree s
           | Some r \<Rightarrow>
               (let s1 = s\<lparr>change_buf := b,
                           msg_recv := map (\<lambda>x. if rid x = msg then x\<lparr>regexp := Some text1\<rparr> else x) (msg_recv s)\<rparr>
                in tell_peers AddRegexp (msg_id r) text1 s1)))"

subsection \<open>Direct messages, pings\<close>

definition IvyBindDirectMsg :: "fnptr \<Rightarrow> 'a ivy_state_scheme \<Rightarrow> 'a ivy_state_scheme" where
  "IvyBindDirectMsg cb s = s\<lparr>direct_callback := cb\<rparr>"

definition with_peer :: "addr \<Rightarrow> 'a ivy_state_scheme \<Rightarrow> (ivy_client \<Rightarrow> 'a ivy_state_scheme) \<Rightarrow> 'a ivy_state_scheme" where
  "with_peer a s f =
     (if a = NULL then crash NullDeref s
      else case find_ivy_client a s of None \<Rightarrow> crash UseAfterFree s | Some c \<Rightarrow> f c)"

definition IvySendDirectMsg :: "addr \<Rightarrow> int \<Rightarrow> string \<Rightarrow> 'a ivy_state_scheme \<Rightarrow> 'a ivy_state_scheme" where
  "IvySendDirectMsg app i msg s = with_peer app s (\<lambda>c. send_to c DirectMsg i msg s)"

definition IvySendDieMsg :: "addr \<Rightarrow> 'a ivy_state_scheme \<Rightarrow> 'a ivy_state_scheme" where
  "IvySendDieMsg app s = with_peer app s (\<lambda>c. send_to c Die 0 [] s)"

definition IvySendPing :: "addr \<Rightarrow> 'a ivy_state_scheme \<Rightarrow> 'a ivy_state_scheme" where
  "IvySendPing app s =
     (if application_pong_callback s \<noteq> NULL then
        with_peer app s (\<lambda>c.
          let i = ping_id c + 1;
              c1 = c\<lparr>ping_ts := time_of_day s, ping_id := i\<rparr>
          in send_to c1 Ping i []
               (upd_ivy_client app (\<lambda>x. x\<lparr>ping_ts := time_of_day s, ping_id := i\<rparr>) s))
      else s)"

subsection \<open>Questions about peers\<close>

text \<open>\<open>None\<close> for an application pointer that is null.\<close>

definition IvyGetApplicationName :: "ivy_client option \<Rightarrow> string" where
  "IvyGetApplicationName app =
     (case app of None \<Rightarrow> ''Unknown'' | Some c \<Rightarrow> (case app_name c of None \<Rightarrow> ''Unknown'' | Some n \<Rightarrow> n))"

definition IvyGetApplicationHost :: "(nat \<Rightarrow> sockaddr option) \<Rightarrow> (sockaddr \<Rightarrow> string option) \<Rightarrow> ivy_client option
    \<Rightarrow> 'a ivy_state_scheme \<Rightarrow> string option" where
  "IvyGetApplicationHost os_getpeername os_getnameinfo app s =
     (case app of
        None \<Rightarrow> None
      | Some c \<Rightarrow> if aclient c = NULL then None
                  else Some (SocketGetPeerHost os_getpeername os_getnameinfo (aclient c) s))"

text \<open>The first peer of that name; \<^verbatim>\<open>strcmp\<close> with a null name is undefined.\<close>

fun find_by_name :: "string \<Rightarrow> ivy_client list \<Rightarrow> c_fault + ivy_client option" where
  "find_by_name name [] = Inr None"
| "find_by_name name (c # cs) =
     (case app_name c of
        None \<Rightarrow> Inl NullDeref
      | Some n \<Rightarrow> if n = name then Inr (Some c) else find_by_name name cs)"

definition IvyGetApplication :: "string \<Rightarrow> 'a ivy_state_scheme \<Rightarrow> c_fault + ivy_client option" where
  "IvyGetApplication name s = find_by_name name (allClients s)"

text \<open>The names go into an array of 4096 bytes, whose size is not looked at.\<close>

definition APPLIST_SIZE :: nat where
  "APPLIST_SIZE = 4096"

fun cat_names :: "string \<Rightarrow> string \<Rightarrow> ivy_client list \<Rightarrow> c_fault + string" where
  "cat_names sep applist [] = Inr applist"
| "cat_names sep applist (c # cs) =
     (case app_name c of
        None \<Rightarrow> Inl NullDeref
      | Some n \<Rightarrow>
          if length (applist @ n @ sep) \<ge> APPLIST_SIZE then Inl OutOfBounds
          else cat_names sep (applist @ n @ sep) cs)"

definition IvyGetApplicationList :: "string \<Rightarrow> 'a ivy_state_scheme \<Rightarrow> c_fault + string" where
  "IvyGetApplicationList sep s = cat_names sep [] (allClients s)"

definition MAX_REGEXP :: nat where
  "MAX_REGEXP = 4096"

text \<open>The pointers up to the null one at the end.\<close>

definition IvyGetApplicationMessages :: "ivy_client \<Rightarrow> string list" where
  "IvyGetApplicationMessages app =
     map the (takeWhile (\<lambda>r. r \<noteq> None) (map str_regexp (take MAX_REGEXP (srcRegList app))))"

end
