(* ===== verification/Ivy_Start.thy ===== *)
theory Ivy_Start
  imports Ivy_Api
begin

unbundle bit_operations_syntax

text \<open>
  \<^verbatim>\<open>IvyStart\<close> of \<^verbatim>\<open>src/ivy.c\<close>: the port and the list of networks in the name of the bus, the
  server and supervision sockets, and the announcements. \<^verbatim>\<open>char\<close> is signed; shifts of \<^verbatim>\<open>int\<close> into
  the sign bit wrap as compilers do, a negative shift count is a fault.
\<close>

subsection \<open>The list of networks\<close>

text \<open>The variables of the loop. \<open>numdigit\<close> is never counted up.\<close>

record net_state =
  nmask :: "32 word"
  elem :: nat
  numdigit :: nat
  numelem :: nat
  nerror :: bool

definition net_init :: "bool \<Rightarrow> net_state" where
  "net_init err = \<lparr>nmask = 0xFFFFFFFF, elem = 0, numdigit = 0, numelem = 0, nerror = err\<rparr>"

text \<open>
  One character, \<open>None\<close> for the final NUL; the second result is the address to announce on. The
  shift count is \<^verbatim>\<open>8*(3-numelem)\<close>.
\<close>

definition is_sep :: "char option \<Rightarrow> bool" where
  "is_sep c \<longleftrightarrow> c = None \<or> c = Some (CHR '','') \<or> c = Some (CHR '':'')"

definition put_elem :: "net_state \<Rightarrow> 32 word" where
  "put_elem st =
     (nmask st XOR push_bit (8 * (3 - numelem st)) 0xFF) OR push_bit (8 * (3 - numelem st)) (of_nat (elem st))"

definition net_char :: "char option \<Rightarrow> net_state \<Rightarrow> c_fault + (net_state \<times> 32 word option)" where
  "net_char c st =
     (if \<not> nerror st \<and> (\<exists>x. c = Some x \<and> is_digit x) then
        (if numdigit st < 3 \<and> numelem st < 4
         then Inr (st\<lparr>elem := (10 * elem st + digit_val (the c)) mod 256\<rparr>, None)
         else Inr (st\<lparr>nerror := True\<rparr>, None))
      else if \<not> nerror st \<and> (c = Some (CHR ''.'') \<or> is_sep c) then
        (if numelem st > 3 then Inl BadShift
         else if c = Some (CHR ''.'')
         then Inr (st\<lparr>nmask := put_elem st, numelem := numelem st + 1, numdigit := 0, elem := 0\<rparr>, None)
         else Inr (st\<lparr>nmask := 0xFFFFFFFF, numelem := 0, numdigit := 0, elem := 0\<rparr>, Some (put_elem st)))
      else if is_sep c then Inr (net_init False, None)
      else if c = Some (CHR '' '') then Inr (st, None)
      else Inr (st\<lparr>nerror := True\<rparr>, None))"

fun net_list :: "string \<Rightarrow> net_state \<Rightarrow> c_fault option \<times> 32 word list" where
  "net_list p st =
     (case net_char (case p of [] \<Rightarrow> None | c # _ \<Rightarrow> Some c) st of
        Inl e \<Rightarrow> (Some e, [])
      | Inr (st', out) \<Rightarrow>
          (let here = (case out of None \<Rightarrow> [] | Some m \<Rightarrow> [m])
           in case p of
                [] \<Rightarrow> (None, here)
              | c # cs \<Rightarrow>
                  if c = CHR '':'' then (None, here)
                  else (let (e, rest) = net_list cs st' in (e, here @ rest))))"

declare net_list.simps [simp del]

subsection \<open>Starting\<close>

definition DefaultIvyBus :: string where
  "DefaultIvyBus = ''127.255.255.255:2010''"

definition IVY_DEFAULT_BUS :: nat where
  "IVY_DEFAULT_BUS = 2010"

text \<open>\<^verbatim>\<open>strrchr (p, ':')\<close>, as what is before and after it.\<close>

definition last_colon :: "string \<Rightarrow> (string \<times> string) option" where
  "last_colon p =
     map_option (\<lambda>(a, b). (rev b, rev a)) (split_at (CHR '':'') (rev p))"

text \<open>
  The environment: the variable \<^verbatim>\<open>IVYBUS\<close>, the parser and printer of IPv6 addresses of the C
  library, what the uninitialised array \<^verbatim>\<open>addr\<close> holds, the answers of the kernel, \<^verbatim>\<open>rand\<close>.
\<close>

record start_env =
  se_ivybus :: "string option"
  se_pton6 :: "string \<Rightarrow> nat option"
  se_ntop6 :: "nat \<Rightarrow> string option"
  se_stack_addr :: string
  se_server :: sock_answers
  se_broadcast :: sock_answers
  se_joined :: "nat \<Rightarrow> bool"
  se_ttl :: "nat \<Rightarrow> bool"
  se_rand :: "nat \<Rightarrow> nat"

definition bus_name :: "start_env \<Rightarrow> string \<Rightarrow> string" where
  "bus_name env bus =
     (if bus \<noteq> [] then bus
      else case se_ivybus env of
        Some (c # cs) \<Rightarrow> c # cs
      | _ \<Rightarrow> DefaultIvyBus)"

text \<open>The port, and the text in \<^verbatim>\<open>addr\<close>; a text of 1024 bytes or more does not fit.\<close>

definition bus_port :: "start_env \<Rightarrow> string \<Rightarrow> c_fault + (nat \<times> string)" where
  "bus_port env p =
     (case last_colon p of
        None \<Rightarrow> Inr (IVY_DEFAULT_BUS, se_stack_addr env)
      | Some (before, after) \<Rightarrow>
          (let port = nat (atoi after mod 65536)
           in if port = 0 then Inr (IVY_DEFAULT_BUS, se_stack_addr env)
              else if length before \<ge> 1024 then Inl OutOfBounds
              else Inr (port, before)))"

definition announcement :: "'a ivy_state_scheme \<Rightarrow> string" where
  "announcement s =
     announce_line IVYMAJOR_VERSION (ApplicationPort s) (ApplicationID s) (cstring_arg (ApplicationName s))"

definition IN_MULTICAST :: "32 word \<Rightarrow> bool" where
  "IN_MULTICAST m \<longleftrightarrow> m AND 0xF0000000 = 0xE0000000"

definition IN6_IS_ADDR_MULTICAST :: "nat \<Rightarrow> bool" where
  "IN6_IS_ADDR_MULTICAST a \<longleftrightarrow> a div 2 ^ 120 = 255"

definition announce_on :: "start_env \<Rightarrow> 32 word \<Rightarrow> 'a ivy_state_scheme \<Rightarrow> 'a ivy_state_scheme" where
  "announce_on env m s =
     (let s1 = (if IN_MULTICAST m
                then snd (SocketAddMember (se_joined env (unat m)) (se_ttl env (unat m)) (broadcast s) (unat m) s) else s)
      in SocketSendBroadcast (broadcast s1) (unat m) (SupervisionPort s1) (announcement s1) s1)"

definition announce_on6 :: "start_env \<Rightarrow> nat \<Rightarrow> 'a ivy_state_scheme \<Rightarrow> 'a ivy_state_scheme" where
  "announce_on6 env a s =
     (if se_ntop6 env a = None then s
      else (let s1 = (if IN6_IS_ADDR_MULTICAST a
                      then snd (SocketAddMember6 (se_joined env a) (broadcast s) a s) else s)
            in SocketSendBroadcast6 (broadcast s1) a (SupervisionPort s1) (announcement s1) s1))"

text \<open>The sockets and the identity of the application.\<close>

definition start_sockets :: "start_env \<Rightarrow> nat \<Rightarrow> bool \<Rightarrow> 'a ivy_state_scheme \<Rightarrow> 'a ivy_state_scheme" where
  "start_sockets env port v6 s =
     (let s1 = s\<lparr>SupervisionPort := port, ivy_ipv6 := ivy_ipv6 s \<or> v6\<rparr>;
          (srv, s2) = SocketServer (se_server env) (ivy_ipv6 s1) 0 FN_ClientCreate FN_ClientDelete
                        FN_ClientDecongestion FN_Receive s1;
          s3 = s2\<lparr>serv := srv, ApplicationPort := SocketServerGetPort srv s2\<rparr>;
          s4 = s3\<lparr>ApplicationID := GenApplicationUniqueIdentifier (se_rand env) s3\<rparr>;
          (b, s5) = SocketBroadcastCreate (se_broadcast env) (ivy_ipv6 s4) port NULL FN_BroadcastReceive s4
      in if exited s2 then s2 else s5\<lparr>broadcast := b\<rparr>)"

text \<open>
  The sockets stay IPv6 once a bus was started with an IPv6 address. A name that is not one then
  leaves \<^verbatim>\<open>ipv6addr\<close> unset, and the code broadcasts on it all the same.
\<close>

definition IvyStart :: "start_env \<Rightarrow> string \<Rightarrow> 'a ivy_state_scheme \<Rightarrow> 'a ivy_state_scheme" where
  "IvyStart env bus s =
     (let p = bus_name env bus
      in case bus_port env p of
           Inl e \<Rightarrow> crash e s
         | Inr (port, addr) \<Rightarrow>
             (let v6 = se_pton6 env addr;
                  s1 = start_sockets env port (v6 \<noteq> None) s;
                  p1 = (case p of c # _ \<Rightarrow> if c = CHR '':'' \<and> last_colon p = Some ([], tl p) then DefaultIvyBus else p
                                | [] \<Rightarrow> p)
              in if exited s1 then s1
                 else if ivy_ipv6 s1 then (case v6 of None \<Rightarrow> crash ReadUninit s1 | Some a \<Rightarrow> announce_on6 env a s1)
                 else (case net_list p1 (net_init False) of
                   (err, ms) \<Rightarrow>
                     (let s2 = fold (announce_on env) ms s1
                      in case err of None \<Rightarrow> s2 | Some e \<Rightarrow> crash e s2))))"

subsection \<open>Reading a list of networks\<close>

fun join :: "char \<Rightarrow> string list \<Rightarrow> string" where
  "join c [] = []"
| "join c [t] = t"
| "join c (t # ts) = t @ c # join c ts"

definition net_text :: "nat list \<Rightarrow> string" where
  "net_text es = join (CHR ''.'') (map dec_nat es)"

text \<open>The address meant: the given bytes, then 255.\<close>

definition net_byte :: "nat list \<Rightarrow> nat \<Rightarrow> nat" where
  "net_byte es i = (if i < length es then es ! i else 255)"

definition net_word :: "nat \<Rightarrow> nat \<Rightarrow> nat \<Rightarrow> nat \<Rightarrow> 32 word" where
  "net_word a b c d = push_bit 24 (of_nat a) OR push_bit 16 (of_nat b) OR push_bit 8 (of_nat c) OR of_nat d"

definition net_addr :: "nat list \<Rightarrow> 32 word" where
  "net_addr es = net_word (net_byte es 0) (net_byte es 1) (net_byte es 2) (net_byte es 3)"

definition net_ok :: "nat list \<Rightarrow> bool" where
  "net_ok es \<longleftrightarrow> 0 < length es \<and> length es \<le> 4 \<and> (\<forall>e \<in> set es. e < 256)"

lemma bit_byte: "a < 256 \<Longrightarrow> bit (of_nat a :: 32 word) n \<longleftrightarrow> n < 8 \<and> bit a n"
proof -
  assume "a < 256"
  then have "take_bit 8 a = a" by (simp add: take_bit_eq_mod)
  then have "bit a n \<longleftrightarrow> n < 8 \<and> bit a n" by (metis bit_take_bit_iff)
  then show ?thesis by (auto simp: bit_of_nat_iff)
qed

lemma bit_ff: "bit (0xFF :: 32 word) n \<longleftrightarrow> n < 8" "bit (255 :: nat) n \<longleftrightarrow> n < 8"
proof -
  have "(0xFF :: 32 word) = mask 8" "(255 :: nat) = mask 8" by (simp_all add: mask_eq_exp_minus_1)
  then have "bit (0xFF :: 32 word) n \<longleftrightarrow> bit (mask 8 :: 32 word) n" "bit (255 :: nat) n \<longleftrightarrow> bit (mask 8 :: nat) n"
    by (simp_all only:)
  then show "bit (0xFF :: 32 word) n \<longleftrightarrow> n < 8" "bit (255 :: nat) n \<longleftrightarrow> n < 8"
    unfolding bit_mask_iff by auto
qed

lemma bit_all: "bit (0xFFFFFFFF :: 32 word) n \<longleftrightarrow> n < 32"
proof -
  have "(0xFFFFFFFF :: 32 word) = mask 32" by (simp add: mask_eq_exp_minus_1)
  then have "bit (0xFFFFFFFF :: 32 word) n \<longleftrightarrow> bit (mask 32 :: 32 word) n" by (simp only:)
  then show ?thesis unfolding bit_mask_iff by auto
qed

text \<open>The masks of one to four elements.\<close>

definition put_byte :: "nat \<Rightarrow> nat \<Rightarrow> 32 word \<Rightarrow> 32 word" where
  "put_byte k e m = (m XOR push_bit (8 * (3 - k)) 0xFF) OR push_bit (8 * (3 - k)) (of_nat e)"

lemma put_elem_byte: "put_elem st = put_byte (numelem st) (elem st) (nmask st)"
  by (simp add: put_elem_def put_byte_def)

fun put_bytes :: "nat \<Rightarrow> nat list \<Rightarrow> 32 word \<Rightarrow> 32 word" where
  "put_bytes k [] m = m"
| "put_bytes k (e # es) m = put_bytes (Suc k) es (put_byte k e m)"

lemma bit_put_byte:
  assumes "e < 256"
  shows "bit (put_byte k e m) n \<longleftrightarrow> (if 8 * (3 - k) \<le> n \<and> n < 8 * (3 - k) + 8
    then n < 32 \<and> (\<not> bit m n \<or> bit e (n - 8 * (3 - k))) else bit m n)"
proof -
  obtain F :: "32 word" where F: "F = 0xFF" by simp
  have f: "bit F j \<longleftrightarrow> j < 8" for j unfolding F by (rule bit_ff)
  have l: "bit m n \<Longrightarrow> n < 32" using bit_imp_le_length [of m n] by simp
  show ?thesis unfolding put_byte_def F [symmetric]
    using l by (auto simp: bit_or_iff bit_xor_iff bit_push_bit_iff f bit_byte [OF assms])
qed

lemma bit_net_word:
  assumes "a < 256" "b < 256" "c < 256" "d < 256"
  shows "bit (net_word a b c d) n \<longleftrightarrow> n < 32 \<and> (if n < 8 then bit d n else if n < 16 then bit c (n - 8)
         else if n < 24 then bit b (n - 16) else bit a (n - 24))"
  by (auto simp: net_word_def bit_or_iff bit_push_bit_iff bit_byte assms)

lemma byte_cases:
  fixes n :: nat
  obtains "n < 8" | "8 \<le> n" "n < 16" "\<not> n < 8" | "16 \<le> n" "n < 24" "\<not> n < 16" "\<not> n < 8"
    | "24 \<le> n" "n < 32" "\<not> n < 24" "\<not> n < 16" "\<not> n < 8" | "32 \<le> n" "\<not> n < 32"
  by linarith

lemma put_byte_0:
  assumes "a < 256" "\<And>n. bit m n \<longleftrightarrow> n < 32"
  shows "put_byte 0 a m = net_word a 255 255 255"
proof (rule bit_eqI)
  fix n
  show "bit (put_byte 0 a m) n = bit (net_word a 255 255 255) n"
    by (cases n rule: byte_cases) (simp_all add: bit_put_byte bit_net_word assms bit_ff less_diff_conv2)
qed

lemma put_byte_1:
  assumes "a < 256" "b < 256"
  shows "put_byte (Suc 0) b (net_word a 255 255 255) = net_word a b 255 255"
proof (rule bit_eqI)
  fix n
  show "bit (put_byte (Suc 0) b (net_word a 255 255 255)) n = bit (net_word a b 255 255) n"
    by (cases n rule: byte_cases) (simp_all add: bit_put_byte bit_net_word assms bit_ff less_diff_conv2)
qed

lemma put_byte_2:
  assumes "a < 256" "b < 256" "c < 256"
  shows "put_byte (Suc (Suc 0)) c (net_word a b 255 255) = net_word a b c 255"
proof (rule bit_eqI)
  fix n
  show "bit (put_byte (Suc (Suc 0)) c (net_word a b 255 255)) n = bit (net_word a b c 255) n"
    by (cases n rule: byte_cases) (simp_all add: bit_put_byte bit_net_word assms bit_ff less_diff_conv2)
qed

lemma put_byte_3:
  assumes "a < 256" "b < 256" "c < 256" "d < 256"
  shows "put_byte (Suc (Suc (Suc 0))) d (net_word a b c 255) = net_word a b c d"
proof (rule bit_eqI)
  fix n
  show "bit (put_byte (Suc (Suc (Suc 0))) d (net_word a b c 255)) n = bit (net_word a b c d) n"
    by (cases n rule: byte_cases) (simp_all add: bit_put_byte bit_net_word assms bit_ff less_diff_conv2)
qed

lemma put_bytes_addr:
  assumes "net_ok es"
  shows "put_bytes 0 es 0xFFFFFFFF = net_addr es"
proof -
  consider a where "es = [a]" | a b where "es = [a, b]" | a b c where "es = [a, b, c]"
    | a b c d where "es = [a, b, c, d]"
    using assms by (auto simp: net_ok_def le_Suc_eq length_Suc_conv numeral_eq_Suc)
  then show ?thesis
    by cases (use assms in \<open>simp_all add: net_ok_def net_addr_def net_byte_def numeral_2_eq_2 numeral_3_eq_3
      put_byte_0 [OF _ bit_all] put_byte_1 put_byte_2 put_byte_3\<close>)
qed

text \<open>Any digits at all count, modulo 256.\<close>

lemma digits_val_mod: "digits_val (a mod 256) ds mod 256 = digits_val a ds mod 256"
proof (induction ds arbitrary: a)
  case (Cons c ds)
  have "(10 * (a mod 256) + digit_val c) mod 256 = (10 * a + digit_val c) mod 256"
    by (metis mod_add_left_eq mod_mult_right_eq)
  then show ?case using Cons.IH [of "10 * (a mod 256) + digit_val c"] Cons.IH [of "10 * a + digit_val c"]
    by simp
qed simp

lemma net_list_digits:
  "\<forall>c \<in> set ds. is_digit c \<Longrightarrow> \<not> nerror st \<Longrightarrow> numdigit st < 3 \<Longrightarrow> numelem st < 4 \<Longrightarrow> elem st < 256 \<Longrightarrow>
   net_list (ds @ r) st = net_list r (st\<lparr>elem := digits_val (elem st) ds mod 256\<rparr>)"
proof (induction ds arbitrary: st)
  case Nil
  then show ?case by (simp add: digits_val_def)
next
  case (Cons c ds)
  let ?st = "st\<lparr>elem := (10 * elem st + digit_val c) mod 256\<rparr>"
  have "net_char (Some c) st = Inr (?st, None)" using Cons.prems by (simp add: net_char_def)
  moreover have "c \<noteq> CHR '':''" using Cons.prems(1) by (auto simp: is_digit_def)
  ultimately have "net_list ((c # ds) @ r) st = net_list (ds @ r) ?st"
    by (subst net_list.simps) (simp split: prod.splits)
  also have "\<dots> = net_list r (?st\<lparr>elem := digits_val (elem ?st) ds mod 256\<rparr>)"
    using Cons.prems by (intro Cons.IH) simp_all
  also have "digits_val (elem ?st) ds mod 256 = digits_val (elem st) (c # ds) mod 256"
    by (simp add: digits_val_mod)
  finally show ?case by simp
qed

lemma net_list_number:
  "\<not> nerror st \<Longrightarrow> numdigit st = 0 \<Longrightarrow> numelem st < 4 \<Longrightarrow> elem st = 0 \<Longrightarrow> e < 256 \<Longrightarrow>
   net_list (dec_nat e @ r) st = net_list r (st\<lparr>elem := e\<rparr>)"
  using net_list_digits [of "dec_nat e" st r] dec_nat_digits [of e] by simp

lemma net_list_dot:
  "\<not> nerror st \<Longrightarrow> numelem st < 4 \<Longrightarrow>
   net_list (CHR ''.'' # r) st = net_list r (st\<lparr>nmask := put_elem st, numelem := numelem st + 1, numdigit := 0, elem := 0\<rparr>)"
  by (subst net_list.simps) (simp add: net_char_def is_digit_def split: prod.splits)

lemma net_list_comma:
  "\<not> nerror st \<Longrightarrow> numelem st < 4 \<Longrightarrow>
   net_list (CHR '','' # r) st = (fst (net_list r (net_init False)), put_elem st # snd (net_list r (net_init False)))"
proof -
  assume a: "\<not> nerror st" "numelem st < 4"
  then have "st\<lparr>nmask := 0xFFFFFFFF, numelem := 0, numdigit := 0, elem := 0\<rparr> = net_init False"
    by (cases st) (simp add: net_init_def)
  then show ?thesis using a
    by (subst net_list.simps) (simp add: net_char_def is_digit_def is_sep_def split: prod.splits)
qed

definition net_tail :: "string \<Rightarrow> bool" where
  "net_tail r \<longleftrightarrow> (case r of [] \<Rightarrow> True | c # _ \<Rightarrow> c = CHR '':'')"

lemma net_list_tail:
  "\<not> nerror st \<Longrightarrow> numelem st < 4 \<Longrightarrow> net_tail r \<Longrightarrow> net_list r st = (None, [put_elem st])"
  by (subst net_list.simps) (auto simp: net_char_def is_digit_def is_sep_def net_tail_def split: list.splits)

text \<open>One network, from where \<open>k\<close> of its elements have been read.\<close>

lemma net_list_net:
  "es \<noteq> [] \<Longrightarrow> k + length es \<le> 4 \<Longrightarrow> \<forall>e \<in> set es. e < 256 \<Longrightarrow>
   net_list (net_text es @ r) \<lparr>nmask = m, elem = 0, numdigit = 0, numelem = k, nerror = False\<rparr>
     = net_list r \<lparr>nmask = put_bytes k (butlast es) m, elem = last es, numdigit = 0,
         numelem = k + length es - 1, nerror = False\<rparr>"
proof (induction es arbitrary: k m)
  case (Cons e es)
  let ?st = "\<lparr>nmask = m, elem = 0, numdigit = 0, numelem = k, nerror = False\<rparr>"
  show ?case
  proof (cases es)
    case Nil
    then show ?thesis using Cons.prems net_list_number [of ?st e r] by (simp add: net_text_def)
  next
    case (Cons e2 es2)
    have t: "net_text (e # es) @ r = dec_nat e @ CHR ''.'' # net_text es @ r"
      using Cons by (simp add: net_text_def)
    have "net_list (net_text (e # es) @ r) ?st = net_list (CHR ''.'' # net_text es @ r) (?st\<lparr>elem := e\<rparr>)"
      unfolding t using Cons.prems by (intro net_list_number) simp_all
    also have "\<dots> = net_list (net_text es @ r)
        \<lparr>nmask = put_byte k e m, elem = 0, numdigit = 0, numelem = Suc k, nerror = False\<rparr>"
      using Cons.prems by (subst net_list_dot) (simp_all add: put_elem_byte)
    also have "\<dots> = net_list r \<lparr>nmask = put_bytes (Suc k) (butlast es) (put_byte k e m), elem = last es, numdigit = 0,
         numelem = Suc k + length es - 1, nerror = False\<rparr>"
      using Cons Cons.prems by (intro Cons.IH) simp_all
    finally show ?thesis using Cons by simp
  qed
qed simp

lemma put_bytes_last: "es \<noteq> [] \<Longrightarrow> put_byte (k + length es - 1) (last es) (put_bytes k (butlast es) m) = put_bytes k es m"
proof (induction es arbitrary: k m)
  case (Cons e es)
  then show ?case using Cons.IH [of "Suc k" "put_byte k e m"] by (cases es) simp_all
qed simp

lemma net_list_text:
  "nets \<noteq> [] \<Longrightarrow> \<forall>es \<in> set nets. net_ok es \<Longrightarrow> net_tail r \<Longrightarrow>
   net_list (join (CHR '','') (map net_text nets) @ r) (net_init False) = (None, map net_addr nets)"
proof (induction nets)
  case (Cons es nets)
  have ok: "net_ok es" using Cons.prems by simp
  then have es: "es \<noteq> []" "0 + length es \<le> 4" "\<forall>e \<in> set es. e < 256" by (auto simp: net_ok_def)
  let ?st = "\<lparr>nmask = put_bytes 0 (butlast es) 0xFFFFFFFF, elem = last es, numdigit = 0,
         numelem = 0 + length es - 1, nerror = False\<rparr>"
  have n: "net_list (net_text es @ r') (net_init False) = net_list r' ?st" for r'
    unfolding net_init_def by (rule net_list_net [OF es])
  have m: "put_elem ?st = net_addr es"
    using put_bytes_last [OF es(1), of 0 "0xFFFFFFFF"] put_bytes_addr [OF ok] by (simp add: put_elem_byte)
  have l: "\<not> nerror ?st" "numelem ?st < 4" using es(1,2) by (cases es; simp)+
  show ?case
  proof (cases nets)
    case Nil
    then show ?thesis using n net_list_tail [OF l Cons.prems(3)] m by simp
  next
    case (Cons es2 nets2)
    then have t: "join (CHR '','') (map net_text (es # nets)) @ r
        = net_text es @ CHR '','' # join (CHR '','') (map net_text nets) @ r" by simp
    have "net_list (join (CHR '','') (map net_text nets) @ r) (net_init False) = (None, map net_addr nets)"
      using Cons Cons.prems by (intro Cons.IH) simp_all
    then show ?thesis unfolding t n using net_list_comma [OF l] m by simp
  qed
qed simp

subsection \<open>The whole name of the bus\<close>

lemma dec_nat_no: "\<not> is_digit c \<Longrightarrow> c \<notin> set (dec_nat n)"
  using dec_nat_digits [of n] by blast

lemma last_colon_append: "CHR '':'' \<notin> set b \<Longrightarrow> last_colon (a @ CHR '':'' # b) = Some (a, b)"
  by (simp add: last_colon_def)

lemma atoi_dec_nat: "atoi (dec_nat n) = int n"
  using scan_int_dec_nat [of "[]" n] by (simp add: atoi_def)

lemma bus_port_named:
  assumes "0 < port" "port < 65536" "length a < 1024"
  shows "bus_port env (a @ CHR '':'' # dec_nat port) = Inr (port, a)"
  using assms dec_nat_no [of "CHR '':''" port]
  by (simp add: bus_port_def last_colon_append atoi_dec_nat is_digit_def nat_mod_as_int)

lemma channel_add_ipv6 [simp]:
  fixes s :: "'a ivy_state_scheme"
  shows "ivy_ipv6 (snd (IvyChannelAdd fd d h r w s)) = ivy_ipv6 s" "exited (snd (IvyChannelAdd fd d h r w s)) = exited s"
  by (simp_all add: IvyChannelAdd_def FD_SET_open_def raise_highest_def crash_def Let_def)

lemma create_sockets_ipv6 [simp]:
  fixes s :: "'a ivy_state_scheme"
  shows "ivy_ipv6 (snd (SocketServer os v6 port c d e i s)) = ivy_ipv6 s"
    "ivy_ipv6 (snd (SocketBroadcastCreate os v6 port a i s)) = ivy_ipv6 s"
    "exited (snd (SocketBroadcastCreate os v6 port a i s)) = exited s"
  by (simp_all add: SocketServer_def SocketBroadcastCreate_def exit_process_def case_prod_unfold Let_def
      split: option.splits)

lemma server_exited:
  fixes s :: "'a ivy_state_scheme"
  assumes "os_socket os \<noteq> None" "os_setsockopt os" "os_bind os" "os_getsockname os \<noteq> None" "os_listen os"
  shows "exited (snd (SocketServer os v6 port c d e i s)) = exited s"
  using assms by (auto simp: SocketServer_def case_prod_unfold Let_def)

lemma start_sockets_ipv6: "ivy_ipv6 (start_sockets env port v6 s) = (ivy_ipv6 s \<or> v6)"
  by (simp add: start_sockets_def case_prod_unfold Let_def)

lemma start_sockets_exited:
  assumes "\<not> exited s" "os_socket (se_server env) \<noteq> None" "os_setsockopt (se_server env)" "os_bind (se_server env)"
    "os_getsockname (se_server env) \<noteq> None" "os_listen (se_server env)"
  shows "\<not> exited (start_sockets env port v6 s)"
  using assms by (simp add: start_sockets_def case_prod_unfold Let_def server_exited)

text \<open>The server socket can be made.\<close>

definition server_made :: "start_env \<Rightarrow> bool" where
  "server_made env \<longleftrightarrow> os_socket (se_server env) \<noteq> None \<and> os_setsockopt (se_server env) \<and> os_bind (se_server env)
     \<and> os_getsockname (se_server env) \<noteq> None \<and> os_listen (se_server env)"

lemma net_list_bus:
  assumes "nets \<noteq> []" "\<forall>es \<in> set nets. net_ok es"
  shows "net_list (join (CHR '','') (map net_text nets) @ CHR '':'' # r) (net_init False) = (None, map net_addr nets)"
  using assms by (intro net_list_text) (simp_all add: net_tail_def)

lemma join_nonempty: "nets \<noteq> [] \<Longrightarrow> \<forall>es \<in> set nets. net_ok es \<Longrightarrow> join (CHR '','') (map net_text nets) \<noteq> []"
proof -
  assume a: "nets \<noteq> []" "\<forall>es \<in> set nets. net_ok es"
  obtain es ns where n: "nets = es # ns" using a(1) by (cases nets) auto
  obtain e es' where e: "es = e # es'" using a(2) n by (cases es) (auto simp: net_ok_def)
  have "net_text es \<noteq> []" unfolding e net_text_def by (cases es') simp_all
  then show ?thesis unfolding n by (cases ns) simp_all
qed

lemma start_networks:
  assumes nets: "nets \<noteq> []" "\<forall>es \<in> set nets. net_ok es"
    and port: "0 < port" "port < 65536"
    and len: "length (join (CHR '','') (map net_text nets)) < 1024"
    and v4: "se_pton6 env (join (CHR '','') (map net_text nets)) = None" "\<not> ivy_ipv6 s"
    and srv: "server_made env" "\<not> exited s"
  shows "IvyStart env (join (CHR '','') (map net_text nets) @ CHR '':'' # dec_nat port) s
    = fold (announce_on env) (map net_addr nets) (start_sockets env port False s)"
proof -
  let ?a = "join (CHR '','') (map net_text nets)"
  let ?p = "?a @ CHR '':'' # dec_nat port"
  have c: "CHR '':'' \<notin> set (dec_nat port)" by (rule dec_nat_no) (simp add: is_digit_def)
  have n: "bus_name env ?p = ?p" by (simp add: bus_name_def)
  have d: "last_colon ?p = Some (?a, dec_nat port)" by (rule last_colon_append [OF c])
  have p1: "(case ?p of c # _ \<Rightarrow> if c = CHR '':'' \<and> last_colon ?p = Some ([], tl ?p) then DefaultIvyBus else ?p
      | [] \<Rightarrow> ?p) = ?p"
    unfolding d using join_nonempty [OF nets] by (simp split: list.splits)
  have x: "\<not> exited (start_sockets env port False s)"
    using srv unfolding server_made_def by (intro start_sockets_exited) simp_all
  show ?thesis
    unfolding IvyStart_def n Let_def bus_port_named [OF port len] p1
    using x v4 by (simp add: start_sockets_ipv6 net_list_bus [OF nets])
qed

text \<open>
  (C19) A bus named by a list of networks and a port, such as \<^verbatim>\<open>10.0,192.168.1:2010\<close>, is announced on
  exactly the networks listed, in their order, each completed with bytes 255: \<^verbatim>\<open>IvyStart\<close> makes its
  server and supervision sockets on that port, then sends one announcement per network and does
  nothing else.
\<close>

theorem bus_networks:
  assumes "nets \<noteq> []" "\<forall>es \<in> set nets. net_ok es" "0 < port" "port < 65536"
    and "length (join (CHR '','') (map net_text nets)) < 1024"
    and "se_pton6 env (join (CHR '','') (map net_text nets)) = None" "\<not> ivy_ipv6 s"
    and "server_made env" "\<not> exited s"
  shows "IvyStart env (join (CHR '','') (map net_text nets) @ CHR '':'' # dec_nat port) s
    = fold (announce_on env) (map net_addr nets) (start_sockets env port False s)"
  by (rule start_networks [OF assms])

definition start_env_4 :: start_env where
  "start_env_4 = \<lparr>se_ivybus = None, se_pton6 = (\<lambda>_. None), se_ntop6 = (\<lambda>_. None), se_stack_addr = [],
     se_server = \<lparr>os_socket = Some 3, os_setsockopt = True, os_bind = True, os_getsockname = Some 40000,
       os_listen = True, os_connect = False\<rparr>,
     se_broadcast = \<lparr>os_socket = Some 4, os_setsockopt = True, os_bind = True, os_getsockname = Some 2010,
       os_listen = True, os_connect = False\<rparr>,
     se_joined = (\<lambda>_. True), se_ttl = (\<lambda>_. True), se_rand = (\<lambda>n. n)\<rparr>"

theorem bus_networks_witness:
  "IvyStart start_env_4 ''10.0,192:2010'' (bus_on no_sockets)
    = fold (announce_on start_env_4) [net_word 10 0 255 255, net_word 192 255 255 255]
        (start_sockets start_env_4 2010 False (bus_on no_sockets))"
proof -
  have t: "join (CHR '','') (map net_text [[10, 0], [192]]) = ''10.0,192''" "dec_nat 2010 = ''2010''"
    by (simp_all add: net_text_def dec_nat.simps digit_char_def char_of_def bit_0)
  have "IvyStart start_env_4 (join (CHR '','') (map net_text [[10, 0], [192]]) @ CHR '':'' # dec_nat 2010) (bus_on no_sockets)
    = fold (announce_on start_env_4) (map net_addr [[10, 0], [192]])
        (start_sockets start_env_4 2010 False (bus_on no_sockets))"
    by (rule bus_networks) (simp_all only: t length_append list.size, simp_all add: net_ok_def start_env_4_def
        server_made_def bus_on_def no_sockets_def sock_state.defs ivy_state.defs)
  then show ?thesis unfolding t by (simp add: net_addr_def net_byte_def)
qed

text \<open>Elements that are not bytes, and too many of them.\<close>

lemma net_list_long:
  assumes "\<forall>c \<in> set ds. is_digit c" "net_tail r"
  shows "net_list (ds @ r) (net_init False) = (None, [net_addr [digits_val 0 ds mod 256]])"
proof -
  let ?e = "digits_val 0 ds mod 256"
  have "net_list (ds @ r) (net_init False) = net_list r ((net_init False)\<lparr>elem := ?e\<rparr>)"
    using net_list_digits [of ds "net_init False" r] assms(1) by (simp add: net_init_def)
  also have "\<dots> = (None, [put_elem ((net_init False)\<lparr>elem := ?e\<rparr>)])"
    using assms(2) by (intro net_list_tail) (simp_all add: net_init_def)
  also have "put_elem ((net_init False)\<lparr>elem := ?e\<rparr>) = net_addr [?e]"
    using put_bytes_addr [of "[?e]"] by (simp add: put_elem_byte net_init_def net_ok_def)
  finally show ?thesis .
qed

lemma net_list_five:
  assumes "net_ok es" "length es = 4" "net_tail r"
  shows "net_list (net_text es @ CHR ''.'' # r) (net_init False) = (Some BadShift, [])"
proof -
  have es: "es \<noteq> []" "0 + length es \<le> 4" "\<forall>e \<in> set es. e < 256" using assms by (auto simp: net_ok_def)
  have "net_list (net_text es @ CHR ''.'' # r) (net_init False)
    = net_list (CHR ''.'' # r) \<lparr>nmask = put_bytes 0 (butlast es) 0xFFFFFFFF, elem = last es, numdigit = 0,
         numelem = 0 + length es - 1, nerror = False\<rparr>"
    unfolding net_init_def by (rule net_list_net [OF es])
  also have "\<dots> = (Some BadShift, [])"
    using assms(2,3) by (subst net_list_dot)
      (auto simp: net_list.simps [of r] net_char_def is_digit_def is_sep_def net_tail_def split: list.splits)
  finally show ?thesis .
qed

text \<open>
  The elements of an address are not checked, because the digits are never counted: a run of
  digits of any length and value is taken modulo 256 as one byte, and a point after a fourth element
  makes the parser shift by a negative count.
\<close>

theorem bus_elements_unchecked:
  "(\<forall>ds r. (\<forall>c \<in> set ds. is_digit c) \<longrightarrow> net_tail r \<longrightarrow>
      net_list (ds @ r) (net_init False) = (None, [net_addr [digits_val 0 ds mod 256]]))
   \<and> (\<forall>es r. net_ok es \<longrightarrow> length es = 4 \<longrightarrow> net_tail r \<longrightarrow>
      net_list (net_text es @ CHR ''.'' # r) (net_init False) = (Some BadShift, []))"
  using net_list_long net_list_five by blast

theorem bus_elements_unchecked_witness:
  "net_list ''300:2010'' (net_init False) = (None, [net_addr [44]])
   \<and> net_list ''1.2.3.4.'' (net_init False) = (Some BadShift, [])"
proof -
  have "net_list (''300'' @ '':2010'') (net_init False) = (None, [net_addr [digits_val 0 ''300'' mod 256]])"
    by (rule bus_elements_unchecked [THEN conjunct1, rule_format]) (auto simp: is_digit_def net_tail_def)
  moreover have "net_list (net_text [1, 2, 3, 4] @ CHR ''.'' # []) (net_init False) = (Some BadShift, [])"
    by (rule bus_elements_unchecked [THEN conjunct2, rule_format]) (simp_all add: net_ok_def net_tail_def)
  moreover have "net_text [1, 2, 3, 4] = ''1.2.3.4''"
    by (simp add: net_text_def dec_nat.simps digit_char_def char_of_def bit_0)
  ultimately show ?thesis by (simp add: digit_val_def)
qed

end
