(* ===== verification/Ivy_Inv.thy ===== *)
theory Ivy_Inv
  imports Ivy_Api
begin

text \<open>
  The invariant of the whole bus: what holds between the dictionary, the peers, the sockets and the
  subscriptions of the application in every state the library can reach, whatever the peers and the
  kernel do. It is stated on the core of a state, the identities of its objects and the pointers
  between them; most operations leave the core alone.
\<close>

subsection \<open>The core of a state\<close>

definition peer_core :: "ivy_client \<Rightarrow> addr \<times> addr" where
  "peer_core p = (aid p, aclient p)"

definition regs_core :: "ivy_client \<Rightarrow> bool \<times> addr list" where
  "regs_core p = (app_name p \<noteq> None, map gid (srcRegList p))"

definition entry_core :: "dict_entry \<Rightarrow> addr \<times> string \<times> addr list" where
  "entry_core e = (eid e, regexp_src e, map aclient (clientList e))"

definition sock_core :: "client \<Rightarrow> addr \<times> fnptr \<times> fnptr \<times> addr" where
  "sock_core x = (cid x, interpretation_fn x, chandle_delete x, cdata x)"

definition server_core :: "server \<Rightarrow> fnptr \<times> fnptr \<times> fnptr" where
  "server_core v = (screate v, sinterpretation v, shandle_delete v)"

definition peers where "peers s = map peer_core (allClients s)"
definition regs where "regs s = map regs_core (allClients s)"
definition entries where "entries s = map entry_core (messSndByRegexp s)"
definition socks where "socks s = map sock_core (clients_list s)"
definition servers where "servers s = map server_core (servers_list s)"
definition rcvs where "rcvs s = map (\<lambda>r. (rid r, msg_id r)) (msg_recv s)"

definition core where "core s = (peers s, regs s, entries s, socks s, servers s, rcvs s, recv_id s)"

subsection \<open>The invariant\<close>

text \<open>Distinct objects, below the next address to be given; no entry without peers.\<close>

definition dict_inv :: "addr \<Rightarrow> (addr \<times> string \<times> addr list) list \<Rightarrow> bool" where
  "dict_inv n D \<longleftrightarrow> distinct (map fst D) \<and> distinct (map (fst \<circ> snd) D) \<and> (\<forall>(e, r, ks) \<in> set D. ks \<noteq> [] \<and> e < n)"

definition peers_inv :: "addr \<Rightarrow> (addr \<times> addr) list \<Rightarrow> bool" where
  "peers_inv n P \<longleftrightarrow> distinct (map fst P) \<and> distinct (map snd P) \<and> (\<forall>a \<in> fst ` set P. 0 < a \<and> a < n)"

definition regs_inv :: "addr \<Rightarrow> (bool \<times> addr list) list \<Rightarrow> bool" where
  "regs_inv n G \<longleftrightarrow> (\<forall>(named, gs) \<in> set G. named \<and> distinct gs \<and> (\<forall>g \<in> set gs. g < n))"

definition socks_inv :: "addr \<Rightarrow> (addr \<times> fnptr \<times> fnptr \<times> addr) list \<Rightarrow> bool" where
  "socks_inv n S \<longleftrightarrow> distinct (map fst S)
     \<and> (\<forall>(c, f, h, d) \<in> set S. 0 < c \<and> c < n \<and> (f = FN_Receive \<longrightarrow> d < n))"

definition servers_inv :: "(fnptr \<times> fnptr \<times> fnptr) list \<Rightarrow> bool" where
  "servers_inv V \<longleftrightarrow> (\<forall>(cr, f, h) \<in> set V. cr = FN_ClientCreate \<longrightarrow> f = FN_Receive \<and> h = FN_ClientDelete)"

definition rcvs_inv :: "addr \<Rightarrow> int \<Rightarrow> (addr \<times> int) list \<Rightarrow> bool" where
  "rcvs_inv n i R \<longleftrightarrow> distinct (map fst R) \<and> distinct (map snd R) \<and> (\<forall>(m, j) \<in> set R. m < n \<and> j < i)"

text \<open>
  Every peer has an open socket, which forgets the peer when it is deleted; the data of a socket that
  reads messages is its own peer or one that is gone; every subscriber in the dictionary is a peer.
\<close>

definition live_inv :: "(addr \<times> addr) list \<Rightarrow> (addr \<times> fnptr \<times> fnptr \<times> addr) list \<Rightarrow> bool" where
  "live_inv P S \<longleftrightarrow> (\<forall>k \<in> snd ` set P. \<exists>f d. (k, f, FN_ClientDelete, d) \<in> set S)"

definition data_inv :: "(addr \<times> addr) list \<Rightarrow> (addr \<times> fnptr \<times> fnptr \<times> addr) list \<Rightarrow> bool" where
  "data_inv P S \<longleftrightarrow> (\<forall>(c, f, h, d) \<in> set S. f = FN_Receive \<longrightarrow> (\<forall>(a, k) \<in> set P. a = d \<longrightarrow> k = c))"

definition subs_inv :: "addr set \<Rightarrow> (addr \<times> string \<times> addr list) list \<Rightarrow> bool" where
  "subs_inv K D \<longleftrightarrow> (\<forall>(e, r, ks) \<in> set D. set ks \<subseteq> K)"

definition core_inv where
  "core_inv n K C \<longleftrightarrow> (case C of (P, G, D, S, V, R, i) \<Rightarrow>
     0 < n \<and> dict_inv n D \<and> peers_inv n P \<and> regs_inv n G \<and> socks_inv n S \<and> servers_inv V \<and> rcvs_inv n i R
     \<and> live_inv P S \<and> data_inv P S \<and> subs_inv (snd ` set P \<union> K) D)"

text \<open>\<open>K\<close> are sockets whose peers are being forgotten; there are none between two operations.\<close>

definition bus_inv_but where
  "bus_inv_but K s \<longleftrightarrow> core_inv (next_addr s) K (core s)"

abbreviation bus_inv where
  "bus_inv s \<equiv> bus_inv_but {} s"

lemma core_inv_mono: "core_inv n K C \<Longrightarrow> n \<le> m \<Longrightarrow> core_inv m K C"
  by (fastforce simp: core_inv_def dict_inv_def peers_inv_def regs_inv_def socks_inv_def rcvs_inv_def split: prod.splits)

text \<open>Operations that leave the core alone.\<close>

definition quiet where
  "quiet s t \<longleftrightarrow> core t = core s \<and> next_addr s \<le> next_addr t"

lemma quiet_inv: "quiet s t \<Longrightarrow> bus_inv_but K s \<Longrightarrow> bus_inv_but K t"
  by (auto simp: quiet_def bus_inv_but_def intro: core_inv_mono)

lemma quiet_refl [simp]: "quiet s s"
  by (simp add: quiet_def)

lemma quiet_trans: "quiet s t \<Longrightarrow> quiet t u \<Longrightarrow> quiet s u"
  by (simp add: quiet_def)

lemma socks_loop_ops [simp]:
  fixes s :: "'a sock_state_scheme"
  shows "socks (crash e s) = socks s" "socks (IvyChannelRemove k s) = socks s"
    "socks (IvyChannelAddWritableEvent k s) = socks s" "socks (IvyChannelClearWritableEvent k s) = socks s"
    "servers (crash e s) = servers s" "servers (IvyChannelRemove k s) = servers s"
    "servers (IvyChannelAddWritableEvent k s) = servers s" "servers (IvyChannelClearWritableEvent k s) = servers s"
  by (simp_all add: socks_def servers_def)

lemma socks_upd_client [simp]:
  assumes "\<And>x. sock_core (f x) = sock_core x"
  shows "socks (upd_client c f s) = socks s" "servers (upd_client c f s) = servers s"
  using assms by (simp_all add: socks_def servers_def) (simp add: upd_client_def)

lemma socks_fifo_put [simp]:
  fixes s :: "'a sock_state_scheme"
  shows "socks (fifo_put c f b s) = socks s" "servers (fifo_put c f b s) = servers s"
  by (simp_all add: fifo_put_def sock_core_def split: option.splits)

lemma socks_send_raw [simp]:
  fixes s :: "'a sock_state_scheme"
  shows "socks (snd (BufferizedSocketSendRaw c b s)) = socks s"
    "servers (snd (BufferizedSocketSendRaw c b s)) = servers s"
    "next_addr (snd (BufferizedSocketSendRaw c b s)) = next_addr s"
  by (auto simp: BufferizedSocketSendRaw_def Let_def sock_core_def split: option.splits prod.splits send_result.splits)

lemma core_more:
  fixes s t :: "'a ivy_state_scheme"
  assumes "sock_state.more s = sock_state.more t" "socks s = socks t" "servers s = servers t"
  shows "core s = core t"
proof -
  have "allClients s = allClients t \<and> messSndByRegexp s = messSndByRegexp t \<and> msg_recv s = msg_recv t
    \<and> recv_id s = recv_id t" using assms(1) by (cases s; cases t) simp
  then show ?thesis using assms(2,3) by (simp add: core_def peers_def regs_def entries_def rcvs_def)
qed

lemma core_sock_ops [simp]:
  fixes s :: "'a ivy_state_scheme"
  shows "core (crash e s) = core s" "core (IvyChannelRemove k s) = core s"
    "core (IvyChannelAddWritableEvent k s) = core s" "core (IvyChannelClearWritableEvent k s) = core s"
    "core (fifo_put c f b s) = core s" "core (snd (BufferizedSocketSendRaw c b s)) = core s"
  by (rule core_more; simp add: more_send_raw)+

lemma core_upd_client [simp]:
  fixes s :: "'a ivy_state_scheme"
  shows "(\<And>x. sock_core (f x) = sock_core x) \<Longrightarrow> core (upd_client c f s) = core s"
  by (rule core_more) simp_all

lemma core_fields [simp]:
  fixes s :: "'a ivy_state_scheme"
  shows "core (s\<lparr>events := v1\<rparr>) = core s" "core (s\<lparr>arg_buf := v2\<rparr>) = core s"
    "core (s\<lparr>arg_buf_unique := v2\<rparr>) = core s" "core (s\<lparr>msg_buf := v2\<rparr>) = core s"
    "core (s\<lparr>error_buf := v2\<rparr>) = core s" "core (s\<lparr>send_buf := v2\<rparr>) = core s"
    "core (s\<lparr>bind_buf := v2\<rparr>) = core s" "core (s\<lparr>change_buf := v2\<rparr>) = core s"
    "core (s\<lparr>filters := v3\<rparr>) = core s" "core (s\<lparr>next_addr := v4\<rparr>) = core s"
    "core (s\<lparr>main_loop := v5\<rparr>) = core s" "core (s\<lparr>timer_st := v6\<rparr>) = core s"
    "core (s\<lparr>exited := v5\<rparr>) = core s" "core (s\<lparr>bcast_buf := v2\<rparr>) = core s"
  by (simp_all add: core_def peers_def regs_def entries_def socks_def servers_def rcvs_def)

lemma core_log_event [simp]: "core (log_event e s) = core s"
  by (simp add: log_event_def)

lemma core_notify_send [simp]: "core (notify_send st a s) = core s" "next_addr (notify_send st a s) = next_addr s"
  using notify_send_cases [of st a s] by auto

lemma core_SocketSend [simp]:
  fixes s :: "'a ivy_state_scheme"
  shows "core (snd (SocketSendRaw c b s)) = core s" "core (snd (SocketSend c out s)) = core s"
    "core (snd (SocketSendRawWithId c b out s)) = core s"
    "next_addr (snd (SocketSendRawWithId c b out s)) = next_addr s"
  by (auto simp: SocketSendRaw_def SocketSend_def SocketSendRawWithId_def Let_def split_def split: option.splits)

lemma core_send_to [simp]: "core (send_to c t i m s) = core s"
  by (simp add: send_to_def MsgSendTo_def split_def Let_def)

lemma core_SocketClose [simp]:
  fixes s :: "'a ivy_state_scheme"
  shows "core (SocketClose c s) = core s" "core (SocketServerClose v s) = core s"
    "next_addr (SocketClose c s) = next_addr s" "next_addr (SocketServerClose v s) = next_addr s"
  by (auto simp: SocketClose_def SocketServerClose_def with_client_def split: option.splits)

lemma core_put_binding [simp]:
  "core (put_binding e b s) = core s" "next_addr (put_binding e b s) = next_addr s"
  by (simp_all add: put_binding_def core_def peers_def regs_def entries_def socks_def servers_def rcvs_def entry_core_def)

lemma core_upd_ivy_client:
  assumes "\<And>p. peer_core (f p) = peer_core p" "\<And>p. regs_core (f p) = regs_core p"
  shows "core (upd_ivy_client a f s) = core s"
  using assms by (simp add: upd_ivy_client_def core_def peers_def regs_def entries_def socks_def servers_def rcvs_def)

lemma next_upd_ivy_client [simp]: "next_addr (upd_ivy_client a f s) = next_addr s"
  by (simp add: upd_ivy_client_def)

text \<open>Sending messages.\<close>

lemma fold_quiet: "(\<And>x u. quiet u (f x u)) \<Longrightarrow> quiet s (fold f xs s)"
  by (induction xs arbitrary: s) (auto intro: quiet_trans)

lemma fold_quiet_snd: "(\<And>x n u. quiet u (snd (f x (n, u)))) \<Longrightarrow> quiet (snd ns) (snd (fold f xs ns))"
proof (induction xs arbitrary: ns)
  case (Cons x xs)
  have "quiet (snd ns) (snd (f x ns))" using Cons.prems [of "snd ns" x "fst ns"] by simp
  moreover have "quiet (snd (f x ns)) (snd (fold f xs (f x ns)))" using Cons by blast
  ultimately show ?case by (auto intro: quiet_trans)
qed simp

lemma quiet_send_match: "quiet u (snd (send_match buf c (n, u)))" "quiet u (snd (send_match_unique buf k c (n, u)))"
  by (simp_all add: send_match_def send_match_unique_def split_def Let_def quiet_def)

lemma quiet_RegexpCall: "quiet s (snd (RegexpCall px e m s))"
proof -
  have "quiet s (snd (fold (send_match buf) cs (0, (put_binding e b s)\<lparr>arg_buf := buf\<rparr>)))" for buf cs b
    using fold_quiet_snd [of "send_match buf" "(0, (put_binding e b s)\<lparr>arg_buf := buf\<rparr>)" cs, OF quiet_send_match(1)]
    by (simp add: quiet_def)
  then show ?thesis by (auto simp: RegexpCall_def split_def Let_def quiet_def split: option.splits)
qed

lemma quiet_RegexpCallUnique: "quiet s (snd (RegexpCallUnique px e m k s))"
proof -
  have "quiet s (snd (fold (send_match_unique buf k) cs (0, (put_binding e b s)\<lparr>arg_buf_unique := buf\<rparr>)))" for buf cs b
    using fold_quiet_snd [of "send_match_unique buf k" "(0, (put_binding e b s)\<lparr>arg_buf_unique := buf\<rparr>)" cs,
        OF quiet_send_match(2)]
    by (simp add: quiet_def)
  then show ?thesis by (auto simp: RegexpCallUnique_def split_def Let_def quiet_def split: option.splits)
qed

lemma quiet_count_calls: "(\<And>e u. quiet u (snd (call e u))) \<Longrightarrow> quiet s (snd (count_calls call es s))"
  using fold_quiet_snd [of "\<lambda>e (n, t). case call e t of (k, t') \<Rightarrow> (n + k, t')" "(0, s)" es]
  by (simp add: count_calls_def split_def)

lemma quiet_ClientCall: "quiet s (snd (ClientCall px c m s))"
  unfolding ClientCall_def by (intro quiet_count_calls quiet_RegexpCallUnique)

lemma quiet_IvySendMsg: "quiet s (snd (IvySendMsg px fmt out s))"
proof -
  have "quiet s (snd (count_calls (\<lambda>e. RegexpCall px e m) es (s\<lparr>msg_buf := b\<rparr>)))" for m es b
    using quiet_count_calls [of "\<lambda>e. RegexpCall px e m" "s\<lparr>msg_buf := b\<rparr>" es, OF quiet_RegexpCall]
    by (simp add: quiet_def)
  then show ?thesis by (auto simp: IvySendMsg_def split_def Let_def quiet_def split: option.splits)
qed

lemma quiet_IvySendError: "quiet s (IvySendError app i out s)"
  by (auto simp: IvySendError_def quiet_def split: option.splits)

lemma quiet_log_bind: "quiet s (log_bind c i r ev s)"
  by (simp add: log_bind_def quiet_def)

lemma quiet_check_connected: "quiet s (snd (check_connected c p ps s))"
  by (induction c p ps s rule: check_connected.induct) (auto simp: quiet_def split: option.splits)

lemma quiet_CheckConnected: "quiet s (snd (CheckConnected c s))"
  by (simp add: CheckConnected_def quiet_check_connected Let_def)

subsection \<open>Operations on the dictionary and on the subscriptions of peers\<close>

text \<open>The part of the core beside the dictionary.\<close>

definition others where "others s = (peers s, regs s, socks s, servers s, rcvs s, recv_id s)"

definition others_inv where
  "others_inv n C \<longleftrightarrow> (case C of (P, G, S, V, R, i) \<Rightarrow>
     0 < n \<and> peers_inv n P \<and> regs_inv n G \<and> socks_inv n S \<and> servers_inv V \<and> rcvs_inv n i R
     \<and> live_inv P S \<and> data_inv P S)"

lemma dict_inv_iff: "dict_inv n (map entry_core d) \<longleftrightarrow> dict_wf d \<and> (\<forall>e \<in> set d. eid e < n)"
  by (auto simp: dict_inv_def dict_wf_def entry_core_def comp_def)

lemma subs_inv_iff: "subs_inv K (map entry_core d) \<longleftrightarrow> (\<forall>e \<in> set d. \<forall>c \<in> set (clientList e). aclient c \<in> K)"
  by (auto simp: subs_inv_def entry_core_def)

lemma snd_peers: "snd ` set (peers s) = aclient ` set (allClients s)"
  by (simp add: peers_def peer_core_def image_image)

lemma inv_split:
  "bus_inv_but K s \<longleftrightarrow> dict_wf (messSndByRegexp s)
     \<and> (\<forall>e \<in> set (messSndByRegexp s). eid e < next_addr s
          \<and> (\<forall>c \<in> set (clientList e). aclient c \<in> aclient ` set (allClients s) \<union> K))
     \<and> others_inv (next_addr s) (others s)"
  by (auto simp: bus_inv_but_def core_inv_def core_def others_inv_def others_def entries_def dict_inv_iff
      subs_inv_iff snd_peers)

lemma others_inv_mono: "others_inv n C \<Longrightarrow> n \<le> m \<Longrightarrow> others_inv m C"
  by (fastforce simp: others_inv_def peers_inv_def regs_inv_def socks_inv_def rcvs_inv_def split: prod.splits)

lemma core_others: "core s = core t \<Longrightarrow> others s = others t"
  by (simp add: core_def others_def)

text \<open>The same peers on the same sockets.\<close>

definition same_objs where
  "same_objs s t \<longleftrightarrow> peers t = peers s \<and> socks t = socks s"

lemma same_objs_refl [simp]: "same_objs s s"
  by (simp add: same_objs_def)

lemma same_objs_trans: "same_objs s t \<Longrightarrow> same_objs t u \<Longrightarrow> same_objs s u"
  by (simp add: same_objs_def)

lemma quiet_same_objs: "quiet s t \<Longrightarrow> same_objs s t"
  by (simp add: quiet_def same_objs_def core_def)

lemma same_objs_socks: "same_objs s t \<Longrightarrow> aclient ` set (allClients t) = aclient ` set (allClients s)"
  unfolding snd_peers [symmetric] same_objs_def by simp

lemma others_mess [simp]:
  "others (s\<lparr>messSndByRegexp := d\<rparr>) = others s" "others (s\<lparr>next_addr := n\<rparr>) = others s"
  "same_objs s (s\<lparr>messSndByRegexp := d\<rparr>)" "same_objs s (s\<lparr>next_addr := n\<rparr>)"
  by (simp_all add: others_def same_objs_def peers_def regs_def socks_def servers_def rcvs_def)

lemma clean_entries_in:
  "e \<in> set (clean_entries P k d) \<Longrightarrow> \<exists>x \<in> set d. eid e = eid x \<and> set (clientList e) \<subseteq> set (clientList x)"
  by (induction d) (auto split: if_splits)

lemma inv_clean_entry:
  assumes "bus_inv_but K s"
  shows "bus_inv_but K (clean_entry P e s) \<and> same_objs s (clean_entry P e s)"
  using assms clean_entries_wf [of "messSndByRegexp s" P e]
  by (fastforce simp: inv_split clean_entry_eq dest: clean_entries_in)

lemma inv_del_dict:
  assumes "bus_inv_but K s"
  shows "bus_inv_but K (delRegexpForOneClientFromDictionary r c s)
    \<and> same_objs s (delRegexpForOneClientFromDictionary r c s)"
  using assms inv_clean_entry [OF assms]
  by (simp add: delRegexpForOneClientFromDictionary_def delOneIvyClientFromDictionaryEntry_def split: option.splits)

text \<open>Changing what a peer knows of itself, keeping its name and its list of subscriptions in order.\<close>

lemma inv_upd_peer:
  assumes inv: "bus_inv_but K s" and f: "\<And>p. peer_core (f p) = peer_core p"
    "\<And>p. regs_inv (next_addr s) [regs_core p] \<Longrightarrow> regs_inv (next_addr s) [regs_core (f p)]"
  shows "bus_inv_but K (upd_ivy_client a f s) \<and> same_objs s (upd_ivy_client a f s)"
proof -
  let ?t = "upd_ivy_client a f s"
  have p: "peers ?t = peers s" using f(1) by (simp add: upd_ivy_client_def peers_def)
  have o: "socks ?t = socks s" "servers ?t = servers s" "rcvs ?t = rcvs s" "recv_id ?t = recv_id s"
    "messSndByRegexp ?t = messSndByRegexp s"
    by (simp_all add: upd_ivy_client_def socks_def servers_def rcvs_def)
  have "regs_inv (next_addr s) (regs s)" using inv by (simp add: inv_split others_inv_def others_def)
  then have "regs_inv (next_addr s) (regs ?t)" using f(2)
    by (auto simp: regs_inv_def regs_def upd_ivy_client_def)
  then have "others_inv (next_addr ?t) (others ?t)" using inv p o
    by (simp add: inv_split others_inv_def others_def)
  moreover have s: "same_objs s ?t" by (simp add: same_objs_def p o)
  ultimately show ?thesis using inv o(5) same_objs_socks [OF s] by (simp add: inv_split)
qed

lemma quiet_crash [simp]:
  fixes s :: "'a ivy_state_scheme"
  shows "quiet s (crash e s)"
  by (simp add: quiet_def)

lemma inv_crash:
  fixes s :: "'a ivy_state_scheme"
  shows "bus_inv_but K s \<Longrightarrow> bus_inv_but K (crash e s) \<and> same_objs s (crash e s)"
  using quiet_inv quiet_same_objs quiet_crash by blast

lemma inv_each_safe:
  fixes s :: "'a ivy_state_scheme"
  assumes "\<And>p t. bus_inv_but K t \<Longrightarrow> bus_inv_but K (body p t) \<and> same_objs t (body p t)" "bus_inv_but K s"
  shows "bus_inv_but K (each_safe nodes crash body ps s) \<and> same_objs s (each_safe nodes crash body ps s)"
proof (rule each_safe_keeps [where Q = "\<lambda>t. bus_inv_but K t \<and> same_objs s t"])
  show "bus_inv_but K (body p t) \<and> same_objs s (body p t)" if "bus_inv_but K t \<and> same_objs s t" for p t
    using assms(1) [of t p] that by (auto intro: same_objs_trans)
  show "bus_inv_but K (crash UseAfterFree t) \<and> same_objs s (crash UseAfterFree t)"
    if "bus_inv_but K t \<and> same_objs s t" for t
    using inv_crash [of K t UseAfterFree] that by (auto intro: same_objs_trans)
qed (use assms(2) in simp)

lemma inv_del_reg_body:
  assumes "bus_inv_but K s"
  shows "bus_inv_but K (del_reg_body a c i g s) \<and> same_objs s (del_reg_body a c i g s)"
proof (cases "find_reg a g s")
  case None
  then show ?thesis using inv_crash [OF assms] by (simp add: del_reg_body_def)
next
  case (Some x)
  let ?s1 = "case str_regexp x of None \<Rightarrow> s | Some r \<Rightarrow> delRegexpForOneClientFromDictionary r c s"
  have s1: "bus_inv_but K ?s1 \<and> same_objs s ?s1"
    using inv_del_dict [OF assms] assms by (simp split: option.splits)
  have "bus_inv_but K (upd_ivy_client a (\<lambda>c. c\<lparr>srcRegList := filter (\<lambda>y. gid y \<noteq> g) (srcRegList c)\<rparr>) ?s1)
    \<and> same_objs ?s1 (upd_ivy_client a (\<lambda>c. c\<lparr>srcRegList := filter (\<lambda>y. gid y \<noteq> g) (srcRegList c)\<rparr>) ?s1)"
    using s1 by (intro inv_upd_peer) (auto simp: peer_core_def regs_core_def regs_inv_def distinct_map_filter)
  then show ?thesis using Some s1 assms by (auto simp: del_reg_body_def intro: same_objs_trans)
qed

lemma inv_delRegexp:
  assumes "bus_inv_but K s"
  shows "bus_inv_but K (snd (delRegexpForOneClient c i s)) \<and> same_objs s (snd (delRegexpForOneClient c i s))"
  using assms inv_each_safe [OF inv_del_reg_body assms] by (simp add: delRegexpForOneClient_def split: option.splits)

lemma inv_del_client_reg:
  assumes "bus_inv_but K s"
  shows "bus_inv_but K (del_client_reg a g s) \<and> same_objs s (del_client_reg a g s)"
  using inv_delRegexp [OF assms] inv_crash [OF assms] by (simp add: del_client_reg_def split: option.splits)

lemma nodes_peers: "ivy_client_nodes s = map fst (peers s)"
  by (simp add: ivy_client_nodes_def peers_def peer_core_def)

lemma peers_distinct: "bus_inv_but K s \<Longrightarrow> distinct (map fst (peers s))"
  by (simp add: inv_split others_inv_def others_def peers_inv_def)

lemma peer_unique: "bus_inv_but K s \<Longrightarrow> (a, k) \<in> set (peers s) \<Longrightarrow> (a, k') \<in> set (peers s) \<Longrightarrow> k = k'"
  using peers_distinct [of K s] inj_onD [of fst "set (peers s)" "(a, k)" "(a, k')"] by (simp add: distinct_map)

lemma remove_pair:
  assumes "distinct (map fst P)" "(a, k) \<in> set P"
  shows "filter (\<lambda>x. fst x \<noteq> a) P = filter (\<lambda>x. x \<noteq> (a, k)) P"
proof (rule filter_cong [OF refl])
  fix x assume "x \<in> set P"
  then show "(fst x \<noteq> a) = (x \<noteq> (a, k))"
    using inj_onD [of fst "set P" x "(a, k)"] assms by (auto simp: distinct_map)
qed

lemma inv_but_mono: "bus_inv_but K s \<Longrightarrow> K \<subseteq> K' \<Longrightarrow> bus_inv_but K' s"
  by (fastforce simp: inv_split)

text \<open>Taking a peer out of the list, when its socket may be left in the dictionary.\<close>

lemma inv_remove_peer:
  assumes "bus_inv_but K s" "\<And>k. (a, k) \<in> set (peers s) \<Longrightarrow> k \<in> K"
  shows "bus_inv_but K (s\<lparr>allClients := filter (\<lambda>x. aid x \<noteq> a) (allClients s)\<rparr>)"
    "peers (s\<lparr>allClients := filter (\<lambda>x. aid x \<noteq> a) (allClients s)\<rparr>) = filter (\<lambda>x. fst x \<noteq> a) (peers s)"
    "socks (s\<lparr>allClients := filter (\<lambda>x. aid x \<noteq> a) (allClients s)\<rparr>) = socks s"
proof -
  let ?t = "s\<lparr>allClients := filter (\<lambda>x. aid x \<noteq> a) (allClients s)\<rparr>"
  show p: "peers ?t = filter (\<lambda>x. fst x \<noteq> a) (peers s)"
    by (simp add: peers_def peer_core_def filter_map comp_def)
  show o: "socks ?t = socks s" by (simp add: socks_def)
  have q: "servers ?t = servers s" "rcvs ?t = rcvs s" by (simp_all add: servers_def rcvs_def)
  have r: "set (regs ?t) \<subseteq> set (regs s)" by (auto simp: regs_def)
  have i: "peers_inv (next_addr s) (peers s)" "regs_inv (next_addr s) (regs s)" "live_inv (peers s) (socks s)"
    "data_inv (peers s) (socks s)"
    using assms(1) by (simp_all add: inv_split others_inv_def others_def)
  have "peers_inv (next_addr s) (peers ?t)" "live_inv (peers ?t) (socks s)"
    using i(1,3) unfolding p by (auto simp: peers_inv_def live_inv_def distinct_map_filter)
  moreover have "data_inv (peers ?t) (socks s)" using i(4) unfolding p data_inv_def by fastforce
  moreover have "regs_inv (next_addr s) (regs ?t)" using i(2) r unfolding regs_inv_def by blast
  ultimately have "others_inv (next_addr ?t) (others ?t)"
    using assms(1) by (simp add: inv_split others_inv_def others_def o q)
  moreover have "\<forall>k \<in> aclient ` set (allClients s). k \<in> aclient ` set (allClients ?t) \<union> K"
    using assms(2) by (auto simp: peers_def peer_core_def image_iff)
  ultimately show "bus_inv_but K ?t" using assms(1) by (fastforce simp: inv_split)
qed

lemma inv_del_client_body:
  assumes inv: "bus_inv_but {sock} s" and a: "a \<in> set (ivy_client_nodes s)"
  shows "bus_inv_but {sock} (del_client_body sock a s)"
    "socks (del_client_body sock a s) = socks s"
    "peers (del_client_body sock a s) = filter (\<lambda>x. x \<noteq> (a, sock)) (peers s)"
proof -
  have "\<exists>c. find_ivy_client a s = Some c"
    using a by (cases "find_ivy_client a s") (auto simp: find_ivy_client_def find_None_iff ivy_client_nodes_def)
  then obtain c where c: "find_ivy_client a s = Some c" ..
  have a1: "(a, aclient c) \<in> set (peers s)"
    using find_ivy_client_Some [OF c] by (auto simp: peers_def peer_core_def)
  have k: "(a, k) \<in> set (peers s) \<Longrightarrow> k = aclient c" for k
    using peer_unique [OF inv _ a1] by blast
  let ?s1 = "each_safe (reg_nodes a) crash (del_client_reg a) (reg_nodes a s) s"
  have s1: "bus_inv_but {sock} ?s1" "same_objs s ?s1" using inv_each_safe [where body = "del_client_reg a", OF inv_del_client_reg inv] by blast+
  then have p1: "peers ?s1 = peers s" "socks ?s1 = socks s" by (simp_all add: same_objs_def)
  have "bus_inv_but {sock} (del_client_body sock a s) \<and> socks (del_client_body sock a s) = socks s
    \<and> peers (del_client_body sock a s) = filter (\<lambda>x. x \<noteq> (a, sock)) (peers s)"
  proof (cases "aclient c = sock")
    case True
    have "(a, sock) \<in> set (peers s)" using a1 True by simp
    note f = remove_pair [OF peers_distinct [OF inv] this]
    have "k' \<in> {sock}" if "(a, k') \<in> set (peers ?s1)" for k' using k [of k'] that True p1 by simp
    from inv_remove_peer [OF s1(1) this] show ?thesis
      using c True p1 f by (simp add: del_client_body_def Let_def)
  next
    case False
    have "(a, sock) \<notin> set (peers s)" using k [of sock] False by blast
    then have "filter (\<lambda>x. x \<noteq> (a, sock)) (peers s) = peers s" by (intro filter_True) auto
    then show ?thesis using c False inv by (simp add: del_client_body_def)
  qed
  then show "bus_inv_but {sock} (del_client_body sock a s)"
    "socks (del_client_body sock a s) = socks s"
    "peers (del_client_body sock a s) = filter (\<lambda>x. x \<noteq> (a, sock)) (peers s)" by blast+
qed

lemma inv_del_clients:
  "bus_inv_but {sock} s \<Longrightarrow> ivy_client_nodes s = pre @ ps \<Longrightarrow> \<forall>a \<in> set pre. (a, sock) \<notin> set (peers s) \<Longrightarrow>
   bus_inv_but {sock} (each_safe ivy_client_nodes crash (del_client_body sock) ps s)
   \<and> socks (each_safe ivy_client_nodes crash (del_client_body sock) ps s) = socks s
   \<and> sock \<notin> snd ` set (peers (each_safe ivy_client_nodes crash (del_client_body sock) ps s))"
proof (induction ps arbitrary: s pre)
  case Nil
  then have "fst ` set (peers s) = set pre" by (simp add: nodes_peers flip: set_map)
  then have "sock \<notin> snd ` set (peers s)" using Nil.prems(3) by force
  then show ?case using Nil by simp
next
  case (Cons a ps)
  let ?t = "del_client_body sock a s"
  note b = inv_del_client_body [OF Cons.prems(1), of a]
  have a: "a \<in> set (ivy_client_nodes s)" using Cons.prems(2) by simp
  have d: "distinct (pre @ a # ps)" using peers_distinct [OF Cons.prems(1)] Cons.prems(2) by (simp add: nodes_peers)
  then have "succ_of a (ivy_client_nodes s) = Some (case ps of [] \<Rightarrow> NULL | y # _ \<Rightarrow> y)"
    unfolding Cons.prems(2) by (intro succ_of_append) simp
  then have e: "each_safe ivy_client_nodes crash (del_client_body sock) (a # ps) s
      = each_safe ivy_client_nodes crash (del_client_body sock) ps ?t"
    using dropWhile_head [of ps] by simp
  have n: "ivy_client_nodes ?t = (if (a, sock) \<in> set (peers s) then pre @ ps else (pre @ [a]) @ ps)"
  proof (cases "(a, sock) \<in> set (peers s)")
    case True
    note f = remove_pair [OF peers_distinct [OF Cons.prems(1)] True]
    have "ivy_client_nodes ?t = filter (\<lambda>y. y \<noteq> a) (ivy_client_nodes s)"
      by (simp add: nodes_peers b(3) [OF a] f [symmetric] filter_map comp_def)
    moreover have "filter (\<lambda>y. y \<noteq> a) pre = pre" "filter (\<lambda>y. y \<noteq> a) ps = ps"
      using d by (auto intro!: filter_True)
    ultimately show ?thesis using True Cons.prems(2) by simp
  next
    case False
    then have "filter (\<lambda>x. x \<noteq> (a, sock)) (peers s) = peers s" by (intro filter_True) auto
    then show ?thesis using False Cons.prems(2) by (simp add: nodes_peers b(3) [OF a])
  qed
  have "\<forall>x \<in> set (if (a, sock) \<in> set (peers s) then pre else pre @ [a]). (x, sock) \<notin> set (peers ?t)"
    using Cons.prems(3) by (auto simp: b(3) [OF a])
  moreover have "ivy_client_nodes ?t = (if (a, sock) \<in> set (peers s) then pre else pre @ [a]) @ ps" using n by simp
  ultimately show ?case unfolding e using Cons.IH [OF b(1) [OF a]] b(2) [OF a] by auto
qed

lemma clean_all_in:
  "e \<in> set (clean_all P d) \<Longrightarrow>
   \<exists>x \<in> set d. eid e = eid x \<and> set (clientList e) \<subseteq> set (clientList x) \<and> (\<forall>c \<in> set (clientList e). \<not> P c)"
  by (auto simp: clean_all_def split: if_splits)

lemma inv_delOneClient:
  assumes "bus_inv s"
  shows "bus_inv (delOneClient sock s)" "socks (delOneClient sock s) = socks s"
    "sock \<notin> snd ` set (peers (delOneClient sock s))"
proof -
  let ?s1 = "each_safe ivy_client_nodes crash (del_client_body sock) (ivy_client_nodes s) s"
  have "bus_inv_but {sock} s" using inv_but_mono [OF assms] by simp
  from inv_del_clients [OF this, of "[]"] have s1: "bus_inv_but {sock} ?s1" "socks ?s1 = socks s"
    "sock \<notin> snd ` set (peers ?s1)" by simp_all
  have d: "dict_wf (messSndByRegexp ?s1)" using s1(1) by (simp add: inv_split)
  let ?d = "clean_all (\<lambda>c. aclient c = sock) (messSndByRegexp ?s1)"
  have e: "delOneClient sock s = ?s1\<lparr>messSndByRegexp := ?d\<rparr>"
    by (simp add: delOneClient_def Let_def del_from_entries [OF d])
  have "same_objs ?s1 (?s1\<lparr>messSndByRegexp := ?d\<rparr>)" by simp
  then show "socks (delOneClient sock s) = socks s" "sock \<notin> snd ` set (peers (delOneClient sock s))"
    unfolding e same_objs_def using s1 by simp_all
  have "eid x < next_addr ?s1 \<and> (\<forall>c \<in> set (clientList x). aclient c \<in> aclient ` set (allClients ?s1))"
    if "x \<in> set ?d" for x
    using clean_all_in [OF that] s1(1) unfolding inv_split by fastforce
  then show "bus_inv (delOneClient sock s)"
    unfolding e using s1(1) clean_all_wf [OF d, of "\<lambda>c. aclient c = sock"] by (simp add: inv_split)
qed

text \<open>Leaving the bus.\<close>

lemma inv_cleanup_body:
  assumes "bus_inv_but UNIV s"
  shows "bus_inv_but UNIV (cleanup_body a s) \<and> socks (cleanup_body a s) = socks s"
proof (cases "find_ivy_client a s")
  case None
  then show ?thesis using inv_crash [OF assms] by (simp add: cleanup_body_def same_objs_def)
next
  case (Some c)
  let ?s1 = "SocketClose (aclient c) (send_to c Bye 0 [] s)"
  have "quiet s ?s1" by (simp add: quiet_def)
  then have "bus_inv_but UNIV ?s1" "socks ?s1 = socks s"
    using quiet_inv [OF _ assms] quiet_same_objs by (auto simp: same_objs_def)
  then show ?thesis using inv_remove_peer(1,3) [of UNIV ?s1 a] Some by (simp add: cleanup_body_def Let_def)
qed

lemma inv_no_peers:
  assumes "bus_inv_but UNIV s"
  shows "bus_inv (s\<lparr>allClients := [], messSndByRegexp := []\<rparr>)"
  using assms
  by (simp add: inv_split dict_wf_def others_inv_def others_def peers_def regs_def socks_def servers_def rcvs_def
      peers_inv_def regs_inv_def live_inv_def data_inv_def)

lemma inv_IvyCleanup:
  assumes "bus_inv s"
  shows "bus_inv (IvyCleanup s) \<and> socks (IvyCleanup s) = socks s"
proof -
  let ?s1 = "each_safe ivy_client_nodes crash cleanup_body (ivy_client_nodes s) s"
  have "bus_inv_but UNIV ?s1 \<and> socks ?s1 = socks s"
  proof (rule each_safe_keeps [where Q = "\<lambda>t. bus_inv_but UNIV t \<and> socks t = socks s"])
    show "bus_inv_but UNIV s \<and> socks s = socks s" using inv_but_mono [OF assms] by simp
  qed (use inv_cleanup_body inv_crash in \<open>fastforce simp: same_objs_def\<close>)+
  then have s1: "bus_inv (?s1\<lparr>allClients := [], messSndByRegexp := []\<rparr>)"
    "socks (?s1\<lparr>allClients := [], messSndByRegexp := []\<rparr>) = socks s"
    using inv_no_peers by (blast, simp add: socks_def)
  let ?s2 = "?s1\<lparr>allClients := [], messSndByRegexp := []\<rparr>"
  have q: "quiet ?s2 (SocketClose (broadcast ?s2) (SocketServerClose (serv ?s2) ?s2))" by (simp add: quiet_def)
  have "IvyCleanup s = SocketClose (broadcast ?s2) (SocketServerClose (serv ?s2) ?s2)"
    by (simp add: IvyCleanup_def delAllRegexps_empty Let_def)
  then show ?thesis using quiet_inv [OF q s1(1)] quiet_same_objs [OF q] s1(2) by (simp only: same_objs_def)
qed

text \<open>New subscriptions.\<close>

lemma new_entry_mess:
  "\<exists>b. messSndByRegexp (new_entry px r c s)
    = messSndByRegexp s @ [\<lparr>eid = next_addr s, regexp_src = r, clientList = [], binding = b\<rparr>]"
  by (auto simp: new_entry_def Let_def split: compile_result.splits)

lemma new_entry_others: "others (new_entry px r c s) = others s"
proof (cases "IvyBindingCompile px r")
  case (CompileError e m)
  have "others (send_to c Error e (take 1023 (''Error compiling '' @ [CHR 0x27] @ r @ [CHR 0x27] @ '', '' @ m))
      (s\<lparr>next_addr := Suc (next_addr s)\<rparr>)) = others s"
    by (rule core_others) simp
  then show ?thesis using CompileError by (simp add: new_entry_def Let_def)
qed (simp add: new_entry_def Let_def)

lemma inv_add_dict:
  assumes inv: "bus_inv s" and c: "app_name c \<noteq> None" "aclient c \<in> aclient ` set (allClients s)"
  shows "bus_inv (addRegexpToDictionary px r c s)" "same_objs s (addRegexpToDictionary px r c s)"
    "next_addr s < next_addr (addRegexpToDictionary px r c s)"
proof -
  define s1 where "s1 = (case find_entry r s of None \<Rightarrow> new_entry px r c s | Some _ \<Rightarrow> s)"
  let ?g = "\<lambda>x. if regexp_src x = r then x\<lparr>clientList := peer_copy (next_addr s1) c # clientList x\<rparr> else x"
  have t: "addRegexpToDictionary px r c s
      = s1\<lparr>next_addr := Suc (next_addr s1), messSndByRegexp := map ?g (messSndByRegexp s1)\<rparr>"
    using c(1) by (cases "app_name c") (simp_all add: addRegexpToDictionary_def Let_def s1_def)
  have fresh: "addr_fresh s" using inv
    by (auto simp: addr_fresh_def inv_split others_inv_def others_def regs_inv_def regs_def regs_core_def)
  have d: "dict_wf (messSndByRegexp s)" using inv by (simp add: inv_split)
  from add_to_dict [OF c(1) d fresh, of px r]
  have a: "allClients (addRegexpToDictionary px r c s) = allClients s"
    "dict_wf (messSndByRegexp (addRegexpToDictionary px r c s))"
    "subs (addRegexpToDictionary px r c s) = insert (r, aclient c, app_id c) (subs s)"
    and n: "next_addr s < next_addr (addRegexpToDictionary px r c s)" by blast+
  have o1: "others s1 = others s" by (simp add: s1_def new_entry_others split: option.splits)
  have o: "others (addRegexpToDictionary px r c s) = others s" unfolding t o1 [symmetric] by simp
  have old: "\<forall>x \<in> set (messSndByRegexp s). eid x < next_addr s" using inv by (simp add: inv_split)
  have e: "eid x < next_addr (addRegexpToDictionary px r c s)"
    if "x \<in> set (messSndByRegexp (addRegexpToDictionary px r c s))" for x
  proof -
    have "eid x \<in> eid ` set (messSndByRegexp s1)" using that unfolding t by auto
    then have "eid x \<le> next_addr s" using old new_entry_mess [of px r c s]
      by (auto simp: s1_def less_imp_le split: option.splits)
    then show ?thesis using n by simp
  qed
  have s: "aclient y \<in> aclient ` set (allClients s)"
    if "x \<in> set (messSndByRegexp (addRegexpToDictionary px r c s))" "y \<in> set (clientList x)" for x y
  proof -
    have "(regexp_src x, aclient y, app_id y) \<in> insert (r, aclient c, app_id c) (subs s)"
      using that unfolding a(3) [symmetric] by (auto simp: subs_def subs_of_def)
    then show ?thesis using c(2) inv by (auto simp: subs_def subs_of_def inv_split)
  qed
  show "bus_inv (addRegexpToDictionary px r c s)" using inv a(1,2) o e s n
    by (auto simp: inv_split intro: others_inv_mono)
  show "same_objs s (addRegexpToDictionary px r c s)" using o by (simp add: same_objs_def others_def)
  show "next_addr s < next_addr (addRegexpToDictionary px r c s)" by (rule n)
qed

end
