(* ===== verification/Ivy_Reach.thy ===== *)
theory Ivy_Reach
  imports Ivy_Inv Ivy_Start
begin

text \<open>
  Every operation of the library keeps the invariant of \<open>Ivy_Inv\<close>: subscriptions, the lines of
  peers, connections that come and go, the turns of the main loop and the calls of the API. So it holds
  in every state a program can reach.
\<close>

subsection \<open>States with the same core\<close>

lemma core_eqI:
  fixes s t :: "'a ivy_state_scheme"
  assumes "allClients s = allClients t" "messSndByRegexp s = messSndByRegexp t" "msg_recv s = msg_recv t"
    "recv_id s = recv_id t" "clients_list s = clients_list t" "servers_list s = servers_list t"
  shows "core s = core t"
  using assms by (simp add: core_def peers_def regs_def entries_def socks_def servers_def rcvs_def)

lemma quietI:
  fixes s t :: "'a ivy_state_scheme"
  assumes "allClients t = allClients s" "messSndByRegexp t = messSndByRegexp s" "msg_recv t = msg_recv s"
    "recv_id t = recv_id s" "clients_list t = clients_list s" "servers_list t = servers_list s"
    "next_addr s \<le> next_addr t"
  shows "quiet s t"
  using core_eqI [OF assms(1-6)] assms(7) by (simp add: quiet_def)

lemma quiet_log_event [simp]: "quiet s (log_event e s)"
  by (simp add: quiet_def)

lemma quiet_send_to [simp]: "quiet s (send_to c t i m s)"
  by (simp add: quiet_def)

lemma quiet_SocketClose [simp]: 
  fixes s :: "'a ivy_state_scheme"
  shows "quiet s (SocketClose c s)"
  by (simp add: quiet_def)

lemma inv_quiet: "bus_inv_but K s \<Longrightarrow> quiet s t \<Longrightarrow> bus_inv_but K t \<and> same_objs s t"
  using quiet_inv quiet_same_objs by blast

lemma inv_log_event [simp]: "bus_inv_but K (log_event e s) = bus_inv_but K s"
  by (simp add: bus_inv_but_def)

lemma inv_crash_iff [simp]:
  fixes s :: "'a ivy_state_scheme"
  shows "bus_inv_but K (crash e s) = bus_inv_but K s"
  by (simp add: bus_inv_but_def)

lemma keeps_trans: "same_objs s t \<Longrightarrow> bus_inv_but K u \<and> same_objs t u \<Longrightarrow> bus_inv_but K u \<and> same_objs s u"
  using same_objs_trans by blast

subsection \<open>Subscriptions\<close>

lemma regs_mono: "regs_inv m G \<Longrightarrow> m \<le> n \<Longrightarrow> regs_inv n G"
  by (fastforce simp: regs_inv_def)

lemma inv_upd_peer_new:
  assumes inv: "bus_inv_but K s" and n: "next_addr s \<le> n" and f: "\<And>p. peer_core (f p) = peer_core p"
    "\<And>p. regs_inv (next_addr s) [regs_core p] \<Longrightarrow> regs_inv n [regs_core (f p)]"
  shows "bus_inv_but K (upd_ivy_client a f (s\<lparr>next_addr := n\<rparr>))
    \<and> same_objs s (upd_ivy_client a f (s\<lparr>next_addr := n\<rparr>))"
proof -
  let ?t = "upd_ivy_client a f (s\<lparr>next_addr := n\<rparr>)"
  have p: "peers ?t = peers s" using f(1) by (simp add: upd_ivy_client_def peers_def)
  have o: "socks ?t = socks s" "servers ?t = servers s" "rcvs ?t = rcvs s" "recv_id ?t = recv_id s"
    "messSndByRegexp ?t = messSndByRegexp s"
    by (simp_all add: upd_ivy_client_def socks_def servers_def rcvs_def)
  have r: "regs_inv (next_addr s) (regs s)" using inv by (simp add: inv_split others_inv_def others_def)
  have "regs_inv n [regs_core y]" if y: "y \<in> set (allClients ?t)" for y
  proof -
    obtain x where x: "x \<in> set (allClients s)" "y = (if aid x = a then f x else x)"
      using y by (auto simp: upd_ivy_client_def)
    have "regs_inv (next_addr s) [regs_core x]" using r x(1) by (auto simp: regs_inv_def regs_def)
    then show ?thesis using f(2) [of x] regs_mono [OF _ n] x(2) by auto
  qed
  then have "regs_inv n (regs ?t)" by (fastforce simp: regs_inv_def regs_def)
  moreover have "others_inv n (others s)" using inv n by (auto simp: inv_split intro: others_inv_mono)
  ultimately have "others_inv (next_addr ?t) (others ?t)" using p o by (simp add: others_inv_def others_def)
  moreover have s: "same_objs s ?t" by (simp add: same_objs_def p o)
  ultimately show ?thesis using inv o(5) n same_objs_socks [OF s] by (force simp: inv_split)
qed

lemma inv_addRegexp:
  assumes inv: "bus_inv s" and c: "app_name c \<noteq> None" "aclient c \<in> aclient ` set (allClients s)"
  shows "bus_inv (addRegexp px r c s) \<and> same_objs s (addRegexp px r c s)"
proof -
  let ?s1 = "addRegexpToDictionary px r c s"
  note s1 = inv_add_dict [OF inv c, of px r]
  show ?thesis
  proof (cases "find_by_socket (aclient c) ?s1")
    case None
    then show ?thesis using keeps_trans [OF s1(2) inv_crash [OF s1(1)]]
      by (simp add: addRegexp_def Let_def)
  next
    case (Some itr)
    let ?g = "next_addr ?s1"
    let ?f = "\<lambda>x. x\<lparr>srcRegList := \<lparr>gid = ?g, str_regexp = Some r, reg_id = app_id c\<rparr> # srcRegList x\<rparr>"
    let ?s2 = "upd_ivy_client (aid itr) ?f (?s1\<lparr>next_addr := Suc ?g\<rparr>)"
    have s2: "bus_inv ?s2 \<and> same_objs ?s1 ?s2"
      by (rule inv_upd_peer_new [OF s1(1)]) (auto simp: peer_core_def regs_core_def regs_inv_def)
    have "addRegexp px r c s = log_bind c (app_id c) r IvyAddBind ?s2"
      using Some by (simp add: addRegexp_def Let_def)
    then show ?thesis
      using inv_quiet [OF conjunct1 [OF s2] quiet_log_bind, of c "app_id c" r IvyAddBind] s1(2) s2
      by (auto intro: same_objs_trans)
  qed
qed

lemma inv_changeRegexp:
  assumes inv: "bus_inv s" and c: "app_name c \<noteq> None" "aclient c \<in> aclient ` set (allClients s)"
  shows "bus_inv (changeRegexp px r c s) \<and> same_objs s (changeRegexp px r c s)"
proof -
  let ?s0 = "delRegexpForOneClientFromDictionary r c s"
  let ?s1 = "changeRegexpInDictionary px r c s"
  have s0: "bus_inv ?s0" "same_objs s ?s0" using inv_del_dict [OF inv] by blast+
  have "aclient c \<in> aclient ` set (allClients ?s0)" using same_objs_socks [OF s0(2)] c(2) by simp
  note s1 = inv_add_dict [OF s0(1) c(1) this, of px r, folded changeRegexpInDictionary_def]
  let ?f = "\<lambda>x. x\<lparr>srcRegList := map (\<lambda>g. if reg_id g = app_id c then g\<lparr>str_regexp := Some r\<rparr> else g) (srcRegList x)\<rparr>"
  let ?s2 = "case find_by_socket (aclient c) ?s1 of None \<Rightarrow> ?s1 | Some itr \<Rightarrow> upd_ivy_client (aid itr) ?f ?s1"
  have g: "map gid (map (\<lambda>g. if reg_id g = i then g\<lparr>str_regexp := Some r\<rparr> else g) xs) = map gid xs" for i and xs :: "glob_reg list"
    by (induction xs) auto
  have s2: "bus_inv ?s2 \<and> same_objs ?s1 ?s2"
  proof (cases "find_by_socket (aclient c) ?s1")
    case (Some itr)
    have "bus_inv (upd_ivy_client (aid itr) ?f ?s1) \<and> same_objs ?s1 (upd_ivy_client (aid itr) ?f ?s1)"
      using g by (intro inv_upd_peer [OF s1(1)]) (simp_all add: peer_core_def regs_core_def del: map_map)
    then show ?thesis using Some by simp
  qed (use s1(1) in simp)
  have e: "changeRegexp px r c s = log_bind c (app_id c) r IvyChangeBind ?s2"
    by (simp add: changeRegexp_def Let_def)
  show ?thesis unfolding e
    using inv_quiet [OF conjunct1 [OF s2] quiet_log_bind, of c "app_id c" r IvyChangeBind] s0(2) s1(2) s2
    by (blast intro: same_objs_trans)
qed

lemma inv_addOrChangeRegexp:
  assumes "bus_inv s" "app_name c \<noteq> None" "aclient c \<in> aclient ` set (allClients s)"
  shows "bus_inv (addOrChangeRegexp px r c s) \<and> same_objs s (addOrChangeRegexp px r c s)"
  using inv_addRegexp [OF assms, of px r] inv_changeRegexp [OF assms, of px r]
  by (simp add: addOrChangeRegexp_def split: option.splits)

subsection \<open>The lines of a peer\<close>

text \<open>A peer as a handler holds it: an element of the list, but for what the line changed.\<close>

definition known :: "ivy_client \<Rightarrow> 'a ivy_state_scheme \<Rightarrow> bool" where
  "known c s \<longleftrightarrow> peer_core c \<in> set (peers s) \<and> app_name c \<noteq> None"

lemma known_socket: "known c s \<Longrightarrow> aclient c \<in> aclient ` set (allClients s)"
  unfolding snd_peers [symmetric] by (force simp: known_def peer_core_def)

lemma known_same: "same_objs s t \<Longrightarrow> known c t = known c s"
  by (simp add: known_def same_objs_def)

lemma known_upd [simp]: "known (c\<lparr>app_id := i\<rparr>) s = known c s"
  by (simp add: known_def peer_core_def)

lemma inv_filters: "bus_inv_but K s \<Longrightarrow> bus_inv_but K (s\<lparr>filters := fs\<rparr>) \<and> same_objs s (s\<lparr>filters := fs\<rparr>)"
  by (rule inv_quiet) (auto intro: quietI)

lemma inv_recv_add:
  assumes "bus_inv s" "known c s"
  shows "bus_inv (recv_add_regexp env c i r s) \<and> same_objs s (recv_add_regexp env c i r s)"
proof -
  obtain acc fs where f: "IvyBindingFilter (be_pcre env) r (filters s) = (acc, fs)" by force
  have s1: "bus_inv (s\<lparr>filters := fs\<rparr>)" "same_objs s (s\<lparr>filters := fs\<rparr>)" using inv_filters [OF assms(1)] by blast+
  have c: "app_name c \<noteq> None" "aclient c \<in> aclient ` set (allClients (s\<lparr>filters := fs\<rparr>))"
    using assms(2) known_socket [OF assms(2)] by (simp_all add: known_def)
  show ?thesis using f keeps_trans [OF s1(2) inv_addOrChangeRegexp [OF s1(1) c]]
      keeps_trans [OF s1(2) inv_quiet [OF s1(1) quiet_log_bind]]
    by (simp add: recv_add_regexp_def Let_def)
qed

lemma inv_recv_del:
  assumes "bus_inv s"
  shows "bus_inv (recv_del_regexp c i r s) \<and> same_objs s (recv_del_regexp c i r s)"
proof -
  have s1: "bus_inv (snd (delRegexpForOneClient c i s))" "same_objs s (snd (delRegexpForOneClient c i s))"
    using inv_delRegexp [OF assms] by blast+
  show ?thesis using s1 keeps_trans [OF s1(2) inv_quiet [OF s1(1) quiet_log_bind]]
    by (simp add: recv_del_regexp_def split_def Let_def)
qed

lemma inv_upd_named:
  assumes "bus_inv_but K s"
  shows "bus_inv_but K (upd_ivy_client a (\<lambda>x. x\<lparr>app_name := Some n, app_port := p\<rparr>) s)
    \<and> same_objs s (upd_ivy_client a (\<lambda>x. x\<lparr>app_name := Some n, app_port := p\<rparr>) s)"
  by (rule inv_upd_peer [OF assms]) (simp_all add: peer_core_def regs_core_def regs_inv_def)

lemma inv_upd_plain:
  assumes "bus_inv_but K s" "\<And>p. peer_core (f p) = peer_core p" "\<And>p. regs_core (f p) = regs_core p"
  shows "bus_inv_but K (upd_ivy_client a f s) \<and> same_objs s (upd_ivy_client a f s)"
  by (rule inv_upd_peer [OF assms(1)]) (simp_all add: assms(2,3))

lemma inv_recv_start:
  assumes "bus_inv s"
  shows "bus_inv (recv_start_regexp c i r s) \<and> same_objs s (recv_start_regexp c i r s)"
proof -
  let ?p = "nat (i mod 65536)"
  let ?s1 = "upd_ivy_client (aid c) (\<lambda>x. x\<lparr>app_name := Some r, app_port := ?p\<rparr>) s"
  have s1: "bus_inv ?s1" "same_objs s ?s1" using inv_upd_named [OF assms] by blast+
  obtain other s2 where o: "CheckConnected (aclient c) ?s1 = (other, s2)" by force
  have "quiet ?s1 s2" using quiet_CheckConnected [of ?s1 "aclient c"] o by simp
  then have s2: "bus_inv s2 \<and> same_objs s s2" using keeps_trans [OF s1(2) inv_quiet [OF s1(1)]] by blast
  show ?thesis
  proof (cases other)
    case None
    then show ?thesis using o s2 by (simp add: recv_start_regexp_def Let_def)
  next
    case (Some o1)
    have e: "bus_inv (upd_ivy_client (aid t) (\<lambda>x. x\<lparr>ignore_subsequent_msg := True\<rparr>)
          (SocketClose k (IvySendError t 0 m s2)))
        \<and> same_objs s (upd_ivy_client (aid t) (\<lambda>x. x\<lparr>ignore_subsequent_msg := True\<rparr>)
          (SocketClose k (IvySendError t 0 m s2)))" for t k m
    proof -
      have "quiet s2 (SocketClose k (IvySendError t 0 m s2))"
        using quiet_IvySendError quiet_SocketClose by (rule quiet_trans)
      then have "bus_inv (SocketClose k (IvySendError t 0 m s2)) \<and> same_objs s (SocketClose k (IvySendError t 0 m s2))"
        using keeps_trans [OF conjunct2 [OF s2] inv_quiet [OF conjunct1 [OF s2]]] by blast
      moreover from this [THEN conjunct1] have "bus_inv (upd_ivy_client (aid t) (\<lambda>x. x\<lparr>ignore_subsequent_msg := True\<rparr>)
          (SocketClose k (IvySendError t 0 m s2))) \<and> same_objs (SocketClose k (IvySendError t 0 m s2))
         (upd_ivy_client (aid t) (\<lambda>x. x\<lparr>ignore_subsequent_msg := True\<rparr>) (SocketClose k (IvySendError t 0 m s2)))"
        by (rule inv_upd_plain) (simp_all add: peer_core_def regs_core_def)
      ultimately show ?thesis using keeps_trans by blast
    qed
    show ?thesis using o Some e by (simp add: recv_start_regexp_def Let_def)
  qed
qed

lemma inv_recv_end:
  assumes "bus_inv s"
  shows "bus_inv (recv_end_regexp env c s) \<and> same_objs s (recv_end_regexp env c s)"
proof -
  let ?s1 = "if application_callback s \<noteq> NULL then log_event (EvApp (aid c) IvyApplicationConnected) s else s"
  let ?s2 = "upd_ivy_client (aid c) (\<lambda>x. x\<lparr>readyToSend := readyToSend x + 1\<rparr>) ?s1"
  have s1: "bus_inv ?s1" "same_objs s ?s1" using inv_quiet [OF assms quiet_log_event] assms by auto
  have "bus_inv ?s2 \<and> same_objs ?s1 ?s2"
    by (rule inv_upd_plain [OF s1(1)]) (simp_all add: peer_core_def regs_core_def)
  then have s2: "bus_inv ?s2 \<and> same_objs s ?s2" using keeps_trans [OF s1(2)] by blast
  define t where "t = ?s2"
  have "recv_end_regexp env c s = (case ready_message t of None \<Rightarrow> t
      | Some m \<Rightarrow> if readyToSend c + 1 = 2 then snd (ClientCall (be_pcre env) c m t) else t)"
    by (simp add: recv_end_regexp_def Let_def t_def split: option.splits)
  moreover have t: "bus_inv t \<and> same_objs s t" unfolding t_def by (rule s2)
  moreover have "bus_inv (snd (ClientCall px c m t)) \<and> same_objs s (snd (ClientCall px c m t))" for px m
    using keeps_trans [OF conjunct2 [OF t] inv_quiet [OF conjunct1 [OF t] quiet_ClientCall]] .
  ultimately show ?thesis by (simp split: option.splits)
qed

lemma quiet_recv_msg: "quiet s (recv_msg c i arg s)"
  by (simp add: recv_msg_def split: option.splits)

lemma inv_recv_pong:
  assumes "bus_inv s"
  shows "bus_inv (recv_pong c i s)"
proof -
  have "bus_inv (upd_ivy_client (aid c) (\<lambda>x. x\<lparr>ping_ts := (0, 0)\<rparr>) s)
    \<and> same_objs s (upd_ivy_client (aid c) (\<lambda>x. x\<lparr>ping_ts := (0, 0)\<rparr>) s)"
    by (rule inv_upd_plain [OF assms]) (simp_all add: peer_core_def regs_core_def)
  then show ?thesis using assms by (simp add: recv_pong_def Let_def)
qed

lemma inv_recv_die:
  assumes "bus_inv s"
  shows "bus_inv (recv_die c i s)"
proof -
  let ?s1 = "if application_die_callback s \<noteq> NULL then log_event (EvDie (aid c) i) s else s"
  have "bus_inv (IvyCleanup ?s1)" using assms by (simp add: inv_IvyCleanup)
  moreover have "quiet t (IvyChannelStop t)" for t :: "'a ivy_state_scheme"
    by (rule quietI) (simp_all add: IvyChannelStop_def)
  ultimately have "bus_inv (IvyChannelStop (IvyCleanup ?s1))" using quiet_inv by blast
  then show ?thesis by (simp add: recv_die_def Let_def)
qed

text \<open>The line may come on any socket whose data is the peer: it is the socket of the peer.\<close>

definition reads where
  "reads c d s \<longleftrightarrow> (\<exists>h. (c, FN_Receive, h, d) \<in> set (socks s))"

lemma reads_peer:
  assumes "bus_inv_but K s" "reads c d s" "(d, k) \<in> set (peers s)"
  shows "k = c"
  using assms by (fastforce simp: reads_def inv_split others_inv_def others_def data_inv_def)

lemma find_ivy_client_peers: "find_ivy_client d s = Some p \<Longrightarrow> aid p = d \<and> (d, aclient p) \<in> set (peers s)"
  using find_ivy_client_Some [of d s p] by (force simp: peers_def peer_core_def)

lemma set_own_socket:
  assumes "bus_inv_but K s" "reads c d s"
  shows "upd_ivy_client d (\<lambda>x. x\<lparr>aclient := c\<rparr>) s = s"
proof -
  have "(if aid x = d then x\<lparr>aclient := c\<rparr> else x) = x" if "x \<in> set (allClients s)" for x
  proof (cases "aid x = d")
    case True
    then have "(d, aclient x) \<in> set (peers s)" using that by (force simp: peers_def peer_core_def)
    then show ?thesis using reads_peer [OF assms] by simp
  qed simp
  then show ?thesis by (simp add: upd_ivy_client_def map_idI)
qed

lemma inv_recv_bad:
  assumes "bus_inv s" "reads c d s" "find_ivy_client d s = Some p"
  shows "bus_inv (recv_bad_format c p s)"
proof -
  let ?m = "''bad format request expected '' @ [CHR 0x27] @ ''type id ...'' @ [CHR 0x27]"
  let ?t = "SocketClose c (send_to (p\<lparr>aclient := c\<rparr>) Bye 0 [] (send_to (p\<lparr>aclient := c\<rparr>) Error (msg_num Error) ?m s))"
  have "upd_ivy_client (aid p) (\<lambda>x. x\<lparr>aclient := c\<rparr>) s = s"
    using set_own_socket [OF assms(1,2)] find_ivy_client_peers [OF assms(3)] by simp
  then have e: "recv_bad_format c p s = ?t" by (simp add: recv_bad_format_def Let_def)
  have "quiet s ?t" by (simp add: quiet_def)
  then show ?thesis unfolding e using quiet_inv assms(1) by blast
qed

lemma inv_receive_kind:
  assumes "bus_inv s" "known p s"
  shows "bus_inv (receive_kind env c k p i arg s)"
proof -
  have q: "bus_inv t" if "quiet s t" for t using quiet_inv [OF that assms(1)] .
  show ?thesis
    using assms(1) inv_recv_add [OF assms] inv_recv_del [OF assms(1)] inv_recv_start [OF assms(1)]
      inv_recv_end [OF assms(1)] inv_recv_pong [OF assms(1)] inv_recv_die [OF assms(1)] q [OF quiet_recv_msg]
      q [OF quiet_log_event] q [OF quiet_SocketClose] q [OF quiet_send_to]
    by (simp add: receive_kind_def split: option.split MsgType.split)
qed

lemma inv_Receive:
  assumes "bus_inv s" "reads c d s"
  shows "bus_inv (Receive env c d line s)"
proof (cases "d \<noteq> NULL \<and> (\<exists>p. find_ivy_client d s = Some p \<and> \<not> ignore_subsequent_msg p)")
  case False
  then show ?thesis using assms(1) inv_crash [OF assms(1)] by (auto simp: Receive_def split: option.splits)
next
  case True
  then obtain p where p: "d \<noteq> NULL" "find_ivy_client d s = Some p" "\<not> ignore_subsequent_msg p" by blast
  have n: "app_name p \<noteq> None" using assms(1) find_ivy_client_Some [OF p(2)]
    by (auto simp: inv_split others_inv_def others_def regs_inv_def regs_def regs_core_def)
  have k: "known p s" using n find_ivy_client_peers [OF p(2)] by (simp add: known_def peer_core_def)
  show ?thesis
  proof (cases "parse_line line")
    case None
    then show ?thesis using p inv_recv_bad [OF assms p(2)] by (simp add: Receive_def)
  next
    case (Some l)
    obtain kind i arg where l: "l = (kind, i, arg)" using prod_cases3 by blast
    let ?s = "upd_ivy_client d (\<lambda>x. x\<lparr>app_id := i\<rparr>) s"
    have s: "bus_inv ?s \<and> same_objs s ?s"
      by (rule inv_upd_plain [OF assms(1)]) (simp_all add: peer_core_def regs_core_def)
    then have "known (p\<lparr>app_id := i\<rparr>) ?s" using k known_same [of s ?s p] by simp
    then show ?thesis using p Some l inv_receive_kind [OF conjunct1 [OF s]] by (simp add: Receive_def)
  qed
qed

subsection \<open>New and closed sockets, new peers\<close>

lemmas core_parts = core_inv_def peers_inv_def regs_inv_def socks_inv_def live_inv_def data_inv_def

lemma core_add_peer:
  assumes "core_inv n {} (P, G, D, S, V, R, i)" "n < m" "(c, f, FN_ClientDelete, d) \<in> set S" "c \<notin> snd ` set P"
  shows "core_inv m {} ((n, c) # P, (True, []) # G, D, S, V, R, i)"
proof -
  have m: "core_inv m {} (P, G, D, S, V, R, i)" using assms(1,2) by (auto intro: core_inv_mono)
  have "n \<notin> fst ` set P" using assms(1) by (auto simp: core_parts)
  then have "peers_inv m ((n, c) # P)" using m assms by (auto simp: core_parts)
  moreover have "regs_inv m ((True, []) # G)" using m by (auto simp: core_parts)
  moreover have "live_inv ((n, c) # P) S" using m assms(3) by (auto simp: core_parts)
  moreover have "data_inv ((n, c) # P) S" using assms(1) by (fastforce simp: core_parts)
  moreover have "subs_inv (snd ` set ((n, c) # P)) D" using m by (fastforce simp: core_inv_def subs_inv_def)
  ultimately show ?thesis using m by (simp add: core_inv_def)
qed

lemma core_add_sock:
  assumes "core_inv n {} (P, G, D, S, V, R, i)" "n < m"
  shows "core_inv m {} (P, G, D, (n, f, h, NULL) # S, V, R, i)"
proof -
  have m: "core_inv m {} (P, G, D, S, V, R, i)" using assms by (auto intro: core_inv_mono)
  have "n \<notin> fst ` set S" using assms(1) by (fastforce simp: core_parts)
  then have "socks_inv m ((n, f, h, NULL) # S)" using m assms by (auto simp: core_parts)
  moreover have "live_inv P ((n, f, h, NULL) # S)" using m by (fastforce simp: core_parts)
  moreover have "data_inv P ((n, f, h, NULL) # S)" using m by (fastforce simp: core_parts)
  ultimately show ?thesis using m by (simp add: core_inv_def)
qed

definition set_data :: "addr \<Rightarrow> addr \<Rightarrow> (addr \<times> fnptr \<times> fnptr \<times> addr) \<Rightarrow> addr \<times> fnptr \<times> fnptr \<times> addr" where
  "set_data c d x = (case x of (c', f, h, d') \<Rightarrow> (c', f, h, if c' = c then d else d'))"

lemma core_set_data:
  assumes "core_inv n {} (P, G, D, S, V, R, i)" "d < n" "d = NULL \<or> (d, c) \<in> set P"
  shows "core_inv n {} (P, G, D, map (set_data c d) S, V, R, i)"
proof -
  have "map fst (map (set_data c d) S) = map fst S" by (simp add: set_data_def split_def)
  then have "socks_inv n (map (set_data c d) S)" using assms(1,2)
    by (fastforce simp: core_inv_def socks_inv_def set_data_def simp del: map_map)
  moreover have "live_inv P (map (set_data c d) S)" using assms(1) unfolding core_inv_def live_inv_def
    by (force simp: set_data_def image_iff)
  moreover have "data_inv P (map (set_data c d) S)"
  proof -
    have u: "k = c" if "(d, k) \<in> set P" for k
      using assms(1,3) that eq_key_imp_eq_value [of P d k c] by (auto simp: core_parts)
    have "data_inv P S" using assms(1) by (simp add: core_inv_def)
    then show ?thesis unfolding data_inv_def set_data_def split_def using u by (simp, metis prod.collapse)
  qed
  ultimately show ?thesis using assms(1) by (simp add: core_inv_def)
qed

lemma core_del_sock:
  assumes "core_inv n {} (P, G, D, S, V, R, i)" "c \<notin> snd ` set P"
  shows "core_inv n {} (P, G, D, filter (\<lambda>x. fst x \<noteq> c) S, V, R, i)"
proof -
  have s: "live_inv P S" "socks_inv n S" "data_inv P S" using assms(1) by (simp_all add: core_inv_def)
  have "live_inv P (filter (\<lambda>x. fst x \<noteq> c) S)" using s(1) assms(2) by (auto simp: live_inv_def)
  moreover have "socks_inv n (filter (\<lambda>x. fst x \<noteq> c) S)"
    using s(2) by (simp add: socks_inv_def distinct_map_filter)
  moreover have "data_inv P (filter (\<lambda>x. fst x \<noteq> c) S)" using s(3) by (simp add: data_inv_def)
  ultimately show ?thesis using assms(1) by (simp add: core_inv_def)
qed

lemma core_set_servers:
  "core_inv n K (P, G, D, S, V, R, i) \<Longrightarrow> servers_inv V' \<Longrightarrow> core_inv n K (P, G, D, S, V', R, i)"
  by (simp add: core_inv_def)

lemma core_set_rcvs:
  "core_inv n K (P, G, D, S, V, R, i) \<Longrightarrow> n \<le> m \<Longrightarrow> rcvs_inv m i' R' \<Longrightarrow> core_inv m K (P, G, D, S, V, R', i')"
  using core_inv_mono [of n K "(P, G, D, S, V, R, i)" m] by (simp add: core_inv_def)

text \<open>The same on states.\<close>

lemma inv_new_sock:
  assumes "bus_inv s" "allClients t = allClients s" "messSndByRegexp t = messSndByRegexp s" "msg_recv t = msg_recv s"
    "recv_id t = recv_id s" "servers_list t = servers_list s" "clients_list t = x # clients_list s"
    "cid x = next_addr s" "cdata x = NULL" "next_addr s < next_addr t"
  shows "bus_inv t" "socks t = (next_addr s, interpretation_fn x, chandle_delete x, NULL) # socks s" "peers t = peers s"
proof -
  show p: "peers t = peers s" using assms by (simp add: peers_def)
  show s: "socks t = (next_addr s, interpretation_fn x, chandle_delete x, NULL) # socks s"
    using assms by (simp add: socks_def sock_core_def)
  have o: "regs t = regs s" "entries t = entries s" "servers t = servers s" "rcvs t = rcvs s"
    using assms by (simp_all add: regs_def entries_def servers_def rcvs_def)
  show "bus_inv t" using core_add_sock [of "next_addr s"] assms(1,5,10)
    by (simp add: bus_inv_but_def core_def p s o)
qed

lemma inv_new_peer:
  assumes "bus_inv s" "quiet s t" "next_addr s < next_addr t" "peer_core p = (next_addr s, c)" "regs_core p = (True, [])"
    "(c, f, FN_ClientDelete, d) \<in> set (socks s)" "c \<notin> snd ` set (peers s)"
  shows "bus_inv (t\<lparr>allClients := p # allClients t\<rparr>)" "socks (t\<lparr>allClients := p # allClients t\<rparr>) = socks s"
    "peers (t\<lparr>allClients := p # allClients t\<rparr>) = (next_addr s, c) # peers s"
proof -
  let ?u = "t\<lparr>allClients := p # allClients t\<rparr>"
  have q: "peers t = peers s" "regs t = regs s" "entries t = entries s" "socks t = socks s" "servers t = servers s"
    "rcvs t = rcvs s" "recv_id t = recv_id s"
    using assms(2) by (simp_all add: quiet_def core_def)
  show p: "peers ?u = (next_addr s, c) # peers s" using q(1) assms(4) by (simp add: peers_def)
  show s: "socks ?u = socks s" using q(4) by (simp add: socks_def)
  have o: "regs ?u = (True, []) # regs s" "entries ?u = entries s" "servers ?u = servers s" "rcvs ?u = rcvs s"
    using q assms(5) by (simp_all add: regs_def entries_def servers_def rcvs_def)
  show "bus_inv ?u" using core_add_peer [of "next_addr s", OF _ assms(3,6,7)] assms(1)
    by (simp add: bus_inv_but_def core_def p s o q(7))
qed

lemma socks_upd_data: "socks (upd_client c (\<lambda>y. y\<lparr>cdata := d\<rparr>) s) = map (set_data c d) (socks s)"
  by (simp add: upd_client_def socks_def sock_core_def set_data_def)

lemma inv_set_data:
  assumes "bus_inv s" "d = NULL \<or> (d, c) \<in> set (peers s)"
  shows "bus_inv (upd_client c (\<lambda>y. y\<lparr>cdata := d\<rparr>) s)" "peers (upd_client c (\<lambda>y. y\<lparr>cdata := d\<rparr>) s) = peers s"
proof -
  let ?t = "upd_client c (\<lambda>y. y\<lparr>cdata := d\<rparr>) s"
  have o: "peers ?t = peers s" "regs ?t = regs s" "entries ?t = entries s" "servers ?t = servers s" "rcvs ?t = rcvs s"
    "recv_id ?t = recv_id s" "next_addr ?t = next_addr s"
    by (simp_all add: upd_client_def peers_def regs_def entries_def servers_def rcvs_def)
  note s = socks_upd_data
  have "d < next_addr s" using assms by (force simp: bus_inv_but_def core_def core_inv_def peers_inv_def)
  then show "bus_inv ?t" using core_set_data assms by (simp add: bus_inv_but_def core_def o s)
  show "peers ?t = peers s" by (rule o(1))
qed

subsection \<open>Peers that connect\<close>

text \<open>What making a peer for the socket \<open>c\<close> leaves: the peer given back, and no other change of the peers.\<close>

lemma inv_SendService:
  assumes "bus_inv s" "(c, f, FN_ClientDelete, d) \<in> set (socks s)" "c \<notin> snd ` set (peers s)"
  shows "bus_inv (snd (SendService env c n s))"
    "peers (snd (SendService env c n s)) = (next_addr s, c) # peers s"
    "fst (SendService env c n s) = next_addr s" "socks (snd (SendService env c n s)) = socks s"
    "\<exists>q cs. allClients (snd (SendService env c n s)) = q # cs \<and> \<not> ignore_subsequent_msg q \<and> srcRegList q = []"
proof -
  let ?p = "\<lparr>aid = next_addr s, aclient = c, app_name = Some n, app_port = 0, app_id = 0, srcRegList = [],
    readyToSend = 0, ignore_subsequent_msg = False, ping_ts = (0, 0), ping_id = 0\<rparr>"
  let ?q = "?p\<lparr>readyToSend := 1\<rparr>"
  let ?s1 = "send_to ?p StartRegexp (int (ApplicationPort s)) (cstring_arg (ApplicationName s)) (s\<lparr>next_addr := Suc (next_addr s)\<rparr>)"
  let ?s3 = "send_to ?p EndRegexp 0 [] (fold (\<lambda>m t. send_to ?p AddRegexp (msg_id m) (cstring_arg (regexp m)) t) (msg_recv ?s1) ?s1)"
  let ?s4 = "?s3\<lparr>allClients := ?q # allClients ?s3\<rparr>"
  have "quiet ?s1 (fold (\<lambda>m t. send_to ?p AddRegexp (msg_id m) (cstring_arg (regexp m)) t) (msg_recv ?s1) ?s1)"
    by (rule fold_quiet) simp
  then have q: "quiet ?s1 ?s3" using quiet_send_to quiet_trans by blast
  have "next_addr ?s1 = Suc (next_addr s)" by simp
  then have n: "next_addr s < next_addr ?s3" using q by (simp add: quiet_def)
  have "quiet s ?s1" by (simp add: quiet_def)
  then have "quiet s ?s3" using q quiet_trans by blast
  note s4 = inv_new_peer [OF assms(1) this n _ _ assms(2,3), of ?q]
  then have s4: "bus_inv ?s4" "peers ?s4 = (next_addr s, c) # peers s" "socks ?s4 = socks s"
    by (simp_all add: peer_core_def regs_core_def)
  have e: "SendService env c n s = (next_addr s, case ready_message ?s4 of None \<Rightarrow> ?s4 | Some m \<Rightarrow> ?s4)"
    by (simp add: SendService_def Let_def split: option.splits)
  show "bus_inv (snd (SendService env c n s))" "peers (snd (SendService env c n s)) = (next_addr s, c) # peers s"
    "fst (SendService env c n s) = next_addr s" "socks (snd (SendService env c n s)) = socks s"
    "\<exists>q cs. allClients (snd (SendService env c n s)) = q # cs \<and> \<not> ignore_subsequent_msg q \<and> srcRegList q = []"
    unfolding e using s4 by (simp_all split: option.splits)
qed

lemma inv_ClientCreate:
  assumes "bus_inv s" "(c, f, FN_ClientDelete, d) \<in> set (socks s)" "c \<notin> snd ` set (peers s)"
  shows "bus_inv (snd (ClientCreate env c s))"
    "fst (ClientCreate env c s) = NULL \<or> (fst (ClientCreate env c s), c) \<in> set (peers (snd (ClientCreate env c s)))"
proof -
  obtain already s1 where a: "CheckConnected c s = (already, s1)" by force
  have q: "quiet s s1" using quiet_CheckConnected [of s c] a by simp
  then have s1: "bus_inv s1" "(c, f, FN_ClientDelete, d) \<in> set (socks s1)" "c \<notin> snd ` set (peers s1)"
    using quiet_inv assms quiet_same_objs [OF q] by (auto simp: same_objs_def)
  note ss = inv_SendService [OF s1, of env]
  have cl: "bus_inv (SocketClose c s1)" using quiet_inv [OF quiet_SocketClose s1(1)] .
  show "bus_inv (snd (ClientCreate env c s))"
    using assms(1) inv_crash [OF assms(1)] a ss(1) cl
    by (simp add: ClientCreate_def Let_def split: option.split)
  show "fst (ClientCreate env c s) = NULL \<or> (fst (ClientCreate env c s), c) \<in> set (peers (snd (ClientCreate env c s)))"
    using a ss(2,3) by (simp add: ClientCreate_def Let_def split: option.split)
qed

lemma channel_add_frame:
  fixes s :: "'a sock_state_scheme"
  assumes "IvyChannelAdd fd k h1 h2 h3 s = (chan, t)"
  shows "sock_state.more t = sock_state.more s" "clients_list t = clients_list s" "servers_list t = servers_list s"
    "next_addr t = Suc (next_addr s)"
  using assms by (auto simp: IvyChannelAdd_def Let_def FD_SET_open_def raise_highest_def crash_def)

lemma more_fields:
  fixes s t :: "'a ivy_state_scheme"
  assumes "sock_state.more s = sock_state.more t"
  shows "allClients s = allClients t" "messSndByRegexp s = messSndByRegexp t" "msg_recv s = msg_recv t"
    "recv_id s = recv_id t"
  using assms by (cases s; cases t; simp)+

lemma peer_socks_old: "bus_inv_but K s \<Longrightarrow> k \<in> snd ` set (peers s) \<Longrightarrow> k < next_addr s"
  by (fastforce simp: inv_split others_inv_def others_def live_inv_def socks_inv_def)

lemma inv_make_sock:
  assumes inv: "bus_inv s"
    and c: "IvyChannelAdd fd (next_addr s) h1 h2 h3 (s\<lparr>next_addr := Suc (next_addr s)\<rparr>) = (chan, u)"
    and x: "cid x = next_addr s" "cdata x = NULL"
  shows "bus_inv (u\<lparr>clients_list := x # clients_list u\<rparr>)" "peers (u\<lparr>clients_list := x # clients_list u\<rparr>) = peers s"
    "socks (u\<lparr>clients_list := x # clients_list u\<rparr>) = (next_addr s, interpretation_fn x, chandle_delete x, NULL) # socks s"
proof -
  let ?t = "u\<lparr>clients_list := x # clients_list u\<rparr>"
  note f = channel_add_frame [OF c] more_fields [OF channel_add_frame(1) [OF c]]
  have "allClients ?t = allClients s" "messSndByRegexp ?t = messSndByRegexp s" "msg_recv ?t = msg_recv s"
    "recv_id ?t = recv_id s" "servers_list ?t = servers_list s" "clients_list ?t = x # clients_list s"
    "next_addr s < next_addr ?t" using f by simp_all
  from inv_new_sock [OF inv this(1-6) x this(7)]
  show "bus_inv ?t" "peers ?t = peers s" "socks ?t = (next_addr s, interpretation_fn x, chandle_delete x, NULL) # socks s"
    by simp_all
qed

lemma quiet_exit [simp]: 
  fixes s :: "'a ivy_state_scheme"
  shows "quiet s (exit_process s)"
  by (simp add: quiet_def exit_process_def)

lemma inv_SocketConnectAddr:
  assumes "bus_inv s" "SocketConnectAddr os v6 a port NULL f h dc s = (c, t)"
  shows "bus_inv t" "peers t = peers s" "c = NULL \<or> (c = next_addr s \<and> (c, f, h, NULL) \<in> set (socks t))"
proof -
  have "bus_inv t \<and> peers t = peers s \<and> (c = NULL \<or> (c = next_addr s \<and> (c, f, h, NULL) \<in> set (socks t)))"
  proof (cases "os_socket os")
    case None
    then show ?thesis using assms by (simp add: SocketConnectAddr_def)
  next
    case (Some fd)
    show ?thesis
    proof (cases "os_connect os \<and> os_setsockopt os")
      case False
      then show ?thesis using assms Some inv_quiet [OF assms(1) quiet_exit]
        by (auto simp: SocketConnectAddr_def same_objs_def split: if_splits)
    next
      case True
      obtain chan u where u: "IvyChannelAdd fd (next_addr s) (Some H_DeleteSocket) (Some H_HandleSocket)
        (Some H_HandleCongestionWrite) (s\<lparr>next_addr := Suc (next_addr s)\<rparr>) = (chan, u)" by force
      let ?x = "(fresh_client (next_addr s) fd v6 ''init by SocketConnectAddr'')
        \<lparr>cchannel := chan, interpretation_fn := f, cdata := NULL, chandle_delete := h, chandle_decongestion := dc,
         local_port := (case os_getsockname os of None \<Rightarrow> 0 | Some p \<Rightarrow> htons p)\<rparr>"
      have "SocketConnectAddr os v6 a port NULL f h dc s = (next_addr s, u\<lparr>clients_list := ?x # clients_list u\<rparr>)"
        using Some True u by (simp add: SocketConnectAddr_def Let_def)
      then have "c = next_addr s \<and> t = u\<lparr>clients_list := ?x # clients_list u\<rparr>" using assms(2) by (metis prod.inject)
      then show ?thesis using inv_make_sock [OF assms(1) u, of ?x] by (simp add: fresh_client_def)
    qed
  qed
  then show "bus_inv t" "peers t = peers s" "c = NULL \<or> (c = next_addr s \<and> (c, f, h, NULL) \<in> set (socks t))" by blast+
qed

lemma inv_SocketBroadcastCreate:
  assumes "bus_inv s"
  shows "bus_inv (snd (SocketBroadcastCreate os v6 port NULL f s))"
proof (cases "\<exists>fd. os_socket os = Some fd \<and> os_setsockopt os \<and> os_bind os")
  case False
  then show ?thesis using assms by (auto simp: SocketBroadcastCreate_def split: option.splits)
next
  case True
  then obtain fd where fd: "os_socket os = Some fd" "os_setsockopt os" "os_bind os" by blast
  obtain chan u where u: "IvyChannelAdd fd (next_addr s) (Some H_DeleteSocket) (Some H_HandleSocket)
    (Some H_HandleCongestionWrite) (s\<lparr>next_addr := Suc (next_addr s)\<rparr>) = (chan, u)" by force
  let ?x = "(fresh_client (next_addr s) fd v6 ''init by SocketBroadcastCreate'')
    \<lparr>cchannel := chan, interpretation_fn := f, cdata := NULL, dgram := True, local_port := htons port\<rparr>"
  have "snd (SocketBroadcastCreate os v6 port NULL f s) = u\<lparr>clients_list := ?x # clients_list u\<rparr>"
    using fd u by (simp add: SocketBroadcastCreate_def Let_def)
  then show ?thesis using inv_make_sock(1) [OF assms u, of ?x] by (simp add: fresh_client_def)
qed

lemma quiet_upd_client:
  fixes s :: "'a ivy_state_scheme"
  shows "(\<And>x. sock_core (f x) = sock_core x) \<Longrightarrow> quiet s (upd_client c f s)"
  by (simp add: quiet_def)

lemma inv_BroadcastReceive:
  assumes "bus_inv s"
  shows "bus_inv (BroadcastReceive env c d line s)"
proof -
  have conn: "bus_inv (let (app, s1) = SocketConnectAddr (be_sock env (next_addr s)) v a p NULL
        FN_Receive FN_ClientDelete FN_ClientDecongestion s
      in if app = NULL then SocketSetData app NULL s1
         else (let (clnt, s2) = SendService env app n s1 in SocketSetUuid app i (SocketSetData app clnt s2)))" for v a p n i
  proof -
    obtain app s1 where o: "SocketConnectAddr (be_sock env (next_addr s)) v a p NULL
        FN_Receive FN_ClientDelete FN_ClientDecongestion s = (app, s1)" by force
    note s1 = inv_SocketConnectAddr [OF assms o]
    show ?thesis
    proof (cases "app = NULL")
      case True
      then show ?thesis using o s1(1) by (simp add: SocketSetData_def)
    next
      case False
      then have a: "app = next_addr s" "(app, FN_Receive, FN_ClientDelete, NULL) \<in> set (socks s1)" using s1(3) by blast+
      have "app \<notin> snd ` set (peers s1)" using peer_socks_old [OF assms, of app] a(1) s1(2) by auto
      note s2 = inv_SendService [OF s1(1) a(2) this, of env n]
      obtain clnt s2 where s2': "SendService env app n s1 = (clnt, s2)" by force
      have b: "bus_inv s2" "(clnt, app) \<in> set (peers s2)" using s2 s2' by auto
      have c1: "bus_inv (upd_client app (\<lambda>y. y\<lparr>cdata := clnt\<rparr>) s2)" using inv_set_data(1) [OF b(1)] b(2) by blast
      have u: "bus_inv (SocketSetUuid app i t)" if "bus_inv t" for t :: "'a ivy_state_scheme"
        using that inv_crash [OF that] quiet_inv [OF quiet_upd_client that] False
        by (simp add: SocketSetUuid_def with_client_def sock_core_def split: option.split)
      have "bus_inv (SocketSetData app clnt s2)" using b(1) c1 inv_crash [OF b(1)] False
        by (simp add: SocketSetData_def with_client_def split: option.split)
      then show ?thesis using o s2' False u by simp
    qed
  qed
  show ?thesis using assms inv_crash [OF assms] conn
    by (simp add: BroadcastReceive_def split: option.split prod.split)
qed

subsection \<open>The handlers of the sockets\<close>

lemma inv_log: "bus_inv s \<Longrightarrow> bus_inv (if b then log_event e s else s)"
  by simp

lemma socks_log: "socks (if b then log_event e s else s) = socks s" "peers (if b then log_event e s else s) = peers s"
  by (simp_all add: log_event_def socks_def peers_def)

lemma inv_ClientDelete:
  assumes "bus_inv s"
  shows "bus_inv (ClientDelete c d s)" "socks (ClientDelete c d s) = socks s" "c \<notin> snd ` set (peers (ClientDelete c d s))"
  using inv_delOneClient [OF inv_log [OF assms]] by (simp_all add: ClientDelete_def socks_log)

lemma find_client_socks: "find_client c s = Some x \<Longrightarrow> (c, interpretation_fn x, chandle_delete x, cdata x) \<in> set (socks s)"
  using find_client_Some [of c s x] by (force simp: socks_def sock_core_def)

lemma sock_unique:
  assumes "bus_inv_but K s" "(c, y) \<in> set (socks s)" "(c, z) \<in> set (socks s)"
  shows "y = z"
proof -
  have "distinct (map fst (socks s))" using assms(1) by (simp add: inv_split others_inv_def others_def socks_inv_def)
  then show ?thesis using eq_key_imp_eq_value [OF _ assms(2,3)] by simp
qed

text \<open>Before a socket goes its peer is forgotten.\<close>

lemma forgotten_first:
  assumes "bus_inv s" "find_client c s = Some x"
    and t: "t = (if chandle_delete x \<noteq> NULL then call_delete (bus_callbacks env) (chandle_delete x) c (cdata x) s else s)"
  shows "bus_inv t" "c \<notin> snd ` set (peers t)"
proof -
  have "bus_inv t \<and> c \<notin> snd ` set (peers t)"
  proof (cases "chandle_delete x = FN_ClientDelete")
    case True
    then show ?thesis using inv_ClientDelete [OF assms(1)] FN_nonnull(2) by (simp add: t)
  next
    case False
    have "c \<notin> snd ` set (peers s)"
    proof
      assume "c \<in> snd ` set (peers s)"
      moreover have "live_inv (peers s) (socks s)" using assms(1) by (simp add: inv_split others_inv_def others_def)
      ultimately obtain f d where "(c, f, FN_ClientDelete, d) \<in> set (socks s)" unfolding live_inv_def by blast
      from sock_unique [OF assms(1) this find_client_socks [OF assms(2)]] show False using False by simp
    qed
    then show ?thesis using assms(1) False by (simp add: t)
  qed
  then show "bus_inv t" "c \<notin> snd ` set (peers t)" by blast+
qed

lemma inv_drop_sock:
  assumes "bus_inv s" "c \<notin> snd ` set (peers s)"
  shows "bus_inv (s\<lparr>closed_fds := fds, clients_list := filter (\<lambda>z. cid z \<noteq> c) (clients_list s)\<rparr>)"
proof -
  let ?t = "s\<lparr>closed_fds := fds, clients_list := filter (\<lambda>z. cid z \<noteq> c) (clients_list s)\<rparr>"
  have o: "peers ?t = peers s" "regs ?t = regs s" "entries ?t = entries s" "servers ?t = servers s" "rcvs ?t = rcvs s"
    by (simp_all add: peers_def regs_def entries_def servers_def rcvs_def)
  have "socks ?t = filter (\<lambda>x. fst x \<noteq> c) (socks s)" by (simp add: socks_def sock_core_def filter_map comp_def)
  then show ?thesis using core_del_sock [OF _ assms(2)] assms(1) by (simp add: bus_inv_but_def core_def o)
qed

lemma inv_DeleteSocket:
  assumes "bus_inv s"
  shows "bus_inv (DeleteSocket (bus_callbacks env) c s)"
proof (cases "c \<noteq> NULL \<and> find_client c s \<noteq> None")
  case False
  then show ?thesis using inv_crash [OF assms] assms by (auto simp: DeleteSocket_def with_client_def)
next
  case True
  then obtain x where x: "c \<noteq> NULL" "find_client c s = Some x" by blast
  define t where "t = (if chandle_delete x \<noteq> NULL then call_delete (bus_callbacks env) (chandle_delete x) c (cdata x) s else s)"
  note t = forgotten_first [OF assms x(2) t_def]
  have "DeleteSocket (bus_callbacks env) c s = with_client c t (\<lambda>y. t\<lparr>closed_fds := cfd y # closed_fds t,
      clients_list := filter (\<lambda>z. cid z \<noteq> c) (clients_list t)\<rparr>)"
    using x by (simp add: DeleteSocket_def with_client_def t_def Let_def)
  then show ?thesis using inv_drop_sock [OF t] inv_crash [OF t(1)] x(1) by (simp add: with_client_def split: option.split)
qed

lemma inv_set_servers:
  assumes "bus_inv s" "servers_inv (map server_core vs)"
  shows "bus_inv (s\<lparr>closed_fds := fds, servers_list := vs\<rparr>)" "bus_inv (s\<lparr>servers_list := vs\<rparr>)"
proof -
  have o: "peers (s\<lparr>closed_fds := fs, servers_list := vs\<rparr>) = peers s"
    "regs (s\<lparr>closed_fds := fs, servers_list := vs\<rparr>) = regs s"
    "entries (s\<lparr>closed_fds := fs, servers_list := vs\<rparr>) = entries s"
    "socks (s\<lparr>closed_fds := fs, servers_list := vs\<rparr>) = socks s"
    "rcvs (s\<lparr>closed_fds := fs, servers_list := vs\<rparr>) = rcvs s"
    "servers (s\<lparr>closed_fds := fs, servers_list := vs\<rparr>) = map server_core vs" for fs
    by (simp_all add: peers_def regs_def entries_def socks_def rcvs_def servers_def)
  have b: "bus_inv (s\<lparr>closed_fds := fs, servers_list := vs\<rparr>)" for fs
    using core_set_servers assms by (simp add: bus_inv_but_def core_def o)
  show "bus_inv (s\<lparr>closed_fds := fds, servers_list := vs\<rparr>)" by (rule b)
  have "s\<lparr>closed_fds := closed_fds s, servers_list := vs\<rparr> = s\<lparr>servers_list := vs\<rparr>" by simp
  then show "bus_inv (s\<lparr>servers_list := vs\<rparr>)" using b [of "closed_fds s"] by simp
qed

lemma inv_servers:
  assumes "bus_inv s" "set (map server_core vs) \<subseteq> set (servers s)"
  shows "bus_inv (s\<lparr>servers_list := vs\<rparr>)" "bus_inv (s\<lparr>closed_fds := fds, servers_list := vs\<rparr>)"
proof -
  have "servers_inv (servers s)" using assms(1) by (simp add: inv_split others_inv_def others_def)
  then have "servers_inv (map server_core vs)" using assms(2) unfolding servers_inv_def by blast
  then show "bus_inv (s\<lparr>closed_fds := fds, servers_list := vs\<rparr>)" "bus_inv (s\<lparr>servers_list := vs\<rparr>)"
    by (simp_all only: inv_set_servers [OF assms(1)])
qed

lemma inv_DeleteServerSocket: "bus_inv s \<Longrightarrow> bus_inv (DeleteServerSocket i s)"
proof -
  assume s: "bus_inv s"
  have "set (map server_core (filter (\<lambda>z. sid z \<noteq> i) (servers_list s))) \<subseteq> set (servers s)" by (auto simp: servers_def)
  from inv_servers(2) [OF s this] show ?thesis using inv_crash [OF s]
    by (simp add: DeleteServerSocket_def split: option.split)
qed

lemma inv_run_delete:
  assumes "bus_inv s"
  shows "bus_inv (sock_run_delete (bus_callbacks env) h d s)"
  using assms inv_DeleteSocket [OF assms] inv_DeleteServerSocket [OF assms]
  by (cases h) (simp_all add: sock_run_delete_def)

text \<open>Reading: the lines one after the other, each for the data its socket has at that moment.\<close>

lemma inv_lines:
  "bus_inv s \<Longrightarrow> bus_inv (snd (handle_lines (bus_callbacks env) c pend s))"
proof (induction "bus_callbacks env :: 'a ivy_state_ext callbacks" c pend s rule: handle_lines.induct)
  case (1 c pend s)
  show ?case
  proof (cases "\<exists>x line rest. find_client c s = Some x \<and> split_at (terminator x) pend = Some (line, rest)")
    case False
    then show ?thesis using "1.prems" inv_crash [OF "1.prems"]
      by (subst handle_lines.simps) (auto split: option.split)
  next
    case True
    then obtain x line rest where x: "find_client c s = Some x" "split_at (terminator x) pend = Some (line, rest)" by blast
    let ?t = "if interpretation_fn x \<noteq> NULL
      then call_interp (bus_callbacks env) (interpretation_fn x) c (cdata x) (cstr line) s else s"
    have r: "interpretation_fn x = FN_Receive \<Longrightarrow> reads c (cdata x) s"
      using find_client_socks [OF x(1)] by (auto simp: reads_def)
    have "bus_inv ?t"
      using "1.prems" inv_Receive [OF "1.prems" r, of env "cstr line"] inv_BroadcastReceive [OF "1.prems", of env]
      by (simp add: bus_callbacks_def)
    then have "bus_inv (snd (handle_lines (bus_callbacks env) c rest ?t))"
      using "1.hyps" [OF x(1,2) refl] by simp
    then show ?thesis using x by (subst handle_lines.simps) simp
  qed
qed

lemma inv_upd_quiet:
  assumes "bus_inv s" "\<And>x. sock_core (f x) = sock_core x"
  shows "bus_inv (upd_client c f s)"
  using quiet_inv [OF quiet_upd_client assms(1)] assms(2) by blast

lemma quiet_channel_ops:
  fixes s :: "'a ivy_state_scheme"
  shows "quiet s (IvyChannelRemove k s)" "quiet s (IvyChannelClearWritableEvent k s)" "quiet s (IvyChannelAddWritableEvent k s)"
  by (simp_all add: quiet_def)

lemma inv_HandleSocket:
  assumes "bus_inv s"
  shows "bus_inv (HandleSocket (bus_callbacks env) c s)"
proof (cases "c \<noteq> NULL \<and> find_client c s \<noteq> None")
  case False
  then show ?thesis using inv_crash [OF assms] assms by (auto simp: HandleSocket_def with_client_def)
next
  case True
  then obtain x where x: "c \<noteq> NULL" "find_client c s = Some x" by blast
  let ?n = "if buffer_size x - length (rbuf x) = 0 then buffer_size x * 2 else buffer_size x"
  obtain r fr rest where o: "os_recv (dgram x) (?n - length (rbuf x)) (recv_answers x) = (r, fr, rest)"
    using prod_cases3 by blast
  define s1 where "s1 = upd_client c (\<lambda>y. y\<lparr>buffer_size := ?n, recv_answers := rest,
    sfrom := (case fr of None \<Rightarrow> sfrom y | Some a \<Rightarrow> a),
    from_len := (case r of RecvError \<Rightarrow> 128 | RecvData b \<Rightarrow> (case fr of None \<Rightarrow> 0 | Some a \<Rightarrow> sockaddr_len a))\<rparr>) s"
  have s1: "bus_inv s1" unfolding s1_def by (rule inv_upd_quiet [OF assms]) (simp add: sock_core_def)
  have lines: "bus_inv (upd_client c (\<lambda>y. y\<lparr>rbuf := p\<rparr>)
      (snd (handle_lines (bus_callbacks env) c q (upd_client c (\<lambda>y. y\<lparr>rbuf := rbuf y @ b\<rparr>) s1))))" for b p q
    by (intro inv_upd_quiet inv_lines s1) (simp_all add: sock_core_def)
  have "HandleSocket (bus_callbacks env) c s = (case r of
      RecvError \<Rightarrow> IvyChannelRemove (cchannel x) s1
    | RecvData b \<Rightarrow> if b = [] then IvyChannelRemove (cchannel x) s1
        else (let (pend, s3) = handle_lines (bus_callbacks env) c (rbuf x @ b) (upd_client c (\<lambda>y. y\<lparr>rbuf := rbuf y @ b\<rparr>) s1)
              in upd_client c (\<lambda>y. y\<lparr>rbuf := pend\<rparr>) s3))"
    unfolding HandleSocket_def with_client_def Let_def s1_def using x o by (simp cong: if_cong)
  then show ?thesis using lines quiet_inv [OF quiet_channel_ops(1) s1]
    by (simp add: split_def Let_def split: recv_result.split)
qed

lemma inv_HandleCongestionWrite:
  assumes "bus_inv s"
  shows "bus_inv (HandleCongestionWrite (bus_callbacks env) k c s)"
proof (cases "\<exists>x f. c \<noteq> NULL \<and> find_client c s = Some x \<and> ifb x = Some f")
  case False
  then show ?thesis using inv_crash [OF assms] assms
    by (auto simp: HandleCongestionWrite_def with_client_def split: option.split)
next
  case True
  then obtain x f where x: "c \<noteq> NULL" "find_client c s = Some x" "ifb x = Some f" by blast
  obtain rem out f' rest where o: "IvyFifoSendSocket f (send_answers x) [] = (rem, out, f', rest)" using prod_cases4 by blast
  define s1 where "s1 = upd_client c (\<lambda>y. y\<lparr>ifb := Some f', send_answers := rest, wire := wire y @ out\<rparr>) s"
  define s2 where "s2 = upd_client c (\<lambda>y. y\<lparr>ifb := None\<rparr>) (IvyChannelClearWritableEvent k s1)"
  have s1: "bus_inv s1" unfolding s1_def by (rule inv_upd_quiet [OF assms]) (simp add: sock_core_def)
  have s2: "bus_inv s2" unfolding s2_def
    by (rule inv_upd_quiet [OF quiet_inv [OF quiet_channel_ops(2) s1]]) (simp add: sock_core_def)
  have "bus_inv (ClientDecongestion c (cdata x) s2)" using s2 by (simp add: ClientDecongestion_def)
  then have d: "bus_inv (if chandle_decongestion x \<noteq> NULL
      then call_decongestion (bus_callbacks env) (chandle_decongestion x) c (cdata x) s2 else s2)"
    using s2 by (simp add: bus_callbacks_def)
  have "HandleCongestionWrite (bus_callbacks env) k c s =
      (if rem = IVY_FIFO_SEND_ERROR then SocketClose c s1
       else if rem = 0 then (if chandle_decongestion x \<noteq> NULL
         then call_decongestion (bus_callbacks env) (chandle_decongestion x) c (cdata x) s2 else s2)
       else s1)"
    unfolding HandleCongestionWrite_def with_client_def Let_def using x o by (simp add: s1_def s2_def)
  then show ?thesis using d s1 quiet_inv [OF quiet_SocketClose s1] by simp
qed

text \<open>A connection accepted by a server of the bus gets a peer, that of any other server none.\<close>

lemma inv_create:
  assumes "bus_inv s" "(c, f, h, NULL) \<in> set (socks s)" "c \<notin> snd ` set (peers s)"
    "cr = FN_ClientCreate \<longrightarrow> h = FN_ClientDelete" "call_create (bus_callbacks env) cr c s = (d, t)"
  shows "bus_inv (upd_client c (\<lambda>y. y\<lparr>cdata := d\<rparr>) t)"
proof (cases "cr = FN_ClientCreate")
  case True
  then have e: "ClientCreate env c s = (d, t)" using assms(5) by simp
  have "(c, f, FN_ClientDelete, NULL) \<in> set (socks s)" using assms(2,4) True by simp
  from inv_ClientCreate [OF assms(1) this assms(3), of env] show ?thesis
    using inv_set_data(1) [of t d c] by (simp add: e)
next
  case False
  then have "d = NULL" "t = s" using assms(5) by (simp_all add: bus_callbacks_def)
  then show ?thesis using inv_set_data(1) [OF assms(1)] by simp
qed

lemma inv_accept_answers:
  assumes "bus_inv s"
  shows "bus_inv (s\<lparr>servers_list := map (\<lambda>z. if sid z = i then z\<lparr>accept_answers := r\<rparr> else z) (servers_list s)\<rparr>)"
  by (rule inv_servers(1) [OF assms]) (auto simp: servers_def server_core_def)

text \<open>An accepted connection: a new socket \<open>c\<close>, then what the server creates for it.\<close>

lemma HandleServer_accepts:
  assumes "bus_inv s" "find_server i s = Some v" "accept_answers v = Some (ns, remote, lport) # rest"
    "be_nodelay env ns"
  obtains t where "bus_inv t" "peers t = peers s"
    "socks t = (next_addr s, sinterpretation v, shandle_delete v, NULL) # socks s"
    "HandleServer (bus_callbacks env) i s
      = upd_client (next_addr s) (\<lambda>y. y\<lparr>cdata := fst (call_create (bus_callbacks env) (screate v) (next_addr s) t)\<rparr>)
          (snd (call_create (bus_callbacks env) (screate v) (next_addr s) t))"
proof -
  let ?s1 = "s\<lparr>servers_list := map (\<lambda>z. if sid z = i then z\<lparr>accept_answers := rest\<rparr> else z) (servers_list s)\<rparr>"
  have s1: "bus_inv ?s1" by (rule inv_accept_answers [OF assms(1)])
  obtain chan u where u: "IvyChannelAdd ns (next_addr ?s1) (Some H_DeleteSocket) (Some H_HandleSocket)
    (Some H_HandleCongestionWrite) (?s1\<lparr>next_addr := Suc (next_addr ?s1)\<rparr>) = (chan, u)" by force
  define x where "x = (fresh_client (next_addr s) ns (sipv6 v) ''init by HandleServer'')
    \<lparr>cchannel := chan, sfrom := remote, from_len := sockaddr_len remote, local_port := lport,
     interpretation_fn := sinterpretation v, chandle_delete := shandle_delete v,
     chandle_decongestion := shandle_decongestion v\<rparr>"
  have x: "cid x = next_addr ?s1" "cdata x = NULL" by (simp_all add: x_def fresh_client_def)
  define t where "t = u\<lparr>clients_list := x # clients_list u\<rparr>"
  note t = inv_make_sock [OF s1 u x, folded t_def]
  have "HandleServer (bus_callbacks env) i s
      = upd_client (next_addr s) (\<lambda>y. y\<lparr>cdata := fst (call_create (bus_callbacks env) (screate v) (next_addr s) t)\<rparr>)
          (snd (call_create (bus_callbacks env) (screate v) (next_addr s) t))"
    using assms(2-4) u by (simp add: HandleServer_def Let_def split_def x_def t_def)
  moreover have "peers t = peers s" using t(2) by (simp add: peers_def)
  moreover have "socks t = (next_addr s, sinterpretation v, shandle_delete v, NULL) # socks s"
    using t(3) by (simp add: x_def fresh_client_def socks_def)
  ultimately show thesis using that t(1) by blast
qed

lemma inv_HandleServer:
  assumes "bus_inv s"
  shows "bus_inv (HandleServer (bus_callbacks env) i s)"
proof (cases "\<exists>v ns remote lport rest. find_server i s = Some v
    \<and> accept_answers v = Some (ns, remote, lport) # rest \<and> be_nodelay env ns")
  case False
  have "bus_inv (exit_process t)" if "bus_inv t" for t :: "'a ivy_state_scheme"
    by (rule quiet_inv [OF quiet_exit that])
  then show ?thesis using False inv_crash [OF assms] assms inv_accept_answers [OF assms]
    by (auto simp: HandleServer_def Let_def split: option.split list.split)
next
  case True
  then obtain v ns remote lport rest where v: "find_server i s = Some v" "accept_answers v = Some (ns, remote, lport) # rest"
    "be_nodelay env ns" by blast
  from HandleServer_accepts [OF assms v] obtain t where t: "bus_inv t" "peers t = peers s"
    "socks t = (next_addr s, sinterpretation v, shandle_delete v, NULL) # socks s"
    and e: "HandleServer (bus_callbacks env) i s
      = upd_client (next_addr s) (\<lambda>y. y\<lparr>cdata := fst (call_create (bus_callbacks env) (screate v) (next_addr s) t)\<rparr>)
          (snd (call_create (bus_callbacks env) (screate v) (next_addr s) t))" .
  have "next_addr s \<notin> snd ` set (peers s)" using peer_socks_old [OF assms] by blast
  then have c: "next_addr s \<notin> snd ` set (peers t)" using t(2) by simp
  have "server_core v \<in> set (servers s)" using v(1) by (auto simp: find_server_def find_Some_iff servers_def)
  moreover have "servers_inv (servers s)" using assms by (simp add: inv_split others_inv_def others_def)
  ultimately have cr: "screate v = FN_ClientCreate \<longrightarrow> shandle_delete v = FN_ClientDelete"
    by (auto simp: servers_inv_def server_core_def)
  have "(next_addr s, sinterpretation v, shandle_delete v, NULL) \<in> set (socks t)" using t(3) by simp
  from inv_create [OF t(1) this c cr prod.collapse [symmetric]] show ?thesis unfolding e .
qed

lemma inv_run_io:
  assumes "bus_inv s"
  shows "bus_inv (sock_run_io (bus_callbacks env) h k fd d s)"
  using assms inv_HandleSocket [OF assms] inv_HandleServer [OF assms] inv_HandleCongestionWrite [OF assms]
  by (cases h) (simp_all add: sock_run_io_def)

subsection \<open>The main loop\<close>

lemma quiet_channels:
  fixes s :: "'a ivy_state_scheme"
  shows "quiet s (s\<lparr>open_fds := o1, wrdy_fds := w, channels_list := l\<rparr>)" "quiet s (s\<lparr>timer_st := ts\<rparr>)"
  by (auto intro: quietI)

lemma inv_channel_delete:
  assumes "bus_inv s"
  shows "bus_inv (IvyChannelDelete (sock_run_delete (bus_callbacks env)) c s)"
  using inv_run_delete [OF assms] assms
  by (simp add: IvyChannelDelete_def Let_def quiet_inv [OF quiet_channels(1)] split: option.split)

text \<open>The loop of the bus; the two hooks, that are null at first, do nothing.\<close>

definition bus_loop where
  "bus_loop env tcb =
     \<lparr>run_delete = sock_run_delete (bus_callbacks env), run_io = sock_run_io (bus_callbacks env), timer_cb = tcb,
      BeforeSelect = (\<lambda>s. s), AfterSelect = (\<lambda>s. s)\<rparr>"

lemma bus_loop_simps [simp]:
  "run_delete (bus_loop env tcb) = sock_run_delete (bus_callbacks env)"
  "run_io (bus_loop env tcb) = sock_run_io (bus_callbacks env)"
  "BeforeSelect (bus_loop env tcb) s = s" "AfterSelect (bus_loop env tcb) s = s"
  by (simp_all add: bus_loop_def)

interpretation bus_keeps: loop_inv "bus_loop env tcb" bus_inv for env tcb
  by unfold_locales
    (simp_all add: inv_run_delete inv_channel_delete inv_run_io quiet_inv [OF quiet_channels(2)])

subsection \<open>The calls of the application\<close>

lemma quiet_tell: "quiet s (tell_peers t i m s)"
  unfolding tell_peers_def by (rule fold_quiet) simp

lemma inv_rcvs:
  assumes "bus_inv s" "next_addr s \<le> next_addr t" "rcvs_inv (next_addr t) (recv_id t) (rcvs t)"
    "allClients t = allClients s" "messSndByRegexp t = messSndByRegexp s"
    "clients_list t = clients_list s" "servers_list t = servers_list s"
  shows "bus_inv t"
proof -
  have "peers t = peers s" "regs t = regs s" "entries t = entries s" "socks t = socks s" "servers t = servers s"
    using assms(4-7) by (simp_all add: peers_def regs_def entries_def socks_def servers_def)
  then show ?thesis using core_set_rcvs [OF _ assms(2,3)] assms(1) by (simp add: bus_inv_but_def core_def)
qed

lemma inv_IvyBindMsg:
  assumes "bus_inv s"
  shows "bus_inv (snd (IvyBindMsg cb u out s))"
proof -
  let ?t = "\<lambda>b x. s\<lparr>bind_buf := b, next_addr := Suc (next_addr s), recv_id := recv_id s + 1,
    msg_recv := \<lparr>rid = next_addr s, msg_id = recv_id s, regexp = Some x, mcallback = cb, muser_data = u\<rparr> # msg_recv s\<rparr>"
  have "rcvs_inv (next_addr s) (recv_id s) (rcvs s)" using assms by (simp add: inv_split others_inv_def others_def)
  then have "rcvs_inv (Suc (next_addr s)) (recv_id s + 1) ((next_addr s, recv_id s) # rcvs s)"
    by (force simp: rcvs_inv_def)
  then have "bus_inv (?t b x)" for b x
    by (intro inv_rcvs [OF assms]) (simp_all add: rcvs_def)
  then have "bus_inv (tell_peers k i m (?t b x))" for b x k i m using quiet_inv [OF quiet_tell] by blast
  then show ?thesis using inv_crash [OF assms]
    by (simp add: IvyBindMsg_def Let_def split: gen.split prod.split)
qed

lemma inv_IvyUnbindMsg:
  assumes "bus_inv s"
  shows "bus_inv (IvyUnbindMsg m s)"
proof (cases "find_rcv m s")
  case None
  then show ?thesis using inv_crash [OF assms] by (simp add: IvyUnbindMsg_def)
next
  case (Some r)
  let ?s = "tell_peers DelRegexp (msg_id r) [] s"
  have s: "bus_inv ?s" using quiet_inv [OF quiet_tell assms] .
  then have "rcvs_inv (next_addr ?s) (recv_id ?s) (rcvs ?s)" by (simp add: inv_split others_inv_def others_def)
  then have "rcvs_inv (next_addr ?s) (recv_id ?s) (rcvs (?s\<lparr>msg_recv := filter (\<lambda>x. rid x \<noteq> m) (msg_recv ?s)\<rparr>))"
    by (auto simp: rcvs_inv_def rcvs_def comp_def distinct_map_filter)
  then have "bus_inv (?s\<lparr>msg_recv := filter (\<lambda>x. rid x \<noteq> m) (msg_recv ?s)\<rparr>)"
    by (intro inv_rcvs [OF s]) simp_all
  then show ?thesis using Some by (simp add: IvyUnbindMsg_def Let_def)
qed

lemma inv_IvyChangeMsg:
  assumes "bus_inv s"
  shows "bus_inv (IvyChangeMsg m out s)"
proof -
  let ?t = "\<lambda>b x. s\<lparr>change_buf := b, msg_recv := map (\<lambda>y. if rid y = m then y\<lparr>regexp := Some x\<rparr> else y) (msg_recv s)\<rparr>"
  have "rcvs (?t b x) = rcvs s" for b x by (auto simp: rcvs_def)
  moreover have "rcvs_inv (next_addr s) (recv_id s) (rcvs s)" using assms by (simp add: inv_split others_inv_def others_def)
  ultimately have "bus_inv (?t b x)" for b x by (intro inv_rcvs [OF assms]) simp_all
  then have "bus_inv (tell_peers k i l (?t b x))" for b x k i l using quiet_inv [OF quiet_tell] by blast
  then show ?thesis using inv_crash [OF assms]
    by (simp add: IvyChangeMsg_def Let_def split: gen.split prod.split option.split)
qed

lemma quiet_send_peer: "quiet s (IvySendDirectMsg a i m s)" "quiet s (IvySendDieMsg a s)"
  by (simp_all add: IvySendDirectMsg_def IvySendDieMsg_def with_peer_def split: option.split)

lemma inv_IvySendPing:
  assumes "bus_inv s"
  shows "bus_inv (IvySendPing a s)"
proof -
  have "bus_inv (upd_ivy_client a (\<lambda>x. x\<lparr>ping_ts := ts, ping_id := i\<rparr>) s)" for ts i
    using inv_upd_plain [OF assms, of "\<lambda>x. x\<lparr>ping_ts := ts, ping_id := i\<rparr>" a] by (simp add: peer_core_def regs_core_def)
  then have "bus_inv (send_to c Ping i m (upd_ivy_client a (\<lambda>x. x\<lparr>ping_ts := ts, ping_id := i\<rparr>) s))" for c i m ts
    using quiet_inv [OF quiet_send_to] by blast
  then show ?thesis using assms inv_crash [OF assms]
    by (simp add: IvySendPing_def with_peer_def Let_def split: option.split)
qed

lemma quiet_settings:
  "quiet s (IvySetBindCallback f s)" "quiet s (IvySetPongCallback f s)" "quiet s (IvyBindDirectMsg f s)"
  "quiet s (IvySetFilter px argv b s)" "quiet s (IvyAddFilter px r b s)" "quiet s (IvyRemoveFilter w s)"
  "quiet s (IvyStop s)" "quiet s (IvyTerminate s)" "quiet s (IvyInit n m f g b s)"
  by (rule quietI; simp add: IvySetBindCallback_def IvySetPongCallback_def IvyBindDirectMsg_def IvySetFilter_def
      IvyAddFilter_def IvyRemoveFilter_def IvyStop_def IvyTerminate_def IvyInit_def SocketInit_def IvyChannelInit_def
      IvyChannelStop_def Let_def split: option.split)+

lemma inv_SocketServer:
  assumes "bus_inv s" "cr = FN_ClientCreate \<longrightarrow> f = FN_Receive \<and> h = FN_ClientDelete"
  shows "bus_inv (snd (SocketServer os v6 port cr h dc f s))"
proof (cases "\<exists>fd p. os_socket os = Some fd \<and> os_setsockopt os \<and> os_bind os \<and> os_getsockname os = Some p \<and> os_listen os")
  case False
  then show ?thesis using quiet_inv [OF quiet_exit assms(1)]
    by (auto simp: SocketServer_def split: option.split)
next
  case True
  then obtain fd p where os: "os_socket os = Some fd" "os_setsockopt os" "os_bind os" "os_getsockname os = Some p" "os_listen os"
    by blast
  obtain chan u where u: "IvyChannelAdd fd (next_addr s) (Some H_DeleteServerSocket) (Some H_HandleServer) None
    (s\<lparr>next_addr := Suc (next_addr s)\<rparr>) = (chan, u)" by force
  let ?v = "\<lparr>sid = next_addr s, sfd = fd, schannel = chan, sport = ntohs (htons p), sipv6 = v6, screate = cr,
    shandle_delete = h, shandle_decongestion = dc, sinterpretation = f, accept_answers = []\<rparr>"
  note fr = channel_add_frame [OF u] more_fields [OF channel_add_frame(1) [OF u]]
  have "quiet s u" by (rule quietI) (simp_all add: fr)
  then have i: "bus_inv u" using quiet_inv assms(1) by blast
  then have "servers_inv (servers u)" by (simp add: inv_split others_inv_def others_def)
  then have "servers_inv (map server_core (?v # servers_list u))"
    using assms(2) by (auto simp: servers_inv_def servers_def server_core_def)
  from inv_set_servers(2) [OF i this] show ?thesis using os u by (simp add: SocketServer_def Let_def)
qed

lemma quiet_announce:
  fixes s :: "'a ivy_state_scheme"
  shows "quiet s (announce_on env m s)" "quiet s (announce_on6 env a s)"
proof -
  have m: "quiet t (snd (SocketAddMember j l c h t))" "quiet t (snd (SocketAddMember6 j c h t))"
    for j l c h and t :: "'a ivy_state_scheme"
    by (auto simp: SocketAddMember_def SocketAddMember6_def quiet_crash intro: quietI split: option.split)
  have d: "quiet t (send_datagram c a b t)" for c a b and t :: "'a ivy_state_scheme"
    by (auto simp: send_datagram_def with_client_def quiet_crash intro: quietI split: option.split)
  have "quiet t (t\<lparr>dgram_buf := x\<rparr>)" "quiet t (t\<lparr>dgram6_buf := x\<rparr>)" for x and t :: "'a ivy_state_scheme"
    by (rule quietI; simp)+
  then have g: "quiet t (send_datagram c a b (t\<lparr>dgram_buf := x\<rparr>))" "quiet t (send_datagram c a b (t\<lparr>dgram6_buf := x\<rparr>))"
    for x c a b and t :: "'a ivy_state_scheme"
    using quiet_trans [OF _ d] by blast+
  have b: "quiet t (SocketSendBroadcast c h p out t)" "quiet t (SocketSendBroadcast6 c h p out t)"
    for c h p out and t :: "'a ivy_state_scheme"
    by (auto simp: SocketSendBroadcast_def SocketSendBroadcast6_def g split: option.split)
  show "quiet s (announce_on env m s)"
    using quiet_trans [OF m(1) b(1)] b(1) by (simp add: announce_on_def Let_def)
  show "quiet s (announce_on6 env a s)"
    using quiet_trans [OF m(2) b(2)] b(2) by (simp add: announce_on6_def Let_def)
qed

lemma inv_start_sockets:
  assumes "bus_inv s"
  shows "bus_inv (start_sockets env port v6 s)"
proof -
  define s1 where "s1 = s\<lparr>SupervisionPort := port, ivy_ipv6 := ivy_ipv6 s \<or> v6\<rparr>"
  obtain srv s2 where s2: "SocketServer (se_server env) (ivy_ipv6 s1) 0 FN_ClientCreate FN_ClientDelete
    FN_ClientDecongestion FN_Receive s1 = (srv, s2)" by force
  define s3 where "s3 = s2\<lparr>serv := srv, ApplicationPort := SocketServerGetPort srv s2\<rparr>"
  define s4 where "s4 = s3\<lparr>ApplicationID := GenApplicationUniqueIdentifier (se_rand env) s3\<rparr>"
  obtain b s5 where s5: "SocketBroadcastCreate (se_broadcast env) (ivy_ipv6 s4) port NULL FN_BroadcastReceive s4 = (b, s5)"
    by force
  have "quiet s s1" unfolding s1_def by (rule quietI) simp_all
  then have "bus_inv s1" using quiet_inv assms by blast
  from inv_SocketServer [OF this, of FN_ClientCreate FN_Receive FN_ClientDelete] have i2: "bus_inv s2" using s2
    by (metis snd_conv)
  have "quiet s2 s4" unfolding s4_def s3_def by (rule quietI) simp_all
  then have "bus_inv s4" using quiet_inv i2 by blast
  from inv_SocketBroadcastCreate [OF this] have i5: "bus_inv s5" using s5 by (metis snd_conv)
  have "quiet s5 (s5\<lparr>broadcast := b\<rparr>)" by (rule quietI) simp_all
  then have "bus_inv (s5\<lparr>broadcast := b\<rparr>)" using quiet_inv i5 by blast
  then show ?thesis using i2 s2 s5 by (simp add: start_sockets_def s1_def s3_def s4_def Let_def)
qed

lemma inv_IvyStart:
  assumes "bus_inv s"
  shows "bus_inv (IvyStart env bus s)"
proof -
  have a: "quiet t (fold (announce_on env) ms t)" for ms and t :: "'a ivy_state_scheme"
    by (rule fold_quiet) (rule quiet_announce)
  have i: "bus_inv (start_sockets env port v s)" for port v by (rule inv_start_sockets [OF assms])
  have "bus_inv (announce_on6 env x (start_sockets env port v s))" for x port v
    using quiet_inv [OF quiet_announce(2) i] .
  moreover have "bus_inv (fold (announce_on env) ms (start_sockets env port v s))" for ms port v
    using quiet_inv [OF a i] .
  ultimately show ?thesis using i assms
    unfolding IvyStart_def Let_def by (simp split: sum.split prod.split option.split)
qed

subsection \<open>The states a program can reach\<close>

text \<open>The static variables when the program is loaded.\<close>

definition program_start :: ivy_state where
  "program_start = (bus_on no_sockets)\<lparr>channel_initialized := False\<rparr>"

text \<open>What the kernel and the clock will answer from now on.\<close>

definition kernel_answers ::
  "(client \<Rightarrow> (recv_result \<times> sockaddr) list) \<Rightarrow> (client \<Rightarrow> send_result list)
   \<Rightarrow> (server \<Rightarrow> (nat \<times> sockaddr \<times> nat) option list) \<Rightarrow> int \<times> int \<Rightarrow> 'a ivy_state_scheme \<Rightarrow> 'a ivy_state_scheme" where
  "kernel_answers ra sa aa now s =
     s\<lparr>clients_list := map (\<lambda>x. x\<lparr>recv_answers := ra x, send_answers := sa x\<rparr>) (clients_list s),
       servers_list := map (\<lambda>v. v\<lparr>accept_answers := aa v\<rparr>) (servers_list s), time_of_day := now\<rparr>"

text \<open>
  The steps: a turn of the main loop, one handler of it alone (an application may call the API from a
  callback, between two handlers), or a call of the API.
\<close>

text \<open>A handler of the application, or none.\<close>

definition app_handler :: "sock_handler option \<Rightarrow> bool" where
  "app_handler h \<longleftrightarrow> (case h of None \<Rightarrow> True | Some (H_App n) \<Rightarrow> True | Some _ \<Rightarrow> False)"

inductive bus_step :: "bus_env \<Rightarrow> 'a ivy_state_scheme \<Rightarrow> 'a ivy_state_scheme \<Rightarrow> bool" for env where
  turn: "bus_step env s (snd (loop_turn (bus_loop env tcb) ev s))"
| io: "bus_step env s (sock_run_io (bus_callbacks env) h k fd d s)"
| delete: "bus_step env s (ChannelDefferedDelete (sock_run_delete (bus_callbacks env)) s)"
| idle: "bus_step env s (IvyIdle (bus_loop env tcb) r s)"
| timers: "bus_step env s (s\<lparr>timer_st := ts\<rparr>)"
| kernel: "bus_step env s (kernel_answers ra sa aa now s)"
| init: "bus_step env s (IvyInit n m f g b s)"
| begin_bus: "bus_step env s (IvyStart senv bus s)"
| stop: "bus_step env s (IvyStop s)"
| terminate: "bus_step env s (IvyTerminate s)"
| send: "bus_step env s (snd (IvySendMsg (be_pcre env) fmt out s))"
| bind: "bus_step env s (snd (IvyBindMsg cb u out s))"
| unbind: "bus_step env s (IvyUnbindMsg msg s)"
| change: "bus_step env s (IvyChangeMsg msg out s)"
| direct: "bus_step env s (IvySendDirectMsg app i m s)"
| send_error: "bus_step env s (IvySendError app i m s)"
| die: "bus_step env s (IvySendDieMsg app s)"
| ping: "bus_step env s (IvySendPing app s)"
| bind_direct: "bus_step env s (IvyBindDirectMsg f s)"
| on_bind: "bus_step env s (IvySetBindCallback f s)"
| on_pong: "bus_step env s (IvySetPongCallback f s)"
| set_filter: "bus_step env s (IvySetFilter px argv b s)"
| add_filter: "bus_step env s (IvyAddFilter px r b s)"
| remove_filter: "bus_step env s (IvyRemoveFilter w s)"
| add_channel: "app_handler h1 \<Longrightarrow> app_handler h2 \<Longrightarrow> app_handler h3 \<Longrightarrow> bus_step env s (snd (IvyChannelAdd fd d h1 h2 h3 s))"
| remove_channel: "bus_step env s (IvyChannelRemove k s)"

inductive reachable :: "bus_env \<Rightarrow> ivy_state \<Rightarrow> bool" for env where
  reach_start: "reachable env program_start"
| reach_step: "reachable env s \<Longrightarrow> bus_step env s t \<Longrightarrow> reachable env t"

lemma quiet_kernel: "quiet s (kernel_answers ra sa aa now s)"
  by (simp add: quiet_def kernel_answers_def core_def peers_def regs_def entries_def socks_def servers_def rcvs_def
      sock_core_def server_core_def)

lemma inv_add_channel:
  assumes "bus_inv s"
  shows "bus_inv (snd (IvyChannelAdd fd d h1 h2 h3 s))"
proof -
  have "quiet s (snd (IvyChannelAdd fd d h1 h2 h3 s))"
    by (auto simp: quiet_def IvyChannelAdd_def Let_def FD_SET_open_def raise_highest_def crash_def core_def peers_def
        regs_def entries_def socks_def servers_def rcvs_def)
  then show ?thesis using quiet_inv assms by blast
qed

lemmas quiet_steps = quiet_kernel quiet_settings quiet_send_peer quiet_IvySendMsg

lemma inv_step: "bus_step env s t \<Longrightarrow> bus_inv s \<Longrightarrow> bus_inv t"
  by (induction rule: bus_step.induct)
    (blast intro: bus_keeps.turn_inv bus_keeps.idle_inv bus_keeps.deferred_inv [simplified] quiet_inv [OF quiet_channels(2)] inv_run_io inv_IvyStart inv_IvyBindMsg inv_IvyUnbindMsg inv_IvyChangeMsg
      inv_IvySendPing quiet_inv [OF quiet_kernel] quiet_inv [OF quiet_settings(1)] quiet_inv [OF quiet_settings(2)]
      quiet_inv [OF quiet_settings(3)] quiet_inv [OF quiet_settings(4)] quiet_inv [OF quiet_settings(5)]
      quiet_inv [OF quiet_settings(6)] quiet_inv [OF quiet_settings(7)] quiet_inv [OF quiet_settings(8)]
      quiet_inv [OF quiet_settings(9)] quiet_inv [OF quiet_send_peer(1)] quiet_inv [OF quiet_send_peer(2)]
      quiet_inv [OF quiet_IvySendMsg] quiet_inv [OF quiet_IvySendError] inv_add_channel quiet_inv [OF quiet_channel_ops(1)])+

lemma inv_start: "bus_inv program_start"
  by (simp add: bus_inv_but_def core_inv_def core_def peers_def regs_def entries_def socks_def servers_def rcvs_def
      program_start_def dict_inv_def peers_inv_def regs_inv_def socks_inv_def servers_inv_def rcvs_inv_def live_inv_def
      data_inv_def subs_inv_def bus_on_def no_sockets_def sock_state.defs ivy_state.defs)

lemma reachable_inv: "reachable env s \<Longrightarrow> bus_inv s"
  by (induction rule: reachable.induct) (use inv_start inv_step in blast)+

text \<open>The invariant in terms of the lists themselves.\<close>

lemma inv_dict: "bus_inv s \<Longrightarrow> dict_wf (messSndByRegexp s) \<and> addr_fresh s"
  by (auto simp: addr_fresh_def inv_split others_inv_def others_def regs_inv_def regs_def regs_core_def)

lemma inv_peers_ok: "bus_inv s \<Longrightarrow> peers_ok s"
  by (auto simp: peers_ok_def inv_split others_inv_def others_def regs_inv_def regs_def regs_core_def peers_inv_def
      peers_def peer_core_def comp_def)

lemma inv_subscriber: "bus_inv s \<Longrightarrow> (r, k, i) \<in> subs s \<Longrightarrow> k \<in> aclient ` set (allClients s)"
  by (auto simp: subs_def subs_of_def inv_split)

lemma inv_peer_socket:
  assumes "bus_inv s" "k \<in> aclient ` set (allClients s)"
  shows "\<exists>x \<in> set (clients_list s). cid x = k \<and> chandle_delete x = FN_ClientDelete"
proof -
  have "live_inv (peers s) (socks s)" using assms(1) by (simp add: inv_split others_inv_def others_def)
  then obtain f d where "(k, f, FN_ClientDelete, d) \<in> set (socks s)"
    using assms(2) unfolding live_inv_def snd_peers [symmetric] by blast
  then show ?thesis by (auto simp: socks_def sock_core_def)
qed

subsection \<open>Properties\<close>

text \<open>A bus that has started and accepted one connection.\<close>

lemma accept_first:
  assumes "bus_inv s" "find_server i s = Some v" "accept_answers v = Some (ns, remote, lport) # rest"
    "screate v = FN_ClientCreate" "shandle_delete v = FN_ClientDelete" "allClients s = []" "be_nodelay env ns"
  shows "\<exists>p. allClients (HandleServer (bus_callbacks env) i s) = [p] \<and> \<not> ignore_subsequent_msg p
    \<and> srcRegList p = []
    \<and> (aclient p, sinterpretation v, FN_ClientDelete, aid p) \<in> set (socks (HandleServer (bus_callbacks env) i s))"
proof -
  let ?c = "next_addr s"
  from HandleServer_accepts [OF assms(1-3,7)] obtain t where t: "bus_inv t" "peers t = peers s"
    "socks t = (?c, sinterpretation v, shandle_delete v, NULL) # socks s"
    and e: "HandleServer (bus_callbacks env) i s
      = upd_client ?c (\<lambda>y. y\<lparr>cdata := fst (call_create (bus_callbacks env) (screate v) ?c t)\<rparr>)
          (snd (call_create (bus_callbacks env) (screate v) ?c t))" .
  have no: "allClients t = []" "peers t = []" using t(2) assms(6) by (simp_all add: peers_def)
  have c0: "?c \<noteq> NULL" using assms(1) by (simp add: inv_split others_inv_def others_def)
  have "?c \<in> cid ` set (clients_list t)" using t(3) by (force simp: socks_def sock_core_def)
  then obtain x where x: "find_client ?c t = Some x" unfolding find_client_def by (cases "find (\<lambda>x. cid x = ?c) (clients_list t)") (auto simp: find_None_iff)
  have "\<exists>h p. SocketGetRemoteHost (be_nameinfo env) ?c t = Some (h, p)"
    using c0 x by (auto simp: SocketGetRemoteHost_def split: option.split)
  then obtain h p where h: "SocketGetRemoteHost (be_nameinfo env) ?c t = Some (h, p)" by blast
  have "CheckConnected ?c t = (None, t)" using no by (simp add: CheckConnected_def Let_def)
  then obtain n where cc: "ClientCreate env ?c t = SendService env ?c n t" using h by (simp add: ClientCreate_def Let_def)
  have "(?c, sinterpretation v, FN_ClientDelete, NULL) \<in> set (socks t)" using t(3) assms(5) by simp
  note ss = inv_SendService [OF t(1) this, of env n]
  let ?t = "upd_client ?c (\<lambda>y. y\<lparr>cdata := next_addr t\<rparr>) (snd (SendService env ?c n t))"
  have h: "HandleServer (bus_callbacks env) i s = ?t" unfolding e using assms(4) ss(3) no by (simp add: cc)
  have "peers ?t = [(next_addr t, ?c)]" using ss(2) no by (simp add: peers_def upd_client_def)
  moreover have "socks ?t = map (set_data ?c (next_addr t)) (socks t)"
    using ss(4) no by (simp add: socks_upd_data)
  then have "(?c, sinterpretation v, FN_ClientDelete, next_addr t) \<in> set (socks ?t)"
    using t(3) assms(5) by (simp add: set_data_def)
  moreover have "\<exists>q cs. allClients ?t = q # cs \<and> \<not> ignore_subsequent_msg q \<and> srcRegList q = []" using ss(5) no by (simp add: upd_client_def)
  ultimately show ?thesis unfolding h by (auto simp: peers_def peer_core_def)
qed

definition quiet_start :: start_env where
  "quiet_start = \<lparr>se_ivybus = None, se_pton6 = (\<lambda>a. Some 1), se_ntop6 = (\<lambda>a. None), se_stack_addr = ''::1'',
     se_server = \<lparr>os_socket = Some 3, os_setsockopt = True, os_bind = True, os_getsockname = Some 40000,
       os_listen = True, os_connect = False\<rparr>,
     se_broadcast = \<lparr>os_socket = None, os_setsockopt = True, os_bind = True, os_getsockname = None,
       os_listen = True, os_connect = False\<rparr>,
     se_joined = (\<lambda>a. True), se_ttl = (\<lambda>a. True), se_rand = (\<lambda>n. n)\<rparr>"

definition started_bus :: ivy_state where
  "started_bus = kernel_answers (\<lambda>x. []) (\<lambda>x. [])
     (\<lambda>v. [Some (7, \<lparr>is_ipv6 = True, ip_addr = 1, net_port = 5000\<rparr>, 0)]) (0, 0) (IvyStart quiet_start ''bus'' program_start)"

definition connected_bus :: ivy_state where
  "connected_bus = HandleServer (bus_callbacks some_env) 1 started_bus"

lemma started_bus_server:
  "allClients started_bus = []"
  "\<exists>v. find_server 1 started_bus = Some v \<and> screate v = FN_ClientCreate \<and> shandle_delete v = FN_ClientDelete
    \<and> sinterpretation v = FN_Receive \<and> accept_answers v = [Some (7, \<lparr>is_ipv6 = True, ip_addr = 1, net_port = 5000\<rparr>, 0)]"
  by (simp_all add: started_bus_def kernel_answers_def find_server_def IvyStart_def bus_name_def bus_port_def last_colon_def
      quiet_start_def start_sockets_def SocketServer_def SocketBroadcastCreate_def announce_on6_def IvyChannelAdd_def
      Let_def FD_SET_open_def raise_highest_def crash_def program_start_def no_sockets_def bus_on_def sock_state.defs ivy_state.defs
      FD_SETSIZE_def)

lemma connected_bus_reachable: "reachable some_env connected_bus"
proof -
  have "reachable some_env (IvyStart quiet_start ''bus'' program_start)"
    by (rule reach_step [OF reach_start begin_bus])
  then have "reachable some_env started_bus" unfolding started_bus_def by (rule reach_step [OF _ kernel])
  then have "reachable some_env (sock_run_io (bus_callbacks some_env) H_HandleServer 2 3 1 started_bus)"
    by (rule reach_step [OF _ io])
  then show ?thesis by (simp add: connected_bus_def sock_run_io_def)
qed

lemma connected_bus_peer:
  "\<exists>p. allClients connected_bus = [p] \<and> \<not> ignore_subsequent_msg p \<and> srcRegList p = []
    \<and> (aclient p, FN_Receive, FN_ClientDelete, aid p) \<in> set (socks connected_bus)"
proof -
  have r: "reachable some_env started_bus" unfolding started_bus_def
    by (rule reach_step [OF reach_step [OF reach_start begin_bus] kernel])
  obtain v where v: "find_server 1 started_bus = Some v" "screate v = FN_ClientCreate" "shandle_delete v = FN_ClientDelete"
    "sinterpretation v = FN_Receive" "accept_answers v = [Some (7, \<lparr>is_ipv6 = True, ip_addr = 1, net_port = 5000\<rparr>, 0)]"
    using started_bus_server(2) by blast
  from accept_first [OF reachable_inv [OF r] v(1,5,2,3) started_bus_server(1) some_env_nodelay]
  show ?thesis by (simp add: connected_bus_def v(4))
qed

lemma socks_find:
  assumes "bus_inv s" "(c, f, h, d) \<in> set (socks s)"
  shows "\<exists>x. find_client c s = Some x \<and> interpretation_fn x = f \<and> chandle_delete x = h \<and> cdata x = d"
proof -
  obtain x where x: "x \<in> set (clients_list s)" "sock_core x = (c, f, h, d)" using assms(2) by (auto simp: socks_def)
  have "distinct (map fst (socks s))" using assms(1) by (simp add: inv_split others_inv_def others_def socks_inv_def)
  then have "distinct (map cid (clients_list s))" by (simp add: socks_def sock_core_def comp_def)
  from find_unique [OF this x(1)] show ?thesis using x(2) by (simp add: find_client_def sock_core_def)
qed

text \<open>
  (C2) In every state a program can reach, whatever its peers, the kernel and the application do: the
  dictionary has one entry for a source and none without peers; who subscribes in it is a connected
  peer; a peer has an open socket, which will forget it when it is deleted; peers, their sockets and the
  subscriptions of a peer are distinct objects; and the subscriptions of the application have distinct
  identifiers.
\<close>

theorem reachable_bus:
  assumes "reachable env s"
  shows "dict_wf (messSndByRegexp s)
    \<and> (\<forall>(r, k, i) \<in> subs s. k \<in> aclient ` set (allClients s))
    \<and> (\<forall>k \<in> aclient ` set (allClients s). \<exists>x \<in> set (clients_list s). cid x = k \<and> chandle_delete x = FN_ClientDelete)
    \<and> peers_ok s \<and> addr_fresh s
    \<and> distinct (map cid (clients_list s)) \<and> distinct (map msg_id (msg_recv s))"
proof -
  have inv: "bus_inv s" by (rule reachable_inv [OF assms])
  have "rcvs_inv (next_addr s) (recv_id s) (rcvs s)" "socks_inv (next_addr s) (socks s)"
    using inv by (simp_all add: inv_split others_inv_def others_def)
  then have "distinct (map msg_id (msg_recv s))" "distinct (map cid (clients_list s))"
    by (simp_all add: rcvs_inv_def rcvs_def socks_inv_def socks_def sock_core_def comp_def)
  then show ?thesis using inv_dict [OF inv] inv_peers_ok [OF inv] inv_subscriber [OF inv] inv_peer_socket [OF inv] by blast
qed

theorem reachable_bus_witness:
  "\<exists>p. allClients connected_bus = [p] \<and> (\<exists>x \<in> set (clients_list connected_bus). cid x = aclient p
    \<and> chandle_delete x = FN_ClientDelete)"
proof -
  obtain p where p: "allClients connected_bus = [p]" using connected_bus_peer by blast
  then show ?thesis using reachable_bus [OF connected_bus_reachable] by auto
qed

text \<open>
  (C10) In every reachable state a socket that reads messages designates, as the structure of the sender,
  its own peer or one that is gone, never another peer: a line cannot change or impersonate the peer
  of another socket, and the assignment of \<^verbatim>\<open>client\<close> that \<^verbatim>\<open>Receive\<close> makes for a badly formatted line
  changes nothing.
\<close>

theorem line_own_peer:
  assumes "reachable env s" "find_client c s = Some x" "interpretation_fn x = FN_Receive"
  shows "(\<forall>p \<in> set (allClients s). aid p = cdata x \<longrightarrow> aclient p = c)
    \<and> (\<forall>p. find_ivy_client (cdata x) s = Some p \<longrightarrow> upd_ivy_client (aid p) (\<lambda>q. q\<lparr>aclient := c\<rparr>) s = s)"
proof -
  have inv: "bus_inv s" by (rule reachable_inv [OF assms(1)])
  have r: "reads c (cdata x) s" using find_client_socks [OF assms(2)] assms(3) by (auto simp: reads_def)
  have "aclient p = c" if "p \<in> set (allClients s)" "aid p = cdata x" for p
    using reads_peer [OF inv r, of "aclient p"] that by (force simp: peers_def peer_core_def)
  then show ?thesis using set_own_socket [OF inv r] by (auto dest: find_ivy_client_Some)
qed

theorem line_own_peer_witness:
  "\<exists>p x. allClients connected_bus = [p] \<and> find_client (aclient p) connected_bus = Some x \<and> cdata x = aid p
    \<and> upd_ivy_client (aid p) (\<lambda>q. q\<lparr>aclient := aclient p\<rparr>) connected_bus = connected_bus"
proof -
  obtain p where p: "allClients connected_bus = [p]"
    "(aclient p, FN_Receive, FN_ClientDelete, aid p) \<in> set (socks connected_bus)" using connected_bus_peer by blast
  from socks_find [OF reachable_inv [OF connected_bus_reachable] p(2)] obtain x where
    x: "find_client (aclient p) connected_bus = Some x" "interpretation_fn x = FN_Receive" "cdata x = aid p" by blast
  have "find_ivy_client (cdata x) connected_bus = Some p" using p(1) x(3) by (simp add: find_ivy_client_def)
  then show ?thesis using line_own_peer [OF connected_bus_reachable x(1,2)] p(1) x(1,3) by blast
qed

text \<open>
  (C9) In every reachable state, when a socket is deleted and its peer has no two subscriptions with the
  same identifier (see \<open>change_then_leave\<close>), \<^verbatim>\<open>ClientDelete\<close> ends and reads no freed node. It takes that peer,
  and no other, out of the list of peers and every subscription through that socket, and no other, out
  of the dictionary, which stays well formed; and it leaves the sockets to \<^verbatim>\<open>DeleteSocket\<close>, which then
  takes this one.
\<close>

theorem disconnect_forgets:
  assumes "reachable env s"
    and "\<forall>p \<in> set (allClients s). aclient p = c \<longrightarrow> distinct (map reg_id (srcRegList p))"
  shows "fault (ClientDelete c d s) = fault s
    \<and> allClients (ClientDelete c d s) = filter (\<lambda>p. aclient p \<noteq> c) (allClients s)
    \<and> subs (ClientDelete c d s) = {t \<in> subs s. fst (snd t) \<noteq> c}
    \<and> dict_wf (messSndByRegexp (ClientDelete c d s))
    \<and> clients_list (ClientDelete c d s) = clients_list s"
proof -
  have inv: "bus_inv s" by (rule reachable_inv [OF assms(1)])
  let ?t = "if application_callback s \<noteq> NULL then log_event (EvApp d IvyApplicationDisconnected) s else s"
  have t: "allClients ?t = allClients s" "messSndByRegexp ?t = messSndByRegexp s" "fault ?t = fault s"
    "clients_list ?t = clients_list s" by (simp_all add: log_event_def)
  have "peers_ok ?t" using inv_peers_ok [OF inv] unfolding peers_ok_def t .
  moreover have "dict_wf (messSndByRegexp ?t)" using inv_dict [OF inv] unfolding t by blast
  ultimately obtain d' where d': "delOneClient c ?t
      = ?t\<lparr>allClients := filter (\<lambda>p. aclient p \<noteq> c) (allClients ?t), messSndByRegexp := d'\<rparr>"
    "dict_wf d'" "subs_of d' = {t \<in> subs ?t. fst (snd t) \<noteq> c}"
    using delOneClient_own [of ?t c] assms(2) unfolding t by blast
  have "subs ?t = subs s" unfolding subs_def t ..
  then show ?thesis using d' t unfolding ClientDelete_def by (simp add: subs_def)
qed

theorem disconnect_forgets_witness:
  "\<exists>k. aclient ` set (allClients connected_bus) = {k} \<and> allClients (ClientDelete k 0 connected_bus) = []"
proof -
  obtain p where p: "allClients connected_bus = [p]" "srcRegList p = []" using connected_bus_peer by blast
  then show ?thesis using disconnect_forgets [OF connected_bus_reachable, of "aclient p" 0] p
    by (intro exI [of _ "aclient p"]) simp
qed

end
