(* ===== verification/Ivy_Session.thy ===== *)
theory Ivy_Session
  imports Ivy_Reach
begin

text \<open>
  Sessions between two applications, across the components: a message from the application that
  sends it to the callback of the one that subscribed, and what the lines of a peer do to the
  subscriptions of this application in the states it can reach.
\<close>

subsection \<open>From one application to another\<close>

text \<open>What a message means for the socket \<open>k\<close>: identifiers of subscriptions with captured arguments, in order.\<close>

definition entry_deliveries :: "pcre \<Rightarrow> string \<Rightarrow> addr \<Rightarrow> dict_entry \<Rightarrow> (int \<times> string list) list" where
  "entry_deliveries px message k en =
     (case captures px message en of
        None \<Rightarrow> []
      | Some args \<Rightarrow> map (\<lambda>c. (app_id c, args)) (filter (\<lambda>c. aclient c = k) (clientList en)))"

definition deliveries :: "pcre \<Rightarrow> string \<Rightarrow> addr \<Rightarrow> dict_entry list \<Rightarrow> (int \<times> string list) list" where
  "deliveries px message k d = concat (map (entry_deliveries px message k) d)"

text \<open>The calls of callbacks they mean for the application behind the socket, which knows the sender as \<open>d\<close>.\<close>

definition callback_of :: "addr \<Rightarrow> msg_rcv list \<Rightarrow> int \<times> string list \<Rightarrow> event list" where
  "callback_of d rs x =
     (case find (\<lambda>r. msg_id r = fst x) rs of
        None \<Rightarrow> []
      | Some rcv \<Rightarrow> if mcallback rcv \<noteq> NULL then [EvMsg d (rid rcv) (snd x)] else [])"

definition delivery_line :: "int \<times> string list \<Rightarrow> string" where
  "delivery_line x = wire_head (msg_num Msg) (fst x) @ wire_args (snd x)"

lemma sent_entry:
  "sent_to k (entry_lines px m en) = concat (map (\<lambda>x. delivery_line x @ [NL]) (entry_deliveries px m k en))"
proof (cases "captures px m en")
  case (Some args)
  have "sent_to k (map (msg_line args) cs)
      = concat (map (\<lambda>x. delivery_line x @ [NL]) (map (\<lambda>c. (app_id c, args)) (filter (\<lambda>c. aclient c = k) cs)))" for cs
    by (induction cs) (simp_all add: msg_line_def delivery_line_def)
  then show ?thesis using Some by (simp add: entry_lines_def entry_deliveries_def)
qed (simp add: entry_lines_def entry_deliveries_def)

lemma sent_message:
  "sent_to k (message_lines px m d) = concat (map (\<lambda>l. l @ [NL]) (map delivery_line (deliveries px m k d)))"
proof (induction d)
  case (Cons en d)
  have "message_lines px m (en # d) = entry_lines px m en @ message_lines px m d" by (simp add: message_lines_def)
  moreover have "deliveries px m k (en # d) = entry_deliveries px m k en @ deliveries px m k d" by (simp add: deliveries_def)
  ultimately show ?case using Cons by (simp add: sent_entry comp_def)
qed (simp add: message_lines_def deliveries_def)

text \<open>The arguments are parts of the message.\<close>

lemma delivery_part:
  assumes "(i, args) \<in> set (deliveries px m k d)" "a \<in> set args" "c \<in> set a"
  shows "c \<in> set m"
proof -
  obtain en where "captures px m en = Some args"
    using assms(1) by (auto simp: deliveries_def entry_deliveries_def split: option.splits)
  then obtain ov j where "a = capture ov m j" using assms(2) by (auto simp: captures_def split: option.splits)
  then show ?thesis using assms(3) by (auto simp: capture_def dest: in_set_takeD in_set_dropD split: option.splits)
qed

lemma delivery_clean:
  assumes "ARG_END \<notin> set m" "NL \<notin> set m" "NUL \<notin> set m" "x \<in> set (deliveries px m k d)"
    "length (snd x) \<le> MAX_MATCHING_ARGS"
  shows "clean_args (snd x)"
  using assms delivery_part [of "fst x" "snd x" px m k d] unfolding clean_args_def by (metis prod.collapse)

lemma delivery_event:
  assumes "clean_args (snd x)"
  shows "app_event_of d rs direct (delivery_line x) = callback_of d rs x"
  using assms collect_wire_args [of "snd x" 0] msg_of_num_num [of Msg]
  by (auto simp: app_event_of_def clean_args_def parse_wire_head delivery_line_def callback_of_def split: option.split)

lemma message_received:
  assumes p: "peer_listens d u" and y: "find_client c u = Some y" "reads_for d a bs y" "c \<noteq> NULL" "rbuf y = []" "terminator y = NL"
    and cl: "\<forall>x \<in> set ds. clean_args (snd x)"
    and b: "concat bs = concat (map (\<lambda>l. l @ [NL]) (map delivery_line ds))"
  shows "\<exists>n. events ((HandleSocket (bus_callbacks env) c ^^ n) u) = events u @ concat (map (callback_of d (msg_recv u)) ds)"
proof -
  have "NL \<notin> set l" if "l \<in> set (map delivery_line ds)" for l
    using that cl msg_line_clean(1) by (auto simp: delivery_line_def)
  then have ls: "lines_of NL (concat (map (\<lambda>l. l @ [NL]) (map delivery_line ds)) @ []) = (map delivery_line ds, [])"
    by (intro lines_of_lines) auto
  have cs1: "cstr l = l" if "l \<in> set (map delivery_line ds)" for l
    using that cl msg_line_clean(2) by (auto simp: delivery_line_def intro: cstr_id)
  then have cs: "map cstr (map delivery_line ds) = map delivery_line ds" by (intro map_idI)
  have cut: "lines_of (terminator y) (rbuf y @ concat bs) = (map delivery_line ds, [])"
    using ls by (simp only: y(4,5) b append_Nil append_Nil2)
  have al: "\<forall>l \<in> set (fst (lines_of (terminator y) (rbuf y @ concat bs))). app_line (cstr l)"
  proof
    fix l assume "l \<in> set (fst (lines_of (terminator y) (rbuf y @ concat bs)))"
    then have l: "l \<in> set (map delivery_line ds)" unfolding cut by simp
    from cs1 [OF l] show "app_line (cstr l)" using l app_line_msg by (auto simp: delivery_line_def)
  qed
  from receive_pieces [OF p y(1-3) al, of env] obtain n where
    "events ((HandleSocket (bus_callbacks env) c ^^ n) u)
      = events u @ concat (map (app_event_of d (msg_recv u) (direct_callback u)) (map cstr (map delivery_line ds)))"
    unfolding cut fst_conv by blast
  moreover have "concat (map (app_event_of d (msg_recv u) (direct_callback u)) (map delivery_line ds))
      = concat (map (callback_of d (msg_recv u)) ds)"
    unfolding map_map by (rule arg_cong [where f = concat], rule map_cong [OF refl]) (use cl delivery_event in simp)
  ultimately show ?thesis unfolding cs by metis
qed

subsection \<open>Lines that change subscriptions\<close>

lemma subs_frame [simp]:
  "subs (log_bind c i r ev s) = subs s" "subs (upd_ivy_client a f s) = subs s" "subs (crash e s) = subs s"
  "subs (s\<lparr>next_addr := n\<rparr>) = subs s" "subs (s\<lparr>filters := fs\<rparr>) = subs s"
  by (simp_all add: subs_def log_bind_def upd_ivy_client_def crash_def)

lemma subs_addRegexp: "app_name c \<noteq> None \<Longrightarrow> subs (addRegexp px r c s) = insert (r, aclient c, app_id c) (subs s)"
  by (simp add: addRegexp_def Let_def add_to_dict_subs split: option.split)

text \<open>Whatever the peer had before, one triple more.\<close>

lemma subs_addOrChange:
  assumes "app_name c \<noteq> None" "dict_wf (messSndByRegexp s)"
  shows "subs (addOrChangeRegexp px r c s) = insert (r, aclient c, app_id c) (subs s)"
proof -
  obtain d where "delRegexpForOneClientFromDictionary r c s = s\<lparr>messSndByRegexp := d\<rparr>"
    "subs_of d = subs s - {(r, aclient c, app_id c)}" using del_from_dict [OF assms(2), of r c] by blast
  then have "subs (changeRegexp px r c s) = insert (r, aclient c, app_id c) (subs s)"
    by (simp add: changeRegexp_def changeRegexpInDictionary_def Let_def add_to_dict_subs [OF assms(1)] subs_def [of "_\<lparr>messSndByRegexp := _\<rparr>"]
      split: option.split)
  then show ?thesis by (simp add: addOrChangeRegexp_def subs_addRegexp [OF assms(1)] split: option.split)
qed

text \<open>The loop of \<^verbatim>\<open>delRegexpForOneClient\<close>, step by step, with what has gone from the dictionary so far.\<close>

definition gone :: "ivy_client \<Rightarrow> ivy_client \<Rightarrow> glob_reg list \<Rightarrow> (string \<times> addr \<times> int) set" where
  "gone c0 cl rl = {(r, aclient cl, app_id cl) | r. \<exists>x \<in> set (srcRegList c0) - set rl. str_regexp x = Some r}"

definition loop_at where
  "loop_at s0 a c0 cl i t \<longleftrightarrow> (\<exists>rl d. t = at_peer s0 a rl d \<and> distinct (map gid rl) \<and> set rl \<subseteq> set (srcRegList c0)
     \<and> (\<forall>x \<in> set (srcRegList c0) - set rl. reg_id x = i) \<and> dict_wf d \<and> subs_of d = subs s0 - gone c0 cl rl)"

lemma loop_step:
  assumes c0: "find_ivy_client a s0 = Some c0" and t: "loop_at s0 a c0 cl i t" and n: "reg_nodes a t = pre @ p # ps"
  shows "loop_at s0 a c0 cl i (del_reg_body a cl i p t) \<and> (\<exists>pre'. reg_nodes a (del_reg_body a cl i p t) = pre' @ ps)"
proof -
  obtain rl d where l: "t = at_peer s0 a rl d" "distinct (map gid rl)" "set rl \<subseteq> set (srcRegList c0)"
    "\<forall>x \<in> set (srcRegList c0) - set rl. reg_id x = i" "dict_wf d" "subs_of d = subs s0 - gone c0 cl rl"
    using t by (auto simp: loop_at_def)
  have m: "map gid rl = pre @ p # ps" using n reg_nodes_at [OF c0] l(1) by simp
  then have "p \<in> gid ` set rl" by (metis in_set_conv_decomp list.set_map)
  then obtain x where x: "x \<in> set rl" "gid x = p" by auto
  have fr: "find_reg a p t = Some x"
    using at_peer_find [OF c0] find_unique [OF l(2) x(1)] x(2) l(1) by (simp add: find_reg_def)
  let ?rl = "filter (\<lambda>y. gid y \<noteq> p) rl"
  have u: "y \<in> set rl \<Longrightarrow> gid y = p \<longleftrightarrow> y = x" for y using l(2) x by (auto simp: distinct_map dest: inj_onD)
  obtain pre' where pre': "map gid ?rl = pre' @ ps"
    using filter_one_node [OF l(2) m, of "\<lambda>y. False"] by auto
  show ?thesis
  proof (cases "reg_id x = i")
    case False
    then have "del_reg_body a cl i p t = t" using fr by (simp add: del_reg_body_def)
    moreover have "reg_nodes a t = (pre @ [p]) @ ps" using n by simp
    ultimately show ?thesis using t by metis
  next
    case True
    have g: "gone c0 cl ?rl = gone c0 cl rl \<union> {(r, aclient cl, app_id cl) | r. str_regexp x = Some r}"
    proof -
      have "set (srcRegList c0) - set ?rl = insert x (set (srcRegList c0) - set rl)" using l(3) x(1) u by auto
      then show ?thesis by (auto simp: gone_def)
    qed
    obtain d' where d': "(case str_regexp x of None \<Rightarrow> t | Some r \<Rightarrow> delRegexpForOneClientFromDictionary r cl t)
        = (at_peer s0 a rl d)\<lparr>messSndByRegexp := d'\<rparr>" "dict_wf d'" "subs_of d' = subs s0 - gone c0 cl ?rl"
    proof (cases "str_regexp x")
      case None
      then show thesis using that [of d] l(1,5,6) g by (simp add: at_peer_def)
    next
      case (Some r)
      have "dict_wf (messSndByRegexp t)" using l(1,5) by (simp add: at_peer_def)
      from del_from_dict [OF this, of r cl] obtain d' where
        "delRegexpForOneClientFromDictionary r cl t = t\<lparr>messSndByRegexp := d'\<rparr>" "dict_wf d'"
        "subs_of d' = subs t - {(r, aclient cl, app_id cl)}" by blast
      moreover have "subs t = subs_of d" using l(1) by (simp add: subs_def at_peer_def)
      ultimately show thesis using that [of d'] Some l(1,6) g by auto
    qed
    have b: "del_reg_body a cl i p t = at_peer s0 a ?rl d'"
      using fr True d'(1) by (simp add: del_reg_body_def at_peer_upd)
    have "\<forall>y \<in> set (srcRegList c0) - set ?rl. reg_id y = i" using l(4) u True by auto
    then have "loop_at s0 a c0 cl i (at_peer s0 a ?rl d')"
      unfolding loop_at_def using l(2,3) d'(2,3) by (intro exI [of _ ?rl] exI [of _ d']) (auto simp: distinct_map_filter)
    then show ?thesis unfolding b using pre' reg_nodes_at [OF c0] by auto
  qed
qed

lemma delRegexp_subs:
  assumes ok: "peers_ok s" and d: "dict_wf (messSndByRegexp s)" and c0: "find_ivy_client a s = Some c0"
    and cl: "aclient cl = aclient c0"
  shows "subs (snd (delRegexpForOneClient cl i s))
      = subs s - {(r, aclient c0, app_id cl) | r. \<exists>x \<in> set (srcRegList c0). reg_id x = i \<and> str_regexp x = Some r}"
    "find_ivy_client a (snd (delRegexpForOneClient cl i s))
      = Some (c0\<lparr>srcRegList := filter (\<lambda>x. reg_id x \<noteq> i) (srcRegList c0)\<rparr>)"
    "fault (snd (delRegexpForOneClient cl i s)) = fault s"
proof -
  let ?body = "del_reg_body a cl i" and ?nodes = "reg_nodes a"
  have self: "at_peer s a (srcRegList c0) (messSndByRegexp s) = s" by (rule at_peer_self [OF ok c0])
  have dist: "distinct (map gid (srcRegList c0))"
    using ok find_ivy_client_Some [OF c0] by (simp add: peers_ok_def)
  have I0: "loop_at s a c0 cl i s"
    unfolding loop_at_def using self dist d
    by (intro exI [of _ "srcRegList c0"] exI [of _ "messSndByRegexp s"]) (auto simp: gone_def subs_def)
  have dn: "distinct (reg_nodes a t)" if "loop_at s a c0 cl i t" for t
    using that reg_nodes_at [OF c0] by (auto simp: loop_at_def)
  have fin: "each_safe ?nodes crash ?body (?nodes s) s = fold ?body (?nodes s) s
      \<and> loop_at s a c0 cl i (fold ?body (?nodes s) s)"
    by (rule each_safe_fold [where I = "loop_at s a c0 cl i" and pre = "[]"], rule loop_step [OF c0], assumption+,
        erule dn, rule I0, simp)
  define t where "t = snd (delRegexpForOneClient cl i s)"
  have "find_by_socket (aclient c0) s = Some c0"
    using at_peer_socket [OF ok c0, of "srcRegList c0" "messSndByRegexp s"] self by simp
  then have "t = each_safe ?nodes crash ?body (?nodes s) s"
    using cl find_ivy_client_Some [OF c0] by (simp add: t_def delRegexpForOneClient_def)
  then have "loop_at s a c0 cl i t" using fin by simp
  then obtain rl d1 where l: "t = at_peer s a rl d1" "subs_of d1 = subs s - gone c0 cl rl" by (auto simp: loop_at_def)
  have "dict_minus s (aclient c0) (messSndByRegexp s)" using d by (auto simp: dict_minus_def subs_def)
  from delRegexpForOneClient_at [OF ok c0 cl this dist, of i] self obtain d2 where
    t2: "t = at_peer s a (filter (\<lambda>y. reg_id y \<noteq> i) (srcRegList c0)) d2" by (auto simp: t_def)
  have "find_ivy_client a t = Some (c0\<lparr>srcRegList := rl\<rparr>)" using at_peer_find [OF c0] l(1) by simp
  moreover have f: "find_ivy_client a t = Some (c0\<lparr>srcRegList := filter (\<lambda>y. reg_id y \<noteq> i) (srcRegList c0)\<rparr>)"
    using at_peer_find [OF c0] t2 by simp
  ultimately have "srcRegList (c0\<lparr>srcRegList := rl\<rparr>) = srcRegList (c0\<lparr>srcRegList := filter (\<lambda>y. reg_id y \<noteq> i) (srcRegList c0)\<rparr>)"
    by simp
  then have "rl = filter (\<lambda>y. reg_id y \<noteq> i) (srcRegList c0)" by simp
  moreover have "subs t = subs_of d1" using l(1) by (simp add: subs_def at_peer_def)
  ultimately show "subs (snd (delRegexpForOneClient cl i s))
      = subs s - {(r, aclient c0, app_id cl) | r. \<exists>x \<in> set (srcRegList c0). reg_id x = i \<and> str_regexp x = Some r}"
    using l(2) cl by (fastforce simp: gone_def t_def)
  show "find_ivy_client a (snd (delRegexpForOneClient cl i s))
      = Some (c0\<lparr>srcRegList := filter (\<lambda>x. reg_id x \<noteq> i) (srcRegList c0)\<rparr>)" using f by (simp add: t_def)
  show "fault (snd (delRegexpForOneClient cl i s)) = fault s" using l(1) by (simp add: t_def [symmetric] at_peer_def)
qed

lemma Receive_line:
  "find_ivy_client d s = Some p \<Longrightarrow> d \<noteq> NULL \<Longrightarrow> \<not> ignore_subsequent_msg p \<Longrightarrow> parse_line line = Some (msg_num k, i, m) \<Longrightarrow>
   Receive env c d line s
     = receive_kind env c (Some k) (p\<lparr>app_id := i\<rparr>) i m (upd_ivy_client d (\<lambda>x. x\<lparr>app_id := i\<rparr>) s)"
  by (simp add: Receive_def del: msg_num.simps)

subsection \<open>What is left of a socket when the bus is left\<close>

text \<open>What the framing loop reads of a socket.\<close>

definition line_view :: "'a sock_state_scheme \<Rightarrow> (addr \<times> char \<times> fnptr \<times> addr) list" where
  "line_view s = map (\<lambda>x. (cid x, terminator x, interpretation_fn x, cdata x)) (clients_list s)"

lemma line_view_upd:
  "(\<And>x. cid (f x) = cid x \<and> terminator (f x) = terminator x \<and> interpretation_fn (f x) = interpretation_fn x \<and> cdata (f x) = cdata x)
    \<Longrightarrow> line_view (upd_client c f s) = line_view s"
  by (simp add: line_view_def) (simp add: upd_client_def)

lemma line_view_ops [simp]:
  fixes s :: "'a sock_state_scheme"
  shows "line_view (crash e s) = line_view s" "line_view (IvyChannelRemove k s) = line_view s"
    "line_view (IvyChannelAddWritableEvent k s) = line_view s" "line_view (fifo_put c f b s) = line_view s"
  by (simp_all add: line_view_def fifo_put_def line_view_upd [unfolded line_view_def] split: option.split)

lemma line_view_send [simp]: "line_view (snd (BufferizedSocketSendRaw c b s)) = line_view s"
  by (auto simp: BufferizedSocketSendRaw_def Let_def line_view_upd split: option.splits prod.splits send_result.splits)

lemma line_view_bus [simp]:
  "line_view (log_event e s) = line_view s" "line_view (s\<lparr>send_buf := b\<rparr>) = line_view s"
  "line_view (s\<lparr>allClients := cs\<rparr>) = line_view s" "line_view (s\<lparr>messSndByRegexp := d\<rparr>) = line_view s"
  "line_view (s\<lparr>main_loop := m\<rparr>) = line_view s" "line_view (upd_ivy_client a f s) = line_view s"
  by (simp_all add: line_view_def upd_ivy_client_def log_event_def)

lemma line_view_sends [simp]:
  "line_view (send_to c t i m s) = line_view s" "line_view (SocketClose k s) = line_view s"
  "line_view (SocketServerClose v s) = line_view s"
proof -
  have "line_view (snd (SocketSend k out s)) = line_view s" for k out
    by (simp add: SocketSend_def SocketSendRaw_def split: option.split prod.split)
  then have "line_view (notify_send st a (snd (SocketSend k out s))) = line_view s" for st a k out
    by (simp add: notify_send_def split: SendState.split)
  then show "line_view (send_to c t i m s) = line_view s" by (simp add: send_to_def MsgSendTo_def split_def Let_def)
  show "line_view (SocketClose k s) = line_view s" "line_view (SocketServerClose v s) = line_view s"
    by (simp_all add: SocketClose_def SocketServerClose_def with_client_def split: option.split)
qed

lemma left_bus:
  "allClients (IvyCleanup s) = []" "messSndByRegexp (IvyCleanup s) = []" "line_view (IvyCleanup s) = line_view s"
proof -
  let ?s1 = "each_safe ivy_client_nodes crash cleanup_body (ivy_client_nodes s) s"
  have c: "allClients (SocketClose k t) = allClients t" "messSndByRegexp (SocketClose k t) = messSndByRegexp t"
    "allClients (SocketServerClose v t) = allClients t" "messSndByRegexp (SocketServerClose v t) = messSndByRegexp t"
    for k v and t :: "'a ivy_state_scheme"
    using more_fields [of "SocketClose k t" t] more_fields [of "SocketServerClose v t" t]
    by (simp_all add: SocketServerClose_def split: option.split)
  have "line_view ?s1 = line_view s"
    by (rule each_safe_keeps [where Q = "\<lambda>t. line_view t = line_view s"])
      (simp_all add: cleanup_body_def Let_def split: option.split)
  then show "allClients (IvyCleanup s) = []" "messSndByRegexp (IvyCleanup s) = []" "line_view (IvyCleanup s) = line_view s"
    by (simp_all add: IvyCleanup_def Let_def delAllRegexps_empty c)
qed

lemma find_line_view:
  assumes "line_view t = line_view s" "find_client c s = Some x"
  shows "\<exists>y. find_client c t = Some y \<and> terminator y = terminator x \<and> interpretation_fn y = interpretation_fn x \<and> cdata y = cdata x"
proof -
  let ?g = "\<lambda>x. (cid x, terminator x, interpretation_fn x, cdata x)"
  have f: "find (\<lambda>v. fst v = c) (map ?g xs) = map_option ?g (find (\<lambda>x. cid x = c) xs)" for xs
    by (induction xs) simp_all
  have "map_option ?g (find_client c t) = map_option ?g (find_client c s)"
    using f [of "clients_list t"] f [of "clients_list s"] assms(1) by (simp add: line_view_def find_client_def)
  then show ?thesis using assms(2) by auto
qed

lemma recv_die_left: "allClients (recv_die p i s) = []" "line_view (recv_die p i s) = line_view s"
  by (simp_all add: recv_die_def Let_def IvyChannelStop_def left_bus)

subsection \<open>Properties\<close>

text \<open>
  (C1) From one application to another. The sender calls \<^verbatim>\<open>IvySendMsg\<close>; the network carries the bytes that
  this adds to the stream of the socket \<open>k\<close> to the receiver, in any pieces. Then the receiver, reading
  with \<^verbatim>\<open>HandleSocket\<close>, has made exactly the calls of its callbacks that the dictionary of the sender
  asks for: one for each matching subscription of that socket, in order, with the identifier of the
  subscription and the captured arguments.
\<close>

theorem bus_end_to_end:
  assumes send: "pcre_sound px" "ready n s" "peers_alive s" "distinct (map eid (messSndByRegexp s))"
    "buffer_wf (arg_buf s)" "buffer_wf (msg_buf s)" "\<not> debug_binary_msg s" "f \<noteq> []"
    "int (length out) \<le> Ivy_Bind.INT_MAX" "total (message_lines px out (messSndByRegexp s)) \<le> n"
    and plain: "ARG_END \<notin> set out" "NL \<notin> set out" "NUL \<notin> set out"
      "\<forall>x \<in> set (deliveries px out k (messSndByRegexp s)). length (snd x) \<le> MAX_MATCHING_ARGS"
    and net: "find_client k s = Some x" "find_client k (snd (IvySendMsg px (Some f) out s)) = Some y"
      "stream y = stream x @ concat bs"
    and recv: "peer_listens d u" "find_client c u = Some z" "reads_for d a bs z" "c \<noteq> NULL" "rbuf z = []"
      "terminator z = NL"
  shows "\<exists>j. events ((HandleSocket (bus_callbacks env) c ^^ j) u)
    = events u @ concat (map (callback_of d (msg_recv u)) (deliveries px out k (messSndByRegexp s)))"
proof (rule message_received [OF recv])
  show "\<forall>x \<in> set (deliveries px out k (messSndByRegexp s)). clean_args (snd x)"
    using delivery_clean [OF plain(1-3)] plain(4) by blast
  obtain t where t: "IvySendMsg px (Some f) out s = (length (message_lines px out (messSndByRegexp s)), t)"
    "streams_after (message_lines px out (messSndByRegexp s)) s t"
    using IvySendMsg_lines [OF send(1-8) plain(3) send(9,10)] by blast
  then have "stream y = stream x @ sent_to k (message_lines px out (messSndByRegexp s))"
    using net(1,2) by (fastforce simp: streams_after_def)
  then show "concat bs = concat (map (\<lambda>l. l @ [NL]) (map delivery_line (deliveries px out k (messSndByRegexp s))))"
    using net(3) by (simp only: sent_message same_append_eq)
qed

text \<open>One subscription to everything; its line comes to the receiver in two pieces.\<close>

definition hearing_seven :: "bytes list \<Rightarrow> ivy_state" where
  "hearing_seven bs = (hearing_bus bs)
     \<lparr>msg_recv := [\<lparr>rid = 20, msg_id = 7, regexp = Some ''(.*)'', mcallback = 9, muser_data = 0\<rparr>]\<rparr>"

lemma hearing_seven_simps:
  "peer_listens 5 (hearing_seven bs)" "find_client 1 (hearing_seven bs) = Some (hearing_client bs)"
  "events (hearing_seven bs) = []"
  using hearing_bus_simps(1-3) [of bs]
  by (simp_all add: hearing_seven_def peer_listens_def find_ivy_client_def find_client_def)

theorem bus_end_to_end_witness:
  "\<exists>j. events ((HandleSocket (bus_callbacks some_env) 1 ^^ j)
      (hearing_seven [wire_head 2 7 @ ''h'', ''i'' @ [ARG_END, NL]])) = [EvMsg 5 20 [''hi'']]"
proof -
  let ?l = "wire_head 2 7 @ ''hi'' @ [ARG_END, NL]"
  let ?bs = "[wire_head 2 7 @ ''h'', ''i'' @ [ARG_END, NL]]"
  have h: "dec_int 2 = ''2''" "dec_int 7 = ''7''" by code_simp+
  have m: "messSndByRegexp bus_all = [entry_all]" by (simp add: bus_all_def)
  have n: "(100::nat) < MSG_MAX" by (simp add: MSG_MAX_def)
  have b: "buffer_wf (arg_buf bus_all)" "buffer_wf (msg_buf bus_all)" "\<not> debug_binary_msg bus_all"
    "distinct (map eid (messSndByRegexp bus_all))"
    by (simp_all add: bus_all_def bus_on_def sock_state.defs ivy_state.defs buffer_wf_def init_buffer_def)
  have ml: "message_lines pcre_all ''hi'' (messSndByRegexp bus_all) = [(1, ?l)]"
    unfolding m by (simp add: message_lines_def line_all)
  have tot: "total (message_lines pcre_all ''hi'' (messSndByRegexp bus_all)) \<le> 100"
    unfolding ml by (simp add: wire_head_def h)
  have len: "int (length ''hi'') \<le> Ivy_Bind.INT_MAX" by (simp add: Ivy_Bind.INT_MAX_def)
  have dl: "deliveries pcre_all ''hi'' 1 (messSndByRegexp bus_all) = [(7, [''hi''])]"
    unfolding m by (simp add: deliveries_def entry_deliveries_def captures_def entry_all_def pcre_all_def capture_def
        peer_on_def upt_rec)
  note x = bus_all_ready(3) [OF n]
  from IvySendMsg_lines [OF pcre_all_sound bus_all_ready(1,2) [OF n] b(4,1-3) _ _ len tot, of "''%s''"]
  obtain t where t: "IvySendMsg pcre_all (Some ''%s'') ''hi'' bus_all = (1, t)" "streams_after [(1, ?l)] bus_all t"
    unfolding ml by auto
  then obtain y where y: "find_client 1 (snd (IvySendMsg pcre_all (Some ''%s'') ''hi'' bus_all)) = Some y"
    "stream y = stream (client_on 4 1 2) @ concat ?bs" using x unfolding streams_after_def by fastforce
  have r: "reads_for 5 \<lparr>is_ipv6 = False, ip_addr = 0, net_port = 0\<rparr> ?bs (hearing_client ?bs)"
    by (rule hearing_bus_simps(7)) (simp add: wire_head_def)
  have "\<exists>j. events ((HandleSocket (bus_callbacks some_env) 1 ^^ j) (hearing_seven ?bs))
    = events (hearing_seven ?bs) @ concat (map (callback_of 5 (msg_recv (hearing_seven ?bs)))
        (deliveries pcre_all ''hi'' 1 (messSndByRegexp bus_all)))"
    by (rule bus_end_to_end [OF pcre_all_sound bus_all_ready(1,2) [OF n] b(4,1-3) _ len tot _ _ _ _ x y
          hearing_seven_simps(1,2) r _ hearing_bus_simps(5,4)])
      (simp_all add: dl [unfolded One_nat_def] MAX_MATCHING_ARGS_def)
  then show ?thesis unfolding dl by (simp add: hearing_seven_simps callback_of_def) (simp add: hearing_seven_def)
qed

text \<open>
  (C7) A subscription that a peer sends, when the filter accepts it, adds exactly one triple (source,
  socket of the peer, identifier of the line) to the dictionary, in every reachable state and whatever the
  peer had subscribed to before: the earlier subscription with the same identifier is not replaced.
\<close>

theorem subscribe_line:
  assumes "reachable env s" "find_ivy_client d s = Some p" "\<not> ignore_subsequent_msg p"
    "parse_line line = Some (msg_num AddRegexp, i, r)" "IvyBindingFilter (be_pcre env) r (filters s) = (True, fs)"
  shows "subs (Receive env c d line s) = insert (r, aclient p, i) (subs s)"
proof -
  have inv: "bus_inv s" by (rule reachable_inv [OF assms(1)])
  have p: "(d, aclient p) \<in> set (peers s)" using find_ivy_client_peers [OF assms(2)] by blast
  then have "d \<noteq> NULL" using inv by (force simp: inv_split others_inv_def others_def peers_inv_def)
  moreover have "app_name p \<noteq> None" using inv find_ivy_client_Some [OF assms(2)]
    by (auto simp: inv_split others_inv_def others_def regs_inv_def regs_def regs_core_def)
  moreover have "dict_wf (messSndByRegexp s)" using inv_dict [OF inv] by blast
  moreover have "filters (upd_ivy_client d f s) = filters s" "messSndByRegexp (upd_ivy_client d f s) = messSndByRegexp s" for f
    by (simp_all add: upd_ivy_client_def)
  ultimately show ?thesis using assms(5) Receive_line [OF assms(2) _ assms(3,4)]
    by (simp add: receive_kind_def recv_add_regexp_def subs_addOrChange)
qed

theorem subscribe_line_witness:
  "\<exists>p. allClients connected_bus = [p]
    \<and> subs (Receive some_env (aclient p) (aid p) (wire_head (msg_num AddRegexp) 3 @ ''x(.*)'') connected_bus)
      = insert (''x(.*)'', aclient p, 3) (subs connected_bus)"
proof -
  obtain p where p: "allClients connected_bus = [p]" "\<not> ignore_subsequent_msg p" using connected_bus_peer by blast
  have "find_ivy_client (aid p) connected_bus = Some p" using p(1) by (simp add: find_ivy_client_def)
  moreover have "IvyBindingFilter (be_pcre some_env) ''x(.*)'' (filters connected_bus) = (True, filters connected_bus)"
    by (simp add: IvyBindingFilter_def)
  ultimately have "subs (Receive some_env (aclient p) (aid p) (wire_head (msg_num AddRegexp) 3 @ ''x(.*)'') connected_bus)
      = insert (''x(.*)'', aclient p, 3) (subs connected_bus)"
    using subscribe_line [OF connected_bus_reachable _ p(2) parse_wire_head] by blast
  then show ?thesis using p(1) by blast
qed

text \<open>
  (C8) The line by which a peer ends a subscription takes from the dictionary exactly the triples of
  that identifier whose source the peer's own list of subscriptions gives, and those subscriptions from the
  list; it reads no freed node. A source that an earlier change of expression has left in the
  dictionary only is not taken.
\<close>

theorem unsubscribe_line:
  assumes "peers_ok s" "dict_wf (messSndByRegexp s)" "find_ivy_client d s = Some p" "d \<noteq> NULL"
    "\<not> ignore_subsequent_msg p" "parse_line line = Some (msg_num DelRegexp, i, m)"
  shows "subs (Receive env c d line s)
      = subs s - {(r, aclient p, i) | r. \<exists>x \<in> set (srcRegList p). reg_id x = i \<and> str_regexp x = Some r}
    \<and> find_ivy_client d (Receive env c d line s)
      = Some (p\<lparr>app_id := i, srcRegList := filter (\<lambda>x. reg_id x \<noteq> i) (srcRegList p)\<rparr>)
    \<and> fault (Receive env c d line s) = fault s"
proof -
  let ?s = "upd_ivy_client d (\<lambda>x. x\<lparr>app_id := i\<rparr>) s"
  let ?p = "p\<lparr>app_id := i\<rparr>"
  have f: "find_ivy_client d ?s = Some ?p" using assms(3) by simp
  have w: "dict_wf (messSndByRegexp ?s)" "fault ?s = fault s" using assms(2) by (simp_all add: upd_ivy_client_def)
  have "map aid (allClients ?s) = map aid (allClients s)" "map aclient (allClients ?s) = map aclient (allClients s)"
    "map (map gid \<circ> srcRegList) (allClients ?s) = map (map gid \<circ> srcRegList) (allClients s)"
    by (simp_all add: upd_ivy_client_def)
  then have "peers_ok ?s" using assms(1) unfolding peers_ok_def by (metis (mono_tags, lifting) comp_apply image_iff list.set_map)
  from delRegexp_subs [OF this w(1) f, of ?p i] have e:
    "subs (snd (delRegexpForOneClient ?p i ?s))
      = subs s - {(r, aclient p, i) | r. \<exists>x \<in> set (srcRegList p). reg_id x = i \<and> str_regexp x = Some r}"
    "find_ivy_client d (snd (delRegexpForOneClient ?p i ?s))
      = Some (?p\<lparr>srcRegList := filter (\<lambda>x. reg_id x \<noteq> i) (srcRegList p)\<rparr>)"
    "fault (snd (delRegexpForOneClient ?p i ?s)) = fault s" by (simp_all add: w(2))
  have r: "Receive env c d line s = recv_del_regexp ?p i m ?s"
    using Receive_line [OF assms(3-6)] by (simp add: receive_kind_def)
  have l: "find_ivy_client d (log_bind q i m ev t) = find_ivy_client d t" "fault (log_bind q i m ev t) = fault t"
    for q ev and t :: "'a ivy_state_scheme"
    by (simp_all add: log_bind_def)
  show ?thesis unfolding r using e by (simp add: recv_del_regexp_def split_def Let_def l)
qed

theorem unsubscribe_line_witness:
  "subs (Receive some_env 10 5 (wire_head (msg_num DelRegexp) 1) two_peers) = {}"
proof -
  have f: "find_ivy_client 5 two_peers = Some peer_A"
    by (simp add: find_ivy_client_def two_peers_wf(6)) (simp add: peer_A_def peer_on_def)
  have g: "\<not> ignore_subsequent_msg peer_A" by (simp add: peer_A_def peer_on_def)
  have "parse_line (wire_head (msg_num DelRegexp) 1) = Some (msg_num DelRegexp, 1, [])"
    using parse_wire_head [of "msg_num DelRegexp" 1 "[]"] by simp
  from unsubscribe_line [OF two_peers_wf(2,3) f _ g this, of some_env 10] show ?thesis
    by (auto simp: two_peers_wf(5) peer_A_simps(2,4) reg7_def)
qed

text \<open>
  (C33) A peer that sends a Die line and any further line in the same read makes \<^verbatim>\<open>HandleSocket\<close> read freed
  memory: \<^verbatim>\<open>IvyCleanup\<close> has freed all peers, the data of the socket still designates its peer, and the
  next line is given to \<^verbatim>\<open>Receive\<close> with it. The fault is the one recorded unless there was one before.
\<close>

theorem die_then_line:
  assumes "find_client c s = Some x" "interpretation_fn x = FN_Receive" "cdata x \<noteq> NULL"
    "find_ivy_client (cdata x) s = Some p" "\<not> ignore_subsequent_msg p"
    "terminator x \<notin> set l1" "terminator x \<notin> set l2" "parse_line (cstr l1) = Some (msg_num Die, i, m)"
  shows "fault (snd (handle_lines (bus_callbacks env) c (l1 @ terminator x # l2 @ [terminator x]) s))
    = (case fault (Receive env c (cdata x) (cstr l1) s) of None \<Rightarrow> Some UseAfterFree | Some e \<Rightarrow> Some e)"
proof -
  let ?t = "Receive env c (cdata x) (cstr l1) s"
  have t: "?t = recv_die (p\<lparr>app_id := i\<rparr>) i (upd_ivy_client (cdata x) (\<lambda>q. q\<lparr>app_id := i\<rparr>) s)"
    using Receive_line [OF assms(4,3,5,8)] by (simp add: receive_kind_def)
  have a: "allClients ?t = []" unfolding t by (rule recv_die_left)
  have "line_view ?t = line_view s" unfolding t by (simp add: recv_die_left)
  from find_line_view [OF this assms(1)] obtain y where y: "find_client c ?t = Some y" "terminator y = terminator x"
    "interpretation_fn y = FN_Receive" "cdata y = cdata x" using assms(2) by auto
  have r: "Receive env c (cdata x) l ?t = crash UseAfterFree ?t" for l
    using a assms(3) by (simp add: Receive_def find_ivy_client_def)
  have n: "FN_Receive \<noteq> NULL" using FN_nonnull(1) by simp
  have one: "handle_lines (bus_callbacks env) c (l1 @ terminator x # l2 @ [terminator x]) s
      = handle_lines (bus_callbacks env) c (l2 @ [terminator x]) ?t"
    using assms(1,2,6) n by (subst handle_lines.simps) simp
  have two: "handle_lines (bus_callbacks env) c (l2 @ [terminator x]) ?t
      = handle_lines (bus_callbacks env) c [] (crash UseAfterFree ?t)"
    using y assms(7) n r by (subst handle_lines.simps) simp
  have "handle_lines (bus_callbacks env) c [] (crash UseAfterFree ?t) = ([], crash UseAfterFree ?t)"
    using y(1) by (subst handle_lines.simps) (simp add: split_at_None [THEN iffD2])
  then show ?thesis unfolding one two by (simp add: crash_def split: option.split)
qed

theorem die_then_line_witness:
  "fault (hearing_bus []) = None
   \<and> fault (snd (handle_lines (bus_callbacks some_env) 1 (wire_head (msg_num Die) 0 @ NL # ''x'' @ [NL]) (hearing_bus []))) \<noteq> None"
proof -
  have x: "find_client 1 (hearing_bus []) = Some (hearing_client [])" by (rule hearing_bus_simps(2))
  have y: "interpretation_fn (hearing_client []) = FN_Receive" "cdata (hearing_client []) = 5"
    "terminator (hearing_client []) = NL"
    by (simp_all add: hearing_client_def client_on_def fresh_client_def)
  have p: "find_ivy_client 5 (hearing_bus []) = Some (peer_on 5 1 ''A'' [])" "\<not> ignore_subsequent_msg (peer_on 5 1 ''A'' [])"
    by (simp_all add: hearing_bus_def find_ivy_client_def peer_on_def)
  have l: "parse_line (cstr (wire_head (msg_num Die) 0)) = Some (msg_num Die, 0, [])"
    using parse_wire_line [of "[]" "msg_num Die" 0] by simp
  have "fault (hearing_bus []) = None" by (simp add: hearing_bus_def one_client_def)
  moreover have "fault (snd (handle_lines (bus_callbacks some_env) 1
      (wire_head (msg_num Die) 0 @ terminator (hearing_client []) # ''x'' @ [terminator (hearing_client [])]) (hearing_bus []))) \<noteq> None"
    using wire_head_clean(1) [of "msg_num Die" 0]
    by (subst die_then_line [OF x y(1) _ _ p(2) _ _ l]) (simp_all add: y p split: option.split)
  ultimately show ?thesis unfolding y(3) by blast
qed

end
