(* ===== verification/Ivy_Frame.thy ===== *)
theory Ivy_Frame
  imports Ivy_Api
begin

text \<open>
  What the bus may do to the layers below it. The operations of \<^verbatim>\<open>src/ivy.c\<close> on peers, subscriptions and
  messages change the state of the sockets only by a few operations of \<^verbatim>\<open>src/ivysocket.c\<close>: they send, they
  close, they give out addresses. A relation between states that those keep is kept by all of them.
\<close>

locale bus_ops =
  fixes R :: "'a ivy_state_scheme \<Rightarrow> 'a ivy_state_scheme \<Rightarrow> bool"
  assumes R_refl: "R s s"
    and R_trans: "R s t \<Longrightarrow> R t u \<Longrightarrow> R s u"
    and R_set: "R s (s\<lparr>allClients := v1\<rparr>)" "R s (s\<lparr>messSndByRegexp := v2\<rparr>)" "R s (s\<lparr>events := v3\<rparr>)" "R s (s\<lparr>filters := v4\<rparr>)"
      "R s (s\<lparr>arg_buf := bf\<rparr>)" "R s (s\<lparr>arg_buf_unique := bf\<rparr>)" "R s (s\<lparr>msg_buf := bf\<rparr>)" "R s (s\<lparr>error_buf := bf\<rparr>)"
    and R_crash: "R s (crash e s)"
    and R_next: "next_addr s \<le> n \<Longrightarrow> R s (s\<lparr>next_addr := n\<rparr>)"
    and R_stop: "R s (IvyChannelStop s)"
    and R_send: "R s (snd (SocketSend c out s))" "R s (snd (SocketSendRawWithId c i b s))"
    and R_close: "R s (SocketClose c s)" "R s (SocketServerClose v s)"
begin

lemma R_fields:
  "R s (s\<lparr>allClients := v1\<rparr>)" "R s (s\<lparr>messSndByRegexp := v2\<rparr>)" "R s (s\<lparr>events := v3\<rparr>)" "R s (s\<lparr>filters := v4\<rparr>)"
  "R s (s\<lparr>arg_buf := b\<rparr>)" "R s (s\<lparr>arg_buf_unique := b\<rparr>)" "R s (s\<lparr>msg_buf := b\<rparr>)" "R s (s\<lparr>error_buf := b\<rparr>)"
  "R s (log_event e s)" "R s (upd_ivy_client a f s)" "R s (put_binding en bd s)" "R s (clean_entry P en s)"
  by (simp_all add: R_set log_event_def upd_ivy_client_def put_binding_def clean_entry_def)

lemma R_then: "R s t \<Longrightarrow> (\<And>t. R t (f t)) \<Longrightarrow> R s (f t)"
  using R_trans by blast

lemma R_fold: "(\<And>x u. R u (f x u)) \<Longrightarrow> R s (fold f xs s)"
  by (induction xs arbitrary: s) (auto intro: R_refl R_trans)

lemma R_fold_snd: "(\<And>x n u. R u (snd (f x (n, u)))) \<Longrightarrow> R s (snd (fold f xs (n, s)))"
proof (induction xs arbitrary: n s)
  case (Cons x xs)
  obtain m t where t: "f x (n, s) = (m, t)" by force
  then have "R s t" using Cons.prems [of s x n] by simp
  moreover have "R t (snd (fold f xs (m, t)))" using Cons by blast
  ultimately show ?case using t R_trans by simp
qed (simp add: R_refl)

lemma R_each: "(\<And>p t. R t (body p t)) \<Longrightarrow> R s (each_safe nodes crash body ps s)"
  by (rule each_safe_keeps [where Q = "R s"]) (blast intro: R_trans R_crash R_refl)+

subsubsection \<open>Sending\<close>

lemma R_notify: "R s (notify_send st a s)"
  using notify_send_cases [of st a s] R_refl R_fields(9) by metis

lemma R_send_to: "R s (send_to c t i m s)"
  using R_then [OF R_send(1) R_notify] by (simp add: send_to_def MsgSendTo_def split_def Let_def)

lemma R_send_match: "R u (snd (send_match buf c (n, u)))" "R u (snd (send_match_unique buf k c (n, u)))"
proof -
  have "R u (notify_send st a (snd (SocketSendRawWithId k i b u)))" for st a k i b
    by (rule R_trans [OF R_send(2) R_notify])
  then show "R u (snd (send_match buf c (n, u)))" "R u (snd (send_match_unique buf k c (n, u)))"
    by (simp_all add: send_match_def send_match_unique_def split_def Let_def R_send R_refl)
qed

lemma R_RegexpCall: "R s (snd (RegexpCall px e m s))"
proof -
  have "R s (snd (fold (send_match buf) cs (0, (put_binding e b s)\<lparr>arg_buf := buf\<rparr>)))" for buf cs b
    by (rule R_trans [OF R_trans [OF R_fields(11) R_fields(5)]]) (rule R_fold_snd, rule R_send_match(1))
  then show ?thesis
    by (auto simp: RegexpCall_def split_def Let_def R_crash R_fields R_trans [OF R_fields(11) R_crash] split: option.splits)
qed

lemma R_RegexpCallUnique: "R s (snd (RegexpCallUnique px e m k s))"
proof -
  have "R s (snd (fold (send_match_unique buf k) cs (0, (put_binding e b s)\<lparr>arg_buf_unique := buf\<rparr>)))" for buf cs b
    by (rule R_trans [OF R_trans [OF R_fields(11) R_fields(6)]]) (rule R_fold_snd, rule R_send_match(2))
  then show ?thesis
    by (auto simp: RegexpCallUnique_def split_def Let_def R_crash R_fields R_trans [OF R_fields(11) R_crash] split: option.splits)
qed

lemma R_count_calls: "(\<And>e u. R u (snd (call e u))) \<Longrightarrow> R s (snd (count_calls call es s))"
  unfolding count_calls_def by (rule R_fold_snd) (simp add: split_def)

lemma R_ClientCall: "R s (snd (ClientCall px c m s))"
  unfolding ClientCall_def by (rule R_count_calls) (rule R_RegexpCallUnique)

lemma R_IvySendMsg: "R s (snd (IvySendMsg px fmt out s))"
proof -
  have "R s (snd (count_calls (\<lambda>e. RegexpCall px e m) es (s\<lparr>msg_buf := b\<rparr>)))" for m es b
    by (rule R_trans [OF R_fields(7)]) (rule R_count_calls, rule R_RegexpCall)
  then show ?thesis by (auto simp: IvySendMsg_def split_def Let_def R_refl R_crash R_fields split: option.split)
qed

lemma R_IvySendError: "R s (IvySendError app i out s)"
  using R_trans [OF R_fields(8) R_send_to] by (auto simp: IvySendError_def R_crash split: option.split)

lemma R_check_connected: "R s (snd (CheckConnected c s))"
proof -
  have "R s (snd (check_connected c p ps s))" for p ps
    by (induction c p ps s rule: check_connected.induct) (auto simp: R_refl R_crash split: option.split)
  then show ?thesis by (simp add: CheckConnected_def Let_def R_refl)
qed

subsubsection \<open>Subscriptions and peers\<close>

lemma R_del_dict: "R s (delRegexpForOneClientFromDictionary r c s)"
  by (simp add: delRegexpForOneClientFromDictionary_def delOneIvyClientFromDictionaryEntry_def R_refl R_fields split: option.split)

lemma R_del_reg: "R s (snd (delRegexpForOneClient c i s))"
proof -
  have "R t (del_reg_body a c i g t)" for a g t
    using R_trans [OF R_del_dict R_fields(10)]
    by (auto simp: del_reg_body_def R_crash R_refl R_fields split: option.split)
  then show ?thesis by (auto simp: delRegexpForOneClient_def R_refl intro!: R_each split: option.split)
qed

lemma R_delOneClient: "R s (delOneClient k s)"
proof -
  have "R t (del_client_reg a g t)" for a g t
    by (simp add: del_client_reg_def R_crash R_del_reg split: option.split)
  then have "R t (each_safe (reg_nodes a) crash (del_client_reg a) ps t)" for a ps t by (rule R_each)
  then have "R t (del_client_body k a t)" for a t
    using R_trans [OF _ R_fields(1)] by (auto simp: del_client_body_def Let_def R_crash R_refl split: option.split)
  then have "R s (each_safe ivy_client_nodes crash (del_client_body k) ps s)" for ps by (rule R_each)
  moreover have "R t (each_safe dict_nodes crash (\<lambda>e. delOneClientFromDictionaryEntry e k) ps t)" for ps t
    by (rule R_each) (simp add: delOneClientFromDictionaryEntry_def R_fields)
  ultimately show ?thesis unfolding delOneClient_def Let_def by (rule R_trans)
qed

lemma R_send_line: "R s t \<Longrightarrow> R s (send_to c k i m t)"
  using R_trans R_send_to by blast

lemma R_new_entry: "R s (new_entry px r c s)"
proof -
  have n: "R s (s\<lparr>next_addr := Suc (next_addr s)\<rparr>)" by (rule R_next) simp
  show ?thesis using R_trans [OF n R_fields(2)] R_trans [OF R_send_line [OF n] R_fields(2)]
    by (simp add: new_entry_def Let_def split: compile_result.split)
qed

lemma R_add_dict: "R s (addRegexpToDictionary px r c s)"
proof -
  define s1 where "s1 = (case find_entry r s of None \<Rightarrow> new_entry px r c s | Some _ \<Rightarrow> s)"
  have s1: "R s s1" by (simp add: s1_def R_new_entry R_refl split: option.split)
  have "R s1 (s1\<lparr>next_addr := Suc (next_addr s1), messSndByRegexp := d\<rparr>)" for d
    by (rule R_trans [OF R_next R_fields(2)]) simp
  then show ?thesis using R_trans [OF s1] R_trans [OF s1 R_crash]
    by (simp add: addRegexpToDictionary_def s1_def [symmetric] Let_def)
qed

lemma R_log_bind: "R s (log_bind c i r ev s)"
  by (simp add: log_bind_def R_refl R_fields)

lemma R_addRegexp: "R s (addRegexp px r c s)"
proof -
  have u: "R t (log_bind c i r ev (upd_ivy_client a f (t\<lparr>next_addr := Suc (next_addr t)\<rparr>)))" for t i ev a f
    by (rule R_trans [OF R_trans [OF R_next R_fields(10)] R_log_bind]) simp
  show ?thesis using R_trans [OF R_add_dict u] R_trans [OF R_add_dict R_crash]
    by (simp add: addRegexp_def Let_def split: option.split)
qed

lemma R_changeRegexp: "R s (changeRegexp px r c s)"
proof -
  let ?s1 = "changeRegexpInDictionary px r c s"
  have s1: "R s ?s1" unfolding changeRegexpInDictionary_def by (rule R_trans [OF R_del_dict R_add_dict])
  show ?thesis using R_trans [OF s1 R_log_bind] R_trans [OF R_trans [OF s1 R_fields(10)] R_log_bind]
    by (simp add: changeRegexp_def Let_def split: option.split)
qed

lemma R_addOrChange: "R s (addOrChangeRegexp px r c s)"
  by (simp add: addOrChangeRegexp_def R_addRegexp R_changeRegexp split: option.split)

lemma R_log_when: "R s (if b then log_event e s else s)"
  by (simp add: R_refl R_fields)

lemma R_ClientDelete: "R s (ClientDelete c d s)"
  unfolding ClientDelete_def by (rule R_trans [OF R_log_when R_delOneClient])

lemma R_Cleanup: "R s (IvyCleanup s)"
proof -
  have "R t (cleanup_body a t)" for a t
    using R_trans [OF R_trans [OF R_send_to R_close(1)] R_fields(1)] R_crash
    by (simp add: cleanup_body_def Let_def split: option.split)
  then have s1: "R s (each_safe ivy_client_nodes crash cleanup_body ps s)" for ps by (rule R_each)
  have d: "R t (delAllRegexpsFromDictionary t)" for t by (simp add: delAllRegexpsFromDictionary_def R_fields)
  show ?thesis unfolding IvyCleanup_def Let_def
    by (rule R_trans [OF R_trans [OF R_trans [OF R_trans [OF s1 R_fields(1)] d] R_close(2)] R_close(1)])
qed

subsubsection \<open>Lines and connections\<close>

lemma R_recv_start: "R s (recv_start_regexp p i r s)"
proof -
  obtain other s2 where c: "CheckConnected (aclient p)
      (upd_ivy_client (aid p) (\<lambda>x. x\<lparr>app_name := Some r, app_port := nat (i mod 65536)\<rparr>) s) = (other, s2)" by force
  have s2: "R s s2" using R_trans [OF R_fields(10) R_check_connected] c by (metis snd_conv)
  have "R s (upd_ivy_client a f (SocketClose k (IvySendError t 0 m s2)))" for a f k t m
    by (rule R_trans [OF R_trans [OF R_trans [OF s2 R_IvySendError] R_close(1)] R_fields(10)])
  then show ?thesis using c s2 by (simp add: recv_start_regexp_def Let_def split: option.split)
qed

lemma R_receive_kind: "R s (receive_kind env c k p i arg s)"
proof -
  have add: "R s (recv_add_regexp env p i arg s)"
    using R_trans [OF R_fields(4) R_log_bind] R_trans [OF R_fields(4) R_addOrChange]
    by (simp add: recv_add_regexp_def Let_def split: prod.split)
  have del: "R s (recv_del_regexp p i arg s)"
    using R_trans [OF R_del_reg R_log_bind] R_del_reg by (simp add: recv_del_regexp_def split_def Let_def)
  have fin: "R s (recv_end_regexp env p s)"
    using R_fields(10) R_trans [OF R_fields(9,10)] R_trans [OF R_fields(10) R_ClientCall]
      R_trans [OF R_trans [OF R_fields(9,10)] R_ClientCall]
    by (simp add: recv_end_regexp_def Let_def split: option.split)
  have msg: "R s (recv_msg p i arg s)" by (simp add: recv_msg_def R_refl R_fields split: option.split)
  have die: "R s (recv_die p i s)"
    unfolding recv_die_def Let_def by (rule R_trans [OF R_trans [OF R_log_when R_Cleanup] R_stop])
  have pong: "R s (recv_pong p i s)"
    using R_trans [OF R_fields(10) R_fields(9)] by (simp add: recv_pong_def Let_def R_refl)
  show ?thesis using add del fin msg die pong R_recv_start
    by (simp add: receive_kind_def R_refl R_close R_fields R_send_to split: option.split MsgType.split)
qed

lemma R_Receive: "R s (Receive env c d line s)"
proof -
  have bad: "R s (recv_bad_format c p s)" for p
    unfolding recv_bad_format_def Let_def
    by (rule R_trans [OF R_trans [OF R_trans [OF R_fields(10) R_send_to] R_send_to] R_close(1)])
  show ?thesis using bad R_trans [OF R_fields(10) R_receive_kind]
    by (simp add: Receive_def R_crash R_refl split: option.split)
qed

lemma R_SendService: "R s (snd (SendService env c n s))"
proof -
  have f: "R t (fold (\<lambda>m t. send_to p AddRegexp (msg_id m) (cstring_arg (regexp m)) t) ms t)" for p t and ms :: "msg_rcv list"
    by (rule R_fold) (rule R_send_to)
  have "R s (send_to p EndRegexp 0 [] (fold (\<lambda>m t. send_to p AddRegexp (msg_id m) (cstring_arg (regexp m)) t) ms
      (send_to p StartRegexp k a (s\<lparr>next_addr := Suc (next_addr s)\<rparr>))))" for p k a and ms :: "msg_rcv list"
    by (rule R_send_line, rule R_trans [OF _ f], rule R_send_line, rule R_next) simp
  from R_trans [OF this R_fields(1)] show ?thesis by (simp add: SendService_def Let_def split: option.split)
qed

lemma R_ClientCreate: "R s (snd (ClientCreate env c s))"
proof -
  obtain already s1 where a: "CheckConnected c s = (already, s1)" by force
  have s1: "R s s1" using R_check_connected [of s c] a by simp
  show ?thesis using a R_trans [OF s1 R_close(1)] R_trans [OF s1 R_SendService]
    by (simp add: ClientCreate_def Let_def R_crash split: option.split)
qed

lemma R_tell: "R s (tell_peers k i m s)"
  unfolding tell_peers_def by (rule R_fold) (rule R_send_to)

end

text \<open>A relation that does not look at the state of the bus at all.\<close>

locale bus_frame =
  fixes R :: "'a ivy_state_scheme \<Rightarrow> 'a ivy_state_scheme \<Rightarrow> bool"
  assumes frame_bus: "sock_state.truncate t = sock_state.truncate s \<Longrightarrow> R s t"
    and frame_trans: "R s t \<Longrightarrow> R t u \<Longrightarrow> R s u"
    and frame_crash: "R s (crash e s)"
    and frame_next: "next_addr s \<le> n \<Longrightarrow> R s (s\<lparr>next_addr := n\<rparr>)"
    and frame_stop: "R s (IvyChannelStop s)"
    and frame_send: "R s (snd (SocketSend c out s))" "R s (snd (SocketSendRawWithId c i b s))"
    and frame_close: "R s (SocketClose c s)" "R s (SocketServerClose v s)"
begin

lemma R_bus_ops: "bus_ops R"
  by (unfold_locales; (rule frame_trans; assumption | rule frame_crash frame_stop frame_send frame_close | rule frame_next; assumption
    | rule frame_bus; simp add: sock_state.defs))

end

sublocale bus_frame \<subseteq> bus_ops R
  by (rule R_bus_ops)

end
