(* ===== verification/Ivy_Step.thy ===== *)
theory Ivy_Step
  imports Ivy_Reach Ivy_Frame
begin

text \<open>
  Invariants of the wiring between sockets, servers and channels: who has which channel, and which data and
  handlers a channel has. Only few operations change it: a socket or server is made with its channel, the
  application adds a channel, a channel is deleted after its handler has taken down what it stands for.
  An invariant that those keep is kept by every handler, turn of the loop and call of the API, so it
  holds in every reachable state.
\<close>

subsection \<open>The wiring\<close>

definition client_links :: "'a sock_state_scheme \<Rightarrow> (addr \<times> addr) list" where
  "client_links s = map (\<lambda>x. (cid x, cchannel x)) (clients_list s)"

definition server_links :: "'a sock_state_scheme \<Rightarrow> (addr \<times> addr) list" where
  "server_links s = map (\<lambda>v. (sid v, schannel v)) (servers_list s)"

type_synonym handlers = "sock_handler option \<times> sock_handler option \<times> sock_handler option"

definition channel_wires :: "'a sock_state_scheme \<Rightarrow> (addr \<times> addr \<times> handlers) list" where
  "channel_wires s = map (\<lambda>k. (ch k, ch_data k, handle_delete k, handle_read k, handle_write k)) (channels_list s)"

definition wiring where
  "wiring s = (client_links s, server_links s, channel_wires s)"

definition same_wiring where
  "same_wiring s t \<longleftrightarrow> wiring t = wiring s \<and> next_addr s \<le> next_addr t"

lemmas wiring_defs = wiring_def client_links_def server_links_def channel_wires_def

lemma same_wiring_trans: "same_wiring s t \<Longrightarrow> same_wiring t u \<Longrightarrow> same_wiring s u"
  by (simp add: same_wiring_def)

lemma same_wiringI:
  "clients_list t = clients_list s \<Longrightarrow> servers_list t = servers_list s \<Longrightarrow> channels_list t = channels_list s
    \<Longrightarrow> next_addr s \<le> next_addr t \<Longrightarrow> same_wiring s t"
  by (simp add: same_wiring_def wiring_defs)

lemma wiring_loop_ops [simp]:
  fixes s :: "'a sock_state_scheme"
  shows "wiring (crash e s) = wiring s" "wiring (IvyChannelRemove k s) = wiring s"
    "wiring (IvyChannelAddWritableEvent k s) = wiring s" "wiring (IvyChannelClearWritableEvent k s) = wiring s"
  by (simp_all add: wiring_defs)
    (auto simp: IvyChannelRemove_def IvyChannelAddWritableEvent_def IvyChannelClearWritableEvent_def FD_SET_wrdy_def
      raise_highest_def upd_channel_def crash_def split: option.split)

lemma next_loop_ops:
  fixes s :: "'a sock_state_scheme"
  shows "next_addr (crash e s) = next_addr s" "next_addr (IvyChannelRemove k s) = next_addr s"
    "next_addr (IvyChannelAddWritableEvent k s) = next_addr s" "next_addr (IvyChannelClearWritableEvent k s) = next_addr s"
  by (auto simp: IvyChannelRemove_def IvyChannelAddWritableEvent_def IvyChannelClearWritableEvent_def FD_SET_wrdy_def
      raise_highest_def upd_channel_def crash_def split: option.splits)

lemma wiring_upd:
  "(\<And>x. cid (f x) = cid x \<and> cchannel (f x) = cchannel x) \<Longrightarrow> wiring (upd_client c f s) = wiring s"
  by (simp add: wiring_defs) (simp add: upd_client_def)

lemma wiring_fifo_put [simp]:
  fixes s :: "'a sock_state_scheme"
  shows "wiring (fifo_put c f b s) = wiring s"
  by (simp add: fifo_put_def wiring_upd split: option.split)

lemma wiring_send_raw [simp]:
  fixes s :: "'a sock_state_scheme"
  shows "wiring (snd (BufferizedSocketSendRaw c b s)) = wiring s"
    "next_addr (snd (BufferizedSocketSendRaw c b s)) = next_addr s"
  by (auto simp: BufferizedSocketSendRaw_def Let_def wiring_upd split: option.splits prod.splits send_result.splits)

lemma wiring_send_buf [simp]: "wiring (s\<lparr>send_buf := b\<rparr>) = wiring s"
  by (simp add: wiring_defs)

interpretation wires: bus_frame same_wiring
proof
  fix s t :: "'a ivy_state_scheme"
  show "sock_state.truncate t = sock_state.truncate s \<Longrightarrow> same_wiring s t"
    by (simp add: same_wiring_def wiring_defs sock_state.defs)
next
  show "same_wiring s (snd (SocketSend c out s))" for s :: "'a ivy_state_scheme" and c out
    by (simp add: same_wiring_def SocketSend_def SocketSendRaw_def next_loop_ops split: option.split prod.split)
next
  show "same_wiring s (snd (SocketSendRawWithId c i b s))" for s :: "'a ivy_state_scheme" and c i b
    by (simp add: same_wiring_def SocketSendRawWithId_def split_def Let_def)
next
  show "same_wiring s (SocketClose c s)" "same_wiring s (SocketServerClose v s)" for s :: "'a ivy_state_scheme" and c v
    by (simp_all add: same_wiring_def SocketClose_def SocketServerClose_def with_client_def next_loop_ops split: option.split)
qed (auto simp: same_wiring_def wiring_defs IvyChannelStop_def intro: same_wiring_trans)

lemma same_wiring_settings:
  "same_wiring s (IvySetBindCallback f s)" "same_wiring s (IvySetPongCallback f s)" "same_wiring s (IvyBindDirectMsg f s)"
  "same_wiring s (IvySetFilter px argv b s)" "same_wiring s (IvyAddFilter px r b s)" "same_wiring s (IvyRemoveFilter w s)"
  "same_wiring s (IvyStop s)" "same_wiring s (IvyTerminate s)" "same_wiring s (IvyInit n rd f g b s)"
  by (rule same_wiringI; simp add: IvySetBindCallback_def IvySetPongCallback_def IvyBindDirectMsg_def IvySetFilter_def
      IvyAddFilter_def IvyRemoveFilter_def IvyStop_def IvyTerminate_def IvyInit_def SocketInit_def IvyChannelInit_def
      IvyChannelStop_def Let_def split: option.split)+

lemma same_wiring_kernel: "same_wiring s (kernel_answers ra sa aa now s)"
  by (simp add: same_wiring_def wiring_defs kernel_answers_def)

lemma same_wiring_announce:
  fixes s :: "'a ivy_state_scheme"
  shows "same_wiring s (announce_on env m s)" "same_wiring s (announce_on6 env a s)"
proof -
  have m: "same_wiring t (snd (SocketAddMember j l c h t))" "same_wiring t (snd (SocketAddMember6 j c h t))"
    for j l c h and t :: "'a ivy_state_scheme"
    by (auto simp: SocketAddMember_def SocketAddMember6_def wires.R_crash intro: same_wiringI split: option.split)
  have d: "same_wiring t (send_datagram c a b t)" for c a b and t :: "'a ivy_state_scheme"
    by (auto simp: send_datagram_def with_client_def wires.R_crash intro: same_wiringI split: option.split)
  have "same_wiring t (t\<lparr>dgram_buf := x\<rparr>)" "same_wiring t (t\<lparr>dgram6_buf := x\<rparr>)" for x and t :: "'a ivy_state_scheme"
    by (rule same_wiringI; simp)+
  then have g: "same_wiring t (send_datagram c a b (t\<lparr>dgram_buf := x\<rparr>))" "same_wiring t (send_datagram c a b (t\<lparr>dgram6_buf := x\<rparr>))"
    for x c a b and t :: "'a ivy_state_scheme"
    using same_wiring_trans [OF _ d] by blast+
  have b: "same_wiring t (SocketSendBroadcast c h p out t)" "same_wiring t (SocketSendBroadcast6 c h p out t)"
    for c h p out and t :: "'a ivy_state_scheme"
    by (auto simp: SocketSendBroadcast_def SocketSendBroadcast6_def g wires.R_refl wires.R_crash split: option.split)
  show "same_wiring s (announce_on env m s)"
    using same_wiring_trans [OF m(1) b(1)] b(1) by (simp add: announce_on_def Let_def)
  show "same_wiring s (announce_on6 env a s)"
    using same_wiring_trans [OF m(2) b(2)] b(2) by (simp add: announce_on6_def Let_def wires.R_refl)
qed

subsection \<open>Invariants of the handlers\<close>

locale handler_inv = bus_ops R for R :: "'a ivy_state_scheme \<Rightarrow> 'a ivy_state_scheme \<Rightarrow> bool" +
  fixes Inv :: "'a ivy_state_scheme \<Rightarrow> bool"
  assumes same: "Inv s \<Longrightarrow> R s t \<Longrightarrow> Inv t"
    and R_loop: "R s (IvyChannelRemove k s)" "R s (IvyChannelAddWritableEvent k s)" "R s (IvyChannelClearWritableEvent k s)"
      "R s (exit_process s)" "R s (s\<lparr>timer_st := ts\<rparr>)"
    and R_upd: "(\<And>x. cid (f x) = cid x \<and> cchannel (f x) = cchannel x) \<Longrightarrow> R s (upd_client c f s)"
    and R_answers: "R s (s\<lparr>servers_list := map (\<lambda>z. if sid z = i then z\<lparr>accept_answers := r\<rparr> else z) (servers_list s)\<rparr>)"
    and new_sock: "Inv s \<Longrightarrow> IvyChannelAdd fd (next_addr s) (Some H_DeleteSocket) (Some H_HandleSocket)
          (Some H_HandleCongestionWrite) (s\<lparr>next_addr := Suc (next_addr s)\<rparr>) = (k, u)
        \<Longrightarrow> cid x = next_addr s \<Longrightarrow> cchannel x = k \<Longrightarrow> Inv (u\<lparr>clients_list := x # clients_list u\<rparr>)"
    and run_delete: "Inv s \<Longrightarrow> Inv (sock_run_delete (bus_callbacks env) h d s)"
    and channel_delete: "Inv s \<Longrightarrow> Inv (IvyChannelDelete (sock_run_delete (bus_callbacks env)) c s)"
begin

lemma keeps:
  assumes "Inv s"
  shows "Inv (crash e s)" "Inv (IvyChannelRemove k s)" "Inv (IvyChannelAddWritableEvent k s)"
    "Inv (IvyChannelClearWritableEvent k s)" "Inv (exit_process s)" "Inv (s\<lparr>timer_st := ts\<rparr>)"
  using same [OF assms] R_crash R_loop by blast+

lemma keeps_upd_client:
  "Inv s \<Longrightarrow> (\<And>x. cid (f x) = cid x \<and> cchannel (f x) = cchannel x) \<Longrightarrow> Inv (upd_client c f s)"
  using same R_upd by blast

lemma keeps_answers:
  "Inv s \<Longrightarrow> Inv (s\<lparr>servers_list := map (\<lambda>z. if sid z = i then z\<lparr>accept_answers := r\<rparr> else z) (servers_list s)\<rparr>)"
  using same R_answers by blast

lemma keeps_SocketConnectAddr:
  assumes "Inv s"
  shows "Inv (snd (SocketConnectAddr os v6 a port d f h dc s))"
proof (cases "\<exists>fd. os_socket os = Some fd \<and> os_connect os \<and> os_setsockopt os")
  case False
  then show ?thesis using assms keeps(5) by (auto simp: SocketConnectAddr_def split: option.split)
next
  case True
  then obtain fd where fd: "os_socket os = Some fd" "os_connect os" "os_setsockopt os" by blast
  obtain chan u where u: "IvyChannelAdd fd (next_addr s) (Some H_DeleteSocket) (Some H_HandleSocket)
    (Some H_HandleCongestionWrite) (s\<lparr>next_addr := Suc (next_addr s)\<rparr>) = (chan, u)" by force
  let ?x = "(fresh_client (next_addr s) fd v6 ''init by SocketConnectAddr'')
    \<lparr>cchannel := chan, interpretation_fn := f, cdata := d, chandle_delete := h, chandle_decongestion := dc,
     local_port := (case os_getsockname os of None \<Rightarrow> 0 | Some p \<Rightarrow> htons p)\<rparr>"
  have "snd (SocketConnectAddr os v6 a port d f h dc s) = u\<lparr>clients_list := ?x # clients_list u\<rparr>"
    using fd u by (simp add: SocketConnectAddr_def Let_def)
  then show ?thesis using new_sock [OF assms u, of ?x] by (simp add: fresh_client_def)
qed

lemma keeps_SocketBroadcastCreate:
  assumes "Inv s"
  shows "Inv (snd (SocketBroadcastCreate os v6 port d f s))"
proof (cases "\<exists>fd. os_socket os = Some fd \<and> os_setsockopt os \<and> os_bind os")
  case False
  then show ?thesis using assms by (auto simp: SocketBroadcastCreate_def split: option.splits)
next
  case True
  then obtain fd where fd: "os_socket os = Some fd" "os_setsockopt os" "os_bind os" by blast
  obtain chan u where u: "IvyChannelAdd fd (next_addr s) (Some H_DeleteSocket) (Some H_HandleSocket)
    (Some H_HandleCongestionWrite) (s\<lparr>next_addr := Suc (next_addr s)\<rparr>) = (chan, u)" by force
  let ?x = "(fresh_client (next_addr s) fd v6 ''init by SocketBroadcastCreate'')
    \<lparr>cchannel := chan, interpretation_fn := f, cdata := d, dgram := True, local_port := htons port\<rparr>"
  have "snd (SocketBroadcastCreate os v6 port d f s) = u\<lparr>clients_list := ?x # clients_list u\<rparr>"
    using fd u by (simp add: SocketBroadcastCreate_def Let_def)
  then show ?thesis using new_sock [OF assms u, of ?x] by (simp add: fresh_client_def)
qed

lemma keeps_set:
  fixes s :: "'a ivy_state_scheme"
  assumes "Inv s"
  shows "Inv (SocketSetData c d s)" "Inv (SocketSetUuid c i s)"
  using assms keeps(1) [OF assms] keeps_upd_client [OF assms]
  by (simp_all add: SocketSetData_def SocketSetUuid_def with_client_def split: option.split)

lemma keeps_BroadcastReceive:
  assumes "Inv s"
  shows "Inv (BroadcastReceive env c d line s)"
proof -
  have conn: "Inv (let (app, s1) = SocketConnectAddr (be_sock env (next_addr s)) v a p NULL
        FN_Receive FN_ClientDelete FN_ClientDecongestion s
      in if app = NULL then SocketSetData app NULL s1
         else (let (clnt, s2) = SendService env app n s1 in SocketSetUuid app i (SocketSetData app clnt s2)))" for v a p n i
  proof -
    obtain app s1 where o: "SocketConnectAddr (be_sock env (next_addr s)) v a p NULL
        FN_Receive FN_ClientDelete FN_ClientDecongestion s = (app, s1)" by force
    have s1: "Inv s1" using keeps_SocketConnectAddr [OF assms] o by (metis snd_conv)
    have s2: "Inv (snd (SendService env app n s1))" using same [OF s1 R_SendService] .
    show ?thesis using o keeps_set(1) [OF s1] keeps_set(2) [OF keeps_set(1) [OF s2]] by (simp add: split_def Let_def)
  qed
  show ?thesis using assms keeps(1) [OF assms] conn
    by (simp add: BroadcastReceive_def split: option.split prod.split)
qed

lemma keeps_lines:
  "Inv s \<Longrightarrow> Inv (snd (handle_lines (bus_callbacks env) c pend s))"
proof (induction "bus_callbacks env :: 'a ivy_state_ext callbacks" c pend s rule: handle_lines.induct)
  case (1 c pend s)
  show ?case
  proof (cases "\<exists>x line rest. find_client c s = Some x \<and> split_at (terminator x) pend = Some (line, rest)")
    case False
    then show ?thesis using "1.prems" keeps(1) [OF "1.prems"]
      by (subst handle_lines.simps) (auto split: option.split)
  next
    case True
    then obtain x line rest where x: "find_client c s = Some x" "split_at (terminator x) pend = Some (line, rest)" by blast
    let ?t = "if interpretation_fn x \<noteq> NULL
      then call_interp (bus_callbacks env) (interpretation_fn x) c (cdata x) (cstr line) s else s"
    have "Inv (Receive env c (cdata x) (cstr line) s)" using same [OF "1.prems" R_Receive] .
    then have "Inv ?t"
      using "1.prems" keeps_BroadcastReceive [OF "1.prems", of env] by (simp add: bus_callbacks_def)
    then have "Inv (snd (handle_lines (bus_callbacks env) c rest ?t))"
      using "1.hyps" [OF x(1,2) refl] by simp
    then show ?thesis using x by (subst handle_lines.simps) simp
  qed
qed

lemma keeps_HandleSocket:
  assumes "Inv s"
  shows "Inv (HandleSocket (bus_callbacks env) c s)"
proof (cases "c \<noteq> NULL \<and> find_client c s \<noteq> None")
  case False
  then show ?thesis using keeps(1) [OF assms] assms by (auto simp: HandleSocket_def with_client_def)
next
  case True
  then obtain x where x: "c \<noteq> NULL" "find_client c s = Some x" by blast
  let ?n = "if buffer_size x - length (rbuf x) = 0 then buffer_size x * 2 else buffer_size x"
  obtain r fr rest where o: "os_recv (dgram x) (?n - length (rbuf x)) (recv_answers x) = (r, fr, rest)"
    using prod_cases3 by blast
  define s1 where "s1 = upd_client c (\<lambda>y. y\<lparr>buffer_size := ?n, recv_answers := rest,
    sfrom := (case fr of None \<Rightarrow> sfrom y | Some a \<Rightarrow> a),
    from_len := (case r of RecvError \<Rightarrow> 128 | RecvData b \<Rightarrow> (case fr of None \<Rightarrow> 0 | Some a \<Rightarrow> sockaddr_len a))\<rparr>) s"
  have s1: "Inv s1" unfolding s1_def by (rule keeps_upd_client [OF assms]) simp
  have lines: "Inv (upd_client c (\<lambda>y. y\<lparr>rbuf := p\<rparr>)
      (snd (handle_lines (bus_callbacks env) c q (upd_client c (\<lambda>y. y\<lparr>rbuf := rbuf y @ b\<rparr>) s1))))" for b p q
    by (intro keeps_upd_client keeps_lines s1) simp_all
  have "HandleSocket (bus_callbacks env) c s = (case r of
      RecvError \<Rightarrow> IvyChannelRemove (cchannel x) s1
    | RecvData b \<Rightarrow> if b = [] then IvyChannelRemove (cchannel x) s1
        else (let (pend, s3) = handle_lines (bus_callbacks env) c (rbuf x @ b) (upd_client c (\<lambda>y. y\<lparr>rbuf := rbuf y @ b\<rparr>) s1)
              in upd_client c (\<lambda>y. y\<lparr>rbuf := pend\<rparr>) s3))"
    unfolding HandleSocket_def with_client_def Let_def s1_def using x o by (simp cong: if_cong)
  then show ?thesis using lines keeps(2) [OF s1]
    by (simp add: split_def Let_def split: recv_result.split)
qed

lemma keeps_HandleCongestionWrite:
  assumes "Inv s"
  shows "Inv (HandleCongestionWrite (bus_callbacks env) k c s)"
proof (cases "\<exists>x f. c \<noteq> NULL \<and> find_client c s = Some x \<and> ifb x = Some f")
  case False
  then show ?thesis using keeps(1) [OF assms] assms
    by (auto simp: HandleCongestionWrite_def with_client_def split: option.split)
next
  case True
  then obtain x f where x: "c \<noteq> NULL" "find_client c s = Some x" "ifb x = Some f" by blast
  obtain rem out f' rest where o: "IvyFifoSendSocket f (send_answers x) [] = (rem, out, f', rest)" using prod_cases4 by blast
  define s1 where "s1 = upd_client c (\<lambda>y. y\<lparr>ifb := Some f', send_answers := rest, wire := wire y @ out\<rparr>) s"
  define s2 where "s2 = upd_client c (\<lambda>y. y\<lparr>ifb := None\<rparr>) (IvyChannelClearWritableEvent k s1)"
  have s1: "Inv s1" unfolding s1_def by (rule keeps_upd_client [OF assms]) simp
  have s2: "Inv s2" unfolding s2_def by (rule keeps_upd_client [OF keeps(4) [OF s1]]) simp
  have "Inv (ClientDecongestion c (cdata x) s2)" using same [OF s2 R_log_when]
    by (simp add: ClientDecongestion_def)
  then have d: "Inv (if chandle_decongestion x \<noteq> NULL
      then call_decongestion (bus_callbacks env) (chandle_decongestion x) c (cdata x) s2 else s2)"
    using s2 by (simp add: bus_callbacks_def)
  have "HandleCongestionWrite (bus_callbacks env) k c s =
      (if rem = IVY_FIFO_SEND_ERROR then SocketClose c s1
       else if rem = 0 then (if chandle_decongestion x \<noteq> NULL
         then call_decongestion (bus_callbacks env) (chandle_decongestion x) c (cdata x) s2 else s2)
       else s1)"
    unfolding HandleCongestionWrite_def with_client_def Let_def using x o by (simp add: s1_def s2_def)
  then show ?thesis using d s1 same [OF s1 R_close(1)] by simp
qed

lemma keeps_HandleServer:
  assumes "Inv s"
  shows "Inv (HandleServer (bus_callbacks env) i s)"
proof (cases "\<exists>v ns remote lport rest. find_server i s = Some v
    \<and> accept_answers v = Some (ns, remote, lport) # rest \<and> be_nodelay env ns")
  case False
  have "Inv (exit_process t)" if "Inv t" for t by (rule keeps(5) [OF that])
  then show ?thesis using False keeps(1) [OF assms] keeps_answers [OF assms] assms
    by (auto simp: HandleServer_def Let_def split: option.split list.split)
next
  case True
  then obtain v ns remote lport rest where v: "find_server i s = Some v" "accept_answers v = Some (ns, remote, lport) # rest"
    "be_nodelay env ns" by blast
  let ?s1 = "s\<lparr>servers_list := map (\<lambda>z. if sid z = i then z\<lparr>accept_answers := rest\<rparr> else z) (servers_list s)\<rparr>"
  obtain chan u where u: "IvyChannelAdd ns (next_addr ?s1) (Some H_DeleteSocket) (Some H_HandleSocket)
    (Some H_HandleCongestionWrite) (?s1\<lparr>next_addr := Suc (next_addr ?s1)\<rparr>) = (chan, u)" by force
  define x where "x = (fresh_client (next_addr s) ns (sipv6 v) ''init by HandleServer'')
    \<lparr>cchannel := chan, sfrom := remote, from_len := sockaddr_len remote, local_port := lport,
     interpretation_fn := sinterpretation v, chandle_delete := shandle_delete v,
     chandle_decongestion := shandle_decongestion v\<rparr>"
  define t where "t = u\<lparr>clients_list := x # clients_list u\<rparr>"
  have t: "Inv t" unfolding t_def
    by (rule new_sock [OF keeps_answers [OF assms] u]) (simp_all add: x_def fresh_client_def)
  have "Inv (snd (ClientCreate env (next_addr s) t))" using same [OF t R_ClientCreate] .
  then have "Inv (snd (call_create (bus_callbacks env) (screate v) (next_addr s) t))"
    using t by (simp add: bus_callbacks_def)
  then have "Inv (upd_client (next_addr s) (\<lambda>y. y\<lparr>cdata := d\<rparr>)
      (snd (call_create (bus_callbacks env) (screate v) (next_addr s) t)))" for d
    by (rule keeps_upd_client) simp
  then show ?thesis using v u by (simp add: HandleServer_def Let_def split_def x_def t_def)
qed

lemma keeps_run_io:
  assumes "Inv s"
  shows "Inv (sock_run_io (bus_callbacks env) h k fd d s)"
  using assms keeps_HandleSocket [OF assms] keeps_HandleServer [OF assms] keeps_HandleCongestionWrite [OF assms]
  by (cases h) (simp_all add: sock_run_io_def)

text \<open>The loop keeps it.\<close>

lemma loop_contract: "loop_inv (bus_loop env tcb) Inv"
  by unfold_locales (simp_all add: run_delete channel_delete keeps_run_io keeps)

lemma keeps_turn: "Inv s \<Longrightarrow> Inv (snd (loop_turn (bus_loop env tcb) ev s))"
  by (rule loop_inv.turn_inv [OF loop_contract])

lemma keeps_idle: "Inv s \<Longrightarrow> Inv (IvyIdle (bus_loop env tcb) r s)"
  by (rule loop_inv.idle_inv [OF loop_contract])

lemma keeps_deferred: "Inv s \<Longrightarrow> Inv (ChannelDefferedDelete (sock_run_delete (bus_callbacks env)) s)"
  by (rule loop_inv.deferred_inv [OF loop_contract, simplified])

end

subsection \<open>Invariants of the wiring\<close>

locale wiring_inv =
  fixes Inv :: "'a ivy_state_scheme \<Rightarrow> bool"
  assumes same_wires: "Inv s \<Longrightarrow> same_wiring s t \<Longrightarrow> Inv t"
    and make_sock: "Inv s \<Longrightarrow> IvyChannelAdd fd (next_addr s) (Some H_DeleteSocket) (Some H_HandleSocket)
          (Some H_HandleCongestionWrite) (s\<lparr>next_addr := Suc (next_addr s)\<rparr>) = (k, u)
        \<Longrightarrow> cid x = next_addr s \<Longrightarrow> cchannel x = k \<Longrightarrow> Inv (u\<lparr>clients_list := x # clients_list u\<rparr>)"
    and new_server: "Inv s \<Longrightarrow> IvyChannelAdd fd (next_addr s) (Some H_DeleteServerSocket) (Some H_HandleServer) None
          (s\<lparr>next_addr := Suc (next_addr s)\<rparr>) = (k, u)
        \<Longrightarrow> sid v = next_addr s \<Longrightarrow> schannel v = k \<Longrightarrow> Inv (u\<lparr>servers_list := v # servers_list u\<rparr>)"
    and new_channel: "Inv s \<Longrightarrow> app_handler h1 \<Longrightarrow> app_handler h2 \<Longrightarrow> app_handler h3 \<Longrightarrow> Inv (snd (IvyChannelAdd fd d h1 h2 h3 s))"
    and delete_object: "Inv s \<Longrightarrow> Inv (sock_run_delete (bus_callbacks env) h d s)"
    and delete_channel: "Inv s \<Longrightarrow> Inv (IvyChannelDelete (sock_run_delete (bus_callbacks env)) c s)"
begin

lemma handler_contract: "handler_inv same_wiring Inv"
proof (intro handler_inv.intro handler_inv_axioms.intro)
  show "bus_ops (same_wiring :: 'a ivy_state_scheme \<Rightarrow> _)" by (rule wires.bus_ops_axioms)
  fix s t :: "'a ivy_state_scheme" and f :: "client \<Rightarrow> client" and c
  show "(\<And>x. cid (f x) = cid x \<and> cchannel (f x) = cchannel x) \<Longrightarrow> same_wiring s (upd_client c f s)"
    by (simp add: same_wiring_def wiring_upd)
next
  show "same_wiring s (s\<lparr>servers_list := map (\<lambda>z. if sid z = i then z\<lparr>accept_answers := r\<rparr> else z) (servers_list s)\<rparr>)"
    for s :: "'a ivy_state_scheme" and i r
    by (simp add: same_wiring_def wiring_defs if_distrib cong: if_cong)
next
  show "Inv s \<Longrightarrow> same_wiring s t \<Longrightarrow> Inv t" for s t by (rule same_wires)
  show "same_wiring s (IvyChannelRemove k s)" "same_wiring s (IvyChannelAddWritableEvent k s)"
    "same_wiring s (IvyChannelClearWritableEvent k s)" for s :: "'a ivy_state_scheme" and k
    by (simp_all add: same_wiring_def next_loop_ops)
  show "same_wiring s (exit_process s)" "same_wiring s (s\<lparr>timer_st := ts\<rparr>)" for s :: "'a ivy_state_scheme" and ts
    by (simp_all add: same_wiring_def exit_process_def wiring_defs)
qed (rule make_sock delete_object delete_channel; assumption)+

end

sublocale wiring_inv \<subseteq> handler_inv same_wiring Inv
  by (rule handler_contract)

subsection \<open>The calls of the application\<close>

context wiring_inv
begin

lemma keeps_IvyBindMsg: "Inv s \<Longrightarrow> Inv (snd (IvyBindMsg cb u out s))"
proof -
  assume s: "Inv s"
  let ?t = "\<lambda>b x. s\<lparr>bind_buf := b, next_addr := Suc (next_addr s), recv_id := recv_id s + 1,
    msg_recv := \<lparr>rid = next_addr s, msg_id = recv_id s, regexp = Some x, mcallback = cb, muser_data = u\<rparr> # msg_recv s\<rparr>"
  have "Inv (?t b x)" for b x by (rule same [OF s same_wiringI]) simp_all
  then have "Inv (tell_peers k i m (?t b x))" for b x k i m using same wires.R_tell by blast
  then show ?thesis using keeps(1) [OF s]
    by (simp add: IvyBindMsg_def Let_def split: gen.split prod.split)
qed

lemma keeps_IvyUnbindMsg: "Inv s \<Longrightarrow> Inv (IvyUnbindMsg m s)"
proof -
  assume s: "Inv s"
  have t: "Inv (tell_peers k i x s)" for k i x using same [OF s wires.R_tell] .
  have "Inv ((tell_peers k i x s)\<lparr>msg_recv := v\<rparr>)" for k i x v
    by (rule same [OF t [of k i x]], rule same_wiringI) simp_all
  then show ?thesis using keeps(1) [OF s] by (simp add: IvyUnbindMsg_def Let_def split: option.split)
qed

lemma keeps_IvyChangeMsg: "Inv s \<Longrightarrow> Inv (IvyChangeMsg m out s)"
proof -
  assume s: "Inv s"
  have "Inv (s\<lparr>change_buf := b, msg_recv := v\<rparr>)" for b v by (rule same [OF s same_wiringI]) simp_all
  then have "Inv (tell_peers k i l (s\<lparr>change_buf := b, msg_recv := v\<rparr>))" for b v k i l
    using same wires.R_tell by blast
  then show ?thesis using keeps(1) [OF s]
    by (simp add: IvyChangeMsg_def Let_def split: gen.split prod.split option.split)
qed

lemma keeps_send_peer:
  assumes "Inv s"
  shows "Inv (IvySendDirectMsg a i m s)" "Inv (IvySendDieMsg a s)" "Inv (IvySendPing a s)"
proof -
  have t: "Inv (send_to c k i x t)" if "Inv t" for c k i x and t :: "'a ivy_state_scheme"
    using same [OF that wires.R_send_to] .
  have "Inv (upd_ivy_client a f s)" for f using same [OF assms wires.R_fields(10)] .
  then show "Inv (IvySendDirectMsg a i m s)" "Inv (IvySendDieMsg a s)" "Inv (IvySendPing a s)"
    using assms keeps(1) [OF assms] t
    by (simp_all add: IvySendDirectMsg_def IvySendDieMsg_def IvySendPing_def with_peer_def Let_def split: option.split)
qed

lemma keeps_SocketServer:
  assumes "Inv s"
  shows "Inv (snd (SocketServer os v6 port cr h dc f s))"
proof (cases "\<exists>fd p. os_socket os = Some fd \<and> os_setsockopt os \<and> os_bind os \<and> os_getsockname os = Some p \<and> os_listen os")
  case False
  then show ?thesis using keeps(5) [OF assms] by (auto simp: SocketServer_def split: option.split)
next
  case True
  then obtain fd p where os: "os_socket os = Some fd" "os_setsockopt os" "os_bind os" "os_getsockname os = Some p" "os_listen os"
    by blast
  obtain chan u where u: "IvyChannelAdd fd (next_addr s) (Some H_DeleteServerSocket) (Some H_HandleServer) None
    (s\<lparr>next_addr := Suc (next_addr s)\<rparr>) = (chan, u)" by force
  show ?thesis using os u new_server [OF assms u] by (simp add: SocketServer_def Let_def)
qed

lemma keeps_start_sockets:
  assumes "Inv s"
  shows "Inv (start_sockets env port v6 s)"
proof -
  define s1 where "s1 = s\<lparr>SupervisionPort := port, ivy_ipv6 := ivy_ipv6 s \<or> v6\<rparr>"
  obtain srv s2 where s2: "SocketServer (se_server env) (ivy_ipv6 s1) 0 FN_ClientCreate FN_ClientDelete
    FN_ClientDecongestion FN_Receive s1 = (srv, s2)" by force
  define s3 where "s3 = s2\<lparr>serv := srv, ApplicationPort := SocketServerGetPort srv s2\<rparr>"
  define s4 where "s4 = s3\<lparr>ApplicationID := GenApplicationUniqueIdentifier (se_rand env) s3\<rparr>"
  obtain b s5 where s5: "SocketBroadcastCreate (se_broadcast env) (ivy_ipv6 s4) port NULL FN_BroadcastReceive s4 = (b, s5)"
    by force
  have "Inv s1" unfolding s1_def by (rule same [OF assms same_wiringI]) simp_all
  from keeps_SocketServer [OF this] have i2: "Inv s2" using s2 by (metis snd_conv)
  have "Inv s4" unfolding s4_def s3_def by (rule same [OF i2 same_wiringI]) simp_all
  from keeps_SocketBroadcastCreate [OF this] have i5: "Inv s5" using s5 by (metis snd_conv)
  have "Inv (s5\<lparr>broadcast := b\<rparr>)" by (rule same [OF i5 same_wiringI]) simp_all
  then show ?thesis using i2 s2 s5 by (simp add: start_sockets_def s1_def s3_def s4_def Let_def)
qed

lemma keeps_IvyStart:
  assumes "Inv s"
  shows "Inv (IvyStart env bus s)"
proof -
  have a: "same_wiring t (fold (announce_on env) ms t)" for ms and t :: "'a ivy_state_scheme"
    by (rule wires.R_fold) (rule same_wiring_announce)
  have i: "Inv (start_sockets env port v s)" for port v by (rule keeps_start_sockets [OF assms])
  have "Inv (announce_on6 env x (start_sockets env port v s))" for x port v
    using same [OF i same_wiring_announce(2)] .
  moreover have f: "Inv (fold (announce_on env) ms (start_sockets env port v s))" for ms port v
    using same [OF i a] .
  ultimately show ?thesis using i assms keeps(1) [OF assms] keeps(1) [OF f] keeps(1) [OF i]
    unfolding IvyStart_def Let_def by (simp split: sum.split prod.split option.split)
qed

lemma keeps_step: "bus_step env s t \<Longrightarrow> Inv s \<Longrightarrow> Inv t"
  by (induction rule: bus_step.induct)
    (blast intro: keeps_turn keeps_idle keeps_deferred keeps(2,6) keeps_run_io new_channel
      keeps_IvyStart keeps_IvyBindMsg keeps_IvyUnbindMsg keeps_IvyChangeMsg keeps_send_peer
      same [OF _ same_wiring_kernel] same [OF _ same_wiring_settings(1)] same [OF _ same_wiring_settings(2)]
      same [OF _ same_wiring_settings(3)] same [OF _ same_wiring_settings(4)] same [OF _ same_wiring_settings(5)]
      same [OF _ same_wiring_settings(6)] same [OF _ same_wiring_settings(7)] same [OF _ same_wiring_settings(8)]
      same [OF _ same_wiring_settings(9)] same [OF _ wires.R_IvySendMsg] same [OF _ wires.R_IvySendError])+

end

end
