(* ===== verification/Ivy_Links.thy ===== *)
theory Ivy_Links
  imports Ivy_Step
begin

text \<open>
  Sockets and channels point at each other: in every reachable state the channel of a socket is in the
  table of the loop, with the socket as its data. So sending to a peer, at any moment, reads no
  freed structure.
\<close>

subsection \<open>The links\<close>

definition channel_links :: "'a sock_state_scheme \<Rightarrow> (addr \<times> addr \<times> sock_handler option) list" where
  "channel_links s = map (\<lambda>(k, d, h). (k, d, fst h)) (channel_wires s)"

definition links_ok ::
  "addr \<Rightarrow> (addr \<times> addr) list \<Rightarrow> (addr \<times> addr \<times> sock_handler option) list \<Rightarrow> bool" where
  "links_ok n X C \<longleftrightarrow> 0 < n \<and> distinct (map fst X) \<and> distinct (map fst C) \<and> (\<forall>k \<in> set (map fst C). k < n)
     \<and> (\<forall>(c, k) \<in> set X. 0 < c \<and> c < n \<and> (k, c, Some H_DeleteSocket) \<in> set C)"

definition links_inv :: "'a sock_state_scheme \<Rightarrow> bool" where
  "links_inv s \<longleftrightarrow> links_ok (next_addr s) (client_links s) (channel_links s)"

lemma fst_client_links: "fst ` set (client_links s) = cid ` set (clients_list s)"
  by (simp add: client_links_def image_image)

lemma channel_links_alt: "channel_links s = map (\<lambda>k. (ch k, ch_data k, handle_delete k)) (channels_list s)"
  by (simp add: channel_links_def channel_wires_def comp_def)

lemma same_wiring_links:
  "same_wiring s t \<Longrightarrow> client_links t = client_links s \<and> channel_links t = channel_links s \<and> next_addr s \<le> next_addr t"
  by (simp add: same_wiring_def wiring_def channel_links_def)

lemma links_ok_mono: "links_ok n X C \<Longrightarrow> n \<le> m \<Longrightarrow> links_ok m X C"
  by (fastforce simp: links_ok_def)
lemma links_same: "links_inv s \<Longrightarrow> same_wiring s t \<Longrightarrow> links_inv t"
  using same_wiring_links [of s t] by (auto simp: links_inv_def intro: links_ok_mono)

lemma wiring_links: "wiring t = wiring s \<Longrightarrow> client_links t = client_links s \<and> channel_links t = channel_links s"
  by (simp add: wiring_def channel_links_def)

lemma links_upd:
  "(\<And>x. cid (f x) = cid x \<and> cchannel (f x) = cchannel x) \<Longrightarrow> client_links (upd_client c f s) = client_links s"
  "channel_links (upd_client c f s) = channel_links s"
  using wiring_links [OF wiring_upd, of f c s] by (simp_all add: channel_links_alt)

lemma links_writes [simp]:
  fixes s :: "'a sock_state_scheme"
  shows "client_links (fifo_put c f b s) = client_links s" "channel_links (fifo_put c f b s) = channel_links s"
    "client_links (snd (BufferizedSocketSendRaw c b s)) = client_links s"
    "channel_links (snd (BufferizedSocketSendRaw c b s)) = channel_links s"
  using wiring_links [OF wiring_fifo_put, of c f b s] wiring_links [OF wiring_send_raw(1), of c b s] by simp_all

lemma links_fields [simp]:
  "client_links (s\<lparr>send_buf := b\<rparr>) = client_links s" "channel_links (s\<lparr>send_buf := b\<rparr>) = channel_links s"
  "client_links (s\<lparr>next_addr := n\<rparr>) = client_links s" "channel_links (s\<lparr>next_addr := n\<rparr>) = channel_links s"
  "client_links (s\<lparr>servers_list := v\<rparr>) = client_links s" "channel_links (s\<lparr>servers_list := v\<rparr>) = channel_links s"
  "client_links (s\<lparr>closed_fds := fs\<rparr>) = client_links s" "channel_links (s\<lparr>closed_fds := fs\<rparr>) = channel_links s"
  by (simp_all add: client_links_def channel_links_alt)

lemma links_crash [simp]:
  fixes s :: "'a sock_state_scheme"
  shows "client_links (crash e s) = client_links s" "channel_links (crash e s) = channel_links s"
  by (auto simp: client_links_def channel_links_alt crash_def)

subsection \<open>Sockets that come and go\<close>

lemma links_new_sock:
  assumes s: "links_inv s"
    and c: "IvyChannelAdd fd (next_addr s) (Some H_DeleteSocket) h2 h3 (s\<lparr>next_addr := Suc (next_addr s)\<rparr>) = (k, u)"
    and x: "cid x = next_addr s" "cchannel x = k"
  shows "links_inv (u\<lparr>clients_list := x # clients_list u\<rparr>)"
proof -
  have k: "k = Suc (next_addr s)" "next_addr u = Suc (Suc (next_addr s))"
    "channel_links u = (k, next_addr s, Some H_DeleteSocket) # channel_links s" "client_links u = client_links s"
    using c by (auto simp: IvyChannelAdd_def Let_def FD_SET_open_def raise_highest_def crash_def channel_links_alt client_links_def)
  let ?t = "u\<lparr>clients_list := x # clients_list u\<rparr>"
  have "client_links ?t = (next_addr s, k) # client_links s" "channel_links ?t = channel_links u"
    using x k(4) by (simp_all add: client_links_def channel_links_alt)
  then show ?thesis using s k by (fastforce simp: links_inv_def links_ok_def)
qed

lemma links_drop_client:
  "links_inv s \<Longrightarrow> links_inv (s\<lparr>closed_fds := fs, clients_list := filter (\<lambda>z. cid z \<noteq> c) (clients_list s)\<rparr>)"
proof -
  assume s: "links_inv s"
  let ?t = "s\<lparr>closed_fds := fs, clients_list := filter (\<lambda>z. cid z \<noteq> c) (clients_list s)\<rparr>"
  have "client_links ?t = filter (\<lambda>v. fst v \<noteq> c) (client_links s)" "channel_links ?t = channel_links s"
    by (simp_all add: client_links_def channel_links_alt filter_map comp_def)
  then show ?thesis using s by (auto simp: links_inv_def links_ok_def distinct_map_filter)
qed

text \<open>Deleting a socket: it is gone, its channel is still there.\<close>

lemma links_DeleteSocket:
  assumes s: "links_inv s"
  shows "links_inv (DeleteSocket (bus_callbacks env) c s)"
    "channel_links (DeleteSocket (bus_callbacks env) c s) = channel_links s"
    "c \<notin> fst ` set (client_links (DeleteSocket (bus_callbacks env) c s))"
proof -
  let ?t = "DeleteSocket (bus_callbacks env) c s"
  have "links_inv ?t \<and> channel_links ?t = channel_links s \<and> c \<notin> fst ` set (client_links ?t)"
  proof (cases "c = NULL \<or> find_client c s = None")
    case True
    then have "?t = crash NullDeref s \<and> c = NULL \<or> ?t = crash UseAfterFree s \<and> find_client c s = None"
      by (auto simp: DeleteSocket_def with_client_def)
    moreover have "c \<notin> fst ` set (client_links s)"
      using True s by (auto simp: links_inv_def links_ok_def client_links_def find_client_def find_None_iff)
    ultimately show ?thesis using s by (auto simp: links_inv_def)
  next
    case False
    then obtain x where x: "c \<noteq> NULL" "find_client c s = Some x" by blast
    define s1 where "s1 = (if chandle_delete x \<noteq> NULL
      then call_delete (bus_callbacks env) (chandle_delete x) c (cdata x) s else s)"
    have q: "same_wiring s s1" unfolding s1_def
      by (simp add: wires.R_ClientDelete wires.R_refl)
    then have i: "links_inv s1" using links_same s by blast
    have "c \<in> fst ` set (client_links s)"
      using x(2) by (auto simp: fst_client_links find_client_def find_Some_iff)
    then have "c \<in> cid ` set (clients_list s1)" using same_wiring_links [OF q] by (simp add: fst_client_links [symmetric])
    then obtain y where y: "find_client c s1 = Some y"
      by (cases "find_client c s1") (auto simp: find_client_def find_None_iff)
    have "?t = s1\<lparr>closed_fds := cfd y # closed_fds s1, clients_list := filter (\<lambda>z. cid z \<noteq> c) (clients_list s1)\<rparr>"
      using x y by (simp add: DeleteSocket_def with_client_def s1_def Let_def)
    then show ?thesis using links_drop_client [OF i] q
      same_wiring_links [OF q] by (auto simp: client_links_def) (simp add: channel_links_alt)
  qed
  then show "links_inv ?t" "channel_links ?t = channel_links s" "c \<notin> fst ` set (client_links ?t)" by blast+
qed

lemma links_run_delete:
  assumes "links_inv s"
  shows "links_inv (sock_run_delete (bus_callbacks env) h d s)"
    "channel_links (sock_run_delete (bus_callbacks env) h d s) = channel_links s"
    "h = H_DeleteSocket \<Longrightarrow> d \<notin> fst ` set (client_links (sock_run_delete (bus_callbacks env) h d s))"
  using assms links_DeleteSocket [OF assms]
  by (cases h; simp add: sock_run_delete_def DeleteServerSocket_def links_inv_def split: option.split)+

text \<open>A channel is deleted after its socket.\<close>

lemma links_channel_delete:
  assumes s: "links_inv s"
  shows "links_inv (IvyChannelDelete (sock_run_delete (bus_callbacks env)) c s)"
proof (cases "find_channel c s")
  case None
  then show ?thesis using s by (simp add: IvyChannelDelete_def links_inv_def)
next
  case (Some k)
  define s1 where "s1 = (case handle_delete k of None \<Rightarrow> s | Some h \<Rightarrow> sock_run_delete (bus_callbacks env) h (ch_data k) s)"
  have s1: "links_inv s1" "channel_links s1 = channel_links s"
    "handle_delete k = Some H_DeleteSocket \<Longrightarrow> ch_data k \<notin> fst ` set (client_links s1)"
    using s links_run_delete [OF s] by (simp_all add: s1_def split: option.split)
  let ?t = "s1\<lparr>open_fds := open_fds s1 - {ch_fd k}, wrdy_fds := wrdy_fds s1 - {ch_fd k},
    channels_list := filter (\<lambda>y. ch y \<noteq> c) (channels_list s1)\<rparr>"
  have e: "IvyChannelDelete (sock_run_delete (bus_callbacks env)) c s = ?t"
    using Some by (simp add: IvyChannelDelete_def s1_def Let_def)
  have t: "client_links ?t = client_links s1" "channel_links ?t = filter (\<lambda>v. fst v \<noteq> c) (channel_links s1)"
    by (simp_all add: client_links_def channel_links_alt filter_map comp_def)
  have "(c, ch_data k, handle_delete k) \<in> set (channel_links s1)"
    using find_channel_Some [OF Some] s1(2) by (force simp: channel_links_alt)
  moreover have "distinct (map fst (channel_links s1))" using s1(1) by (simp add: links_inv_def links_ok_def)
  ultimately have u: "(c, v) \<in> set (channel_links s1) \<Longrightarrow> v = (ch_data k, handle_delete k)" for v
    using eq_key_imp_eq_value by metis
  have p: "0 < next_addr s1" "distinct (map fst (client_links s1))" "distinct (map fst (channel_links s1))"
    "\<forall>k \<in> set (map fst (channel_links s1)). k < next_addr s1"
    "\<forall>(a, b) \<in> set (client_links s1). 0 < a \<and> a < next_addr s1 \<and> (b, a, Some H_DeleteSocket) \<in> set (channel_links s1)"
    using s1(1) by (simp_all add: links_inv_def links_ok_def)
  have b: "b \<noteq> c" if ab: "(a, b) \<in> set (client_links s1)" for a b
  proof
    assume "b = c"
    then have "(c, a, Some H_DeleteSocket) \<in> set (channel_links s1)" using p(5) ab by auto
    then have e: "(a, Some H_DeleteSocket) = (ch_data k, handle_delete k)" by (rule u)
    have "ch_data k \<notin> fst ` set (client_links s1)" by (rule s1(3)) (use e in simp)
    moreover have "a \<in> fst ` set (client_links s1)" using ab by (rule image_eqI [rotated]) simp
    ultimately show False using e by simp
  qed
  have "\<forall>(a, b) \<in> set (client_links s1). 0 < a \<and> a < next_addr s1
      \<and> (b, a, Some H_DeleteSocket) \<in> set (filter (\<lambda>v. fst v \<noteq> c) (channel_links s1))"
    using p(5) b by auto
  moreover have "distinct (map fst (filter (\<lambda>v. fst v \<noteq> c) (channel_links s1)))" using p(3) by (rule distinct_map_filter)
  ultimately show ?thesis unfolding e using p(1,2,4) by (simp add: links_inv_def links_ok_def t)
qed

lemma links_add_channel:
  assumes s: "links_inv s"
    and c: "IvyChannelAdd fd (next_addr s) (Some H_DeleteServerSocket) h2 h3 (s\<lparr>next_addr := Suc (next_addr s)\<rparr>) = (k, u)"
  shows "links_inv (u\<lparr>servers_list := v\<rparr>)"
proof -
  have k: "k = Suc (next_addr s)" "next_addr u = Suc (Suc (next_addr s))"
    "channel_links u = (k, next_addr s, Some H_DeleteServerSocket) # channel_links s" "client_links u = client_links s"
    using c by (auto simp: IvyChannelAdd_def Let_def FD_SET_open_def raise_highest_def crash_def channel_links_alt client_links_def)
  then show ?thesis using s by (fastforce simp: links_inv_def links_ok_def)
qed

lemma links_add_app_channel:
  assumes s: "links_inv s"
  shows "links_inv (snd (IvyChannelAdd fd d h1 h2 h3 s))"
proof -
  let ?t = "snd (IvyChannelAdd fd d h1 h2 h3 s)"
  have "next_addr ?t = Suc (next_addr s)" "channel_links ?t = (next_addr s, d, h1) # channel_links s"
    "client_links ?t = client_links s"
    by (auto simp: IvyChannelAdd_def Let_def FD_SET_open_def raise_highest_def crash_def channel_links_alt client_links_def)
  then show ?thesis using s by (fastforce simp: links_inv_def links_ok_def)
qed

interpretation links: wiring_inv links_inv
proof
  fix s t u :: "'a ivy_state_scheme" and env fd k x v h1 h2 h3 d h c
  show "links_inv s \<Longrightarrow> same_wiring s t \<Longrightarrow> links_inv t" by (rule links_same)
  show "links_inv s \<Longrightarrow> IvyChannelAdd fd (next_addr s) (Some H_DeleteSocket) (Some H_HandleSocket)
      (Some H_HandleCongestionWrite) (s\<lparr>next_addr := Suc (next_addr s)\<rparr>) = (k, u)
      \<Longrightarrow> cid x = next_addr s \<Longrightarrow> cchannel x = k \<Longrightarrow> links_inv (u\<lparr>clients_list := x # clients_list u\<rparr>)"
    by (rule links_new_sock)
  show "links_inv s \<Longrightarrow> IvyChannelAdd fd (next_addr s) (Some H_DeleteServerSocket) (Some H_HandleServer) None
      (s\<lparr>next_addr := Suc (next_addr s)\<rparr>) = (k, u) \<Longrightarrow> links_inv (u\<lparr>servers_list := v # servers_list u\<rparr>)"
    by (rule links_add_channel)
  show "links_inv s \<Longrightarrow> links_inv (snd (IvyChannelAdd fd d h1 h2 h3 s))" by (rule links_add_app_channel)
  show "links_inv s \<Longrightarrow> links_inv (sock_run_delete (bus_callbacks env) h d s)" by (rule links_run_delete(1))
  show "links_inv s \<Longrightarrow> links_inv (IvyChannelDelete (sock_run_delete (bus_callbacks env)) c s)"
    by (rule links_channel_delete)
qed

lemma links_start: "links_inv program_start"
  by (simp add: links_inv_def client_links_def channel_links_alt links_ok_def program_start_def bus_on_def no_sockets_def
      sock_state.defs ivy_state.defs)

lemma reachable_links: "reachable env s \<Longrightarrow> links_inv s"
  by (induction rule: reachable.induct) (use links_start links.keeps_step in blast)+

subsection \<open>Sending reads no freed structure\<close>

text \<open>
  What can still go wrong when a message is sent: a text that the formatting functions cannot hold, a
  descriptor beyond the sets of the loop.
\<close>

definition tame :: "'a sock_state_scheme \<Rightarrow> bool" where
  "tame s \<longleftrightarrow> fault s \<in> {None, Some Hang, Some OutOfBounds}"

definition entry_peers :: "'a ivy_state_scheme \<Rightarrow> (addr \<times> addr list) list" where
  "entry_peers s = map (\<lambda>e. (eid e, map aclient (clientList e))) (messSndByRegexp s)"

definition send_ok :: "(addr \<times> addr list) list \<Rightarrow> 'a ivy_state_scheme \<Rightarrow> bool" where
  "send_ok X s \<longleftrightarrow> links_inv s \<and> tame s \<and> entry_peers s = X
     \<and> (\<forall>v \<in> set X. set (snd v) \<subseteq> fst ` set (client_links s))"

lemma tame_crash: "tame s \<Longrightarrow> e \<in> {Hang, OutOfBounds} \<Longrightarrow> tame (crash e s)"
  by (auto simp: tame_def crash_def)

lemma links_find:
  assumes "c \<in> fst ` set (client_links s)"
  obtains x where "find_client c s = Some x" "(c, cchannel x) \<in> set (client_links s)"
proof -
  have "find_client c s \<noteq> None" using assms by (auto simp: find_client_def find_None_iff client_links_def)
  then obtain x where x: "find_client c s = Some x" by blast
  then have "(c, cchannel x) \<in> set (client_links s)"
    by (auto simp: find_client_def find_Some_iff client_links_def image_iff intro!: bexI [of _ x])
  then show ?thesis using x that by blast
qed

lemma tame_upd [simp]: "tame (upd_client c f s) = tame s"
  by (simp add: tame_def)

lemma tame_fifo_put: "tame s \<Longrightarrow> tame (fifo_put c f b s)"
  by (simp add: fifo_put_def tame_crash split: option.split)

lemma tame_writable:
  assumes "tame s" "k \<in> fst ` set (channel_links s)"
  shows "tame (IvyChannelAddWritableEvent k s)"
proof -
  have "find_channel k s \<noteq> None" using assms(2) by (auto simp: find_channel_def find_None_iff channel_links_alt)
  moreover have "tame (raise_highest fd s)" for fd using assms(1) by (simp add: raise_highest_def tame_def)
  then have "tame (FD_SET_wrdy fd (raise_highest fd s))" for fd by (simp add: FD_SET_wrdy_def tame_crash) (simp add: tame_def)
  ultimately show ?thesis by (auto simp: IvyChannelAddWritableEvent_def)
qed

lemma tame_send_raw:
  fixes s :: "'a sock_state_scheme"
  assumes s: "links_inv s" "tame s" and c: "c \<in> fst ` set (client_links s)"
  shows "tame (snd (BufferizedSocketSendRaw c b s))"
proof -
  obtain x where x: "find_client c s = Some x" "(c, cchannel x) \<in> set (client_links s)" by (rule links_find [OF c])
  have "(cchannel x, c, Some H_DeleteSocket) \<in> set (channel_links s)"
    using s(1) x(2) by (auto simp: links_inv_def links_ok_def)
  then have k: "cchannel x \<in> fst ` set (channel_links s)" by force
  have "tame (IvyChannelAddWritableEvent (cchannel x) (fifo_put c f d (upd_client c g s)))" for f d g
    by (rule tame_writable) (use k in \<open>simp_all add: tame_fifo_put s links_upd\<close>)
  then show ?thesis using x(1) s(2)
    by (auto simp: BufferizedSocketSendRaw_def Let_def tame_fifo_put split: option.split prod.split send_result.split)
qed

lemma send_ok_same:
  "send_ok X s \<Longrightarrow> same_wiring s t \<Longrightarrow> entry_peers t = entry_peers s \<Longrightarrow> tame t \<Longrightarrow> send_ok X t"
  using same_wiring_links [of s t] by (auto simp: send_ok_def intro: links_same [of s t])

lemma send_ok_match:
  assumes "send_ok X s" "aclient c \<in> fst ` set (client_links s)"
  shows "send_ok X (snd (send_match buf c (n, s)))"
proof -
  let ?a = "wire_head (msg_num Msg) (app_id c)"
  obtain t1 s1 where 1: "BufferizedSocketSendRaw (aclient c) ?a s = (t1, s1)" by force
  obtain t2 s2 where 2: "BufferizedSocketSendRaw (aclient c) (buffer_bytes buf (boffset buf)) s1 = (t2, s2)" by force
  have l: "links_inv s1" "aclient c \<in> fst ` set (client_links s1)" "tame s1"
    using assms links_writes(3,4) [of "aclient c" ?a s] wiring_send_raw(2) [of "aclient c" ?a s] tame_send_raw [of s "aclient c" ?a]
    unfolding 1 by (auto simp: send_ok_def links_inv_def)
  have t: "tame s2" using tame_send_raw [OF l(1,3,2)] 2 by (metis snd_conv)
  have e: "snd (send_match buf c (n, s)) = notify_send (if t1 = SendStateChangeToCongestion then t1 else t2) (aid c) s2"
    using 1 2 by (simp add: send_match_def SocketSendRawWithId_def Let_def split_def)
  have m: "messSndByRegexp s2 = messSndByRegexp s"
    using bus_more_fields [of s1 s] bus_more_fields [of s2 s1] more_send_raw [of "aclient c" ?a s]
      more_send_raw [of "aclient c" "buffer_bytes buf (boffset buf)" s1] 1 2 by simp
  show ?thesis
    by (rule send_ok_same [OF assms(1) wires.R_send_match(1)]) (use m t in \<open>simp_all add: e entry_peers_def tame_def\<close>)
qed
lemma send_ok_matches:
  assumes "send_ok X s" "aclient ` set cs \<subseteq> fst ` set (client_links s)"
  shows "send_ok X (snd (fold (send_match buf) cs (n, s)))"
  using assms
proof (induction cs arbitrary: n s)
  case (Cons c cs)
  obtain m t where t: "send_match buf c (n, s) = (m, t)" by force
  have "send_ok X t" using send_ok_match [of X s c buf n] Cons.prems t by simp
  moreover have "client_links t = client_links s"
    using same_wiring_links [OF wires.R_send_match(1) [of s buf c n]] t by simp
  ultimately show ?case using Cons.IH [of t m] Cons.prems(2) t by simp
qed simp

lemma send_ok_call:
  assumes s: "send_ok X s" and e: "e \<in> fst ` set X"
  shows "send_ok X (snd (RegexpCall px e m s))"
proof -
  have X: "entry_peers s = X" "tame s" using s by (simp_all add: send_ok_def)
  have "find (\<lambda>x. eid x = e) (messSndByRegexp s) \<noteq> None"
    using e X(1) by (auto simp: find_None_iff entry_peers_def)
  then obtain en where en: "find (\<lambda>x. eid x = e) (messSndByRegexp s) = Some en" by blast
  then have "(e, map aclient (clientList en)) \<in> set X"
    using X(1) by (auto simp: find_Some_iff entry_peers_def image_iff intro!: bexI [of _ en])
  then have cs: "aclient ` set (clientList en) \<subseteq> fst ` set (client_links s)" using s by (fastforce simp: send_ok_def)
  have f: "same_wiring s (put_binding e b s)" "same_wiring s ((put_binding e b s)\<lparr>arg_buf := buf\<rparr>)"
    "same_wiring s (crash Hang (put_binding e b s))" for b buf
    using wires.R_fields(11) [of s e b] same_wiring_trans [OF wires.R_fields(11) wires.R_fields(5)]
      same_wiring_trans [OF wires.R_fields(11) wires.R_crash] by blast+
  have p: "entry_peers (put_binding e b s) = entry_peers s"
    "entry_peers ((put_binding e b s)\<lparr>arg_buf := buf\<rparr>) = entry_peers s"
    "entry_peers (crash Hang (put_binding e b s)) = entry_peers s" for b buf
    by (simp_all add: entry_peers_def put_binding_def crash_def comp_def if_distrib)
  have t: "tame (put_binding e b s)" "tame ((put_binding e b s)\<lparr>arg_buf := buf\<rparr>)" for b buf
    using X(2) by (simp_all add: tame_def put_binding_def)
  note ok = send_ok_same [OF s f(1) p(1) t(1)] send_ok_same [OF s f(2) p(2) t(2)]
    send_ok_same [OF s f(3) p(3) tame_crash [OF t(1)]]
  have "send_ok X (snd (fold (send_match buf) (clientList en) (0, (put_binding e b s)\<lparr>arg_buf := buf\<rparr>)))" for b buf
    by (rule send_ok_matches [OF ok(2)]) (use cs same_wiring_links [OF f(2) [of buf b]] in simp)
  then show ?thesis using ok(1,3) en by (simp add: RegexpCall_def Let_def split: prod.split option.split)
qed

lemma send_ok_calls:
  assumes "send_ok X s" "set es \<subseteq> fst ` set X"
  shows "send_ok X (snd (fold (\<lambda>e (n, t). case RegexpCall px e m t of (k, t') \<Rightarrow> (n + k, t')) es (n, s)))"
  using assms
proof (induction es arbitrary: n s)
  case (Cons e es)
  obtain k t where t: "RegexpCall px e m s = (k, t)" by force
  have "send_ok X t" using send_ok_call [of X s e px m] Cons.prems t by simp
  then show ?case using Cons.IH [of t "n + k"] Cons.prems(2) t by simp
qed simp

lemma reachable_send_ok:
  assumes "reachable env s" "fault s = None"
  shows "send_ok (entry_peers s) s"
proof -
  have "k \<in> cid ` set (clients_list s)" if k: "(r, k, i) \<in> subs s" for r k i
    using inv_peer_socket [OF reachable_inv [OF assms(1)] inv_subscriber [OF reachable_inv [OF assms(1)] k]] by blast
  then have "aclient c \<in> fst ` set (client_links s)" if "e \<in> set (messSndByRegexp s)" "c \<in> set (clientList e)" for e c
    using that unfolding fst_client_links subs_def subs_of_def by blast
  then show ?thesis using reachable_links [OF assms(1)] assms(2) by (auto simp: send_ok_def tame_def entry_peers_def)
qed

text \<open>A peer has just connected: its socket is there, and the lines of the handshake left no fault.\<close>

definition can_send :: "addr \<Rightarrow> 'a ivy_state_scheme \<Rightarrow> bool" where
  "can_send c s \<longleftrightarrow> sock_inv s \<and> buffer_wf (send_buf s) \<and> fault s = None \<and> find_client c s \<noteq> None"

lemma sock_inv_send_buf [simp]: "sock_inv (s\<lparr>send_buf := b\<rparr>) = sock_inv s"
  by (simp add: sock_inv_def loop_wf_def channel_nodes_def client_inv_def find_channel_def)

lemma send_buf_raw: "send_buf (snd (BufferizedSocketSendRaw c b s)) = send_buf s"
proof -
  have "send_buf (IvyChannelAddWritableEvent k t) = send_buf t" for k and t :: "'a sock_state_scheme"
    by (auto simp: IvyChannelAddWritableEvent_def FD_SET_wrdy_def raise_highest_def crash_def split: option.split)
  then show ?thesis
    by (auto simp: BufferizedSocketSendRaw_def Let_def fifo_put_def crash_def upd_client_def
        split: option.splits prod.splits send_result.splits)
qed

lemma can_send_to:
  assumes "can_send (aclient c) s" "length (wire_line t i m) < MSG_MAX"
  shows "can_send (aclient c) (send_to c t i m s)"
proof -
  let ?a = "aclient c" and ?l = "wire_line t i m"
  obtain b where b: "SocketSend ?a ?l s = SocketSendRaw ?a ?l (s\<lparr>send_buf := b\<rparr>)" "buffer_wf b"
    using SocketSend_spec [of s ?a ?l] assms(1) by (auto simp: can_send_def)
  obtain st s1 where r: "BufferizedSocketSendRaw ?a ?l (s\<lparr>send_buf := b\<rparr>) = (st, s1)" by force
  obtain x where x: "find_client ?a s = Some x" using assms(1) by (auto simp: can_send_def)
  have x1: "find_client ?a (s\<lparr>send_buf := b\<rparr>) = Some x" using x by (simp add: find_client_def)
  have n: "?a \<noteq> NULL" using sock_inv_find [of s ?a x] x assms(1) by (auto simp: can_send_def)
  have i: "sock_inv (s\<lparr>send_buf := b\<rparr>)" using assms(1) by (simp add: can_send_def)
  from send_raw_inv [OF i x1 assms(2) r] send_buf_raw [of ?a ?l "s\<lparr>send_buf := b\<rparr>"]
  have s1: "can_send ?a s1" using assms(1) b(2) r by (auto simp: can_send_def)
  have "send_to c t i m s = notify_send st (aid c) s1" using b(1) r n by (simp add: send_to_def MsgSendTo_def SocketSendRaw_def)
  moreover have "send_buf (notify_send st (aid c) s1) = send_buf s1"
    by (simp add: notify_send_def log_event_def split: SendState.split)
  ultimately show ?thesis using s1 by (simp add: can_send_def)
qed

lemma started_bus_sockets:
  "channels_list started_bus = [\<lparr>ch = 2, ch_fd = 3, ch_data = 1, tobedeleted = False, handle_delete = Some H_DeleteServerSocket,
     handle_read = Some H_HandleServer, handle_write = None\<rparr>]"
  "clients_list started_bus = []" "next_addr started_bus = 3" "fault started_bus = None" "open_fds started_bus = {3}"
  "wrdy_fds started_bus = {}" "highestFd started_bus = 4" "send_buf started_bus = init_buffer" "msg_recv started_bus = []"
  "ApplicationPort started_bus = 40000" "ApplicationName started_bus = None" "ready_message started_bus = None"
  by (simp_all add: started_bus_def kernel_answers_def find_server_def IvyStart_def bus_name_def bus_port_def last_colon_def
      quiet_start_def start_sockets_def SocketServer_def SocketBroadcastCreate_def announce_on6_def IvyChannelAdd_def
      Let_def FD_SET_open_def raise_highest_def crash_def program_start_def no_sockets_def bus_on_def sock_state.defs ivy_state.defs
      FD_SETSIZE_def SocketServerGetPort_def)
lemma can_send_fields:
  assumes "can_send c s"
  shows "can_send c (s\<lparr>next_addr := Suc (next_addr s)\<rparr>)" "can_send c (s\<lparr>allClients := v\<rparr>)"
    "can_send c (upd_client c (\<lambda>y. y\<lparr>cdata := d\<rparr>) s)"
  using assms by (fastforce simp: can_send_def sock_inv_def loop_wf_def channel_nodes_def client_inv_def client_ok_def
      find_channel_def find_client_def upd_client_def find_map_upd comp_def if_distrib cong: if_cong)+

lemma can_send_service:
  assumes "can_send c s" "msg_recv s = []" "ready_message s = None" "length (dec_int (int (ApplicationPort s))) < 100"
    "ApplicationName s = None"
  shows "can_send c (snd (SendService env c n s))"
    "map aclient (allClients (snd (SendService env c n s))) = c # map aclient (allClients s)"
proof -
  let ?c = "\<lparr>aid = next_addr s, aclient = c, app_name = Some n, app_port = 0, app_id = 0, srcRegList = [],
    readyToSend = 0, ignore_subsequent_msg = False, ping_ts = (0, 0), ping_id = 0\<rparr>"
  define s1 where "s1 = send_to ?c StartRegexp (int (ApplicationPort s)) ''(null)'' (s\<lparr>next_addr := Suc (next_addr s)\<rparr>)"
  define s3 where "s3 = send_to ?c EndRegexp 0 [] s1"
  have "can_send (aclient ?c) (s\<lparr>next_addr := Suc (next_addr s)\<rparr>)"
    using can_send_fields(1) [OF assms(1)] by simp
  then have s1: "can_send (aclient ?c) s1" unfolding s1_def
    by (rule can_send_to) (use assms(4) in \<open>simp add: wire_line_def wire_head_def MSG_MAX_def dec_int_def dec_nat.simps [of 6]\<close>)
  have s3: "can_send c s3" unfolding s3_def
    using can_send_to [OF s1, of EndRegexp 0 "[]"]
    by (simp add: wire_line_def wire_head_def MSG_MAX_def dec_int_def dec_nat.simps [of 5] dec_nat.simps [of 0])
  have v: "msg_recv s1 = []" "ready_message s3 = None" "allClients s3 = allClients s"
    using assms(2,3) bus_view_simps [OF send_to_view [of ?c StartRegexp "int (ApplicationPort s)" "''(null)''"
      "s\<lparr>next_addr := Suc (next_addr s)\<rparr>"]] bus_view_simps [OF send_to_view [of ?c EndRegexp 0 "[]" s1]]
    by (simp_all add: s1_def s3_def)
  show "can_send c (snd (SendService env c n s))"
    "map aclient (allClients (snd (SendService env c n s))) = c # map aclient (allClients s)"
    using v assms(2,5) can_send_fields(2) [OF s3]
    by (simp_all add: SendService_def Let_def s1_def [symmetric] s3_def [symmetric] cstring_arg_def)
qed

lemma connected_bus_can_send: "\<exists>p. allClients connected_bus = [p] \<and> can_send (aclient p) connected_bus"
proof -
  have r: "reachable some_env started_bus" unfolding started_bus_def
    by (rule reach_step [OF reach_step [OF reach_start begin_bus] kernel])
  obtain v where v: "find_server 1 started_bus = Some v" "screate v = FN_ClientCreate"
    "accept_answers v = [Some (7, \<lparr>is_ipv6 = True, ip_addr = 1, net_port = 5000\<rparr>, 0)]"
    using started_bus_server(2) by blast
  define x where "x = (fresh_client 3 7 (sipv6 v) ''init by HandleServer'')
    \<lparr>cchannel := 4, sfrom := \<lparr>is_ipv6 = True, ip_addr = 1, net_port = 5000\<rparr>, from_len := 28, local_port := 0,
     interpretation_fn := sinterpretation v, chandle_delete := shandle_delete v, chandle_decongestion := shandle_decongestion v\<rparr>"
  define k where "k = \<lparr>ch = 4, ch_fd = 7, ch_data = 3, tobedeleted = False, handle_delete = Some H_DeleteSocket,
    handle_read = Some H_HandleSocket, handle_write = Some H_HandleCongestionWrite\<rparr>"
  define t where "t = started_bus\<lparr>servers_list := map (\<lambda>z. if sid z = 1 then z\<lparr>accept_answers := []\<rparr> else z) (servers_list started_bus),
    next_addr := 5, highestFd := 8, channels_list := k # channels_list started_bus, open_fds := insert 7 (open_fds started_bus),
    clients_list := [x]\<rparr>"
  have h: "connected_bus = (let (d, u) = ClientCreate some_env 3 t in upd_client 3 (\<lambda>y. y\<lparr>cdata := d\<rparr>) u)"
    using v by (simp add: connected_bus_def HandleServer_def some_env_nodelay sockaddr_len_def Let_def IvyChannelAdd_def started_bus_sockets
        FD_SET_open_def raise_highest_def FD_SETSIZE_def t_def x_def k_def)
  have "can_send 3 t"
    by (simp add: can_send_def t_def sock_inv_def loop_wf_def channel_nodes_def client_inv_def client_ok_def find_channel_def
        find_client_def started_bus_sockets x_def k_def fresh_client_def FD_SETSIZE_def buffer_wf_def init_buffer_def)
  then have ss: "can_send 3 (snd (SendService some_env 3 n t))"
    "map aclient (allClients (snd (SendService some_env 3 n t))) = [3]" for n
    using can_send_service [of 3 t some_env n] started_bus_server(1)
    by (simp_all add: t_def started_bus_sockets dec_int_def dec_nat.simps [of 40000] dec_nat.simps [of 4000]
        dec_nat.simps [of 400] dec_nat.simps [of 40] dec_nat.simps [of 4])
  have "find_client 3 t = Some x" "allClients t = []" "from_len x = 28"
    using started_bus_server(1) by (simp_all add: t_def x_def fresh_client_def find_client_def)
  then have "ClientCreate some_env 3 t = SendService some_env 3 (take 63 ('' '' @ ''unknown'' @ '':'' @ dec_nat 0)) t"
    by (simp add: ClientCreate_def Let_def SocketGetRemoteHost_def CheckConnected_def some_env_def)
  then obtain n where "ClientCreate some_env 3 t = SendService some_env 3 n t" by blast
  then have e: "connected_bus = upd_client 3 (\<lambda>y. y\<lparr>cdata := fst (SendService some_env 3 n t)\<rparr>) (snd (SendService some_env 3 n t))"
    by (simp add: h split_def Let_def)
  have "can_send 3 connected_bus" unfolding e by (rule can_send_fields(3) [OF ss(1)])
  moreover have "map aclient (allClients connected_bus) = [3]" unfolding e using ss(2) [of n] by (simp add: upd_client_def)
  ultimately show ?thesis by (auto simp: map_eq_Cons_conv)
qed

text \<open>
  (C11) Sending a message is safe at every moment. In every reachable state without a fault, whatever the
  format, the regular expressions and the answers of the kernel, \<^verbatim>\<open>IvySendMsg\<close> reads no structure that
  was freed and follows no null pointer: every subscriber has its socket, and every socket has its
  channel in the table of the loop. A text too long for the buffers and a descriptor beyond
  \<^verbatim>\<open>FD_SETSIZE\<close> stay the only dangers.
\<close>

theorem reachable_send_safe:
  assumes "reachable env s" "fault s = None"
  shows "fault (snd (IvySendMsg px fmt out s)) \<in> {None, Some Hang, Some OutOfBounds}"
proof -
  note s = reachable_send_ok [OF assms]
  have b: "send_ok (entry_peers s) (s\<lparr>msg_buf := b\<rparr>)" for b
    by (rule send_ok_same [OF s wires.R_fields(7)]) (use assms(2) in \<open>simp_all add: entry_peers_def tame_def\<close>)
  have d: "set (dict_nodes (s\<lparr>msg_buf := b\<rparr>)) \<subseteq> fst ` set (entry_peers s)" for b
    by (auto simp: dict_nodes_def entry_peers_def image_image)
  have "send_ok (entry_peers s) (snd (count_calls (\<lambda>e. RegexpCall px e m) (dict_nodes (s\<lparr>msg_buf := b\<rparr>)) (s\<lparr>msg_buf := b\<rparr>)))" for m b
    unfolding count_calls_def by (rule send_ok_calls [OF b d])
  then have "tame (snd (IvySendMsg px fmt out s))" using s b
    by (auto simp: IvySendMsg_def Let_def tame_crash send_ok_def split: option.split prod.split)
  then show ?thesis by (simp add: tame_def)
qed

theorem reachable_send_safe_witness:
  "\<exists>p. allClients connected_bus = [p]
    \<and> fault (snd (IvySendMsg pcre_all (Some ''%s'') ''hello'' connected_bus)) \<in> {None, Some Hang, Some OutOfBounds}"
proof -
  obtain p where p: "allClients connected_bus = [p]" "fault connected_bus = None"
    using connected_bus_can_send by (auto simp: can_send_def)
  then show ?thesis using reachable_send_safe [OF connected_bus_reachable p(2)] by blast
qed

end
