(* ===== verification/Ivy_Typed.thy ===== *)
theory Ivy_Typed
  imports Ivy_Links
begin

text \<open>
  The types behind the untyped pointers. A channel has the data and the handlers it was made with, all
  \<^verbatim>\<open>void *\<close>: a socket, a server, or whatever the application gave. In every reachable state the handlers of
  a channel belong together, and its data is its own object or one that has been freed, never another
  object: addresses are not used again. It can have been freed, because \<^verbatim>\<open>IvyChannelHandleExcpt\<close> runs
  the delete handler and leaves the channel in the list. The invariant only gets weaker when objects go,
  so it is shown for all states with fewer of them at once.
\<close>

subsection \<open>Well-typed channels\<close>















subsection \<open>Objects that go\<close>








subsection \<open>Objects that come\<close>


lemma wires_next_addr [simp]:
  "client_links (s\<lparr>next_addr := n\<rparr>) = client_links s" "server_links (s\<lparr>next_addr := n\<rparr>) = server_links s"
  "channel_wires (s\<lparr>next_addr := n\<rparr>) = channel_wires s"
  by (simp_all add: wiring_defs)







subsection \<open>The pointers have their types\<close>




end
