(* ===== verification/Ivy_Own.thy ===== *)
theory Ivy_Own
  imports Ivy_Step
begin

text \<open>
  The subscriptions of the application itself, the list \<^verbatim>\<open>msg_recv\<close>: only the calls \<^verbatim>\<open>IvyBindMsg\<close>, \<^verbatim>\<open>IvyChangeMsg\<close>
  and \<^verbatim>\<open>IvyUnbindMsg\<close> change it. The handlers and the loop, so whatever the peers send, leave it as it is.
\<close>

definition same_rcvs :: "'a ivy_state_scheme \<Rightarrow> 'a ivy_state_scheme \<Rightarrow> bool" where
  "same_rcvs s t \<longleftrightarrow> msg_recv t = msg_recv s"

lemma rcvs_layers [simp]:
  fixes s :: "'a ivy_state_scheme"
  shows "msg_recv (crash e s) = msg_recv s" "msg_recv (IvyChannelRemove k s) = msg_recv s"
    "msg_recv (IvyChannelAddWritableEvent k s) = msg_recv s" "msg_recv (IvyChannelClearWritableEvent k s) = msg_recv s"
    "msg_recv (upd_client c f s) = msg_recv s" "msg_recv (exit_process s) = msg_recv s"
    "msg_recv (snd (IvyChannelAdd fd d h1 h2 h3 s)) = msg_recv s"
  by (auto simp: crash_def IvyChannelRemove_def IvyChannelAddWritableEvent_def IvyChannelClearWritableEvent_def FD_SET_wrdy_def
      FD_SET_open_def IvyChannelAdd_def Let_def raise_highest_def upd_channel_def upd_client_def exit_process_def
      split: option.split)

lemma rcvs_sends [simp]:
  fixes s :: "'a ivy_state_scheme"
  shows "msg_recv (snd (BufferizedSocketSendRaw c b s)) = msg_recv s" "msg_recv (snd (SocketSend c out s)) = msg_recv s"
    "msg_recv (snd (SocketSendRawWithId c i b s)) = msg_recv s"
    "msg_recv (SocketClose c s) = msg_recv s" "msg_recv (SocketServerClose v s) = msg_recv s"
proof -
  have f: "msg_recv (fifo_put c f b s) = msg_recv s" for c f b and s :: "'a ivy_state_scheme"
    by (simp add: fifo_put_def split: option.split)
  have b: "msg_recv (snd (BufferizedSocketSendRaw c b s)) = msg_recv s" for c b and s :: "'a ivy_state_scheme"
    by (auto simp: BufferizedSocketSendRaw_def Let_def f split: option.split prod.split send_result.split)
  show "msg_recv (snd (BufferizedSocketSendRaw c b s)) = msg_recv s" by (rule b)
  show "msg_recv (snd (SocketSend c out s)) = msg_recv s"
    by (simp add: SocketSend_def SocketSendRaw_def b split: option.split prod.split)
  show "msg_recv (snd (SocketSendRawWithId c i b s)) = msg_recv s"
    using b by (simp add: SocketSendRawWithId_def split_def Let_def)
  show "msg_recv (SocketClose c s) = msg_recv s" "msg_recv (SocketServerClose v s) = msg_recv s"
    by (simp_all add: SocketClose_def SocketServerClose_def with_client_def split: option.split)
qed

interpretation own_ops: bus_ops same_rcvs
  by unfold_locales (simp_all add: same_rcvs_def IvyChannelStop_def)

lemma rcvs_run_delete [simp]:
  fixes s :: "'a ivy_state_scheme"
  shows "msg_recv (sock_run_delete (bus_callbacks env) h d s) = msg_recv s"
proof -
  have "msg_recv (ClientDelete c d s) = msg_recv s" for c d and s :: "'a ivy_state_scheme"
    using own_ops.R_ClientDelete [of s] by (simp add: same_rcvs_def)
  then have "msg_recv (DeleteSocket (bus_callbacks env) d s) = msg_recv s"
    by (simp add: DeleteSocket_def with_client_def Let_def split: option.split)
  moreover have "msg_recv (DeleteServerSocket d s) = msg_recv s"
    by (simp add: DeleteServerSocket_def split: option.split)
  ultimately show ?thesis by (cases h) (simp_all add: sock_run_delete_def)
qed

interpretation own: handler_inv same_rcvs "\<lambda>s. msg_recv s = M" for M
proof
  fix s t u :: "'a ivy_state_scheme" and fd k x
  assume "msg_recv s = M" "IvyChannelAdd fd (next_addr s) (Some H_DeleteSocket) (Some H_HandleSocket)
    (Some H_HandleCongestionWrite) (s\<lparr>next_addr := Suc (next_addr s)\<rparr>) = (k, u)"
  then have "msg_recv u = M" using rcvs_layers(7) [of fd "next_addr s" "Some H_DeleteSocket" "Some H_HandleSocket"
    "Some H_HandleCongestionWrite" "s\<lparr>next_addr := Suc (next_addr s)\<rparr>"] by simp
  then show "msg_recv (u\<lparr>clients_list := x # clients_list u\<rparr>) = M" by simp
qed (simp_all add: same_rcvs_def IvyChannelDelete_def Let_def split: option.split)

subsection \<open>Steps without a call\<close>

text \<open>The steps a program takes when it calls nothing: the loop and its handlers, and the kernel.\<close>

inductive loop_step :: "bus_env \<Rightarrow> 'a ivy_state_scheme \<Rightarrow> 'a ivy_state_scheme \<Rightarrow> bool" for env where
  ls_turn: "loop_step env s (snd (loop_turn (bus_loop env tcb) ev s))"
| ls_io: "loop_step env s (sock_run_io (bus_callbacks env) h k fd d s)"
| ls_delete: "loop_step env s (ChannelDefferedDelete (sock_run_delete (bus_callbacks env)) s)"
| ls_idle: "loop_step env s (IvyIdle (bus_loop env tcb) r s)"
| ls_timers: "loop_step env s (s\<lparr>timer_st := ts\<rparr>)"
| ls_kernel: "loop_step env s (kernel_answers ra sa aa now s)"

lemma loop_step_bus: "loop_step env s t \<Longrightarrow> bus_step env s t"
  by (induction rule: loop_step.induct) (rule bus_step.intros)+

lemma loop_keeps_rcvs: "loop_step env s t \<Longrightarrow> msg_recv t = msg_recv s"
proof (induction rule: loop_step.induct)
  case (ls_kernel ra sa aa now s)
  show ?case by (simp add: kernel_answers_def)
qed (simp_all add: own.keeps_turn own.keeps_run_io own.keeps_deferred own.keeps_idle)

subsection \<open>The calls of the API\<close>

lemma rcvs_IvyStart [simp]:
  fixes s :: "'a ivy_state_scheme"
  shows "msg_recv (IvyStart env bus s) = msg_recv s"
proof -
  have c: "msg_recv u = msg_recv s" if "IvyChannelAdd fd d h1 h2 h3 s = (k, u)" for fd d h1 h2 h3 k u and s :: "'a ivy_state_scheme"
    using rcvs_layers(7) [of fd d h1 h2 h3 s] that by simp
  have "msg_recv (snd (SocketServer os v6 port cr h dc f s)) = msg_recv s" for os v6 port cr h dc f and s :: "'a ivy_state_scheme"
    by (auto simp: SocketServer_def exit_process_def Let_def dest!: c split: option.split prod.split)
  moreover have "msg_recv (snd (SocketBroadcastCreate os v6 port d f s)) = msg_recv s" for os v6 port d f and s :: "'a ivy_state_scheme"
    by (auto simp: SocketBroadcastCreate_def Let_def dest!: c split: option.split prod.split)
  ultimately have st: "msg_recv (start_sockets env port v6 s) = msg_recv s" for port v6 and s :: "'a ivy_state_scheme"
    by (auto simp: start_sockets_def Let_def split_def)
  have m: "msg_recv (snd (SocketAddMember j l c h t)) = msg_recv t" "msg_recv (snd (SocketAddMember6 j c h t)) = msg_recv t"
    for j l c h and t :: "'a ivy_state_scheme"
    by (auto simp: SocketAddMember_def SocketAddMember6_def split: option.split)
  have "msg_recv (SocketSendBroadcast c h p out t) = msg_recv t" "msg_recv (SocketSendBroadcast6 c h p out t) = msg_recv t"
    for c h p out and t :: "'a ivy_state_scheme"
    by (auto simp: SocketSendBroadcast_def SocketSendBroadcast6_def send_datagram_def with_client_def split: option.split)
  then have a: "msg_recv (announce_on env n t) = msg_recv t" "msg_recv (announce_on6 env x t) = msg_recv t" for n x and t :: "'a ivy_state_scheme"
    using m by (auto simp: announce_on_def announce_on6_def Let_def)
  have "msg_recv (fold (announce_on env) ms t) = msg_recv t" for ms and t :: "'a ivy_state_scheme"
    by (induction ms arbitrary: t) (simp_all add: a)
  then show ?thesis unfolding IvyStart_def Let_def using st a by (simp split: sum.split prod.split option.split)
qed

lemma rcvs_calls [simp]:
  fixes s :: "'a ivy_state_scheme"
  shows "msg_recv (snd (IvySendMsg px fmt out s)) = msg_recv s" "msg_recv (IvySendDirectMsg app i m s) = msg_recv s"
    "msg_recv (IvyInit n rd f g b s) = msg_recv s" "msg_recv (IvyBindDirectMsg f s) = msg_recv s"
    "msg_recv (tell_peers k i m s) = msg_recv s"
proof -
  have t: "msg_recv (send_to c k i m s) = msg_recv s" for c k i m
    using own_ops.R_send_to [of s] by (simp add: same_rcvs_def)
  show "msg_recv (snd (IvySendMsg px fmt out s)) = msg_recv s"
    using own_ops.R_IvySendMsg [of s] by (simp add: same_rcvs_def)
  show "msg_recv (tell_peers k i m s) = msg_recv s"
    using own_ops.R_tell [of s] by (simp add: same_rcvs_def)
  show "msg_recv (IvySendDirectMsg app i m s) = msg_recv s"
    using t by (simp add: IvySendDirectMsg_def with_peer_def split: option.split)
qed (auto simp: IvyInit_def SocketInit_def IvyChannelInit_def IvyBindDirectMsg_def Let_def split: option.split)

lemma rcvs_bind:
  fixes s :: "'a ivy_state_scheme"
  assumes "IvyBindMsg cb u out s = (m, t)"
  shows "(m = next_addr s \<and> (\<exists>x. msg_recv t = \<lparr>rid = m, msg_id = recv_id s, regexp = Some x, mcallback = cb, muser_data = u\<rparr> # msg_recv s))
    \<or> fault t \<noteq> None"
proof -
  have "\<exists>y. fault (crash e s) = Some y" for e by (cases "fault s") (simp_all add: crash_def)
  then show ?thesis using assms by (auto simp: IvyBindMsg_def Let_def split: gen.splits prod.splits)
qed

lemma rcvs_unbind:
  fixes s :: "'a ivy_state_scheme"
  assumes "m \<in> rid ` set (msg_recv s)"
  shows "msg_recv (IvyUnbindMsg m s) = filter (\<lambda>x. rid x \<noteq> m) (msg_recv s)"
proof -
  obtain r where "find_rcv m s = Some r"
    using assms by (cases "find_rcv m s") (auto simp: find_rcv_def find_None_iff)
  then show ?thesis by (simp add: IvyUnbindMsg_def Let_def)
qed
subsection \<open>Subscriptions without peers\<close>

text \<open>A text without an interval is the one of the subscription, whatever the buffer held before.\<close>

lemma bind_text_wf:
  assumes "buffer_wf b" "NUL \<notin> set out" "find_itv out = None"
  shows "\<exists>b'. bind_text b out = Gen (out, b') \<and> buffer_wf b'"
proof -
  have "buffer_wf (b\<lparr>boffset := 0\<rparr>)" using assms(1) by (auto simp: buffer_wf_def split: option.splits)
  from make_message_c99 [OF this, of "\<lambda>_. True" out] obtain b' block where
    f: "format_static (b\<lparr>boffset := 0\<rparr>) out = Some (int (length out), b')" "buffer_wf b'" "bdata b' = Some block"
    and t: "buffer_text b' = out" "block ! length (buffer_text b') = NUL"
    by (auto simp: format_static_def buffer_text_def split: option.splits if_splits)
  have "length out < length block" "take (length out) block = out"
    using f(2,3) t(1) by (auto simp: buffer_wf_def buffer_text_def)
  then have "block = out @ NUL # drop (Suc (length out)) block"
    using t id_take_nth_drop [of "length out" block] by simp
  then have "cstr block = out" using assms(2) by (metis cstr_append_NUL)
  then show ?thesis using f assms(3) by (simp add: bind_text_def substituteInterval_def)
qed

lemma bind_wf:
  fixes s :: "'a ivy_state_scheme"
  assumes "buffer_wf (bind_buf s)" "allClients s = []" "NUL \<notin> set out" "find_itv out = None"
  shows "\<exists>b. buffer_wf b \<and> IvyBindMsg cb u out s = (next_addr s, s\<lparr>bind_buf := b, next_addr := Suc (next_addr s), recv_id := recv_id s + 1,
    msg_recv := \<lparr>rid = next_addr s, msg_id = recv_id s, regexp = Some out, mcallback = cb, muser_data = u\<rparr> # msg_recv s\<rparr>)"
proof -
  obtain b where "bind_text (bind_buf s) out = Gen (out, b)" "buffer_wf b" using bind_text_wf [OF assms(1,3,4)] by blast
  then show ?thesis using assms(2) by (auto simp: IvyBindMsg_def Let_def tell_peers_def)
qed

lemma change_wf:
  fixes s :: "'a ivy_state_scheme"
  assumes "buffer_wf (change_buf s)" "allClients s = []" "NUL \<notin> set out" "find_itv out = None" "m \<in> rid ` set (msg_recv s)"
  shows "\<exists>b. buffer_wf b \<and> IvyChangeMsg m out s = s\<lparr>change_buf := b,
    msg_recv := map (\<lambda>x. if rid x = m then x\<lparr>regexp := Some out\<rparr> else x) (msg_recv s)\<rparr>"
proof -
  obtain b where "bind_text (change_buf s) out = Gen (out, b)" "buffer_wf b" using bind_text_wf [OF assms(1,3,4)] by blast
  moreover obtain r where "find_rcv m s = Some r"
    using assms(5) by (cases "find_rcv m s") (auto simp: find_rcv_def find_None_iff)
  ultimately show ?thesis using assms(2) by (auto simp: IvyChangeMsg_def Let_def tell_peers_def)
qed

lemma unbind_wf:
  fixes s :: "'a ivy_state_scheme"
  assumes "allClients s = []" "m \<in> rid ` set (msg_recv s)"
  shows "IvyUnbindMsg m s = s\<lparr>msg_recv := filter (\<lambda>x. rid x \<noteq> m) (msg_recv s)\<rparr>"
proof -
  obtain r where "find_rcv m s = Some r"
    using assms(2) by (cases "find_rcv m s") (auto simp: find_rcv_def find_None_iff)
  then show ?thesis using assms(1) by (simp add: IvyUnbindMsg_def Let_def tell_peers_def)
qed

end
