(* ===== verification/Ivy_Hash.thy ===== *)
theory Ivy_Hash
  imports Ivy_Dict "HOL-Library.Word"
begin

text \<open>
  The hash table of \<^verbatim>\<open>src/uthash.h\<close>, over an explicit store. An element carries a handle whose fields chain
  it twice: in the order of insertion (\<^verbatim>\<open>prev\<close>, \<^verbatim>\<open>next\<close>, here \<open>hprev\<close>, \<open>hnext\<close>) and in its bucket (\<^verbatim>\<open>hh_prev\<close>,
  \<^verbatim>\<open>hh_next\<close>). The address of an element stands for that of its handle, the offset \<^verbatim>\<open>hho\<close> is fixed. Every
  macro is a definition on the store. The theorems say that the table is the list of its elements in the order of
  insertion, as which \<open>Ivy_State\<close> has the dictionary of subscriptions.
\<close>

unbundle bit_operations_syntax

type_synonym uw = "32 word"

subsection \<open>Hash functions\<close>

text \<open>A \<^verbatim>\<open>char\<close> in unsigned arithmetic: it is signed, so the sign is extended.\<close>

definition key_char :: "char \<Rightarrow> uw" where
  "key_char c = word_of_int (schar c)"

definition HASH_BER :: "bytes \<Rightarrow> uw" where
  "HASH_BER key = foldl (\<lambda>h c. h * 33 + key_char c) 0 key"

definition HASH_SAX :: "bytes \<Rightarrow> uw" where
  "HASH_SAX key = foldl (\<lambda>h c. h XOR (push_bit 5 h + drop_bit 2 h + key_char c)) 0 key"

definition HASH_FNV :: "bytes \<Rightarrow> uw" where
  "HASH_FNV key = foldl (\<lambda>h c. (h * 16777619) XOR key_char c) 2166136261 key"

definition oat_step :: "uw \<Rightarrow> char \<Rightarrow> uw" where
  "oat_step h c =
     (let h = h + key_char c;
          h = h + push_bit 10 h
      in h XOR drop_bit 6 h)"

definition HASH_OAT :: "bytes \<Rightarrow> uw" where
  "HASH_OAT key =
     (let h = foldl oat_step 0 key;
          h = h + push_bit 3 h;
          h = h XOR drop_bit 11 h
      in h + push_bit 15 h)"

text \<open>
  One step of the mixer changes one of the words, by the two others: \<^verbatim>\<open>a -= b; a -= c; a ^= f (c)\<close>, and
  likewise for \<open>b\<close> and \<open>c\<close>.
\<close>

definition mix_a :: "(uw \<Rightarrow> uw) \<Rightarrow> uw \<times> uw \<times> uw \<Rightarrow> uw \<times> uw \<times> uw" where
  "mix_a f = (\<lambda>(a, b, c). ((a - b - c) XOR f c, b, c))"

definition mix_b :: "(uw \<Rightarrow> uw) \<Rightarrow> uw \<times> uw \<times> uw \<Rightarrow> uw \<times> uw \<times> uw" where
  "mix_b f = (\<lambda>(a, b, c). (a, (b - c - a) XOR f a, c))"

definition mix_c :: "(uw \<Rightarrow> uw) \<Rightarrow> uw \<times> uw \<times> uw \<Rightarrow> uw \<times> uw \<times> uw" where
  "mix_c f = (\<lambda>(a, b, c). (a, b, (c - a - b) XOR f b))"

definition HASH_JEN_MIX :: "uw \<times> uw \<times> uw \<Rightarrow> uw \<times> uw \<times> uw" where
  "HASH_JEN_MIX = fold (\<lambda>step. step)
     [mix_a (drop_bit 13), mix_b (push_bit 8), mix_c (drop_bit 13),
      mix_a (drop_bit 12), mix_b (push_bit 16), mix_c (drop_bit 5),
      mix_a (drop_bit 3), mix_b (push_bit 10), mix_c (drop_bit 15)]"

text \<open>Four bytes from position \<open>n\<close> on.\<close>

definition jen_word :: "bytes \<Rightarrow> nat \<Rightarrow> uw" where
  "jen_word key n = key_char (key ! n) + push_bit 8 (key_char (key ! (n + 1)))
     + push_bit 16 (key_char (key ! (n + 2))) + push_bit 24 (key_char (key ! (n + 3)))"

fun jen_blocks :: "bytes \<Rightarrow> uw \<times> uw \<times> uw \<Rightarrow> bytes \<times> uw \<times> uw \<times> uw" where
  "jen_blocks key (i, j, h) =
     (if 12 \<le> length key
      then jen_blocks (drop 12 key) (HASH_JEN_MIX (i + jen_word key 0, j + jen_word key 4, h + jen_word key 8))
      else (key, i, j, h))"

text \<open>The cases of the \<^verbatim>\<open>switch\<close> fall through.\<close>

definition jen_case :: "bytes \<Rightarrow> nat \<Rightarrow> nat \<Rightarrow> uw \<Rightarrow> uw" where
  "jen_case key n sh v = (if n < length key then v + push_bit sh (key_char (key ! n)) else v)"

definition HASH_JEN :: "bytes \<Rightarrow> uw" where
  "HASH_JEN key =
     (case jen_blocks key (0x9e3779b9, 0x9e3779b9, 0xfeedbeef) of (key', i, j, h) \<Rightarrow>
        let h = h + of_nat (length key);
            h = jen_case key' 8 8 (jen_case key' 9 16 (jen_case key' 10 24 h));
            j = jen_case key' 4 0 (jen_case key' 5 8 (jen_case key' 6 16 (jen_case key' 7 24 j)));
            i = jen_case key' 0 0 (jen_case key' 1 8 (jen_case key' 2 16 (jen_case key' 3 24 i)))
        in snd (snd (HASH_JEN_MIX (i, j, h))))"

text \<open>\<^verbatim>\<open>get16bits\<close> reads unsigned bytes. The shift of a negative \<^verbatim>\<open>char\<close> is taken as gcc does it.\<close>

definition get16bits :: "bytes \<Rightarrow> nat \<Rightarrow> uw" where
  "get16bits key n = push_bit 8 (of_char (key ! (n + 1))) + of_char (key ! n)"

fun sfh_blocks :: "bytes \<Rightarrow> uw \<Rightarrow> bytes \<times> uw" where
  "sfh_blocks key h =
     (if 4 \<le> length key
      then let h = h + get16bits key 0;
               tmp = push_bit 11 (get16bits key 2) XOR h;
               h = push_bit 16 h XOR tmp
           in sfh_blocks (drop 4 key) (h + drop_bit 11 h)
      else (key, h))"

definition sfh_end :: "bytes \<Rightarrow> uw \<Rightarrow> uw" where
  "sfh_end key h =
     (if length key = 3
      then let h = h + get16bits key 0; h = h XOR push_bit 16 h; h = h XOR push_bit 18 (key_char (key ! 2))
           in h + drop_bit 11 h
      else if length key = 2 then let h = h + get16bits key 0; h = h XOR push_bit 11 h in h + drop_bit 17 h
      else if length key = 1 then let h = h + key_char (key ! 0); h = h XOR push_bit 10 h in h + drop_bit 1 h
      else h)"

definition HASH_SFH :: "bytes \<Rightarrow> uw" where
  "HASH_SFH key =
     (let h = (case sfh_blocks key 0xcafebabe of (key', h) \<Rightarrow> sfh_end key' h);
          h = h XOR push_bit 3 h;
          h = h + drop_bit 5 h;
          h = h XOR push_bit 4 h;
          h = h + drop_bit 17 h;
          h = h XOR push_bit 25 h
      in h + drop_bit 6 h)"

text \<open>No \<^verbatim>\<open>HASH_FUNCTION\<close> is defined by the build.\<close>

definition HASH_FCN :: "bytes \<Rightarrow> uw" where
  "HASH_FCN = HASH_JEN"

definition HASH_TO_BKT :: "uw \<Rightarrow> uw \<Rightarrow> nat" where
  "HASH_TO_BKT h n = unat (h AND (n - 1))"

lemma xor_cancel: "x XOR z = y XOR z \<longleftrightarrow> x = (y :: uw)"
proof
  assume "x XOR z = y XOR z"
  then have "(x XOR z) XOR z = (y XOR z) XOR z" by (rule arg_cong)
  then show "x = y" by (simp only: xor.assoc xor_self_eq xor.right_neutral)
qed simp

lemma inj_mix: "inj (mix_a f)" "inj (mix_b f)" "inj (mix_c f)"
  by (auto simp: inj_def mix_a_def mix_b_def mix_c_def xor_cancel)

lemma inj_jen_mix: "inj HASH_JEN_MIX"
proof -
  have "inj (fold (\<lambda>step. step) fs)" if "\<forall>f \<in> set fs. inj f" for fs :: "('a \<Rightarrow> 'a) list"
    using that by (induction fs) (simp_all add: inj_compose)
  moreover have "\<forall>f \<in> set [mix_a (drop_bit 13), mix_b (push_bit 8), mix_c (drop_bit 13), mix_a (drop_bit 12),
      mix_b (push_bit 16), mix_c (drop_bit 5), mix_a (drop_bit 3), mix_b (push_bit 10), mix_c (drop_bit 15)]. inj f"
    using inj_mix by (simp only: list.set ball_simps)
  ultimately show ?thesis unfolding HASH_JEN_MIX_def .
qed

subsection \<open>The store\<close>

record ut_bucket =
  hh_head :: addr
  count :: uw
  expand_mult :: uw

record ut_table =
  buckets :: "ut_bucket list"
  num_buckets :: uw
  log2_num_buckets :: uw
  num_items :: uw
  tail :: addr
  ideal_chain_maxlen :: uw
  nonideal_items :: uw
  ineff_expands :: uw
  noexpand :: uw

text \<open>
  \<open>tbl\<close> is what the \<^verbatim>\<open>tbl\<close> of the handles points to, \<open>None\<close> once it is freed. The key of an element is the
  memory its \<^verbatim>\<open>key\<close> points to.
\<close>

record ut_store =
  elts :: "addr set"
  hprev :: "addr \<Rightarrow> addr"
  hnext :: "addr \<Rightarrow> addr"
  hh_prev :: "addr \<Rightarrow> addr"
  hh_next :: "addr \<Rightarrow> addr"
  hkey :: "addr \<Rightarrow> bytes"
  keylen :: "addr \<Rightarrow> uw"
  hashv :: "addr \<Rightarrow> uw"
  head :: addr
  tbl :: "ut_table option"

text \<open>\<^verbatim>\<open>uthash_fatal\<close> ends the program when there is no memory.\<close>

datatype ut_stop = Exit | Fault c_fault

definition ut_bind :: "ut_stop + 'a \<Rightarrow> ('a \<Rightarrow> ut_stop + 'b) \<Rightarrow> ut_stop + 'b" where
  "ut_bind m f = (case m of Inl e \<Rightarrow> Inl e | Inr x \<Rightarrow> f x)"

lemma ut_bind_simps [simp]: "ut_bind (Inl e) f = Inl e" "ut_bind (Inr x) f = f x"
  by (simp_all add: ut_bind_def)

text \<open>A loop that does not end.\<close>

definition ut_loop :: "(ut_stop + 'a) option \<Rightarrow> ut_stop + 'a" where
  "ut_loop r = (case r of None \<Rightarrow> Inl (Fault Hang) | Some v \<Rightarrow> v)"

definition deref :: "ut_store \<Rightarrow> addr \<Rightarrow> ut_stop + unit" where
  "deref s p = (if p = NULL then Inl (Fault NullDeref) else if p \<notin> elts s then Inl (Fault UseAfterFree) else Inr ())"

definition get_tbl :: "ut_store \<Rightarrow> ut_stop + ut_table" where
  "get_tbl s = (case tbl s of None \<Rightarrow> Inl (Fault UseAfterFree) | Some t \<Rightarrow> Inr t)"

definition get_bkt :: "ut_bucket list \<Rightarrow> nat \<Rightarrow> ut_stop + ut_bucket" where
  "get_bkt bs b = (if b < length bs then Inr (bs ! b) else Inl (Fault OutOfBounds))"

text \<open>Writes through a pointer that the code has tested not to be null.\<close>

definition set_hh_prev :: "addr \<Rightarrow> addr \<Rightarrow> ut_store \<Rightarrow> ut_stop + ut_store" where
  "set_hh_prev p v s =
     (if p = NULL then Inr s else ut_bind (deref s p) (\<lambda>_. Inr (s\<lparr>hh_prev := (hh_prev s)(p := v)\<rparr>)))"

definition set_hh_next :: "addr \<Rightarrow> addr \<Rightarrow> ut_store \<Rightarrow> ut_stop + ut_store" where
  "set_hh_next p v s =
     (if p = NULL then Inr s else ut_bind (deref s p) (\<lambda>_. Inr (s\<lparr>hh_next := (hh_next s)(p := v)\<rparr>)))"

definition set_prev :: "addr \<Rightarrow> addr \<Rightarrow> ut_store \<Rightarrow> ut_stop + ut_store" where
  "set_prev p v s =
     (if p = NULL then Inr s else ut_bind (deref s p) (\<lambda>_. Inr (s\<lparr>hprev := (hprev s)(p := v)\<rparr>)))"

subsection \<open>The macros\<close>

definition HASH_KEYCMP :: "bytes \<Rightarrow> bytes \<Rightarrow> uw \<Rightarrow> bool" where
  "HASH_KEYCMP a b n \<longleftrightarrow> take (unat n) a = take (unat n) b"

partial_function (option) HASH_FIND_IN_BKT ::
  "ut_store \<Rightarrow> bytes \<Rightarrow> uw \<Rightarrow> addr \<Rightarrow> (ut_stop + addr) option" where
  "HASH_FIND_IN_BKT s key len out =
     (if out = NULL then Some (Inr NULL)
      else (case deref s out of
        Inl e \<Rightarrow> Some (Inl e)
      | Inr _ \<Rightarrow>
          if keylen s out = len \<and> HASH_KEYCMP (hkey s out) key len then Some (Inr out)
          else HASH_FIND_IN_BKT s key len (hh_next s out)))"

definition HASH_FIND :: "bytes \<Rightarrow> uw \<Rightarrow> ut_store \<Rightarrow> ut_stop + addr" where
  "HASH_FIND key len s =
     (if head s = NULL then Inr NULL
      else ut_bind (get_tbl s) (\<lambda>t.
        ut_bind (get_bkt (buckets t) (HASH_TO_BKT (HASH_FCN (take (unat len) key)) (num_buckets t))) (\<lambda>b.
          ut_loop (HASH_FIND_IN_BKT s key len (hh_head b)))))"

definition HASH_FIND_STR :: "string \<Rightarrow> ut_store \<Rightarrow> ut_stop + addr" where
  "HASH_FIND_STR key s = HASH_FIND key (of_nat (length key)) s"

text \<open>\<open>mem n\<close> tells whether \<^verbatim>\<open>malloc\<close> has \<open>n\<close> bytes; a bucket has 16, a table 64.\<close>

definition fresh_table :: "addr \<Rightarrow> ut_table" where
  "fresh_table h = \<lparr>buckets = replicate 32 \<lparr>hh_head = NULL, count = 0, expand_mult = 0\<rparr>, num_buckets = 32,
     log2_num_buckets = 5, num_items = 0, tail = h, ideal_chain_maxlen = 0, nonideal_items = 0, ineff_expands = 0,
     noexpand = 0\<rparr>"

definition HASH_MAKE_TABLE :: "(nat \<Rightarrow> bool) \<Rightarrow> ut_store \<Rightarrow> ut_stop + ut_store" where
  "HASH_MAKE_TABLE mem s =
     (if \<not> mem 64 \<or> \<not> mem (32 * 16) then Inl Exit else Inr (s\<lparr>tbl := Some (fresh_table (head s))\<rparr>))"

text \<open>Expansion: each element in turn is put at the front of its chain in the new table.\<close>

definition expand_move ::
  "uw \<Rightarrow> uw \<Rightarrow> addr \<Rightarrow> ut_store \<times> ut_bucket list \<times> uw \<Rightarrow> ut_stop + (ut_store \<times> ut_bucket list \<times> uw)" where
  "expand_move ideal n thh st = (case st of (s, bs, nonideal) \<Rightarrow>
     let b = HASH_TO_BKT (hashv s thh) n
     in ut_bind (get_bkt bs b) (\<lambda>bkt.
          let c = count bkt + 1; over = c > ideal
          in if over \<and> ideal = 0 then Inl (Fault DivByZero)
             else ut_bind (set_hh_prev (hh_head bkt) thh
                    (s\<lparr>hh_prev := (hh_prev s)(thh := NULL), hh_next := (hh_next s)(thh := hh_head bkt)\<rparr>)) (\<lambda>s'.
               Inr (s', bs[b := \<lparr>hh_head = thh, count = c, expand_mult = (if over then c div ideal else expand_mult bkt)\<rparr>],
                 if over then nonideal + 1 else nonideal))))"

partial_function (option) expand_chain ::
  "uw \<Rightarrow> uw \<Rightarrow> addr \<Rightarrow> ut_store \<times> ut_bucket list \<times> uw \<Rightarrow> (ut_stop + (ut_store \<times> ut_bucket list \<times> uw)) option" where
  "expand_chain ideal n thh st =
     (if thh = NULL then Some (Inr st)
      else (case ut_bind (deref (fst st) thh) (\<lambda>_. expand_move ideal n thh st) of
        Inl e \<Rightarrow> Some (Inl e)
      | Inr st' \<Rightarrow> expand_chain ideal n (hh_next (fst st) thh) st'))"

primrec expand_all ::
  "uw \<Rightarrow> uw \<Rightarrow> addr list \<Rightarrow> ut_store \<times> ut_bucket list \<times> uw \<Rightarrow> ut_stop + (ut_store \<times> ut_bucket list \<times> uw)" where
  "expand_all ideal n [] st = Inr st"
| "expand_all ideal n (h # hs) st = ut_bind (ut_loop (expand_chain ideal n h st)) (expand_all ideal n hs)"

definition HASH_EXPAND_BUCKETS :: "(nat \<Rightarrow> bool) \<Rightarrow> ut_store \<Rightarrow> ut_stop + ut_store" where
  "HASH_EXPAND_BUCKETS mem s =
     ut_bind (get_tbl s) (\<lambda>t.
       let n = 2 * num_buckets t; shift = unat (log2_num_buckets t + 1)
       in if \<not> mem (unat n * 16) then Inl Exit
          else if 32 \<le> shift then Inl (Fault BadShift)
          else if length (buckets t) < unat (num_buckets t) then Inl (Fault OutOfBounds)
          else
            let ideal = drop_bit shift (num_items t) + (if num_items t AND (n - 1) \<noteq> 0 then 1 else 0)
            in ut_bind (expand_all ideal n (map hh_head (take (unat (num_buckets t)) (buckets t)))
                 (s, replicate (unat n) \<lparr>hh_head = NULL, count = 0, expand_mult = 0\<rparr>, 0))
               (\<lambda>(s', bs, nonideal).
                 let ineff = (if nonideal > drop_bit 1 (num_items t) then ineff_expands t + 1 else 0)
                 in Inr (s'\<lparr>tbl := Some (t\<lparr>buckets := bs, num_buckets := n, log2_num_buckets := log2_num_buckets t + 1,
                      ideal_chain_maxlen := ideal, nonideal_items := nonideal, ineff_expands := ineff,
                      noexpand := (if ineff > 1 then 1 else noexpand t)\<rparr>)\<rparr>)))"

definition HASH_ADD_TO_BKT :: "(nat \<Rightarrow> bool) \<Rightarrow> nat \<Rightarrow> addr \<Rightarrow> ut_store \<Rightarrow> ut_stop + ut_store" where
  "HASH_ADD_TO_BKT mem b add s =
     ut_bind (get_tbl s) (\<lambda>t.
     ut_bind (get_bkt (buckets t) b) (\<lambda>bkt.
     ut_bind (set_hh_prev (hh_head bkt) add
        (s\<lparr>hh_next := (hh_next s)(add := hh_head bkt), hh_prev := (hh_prev s)(add := NULL)\<rparr>)) (\<lambda>s1.
       let bkt' = bkt\<lparr>count := count bkt + 1, hh_head := add\<rparr>;
           s2 = s1\<lparr>tbl := Some (t\<lparr>buckets := (buckets t)[b := bkt']\<rparr>)\<rparr>
       in if count bkt' \<ge> (expand_mult bkt' + 1) * 10 \<and> noexpand t \<noteq> 1 then HASH_EXPAND_BUCKETS mem s2 else Inr s2)))"

definition HASH_ADD_KEYPTR :: "(nat \<Rightarrow> bool) \<Rightarrow> bytes \<Rightarrow> uw \<Rightarrow> addr \<Rightarrow> ut_store \<Rightarrow> ut_stop + ut_store" where
  "HASH_ADD_KEYPTR mem key len add s =
     ut_bind (deref s add) (\<lambda>_.
       let s1 = s\<lparr>hnext := (hnext s)(add := NULL), hkey := (hkey s)(add := key), keylen := (keylen s)(add := len)\<rparr>
       in ut_bind
         (if head s1 = NULL then HASH_MAKE_TABLE mem (s1\<lparr>head := add, hprev := (hprev s1)(add := NULL)\<rparr>)
          else ut_bind (get_tbl s1) (\<lambda>t. ut_bind (deref s1 (tail t)) (\<lambda>_.
            Inr (s1\<lparr>hnext := (hnext s1)(tail t := add), hprev := (hprev s1)(add := tail t), tbl := Some (t\<lparr>tail := add\<rparr>)\<rparr>))))
         (\<lambda>s2. ut_bind (get_tbl s2) (\<lambda>t.
            let t' = t\<lparr>num_items := num_items t + 1\<rparr>; h = HASH_FCN (take (unat len) key)
            in HASH_ADD_TO_BKT mem (HASH_TO_BKT h (num_buckets t')) add
                 (s2\<lparr>tbl := Some t', hashv := (hashv s2)(add := h)\<rparr>))))"

definition HASH_DEL_IN_BKT :: "nat \<Rightarrow> addr \<Rightarrow> ut_store \<Rightarrow> ut_stop + ut_store" where
  "HASH_DEL_IN_BKT b del s =
     ut_bind (get_tbl s) (\<lambda>t.
     ut_bind (get_bkt (buckets t) b) (\<lambda>bkt.
     ut_bind (set_hh_next (hh_prev s del) (hh_next s del)
       (s\<lparr>tbl := Some (t\<lparr>buckets := (buckets t)[b := bkt\<lparr>count := count bkt - 1,
          hh_head := (if hh_head bkt = del then hh_next s del else hh_head bkt)\<rparr>]\<rparr>)\<rparr>)) (\<lambda>s1.
     set_hh_prev (hh_next s1 del) (hh_prev s1 del) s1)))"

definition HASH_DELETE :: "addr \<Rightarrow> ut_store \<Rightarrow> ut_stop + ut_store" where
  "HASH_DELETE del s =
     ut_bind (deref s del) (\<lambda>_.
       if hprev s del = NULL \<and> hnext s del = NULL
       then ut_bind (get_tbl s) (\<lambda>_. Inr (s\<lparr>tbl := None, head := NULL\<rparr>))
       else
         ut_bind (get_tbl s) (\<lambda>t.
           let s1 = s\<lparr>tbl := Some (if del = tail t then t\<lparr>tail := hprev s del\<rparr> else t)\<rparr>
           in ut_bind
             (if hprev s1 del \<noteq> NULL
              then ut_bind (deref s1 (hprev s1 del)) (\<lambda>_. Inr (s1\<lparr>hnext := (hnext s1)(hprev s1 del := hnext s1 del)\<rparr>))
              else Inr (s1\<lparr>head := hnext s1 del\<rparr>)) (\<lambda>s2.
           ut_bind (set_prev (hnext s2 del) (hprev s2 del) s2) (\<lambda>s3.
           ut_bind (HASH_DEL_IN_BKT (HASH_TO_BKT (hashv s3 del) (num_buckets t)) del s3) (\<lambda>s4.
           ut_bind (get_tbl s4) (\<lambda>t4. Inr (s4\<lparr>tbl := Some (t4\<lparr>num_items := num_items t4 - 1\<rparr>)\<rparr>)))))))"

definition HASH_COUNT :: "ut_store \<Rightarrow> ut_stop + uw" where
  "HASH_COUNT s = (if head s = NULL then Inr 0 else ut_bind (get_tbl s) (\<lambda>t. Inr (num_items t)))"

definition HASH_CLEAR :: "ut_store \<Rightarrow> ut_stop + ut_store" where
  "HASH_CLEAR s = (if head s = NULL then Inr s else ut_bind (get_tbl s) (\<lambda>_. Inr (s\<lparr>tbl := None, head := NULL\<rparr>)))"

text \<open>
  The integrity check of builds with \<^verbatim>\<open>HASH_DEBUG\<close>, which ends the program where a chain or a count is wrong.
  A chain is walked along \<open>nx\<close> with \<open>pv\<close> checked; \<open>n\<close> counts.
\<close>

partial_function (option) fsck_chain ::
  "ut_store \<Rightarrow> (addr \<Rightarrow> addr) \<Rightarrow> (addr \<Rightarrow> addr) \<Rightarrow> addr \<Rightarrow> addr \<Rightarrow> uw \<Rightarrow> (ut_stop + uw) option" where
  "fsck_chain s nx pv prev thh n =
     (if thh = NULL then Some (Inr n)
      else (case deref s thh of
        Inl e \<Rightarrow> Some (Inl e)
      | Inr _ \<Rightarrow> if prev \<noteq> pv thh then Some (Inl Exit) else fsck_chain s nx pv thh (nx thh) (n + 1)))"

primrec fsck_buckets :: "ut_store \<Rightarrow> ut_bucket list \<Rightarrow> uw \<Rightarrow> ut_stop + uw" where
  "fsck_buckets s [] n = Inr n"
| "fsck_buckets s (b # bs) n =
     ut_bind (ut_loop (fsck_chain s (hh_next s) (hh_prev s) NULL (hh_head b) 0)) (\<lambda>c.
       if count b \<noteq> c then Inl Exit else fsck_buckets s bs (n + c))"

definition HASH_FSCK :: "ut_store \<Rightarrow> ut_stop + unit" where
  "HASH_FSCK s =
     (if head s = NULL then Inr ()
      else ut_bind (get_tbl s) (\<lambda>t.
        ut_bind (fsck_buckets s (buckets t) 0) (\<lambda>n.
          if n \<noteq> num_items t then Inl Exit
          else ut_bind (ut_loop (fsck_chain s (hnext s) (hprev s) NULL (head s) 0)) (\<lambda>m.
            if m \<noteq> num_items t then Inl Exit else Inr ()))))"

text \<open>The elements that a loop along \<^verbatim>\<open>hh.next\<close> visits, after those in \<open>ps\<close>.\<close>

partial_function (option) hash_walk :: "ut_store \<Rightarrow> addr \<Rightarrow> addr list \<Rightarrow> (ut_stop + addr list) option" where
  "hash_walk s p ps =
     (if p = NULL then Some (Inr ps)
      else (case deref s p of
        Inl e \<Rightarrow> Some (Inl e)
      | Inr _ \<Rightarrow> hash_walk s (hnext s p) (ps @ [p])))"

definition HASH_ITER :: "ut_store \<Rightarrow> ut_stop + addr list" where
  "HASH_ITER s = ut_loop (hash_walk s (head s) [])"

subsection \<open>Chains\<close>

primrec first :: "addr list \<Rightarrow> addr" where
  "first [] = NULL"
| "first (x # xs) = x"

text \<open>The elements \<open>xs\<close> linked both ways, entered from \<open>a\<close> and left to \<open>b\<close>.\<close>

fun seg :: "(addr \<Rightarrow> addr) \<Rightarrow> (addr \<Rightarrow> addr) \<Rightarrow> addr \<Rightarrow> addr list \<Rightarrow> addr \<Rightarrow> bool" where
  "seg nx pv a [] b \<longleftrightarrow> True"
| "seg nx pv a (x # xs) b \<longleftrightarrow> x \<noteq> NULL \<and> pv x = a \<and> nx x = (if xs = [] then b else first xs) \<and> seg nx pv x xs b"

definition put :: "addr \<Rightarrow> addr \<Rightarrow> (addr \<Rightarrow> addr) \<Rightarrow> addr \<Rightarrow> addr" where
  "put p v f = (if p = NULL then f else f(p := v))"

lemma put_other [simp]: "y \<noteq> p \<Longrightarrow> put p v f y = f y"
  by (simp add: put_def)

lemma put_same [simp]: "p \<noteq> NULL \<Longrightarrow> put p v f p = v"
  by (simp add: put_def)

lemma put_out: "p = NULL \<or> p \<in> A \<Longrightarrow> y \<notin> A \<Longrightarrow> put p v f y = f y"
  by (auto simp: put_def)

lemma seg_cong:
  "(\<And>x. x \<in> set xs \<Longrightarrow> nx' x = nx x \<and> pv' x = pv x) \<Longrightarrow> seg nx' pv' a xs b = seg nx pv a xs b"
  by (induction xs arbitrary: a) auto

lemma seg_not_NULL: "seg nx pv a xs b \<Longrightarrow> NULL \<notin> set xs"
  by (induction xs arbitrary: a) auto

lemma first_NULL: "seg nx pv a xs b \<Longrightarrow> first xs = NULL \<longleftrightarrow> xs = []"
  by (cases xs) auto

lemma first_in: "xs \<noteq> [] \<Longrightarrow> first xs \<in> set xs"
  by (cases xs) auto

lemma first_append: "first (xs @ ys) = (if xs = [] then first ys else first xs)"
  by (cases xs) auto

lemma seg_append:
  "seg nx pv a (xs @ ys) b
   \<longleftrightarrow> seg nx pv a xs (if ys = [] then b else first ys) \<and> seg nx pv (last (a # xs)) ys b"
  by (induction xs arbitrary: a) (auto simp: first_append)

lemma seg_push:
  assumes "seg nx pv NULL c NULL" "x \<noteq> NULL" "x \<notin> set c" "distinct c"
  shows "seg (nx(x := first c)) (put (first c) x (pv(x := NULL))) NULL (x # c) NULL"
  using assms
proof (cases c)
  case (Cons y ys)
  have "seg (nx(x := y)) (put y x (pv(x := NULL))) y ys NULL = seg nx pv y ys NULL"
    using assms Cons by (intro seg_cong) (auto simp: put_def)
  then show ?thesis using assms Cons by auto
qed auto

lemma seg_snoc:
  assumes "seg nx pv NULL xs NULL" "xs \<noteq> []" "x \<noteq> NULL" "x \<notin> set xs" "distinct xs"
  shows "seg ((nx(x := NULL))(last xs := x)) (pv(x := last xs)) NULL (xs @ [x]) NULL"
proof -
  obtain ys y where xs: "xs = ys @ [y]" using assms(2) by (metis append_butlast_last_id)
  have "seg ((nx(x := NULL))(y := x)) (pv(x := y)) NULL ys y = seg nx pv NULL ys y"
    using assms(4,5) xs by (intro seg_cong) auto
  then show ?thesis using assms xs by (auto simp: seg_append)
qed

lemma seg_at:
  assumes "seg nx pv NULL (xs @ x # ys) NULL"
  shows "pv x = last (NULL # xs)" "nx x = first ys" "x \<noteq> NULL"
  using assms by (auto simp: seg_append)

lemma seg_unlink:
  assumes s: "seg nx pv NULL (xs @ x # ys) NULL" and d: "distinct (xs @ x # ys)"
  shows "seg (put (pv x) (nx x) nx) (put (nx x) (pv x) pv) NULL (xs @ ys) NULL"
proof -
  have x: "pv x = last (NULL # xs)" "nx x = first ys" using seg_at [OF s] by auto
  have z: "NULL \<notin> set (xs @ x # ys)" using s by (rule seg_not_NULL)
  have y: "seg (put (pv x) (nx x) nx) (put (nx x) (pv x) pv) (last (NULL # xs)) ys NULL"
  proof (cases ys)
    case (Cons v vs)
    have p: "pv x \<notin> set ys"
      unfolding x(1) using d z by (cases xs rule: rev_cases) auto
    have "seg (put (pv x) v nx) (put v (pv x) pv) v vs NULL = seg nx pv v vs NULL"
      using p d Cons by (intro seg_cong) (auto simp: put_def)
    then show ?thesis using s p x z Cons by (auto simp: seg_append put_def)
  qed simp
  have "seg (put (pv x) (nx x) nx) (put (nx x) (pv x) pv) NULL xs (first ys)"
  proof (cases xs rule: rev_cases)
    case (snoc us u)
    have "nx x \<notin> set xs" unfolding x(2) using d z by (cases ys) auto
    then have n: "nx x \<noteq> u" "nx x \<notin> set us" using snoc by auto
    have "seg (put u (nx x) nx) (put (nx x) u pv) NULL us u = seg nx pv NULL us u"
      using n d snoc by (intro seg_cong) (auto simp: put_def)
    then show ?thesis using s n x z snoc by (auto simp: seg_append)
  qed simp
  then show ?thesis using y by (cases ys) (auto simp: seg_append)
qed

subsection \<open>Buckets\<close>

definition bucket_rep :: "ut_store \<Rightarrow> ut_bucket \<Rightarrow> addr list \<Rightarrow> bool" where
  "bucket_rep s b c \<longleftrightarrow> hh_head b = first c \<and> count b = of_nat (length c)
     \<and> seg (hh_next s) (hh_prev s) NULL c NULL \<and> distinct c"

text \<open>Bucket \<open>j\<close> holds the elements of \<open>X\<close> that \<open>f\<close> sends to \<open>j\<close>.\<close>

definition bkts :: "ut_store \<Rightarrow> ut_bucket list \<Rightarrow> (addr \<Rightarrow> nat) \<Rightarrow> addr set \<Rightarrow> bool" where
  "bkts s bs f X \<longleftrightarrow> (\<forall>j < length bs. \<exists>c. bucket_rep s (bs ! j) c \<and> set c = {x \<in> X. f x = j})"

definition chains_only :: "addr set \<Rightarrow> ut_store \<Rightarrow> ut_store \<Rightarrow> bool" where
  "chains_only X s t \<longleftrightarrow> (\<exists>p n. t = s\<lparr>hh_prev := p, hh_next := n\<rparr> \<and> (\<forall>y. y \<notin> X \<longrightarrow> p y = hh_prev s y \<and> n y = hh_next s y))"

lemma bucket_rep_cong:
  "(\<And>x. x \<in> set c \<Longrightarrow> hh_next t x = hh_next s x \<and> hh_prev t x = hh_prev s x) \<Longrightarrow> bucket_rep t b c = bucket_rep s b c"
  using seg_cong [of c "hh_next t" "hh_next s" "hh_prev t" "hh_prev s" NULL NULL] by (simp add: bucket_rep_def)

lemma chains_only_refl: "chains_only X s s"
  unfolding chains_only_def by (rule exI [of _ "hh_prev s"], rule exI [of _ "hh_next s"]) simp

lemma chains_only_trans:
  assumes "chains_only X s t" "chains_only Y t u" "X \<subseteq> Z" "Y \<subseteq> Z"
  shows "chains_only Z s u"
proof -
  obtain p n p' n' where t: "t = s\<lparr>hh_prev := p, hh_next := n\<rparr>" "\<forall>y. y \<notin> X \<longrightarrow> p y = hh_prev s y \<and> n y = hh_next s y"
    and u: "u = t\<lparr>hh_prev := p', hh_next := n'\<rparr>" "\<forall>y. y \<notin> Y \<longrightarrow> p' y = hh_prev t y \<and> n' y = hh_next t y"
    using assms(1,2) unfolding chains_only_def by blast
  have "u = s\<lparr>hh_prev := p', hh_next := n'\<rparr>" using t u by simp
  moreover have "\<forall>y. y \<notin> Z \<longrightarrow> p' y = hh_prev s y \<and> n' y = hh_next s y" using t u assms(3,4) by (auto dest!: subsetD)
  ultimately show ?thesis unfolding chains_only_def by blast
qed

lemma chains_only_fields:
  assumes "chains_only X s t"
  shows "elts t = elts s" "hprev t = hprev s" "hnext t = hnext s" "hkey t = hkey s" "keylen t = keylen s"
    "hashv t = hashv s" "head t = head s" "tbl t = tbl s"
    "y \<notin> X \<Longrightarrow> hh_prev t y = hh_prev s y" "y \<notin> X \<Longrightarrow> hh_next t y = hh_next s y"
  using assms by (auto simp: chains_only_def)

lemma seg_chains_only:
  "chains_only X s t \<Longrightarrow> X \<inter> set c = {} \<Longrightarrow> seg (hh_next t) (hh_prev t) a c b = seg (hh_next s) (hh_prev s) a c b"
  using chains_only_fields(9,10) [of X s t] by (intro seg_cong) blast

lemma deref_ok [simp]: "p \<noteq> NULL \<Longrightarrow> p \<in> elts s \<Longrightarrow> deref s p = Inr ()"
  by (simp add: deref_def)

lemma set_hh_ok:
  "p = NULL \<or> p \<in> elts s \<Longrightarrow> set_hh_prev p v s = Inr (s\<lparr>hh_prev := put p v (hh_prev s)\<rparr>)"
  "p = NULL \<or> p \<in> elts s \<Longrightarrow> set_hh_next p v s = Inr (s\<lparr>hh_next := put p v (hh_next s)\<rparr>)"
  "p = NULL \<or> p \<in> elts s \<Longrightarrow> set_prev p v s = Inr (s\<lparr>hprev := put p v (hprev s)\<rparr>)"
  by (auto simp: set_hh_prev_def set_hh_next_def set_prev_def put_def)

text \<open>An element put at the front of its bucket.\<close>

lemma bkts_push:
  assumes b: "bkts s bs f X" "f x < length bs" and x: "x \<notin> X" "x \<noteq> NULL" and X: "X \<subseteq> elts s" "NULL \<notin> X"
    and k: "hh_head k = x" "count k = count (bs ! f x) + 1"
  defines "h \<equiv> hh_head (bs ! f x)"
  obtains t where "set_hh_prev h x (s\<lparr>hh_prev := (hh_prev s)(x := NULL), hh_next := (hh_next s)(x := h)\<rparr>) = Inr t"
    "chains_only (insert x X) s t" "bkts t (bs[f x := k]) f (insert x X)"
proof -
  obtain c where c: "bucket_rep s (bs ! f x) c" "set c = {y \<in> X. f y = f x}"
    using b unfolding bkts_def by blast
  then have h: "h = first c" "seg (hh_next s) (hh_prev s) NULL c NULL" "distinct c" "count (bs ! f x) = of_nat (length c)"
    by (auto simp: bucket_rep_def h_def)
  have hX: "h = NULL \<or> h \<in> X \<and> f h = f x" using h(1) first_in [of c] c(2) by (cases "c = []") auto
  define t where "t = s\<lparr>hh_prev := put h x ((hh_prev s)(x := NULL)), hh_next := (hh_next s)(x := h)\<rparr>"
  have xc: "x \<notin> set c" using c(2) x(1) by auto
  have 1: "bucket_rep t k (x # c)"
    using seg_push [OF h(2) x(2) xc h(3)] k h xc by (simp add: bucket_rep_def t_def)
  have 2: "bucket_rep t (bs ! j) d = bucket_rep s (bs ! j) d" if d: "set d = {y \<in> X. f y = j}" "j \<noteq> f x" for j d
  proof -
    have "h \<notin> set d" "x \<notin> set d" using d hX X(2) x(1) by auto
    then show ?thesis by (intro bucket_rep_cong) (auto simp: t_def put_def)
  qed
  have "\<exists>d. bucket_rep t (bs[f x := k] ! j) d \<and> set d = {y \<in> insert x X. f y = j}" if j: "j < length bs" for j
  proof (cases "j = f x")
    case True
    then show ?thesis using 1 c(2) b(2) by (intro exI [of _ "x # c"]) auto
  next
    case False
    obtain d where d: "bucket_rep s (bs ! j) d" "set d = {y \<in> X. f y = j}" using b(1) j unfolding bkts_def by blast
    then show ?thesis using 2 [OF d(2) False] False by (intro exI [of _ d]) auto
  qed
  then have B: "bkts t (bs[f x := k]) f (insert x X)" by (simp add: bkts_def)
  have C: "chains_only (insert x X) s t"
    unfolding chains_only_def t_def using hX by (fastforce simp: put_def)
  have "set_hh_prev h x (s\<lparr>hh_prev := (hh_prev s)(x := NULL), hh_next := (hh_next s)(x := h)\<rparr>) = Inr t"
    using hX X(1) by (subst set_hh_ok) (auto simp: t_def)
  then show thesis using C B by (rule that)
qed

text \<open>An element taken out of its bucket.\<close>

lemma bkts_pull:
  assumes b: "bkts s bs f X" "f x < length bs" and x: "x \<in> X" and X: "X \<subseteq> elts s" "NULL \<notin> X"
    and k: "hh_head k = (if hh_head (bs ! f x) = x then hh_next s x else hh_head (bs ! f x))"
      "count k = count (bs ! f x) - 1"
  obtains t where "ut_bind (set_hh_next (hh_prev s x) (hh_next s x) (s\<lparr>tbl := v\<rparr>)) (\<lambda>u. set_hh_prev (hh_next u x) (hh_prev u x) u) = Inr t"
    "chains_only (X - {x}) (s\<lparr>tbl := v\<rparr>) t" "bkts t (bs[f x := k]) f (X - {x})"
proof -
  obtain c where c: "bucket_rep s (bs ! f x) c" "set c = {y \<in> X. f y = f x}"
    using b unfolding bkts_def by blast
  then have h: "hh_head (bs ! f x) = first c" "seg (hh_next s) (hh_prev s) NULL c NULL" "distinct c"
    "count (bs ! f x) = of_nat (length c)"
    by (auto simp: bucket_rep_def)
  have "x \<in> set c" using c(2) x by simp
  then obtain us ws where u: "c = us @ x # ws" by (meson split_list)
  have n: "hh_prev s x = last (NULL # us)" "hh_next s x = first ws" "x \<noteq> NULL" using seg_at h(2) unfolding u by auto
  have p: "hh_prev s x = NULL \<or> hh_prev s x \<in> X \<and> f (hh_prev s x) = f x \<and> hh_prev s x \<noteq> x"
    using c(2) h(3) unfolding n(1) u by (cases us rule: rev_cases) auto
  have q: "hh_next s x = NULL \<or> hh_next s x \<in> X \<and> f (hh_next s x) = f x \<and> hh_next s x \<noteq> x"
    using c(2) h(3) unfolding n(2) u by (cases ws) auto
  define t where "t = s\<lparr>tbl := v, hh_next := put (hh_prev s x) (hh_next s x) (hh_next s),
    hh_prev := put (hh_next s x) (hh_prev s x) (hh_prev s)\<rparr>"
  have run: "ut_bind (set_hh_next (hh_prev s x) (hh_next s x) (s\<lparr>tbl := v\<rparr>)) (\<lambda>u. set_hh_prev (hh_next u x) (hh_prev u x) u) = Inr t"
  proof -
    let ?u = "s\<lparr>tbl := v, hh_next := put (hh_prev s x) (hh_next s x) (hh_next s)\<rparr>"
    have "set_hh_next (hh_prev s x) (hh_next s x) (s\<lparr>tbl := v\<rparr>) = Inr ?u" using p X(1) by (subst set_hh_ok) auto
    moreover have "hh_next ?u x = hh_next s x" "hh_prev ?u x = hh_prev s x" using p by (auto simp: put_def)
    moreover have "set_hh_prev (hh_next s x) (hh_prev s x) ?u = Inr t" using q X(1) by (subst set_hh_ok) (auto simp: t_def)
    ultimately show ?thesis by simp
  qed
  have fx: "first us = x \<Longrightarrow> us = []" using h(3) u by (cases us) auto
  have 1: "bucket_rep t k (us @ ws)"
  proof -
    have "seg (hh_next t) (hh_prev t) NULL (us @ ws) NULL" using seg_unlink h(2,3) unfolding u by (simp add: t_def)
    moreover have "hh_head k = first (us @ ws)"
    proof (cases "us = []")
      case True
      then show ?thesis using k(1) h(1) n(2) unfolding u by simp
    next
      case False
      then have "first c \<noteq> x" "first c = first us" using fx u by (auto simp: first_append)
      then show ?thesis using k(1) h(1) False by (simp add: first_append)
    qed
    ultimately show ?thesis using h(3,4) k(2) unfolding u by (simp add: bucket_rep_def)
  qed
  have 2: "bucket_rep t (bs ! j) d = bucket_rep s (bs ! j) d" if d: "set d = {y \<in> X. f y = j}" "j \<noteq> f x" for j d
  proof -
    have "hh_prev s x \<notin> set d" unfolding d(1) using p X(2) d(2) by auto
    moreover have "hh_next s x \<notin> set d" unfolding d(1) using q X(2) d(2) by auto
    ultimately have "y \<noteq> hh_prev s x \<and> y \<noteq> hh_next s x" if "y \<in> set d" for y using that by blast
    then show ?thesis by (intro bucket_rep_cong) (simp add: t_def)
  qed
  have "\<exists>d. bucket_rep t (bs[f x := k] ! j) d \<and> set d = {y \<in> X - {x}. f y = j}" if j: "j < length bs" for j
  proof (cases "j = f x")
    case True
    have "set (us @ ws) = {y \<in> X - {x}. f y = j}" using c(2) h(3) unfolding u True by auto
    then show ?thesis using 1 b(2) True by (intro exI [of _ "us @ ws"]) simp
  next
    case False
    obtain d where d: "bucket_rep s (bs ! j) d" "set d = {y \<in> X. f y = j}" using b(1) j unfolding bkts_def by blast
    then show ?thesis using 2 [OF d(2) False] False by (intro exI [of _ d]) auto
  qed
  then have B: "bkts t (bs[f x := k]) f (X - {x})" by (simp add: bkts_def)
  have "y \<notin> X - {x} \<Longrightarrow> put (hh_next s x) (hh_prev s x) (hh_prev s) y = hh_prev s y
      \<and> put (hh_prev s x) (hh_next s x) (hh_next s) y = hh_next s y" for y
    using put_out [of _ "X - {x}" y] p q by blast
  then have "chains_only (X - {x}) (s\<lparr>tbl := v\<rparr>) t"
    unfolding chains_only_def t_def
    by (intro exI [of _ "put (hh_next s x) (hh_prev s x) (hh_prev s)"] exI [of _ "put (hh_prev s x) (hh_next s x) (hh_next s)"]) simp
  with run show thesis using B by (rule that)
qed

subsection \<open>Bucket numbers\<close>

lemma HASH_TO_BKT_less: "k < 32 \<Longrightarrow> HASH_TO_BKT h (2 ^ k) < 2 ^ k"
  by (simp add: HASH_TO_BKT_def mask_eq_exp_minus_1 [symmetric] take_bit_eq_mask [symmetric]
      unsigned_take_bit_eq take_bit_nat_less_exp)

lemma unat_of_nat_small: "m < 2 ^ 32 \<Longrightarrow> unat (of_nat m :: uw) = m"
  by (simp add: unat_of_nat take_bit_nat_eq_self)

lemma unat_exp:
  assumes "k < 32"
  shows "unat (2 ^ k :: uw) = 2 ^ k"
proof -
  have "(2 :: nat) ^ k < 2 ^ 32" using assms by (intro power_strict_increasing) auto
  then show ?thesis using unat_of_nat [of "2 ^ k", where 'a = 32] by simp
qed

text \<open>The ideal length of a chain is not zero: the division in the expansion is defined.\<close>

lemma ideal_pos:
  fixes v :: uw
  assumes "v \<noteq> 0" "0 < k" "k < 32"
  shows "drop_bit k v + (if v AND (2 ^ k - 1) \<noteq> 0 then 1 else 0) \<noteq> 0"
proof -
  have m: "v AND (2 ^ k - 1) = take_bit k v"
    by (simp add: mask_eq_exp_minus_1 [symmetric] take_bit_eq_mask)
  have d: "unat (drop_bit k v) = unat v div 2 ^ k"
    unfolding unat_drop_bit_eq by (rule drop_bit_eq_div)
  have "unat v < 2 ^ 32" using unsigned_less [of v] by simp
  moreover have "unat v div 2 ^ k \<le> unat v div 2 ^ 1"
    by (rule div_le_mono2) (use assms(2) power_increasing [of 1 k "2 :: nat"] in simp_all)
  ultimately have "unat v div 2 ^ k < 2 ^ 31" by simp
  moreover have "unat (- 1 :: uw) = 2 ^ 32 - 1" by transfer (simp add: mask_eq_exp_minus_1)
  ultimately have "drop_bit k v \<noteq> - 1" using d by auto
  then have u: "drop_bit k v + 1 \<noteq> 0" by (simp only: eq_neg_iff_add_eq_0 not_False_eq_True)
  have "drop_bit k v \<noteq> 0" if "take_bit k v = 0"
    using assms(1) that bits_ident [of k v] by auto
  then show ?thesis using m u by auto
qed

subsection \<open>Expansion\<close>

lemma expand_chain_ok:
  assumes "seg (hh_next s) (hh_prev s) a zs NULL" "distinct zs" "set zs \<subseteq> elts s" "X \<inter> set zs = {}"
    "X \<subseteq> elts s" "NULL \<notin> X" "bkts s bs (\<lambda>x. HASH_TO_BKT (hashv s x) n) X"
    "\<And>h. HASH_TO_BKT h n < length bs" "ideal \<noteq> 0"
  shows "\<exists>t bs' ni'. expand_chain ideal n (first zs) (s, bs, ni) = Some (Inr (t, bs', ni'))
    \<and> chains_only (X \<union> set zs) s t \<and> bkts t bs' (\<lambda>x. HASH_TO_BKT (hashv s x) n) (X \<union> set zs) \<and> length bs' = length bs"
  using assms
proof (induction zs arbitrary: a s bs ni X)
  case Nil
  then show ?case using chains_only_refl by (subst expand_chain.simps) auto
next
  case (Cons x zs)
  let ?f = "\<lambda>x. HASH_TO_BKT (hashv s x) n"
  let ?b = "bs ! ?f x"
  let ?over = "count ?b + 1 > ideal"
  let ?k = "\<lparr>hh_head = x, count = count ?b + 1, expand_mult = (if ?over then (count ?b + 1) div ideal else expand_mult ?b)\<rparr>"
  have x: "x \<noteq> NULL" "x \<notin> X" "x \<in> elts s" "hh_next s x = first zs" using Cons.prems by auto
  obtain t where t: "set_hh_prev (hh_head ?b) x (s\<lparr>hh_prev := (hh_prev s)(x := NULL), hh_next := (hh_next s)(x := hh_head ?b)\<rparr>) = Inr t"
    "chains_only (insert x X) s t" "bkts t (bs[?f x := ?k]) ?f (insert x X)"
    using bkts_push [of s bs ?f X x ?k] Cons.prems x by auto
  note f = chains_only_fields [OF t(2)]
  have m: "expand_move ideal n x (s, bs, ni) = Inr (t, bs[?f x := ?k], if ?over then ni + 1 else ni)"
    using Cons.prems(8,9) t(1) by (simp add: expand_move_def Let_def get_bkt_def)
  have "insert x X \<inter> set zs = {}" using Cons.prems(2,4) by auto
  then have "seg (hh_next t) (hh_prev t) x zs NULL" using seg_chains_only [OF t(2)] Cons.prems(1) by simp
  from Cons.IH [OF this, of "insert x X" "bs[?f x := ?k]" "if ?over then ni + 1 else ni"]
  obtain u bs' ni' where u: "expand_chain ideal n (first zs) (t, bs[?f x := ?k], if ?over then ni + 1 else ni) = Some (Inr (u, bs', ni'))"
    "chains_only (insert x X \<union> set zs) t u" "bkts u bs' ?f (insert x X \<union> set zs)" "length bs' = length bs"
    using Cons.prems x f(1,6) t(3) by auto
  have "expand_chain ideal n (first (x # zs)) (s, bs, ni) = Some (Inr (u, bs', ni'))"
    using x m u(1) by (subst expand_chain.simps) simp
  moreover have "chains_only (X \<union> set (x # zs)) s u" using t(2) u(2) by (rule chains_only_trans) auto
  ultimately show ?case using u(3,4) by auto
qed

lemma expand_all_ok:
  assumes "\<forall>c \<in> set css. seg (hh_next s) (hh_prev s) NULL c NULL" "distinct (concat css)" "set (concat css) \<subseteq> elts s"
    "X \<inter> set (concat css) = {}" "X \<subseteq> elts s" "NULL \<notin> X" "bkts s bs (\<lambda>x. HASH_TO_BKT (hashv s x) n) X"
    "\<And>h. HASH_TO_BKT h n < length bs" "ideal \<noteq> 0"
  shows "\<exists>t bs' ni'. expand_all ideal n (map first css) (s, bs, ni) = Inr (t, bs', ni')
    \<and> chains_only (X \<union> set (concat css)) s t \<and> bkts t bs' (\<lambda>x. HASH_TO_BKT (hashv s x) n) (X \<union> set (concat css))
    \<and> length bs' = length bs"
  using assms
proof (induction css arbitrary: s bs ni X)
  case Nil
  then show ?case using chains_only_refl by auto
next
  case (Cons c css)
  let ?f = "\<lambda>x. HASH_TO_BKT (hashv s x) n"
  have "\<exists>t bs' ni'. expand_chain ideal n (first c) (s, bs, ni) = Some (Inr (t, bs', ni'))
    \<and> chains_only (X \<union> set c) s t \<and> bkts t bs' ?f (X \<union> set c) \<and> length bs' = length bs"
    using Cons.prems by (intro expand_chain_ok) auto
  then obtain t bs' ni' where t: "expand_chain ideal n (first c) (s, bs, ni) = Some (Inr (t, bs', ni'))"
    "chains_only (X \<union> set c) s t" "bkts t bs' ?f (X \<union> set c)" "length bs' = length bs" by blast
  note f = chains_only_fields [OF t(2)]
  have "seg (hh_next t) (hh_prev t) NULL d NULL" if d: "d \<in> set css" for d
  proof -
    have "(X \<union> set c) \<inter> set d = {}" using Cons.prems(2,4) d by auto
    then show ?thesis using seg_chains_only [OF t(2)] Cons.prems(1) d by simp
  qed
  moreover have "NULL \<notin> X \<union> set c" using Cons.prems(1,6) seg_not_NULL by auto
  ultimately have "\<exists>u bs'' ni''. expand_all ideal n (map first css) (t, bs', ni') = Inr (u, bs'', ni'')
    \<and> chains_only ((X \<union> set c) \<union> set (concat css)) t u
    \<and> bkts u bs'' (\<lambda>x. HASH_TO_BKT (hashv t x) n) ((X \<union> set c) \<union> set (concat css)) \<and> length bs'' = length bs'"
    using Cons.prems(2-5,8,9) f(1,6) t(3,4) by (intro Cons.IH) (simp_all add: Int_Un_distrib Int_Un_distrib2)
  then obtain u bs'' ni'' where u: "expand_all ideal n (map first css) (t, bs', ni') = Inr (u, bs'', ni'')"
    "chains_only ((X \<union> set c) \<union> set (concat css)) t u" "bkts u bs'' ?f ((X \<union> set c) \<union> set (concat css))"
    "length bs'' = length bs'" unfolding f(6) by blast
  have "chains_only (X \<union> set (concat (c # css))) s u" using t(2) u(2) by (rule chains_only_trans) auto
  then show ?case using t u by (auto simp: ut_loop_def Un_assoc)
qed

subsection \<open>The table\<close>

definition tbl_ok :: "ut_store \<Rightarrow> ut_table \<Rightarrow> addr set \<Rightarrow> bool" where
  "tbl_ok s t X \<longleftrightarrow> (\<exists>k \<le> 30. num_buckets t = 2 ^ k \<and> log2_num_buckets t = of_nat k \<and> length (buckets t) = 2 ^ k)
     \<and> bkts s (buckets t) (\<lambda>x. HASH_TO_BKT (hashv s x) (num_buckets t)) X"

definition key_ok :: "ut_store \<Rightarrow> addr \<Rightarrow> bool" where
  "key_ok s x \<longleftrightarrow> length (hkey s x) < 2 ^ 32 \<and> keylen s x = of_nat (length (hkey s x)) \<and> hashv s x = HASH_FCN (hkey s x)"

text \<open>The store holds a table whose elements are \<open>xs\<close>, in the order of insertion.\<close>

definition hash_rep :: "ut_store \<Rightarrow> addr list \<Rightarrow> bool" where
  "hash_rep s xs \<longleftrightarrow> head s = first xs \<and> seg (hnext s) (hprev s) NULL xs NULL \<and> distinct xs \<and> set xs \<subseteq> elts s
     \<and> (\<forall>x \<in> set xs. key_ok s x)
     \<and> (xs \<noteq> [] \<longrightarrow> (\<exists>t. tbl s = Some t \<and> tbl_ok s t (set xs) \<and> num_items t = of_nat (length xs) \<and> tail t = last xs))"

lemma bkts_tbl [simp]: "bkts (s\<lparr>tbl := v\<rparr>) bs f X = bkts s bs f X"
  by (simp add: bkts_def bucket_rep_def)

lemma bkts_cong:
  assumes "\<And>x. x \<in> X \<Longrightarrow> hh_next t x = hh_next s x \<and> hh_prev t x = hh_prev s x \<and> g x = f x"
  shows "bkts t bs g X = bkts s bs f X"
proof -
  have "bucket_rep t b c = bucket_rep s b c" if "set c = {x \<in> X. f x = j}" for b c j
    using assms that by (intro bucket_rep_cong) auto
  moreover have "{x \<in> X. g x = j} = {x \<in> X. f x = j}" for j using assms by auto
  ultimately show ?thesis unfolding bkts_def by metis
qed

lemma tbl_ok_less: "tbl_ok s t X \<Longrightarrow> HASH_TO_BKT h (num_buckets t) < length (buckets t)"
  using HASH_TO_BKT_less by (auto simp: tbl_ok_def)

lemma bkts_chains:
  assumes "bkts s bs f X" "\<And>x. f x < length bs"
  obtains css where "list_all2 (bucket_rep s) bs css" "map hh_head bs = map first css" "\<forall>c \<in> set css. seg (hh_next s) (hh_prev s) NULL c NULL"
    "distinct (concat css)" "set (concat css) = X"
proof -
  obtain C where C: "\<And>j. j < length bs \<Longrightarrow> bucket_rep s (bs ! j) (C j) \<and> set (C j) = {x \<in> X. f x = j}"
    using assms(1) unfolding bkts_def by metis
  have "distinct (concat (map C [0..<m]))" if "m \<le> length bs" for m
    using that
  proof (induction m)
    case (Suc m)
    then have "\<forall>x \<in> set (concat (map C [0..<m])). f x < m" using C by auto
    then show ?case using Suc C [of m] by (auto simp: bucket_rep_def)
  qed simp
  then have "distinct (concat (map C [0..<length bs]))" by simp
  moreover have "map hh_head bs = map first (map C [0..<length bs])"
    using C by (intro nth_equalityI) (auto simp: bucket_rep_def)
  moreover have "set (concat (map C [0..<length bs])) = X" using C assms(2) by auto
  moreover have "list_all2 (bucket_rep s) bs (map C [0..<length bs])" using C by (simp add: list_all2_conv_all_nth)
  moreover have "\<forall>c \<in> set (map C [0..<length bs]). seg (hh_next s) (hh_prev s) NULL c NULL"
    using C by (auto simp: bucket_rep_def)
  ultimately show thesis by (intro that)
qed

lemma expand_ok:
  assumes t: "tbl s = Some t" "tbl_ok s t X" "num_items t \<noteq> 0" and X: "X \<subseteq> elts s" "NULL \<notin> X" and m: "\<not> mem (2 ^ 35)"
  shows "HASH_EXPAND_BUCKETS mem s = Inl Exit
    \<or> (\<exists>u t'. HASH_EXPAND_BUCKETS mem s = Inr (u\<lparr>tbl := Some t'\<rparr>) \<and> chains_only X s u \<and> tbl_ok u t' X
        \<and> num_items t' = num_items t \<and> tail t' = tail t)"
proof -
  let ?n = "2 * num_buckets t"
  obtain k where k: "k \<le> 30" "num_buckets t = 2 ^ k" "log2_num_buckets t = of_nat k" "length (buckets t) = 2 ^ k"
    using t(2) unfolding tbl_ok_def by blast
  have n: "?n = 2 ^ Suc k" "unat ?n = 2 ^ Suc k" using k unat_exp [of "Suc k"] by simp_all
  have nb: "unat (num_buckets t) = 2 ^ k" using k unat_exp [of k] by simp
  have "log2_num_buckets t + 1 = (of_nat (Suc k) :: uw)" unfolding k(3) by simp
  then have sh: "unat (log2_num_buckets t + 1) = Suc k" using unat_of_nat_small [of "Suc k"] k(1) by (simp only:) simp
  show ?thesis
  proof (cases "mem (unat ?n * 16)")
    case False
    then show ?thesis using t(1) by (simp add: HASH_EXPAND_BUCKETS_def get_tbl_def Let_def)
  next
    case True
    then have k': "k < 30" using m k(1) n by (cases "k = 30") auto
    define ideal where "ideal = drop_bit (Suc k) (num_items t) + (if num_items t AND (?n - 1) \<noteq> 0 then 1 else 0)"
    have ideal: "ideal \<noteq> 0" unfolding ideal_def n(1) using t(3) k' by (intro ideal_pos) auto
    obtain css where c: "map hh_head (buckets t) = map first css" "\<forall>c \<in> set css. seg (hh_next s) (hh_prev s) NULL c NULL"
      "distinct (concat css)" "set (concat css) = X"
      using bkts_chains [OF _ tbl_ok_less [OF t(2)]] t(2) unfolding tbl_ok_def by metis
    let ?bs = "replicate (2 ^ Suc k) \<lparr>hh_head = NULL, count = 0, expand_mult = 0\<rparr>"
    let ?f = "\<lambda>x. HASH_TO_BKT (hashv s x) ?n"
    have "\<exists>u bs' ni'. expand_all ideal ?n (map first css) (s, ?bs, 0) = Inr (u, bs', ni')
        \<and> chains_only ({} \<union> set (concat css)) s u \<and> bkts u bs' ?f ({} \<union> set (concat css)) \<and> length bs' = length ?bs"
    proof (rule expand_all_ok)
      show "bkts s ?bs ?f {}"
        using nth_replicate [of _ "2 ^ Suc k"]
        by (auto simp: bkts_def bucket_rep_def simp del: replicate_Suc power_Suc intro!: exI [of _ "[]"])
      show "HASH_TO_BKT h ?n < length ?bs" for h using HASH_TO_BKT_less [of "Suc k" h] k' unfolding n(1) by simp
      show "distinct (concat css)" "set (concat css) \<subseteq> elts s" using c(3,4) X(1) by simp_all
    qed (use c(2) ideal in simp_all)
    then obtain u bs' ni' where u: "expand_all ideal ?n (map first css) (s, ?bs, 0) = Inr (u, bs', ni')"
      "chains_only X s u" "bkts u bs' ?f X" "length bs' = 2 ^ Suc k" unfolding c(4) by auto
    define ineff where "ineff = (if ni' > drop_bit 1 (num_items t) then ineff_expands t + 1 else 0)"
    define t' where "t' = t\<lparr>buckets := bs', num_buckets := ?n, log2_num_buckets := log2_num_buckets t + 1,
      ideal_chain_maxlen := ideal, nonideal_items := ni', ineff_expands := ineff,
      noexpand := (if ineff > 1 then 1 else noexpand t)\<rparr>"
    have "HASH_EXPAND_BUCKETS mem s = Inr (u\<lparr>tbl := Some t'\<rparr>)"
      using t(1) True u(1) k' k(4) c(1)
      by (simp add: HASH_EXPAND_BUCKETS_def get_tbl_def Let_def sh nb n(2) ideal_def [symmetric] t'_def ineff_def
          del: replicate_Suc power_Suc)
    moreover have "tbl_ok u t' X"
    proof -
      have "hashv u = hashv s" using u(2) by (rule chains_only_fields)
      moreover have "log2_num_buckets t + 1 = of_nat (Suc k)" using k(3) by simp
      ultimately show ?thesis using k' u(3,4) n(1) unfolding tbl_ok_def t'_def by (auto intro!: exI [of _ "Suc k"])
    qed
    ultimately show ?thesis using u(2) by (intro disjI2 exI [of _ u] exI [of _ t']) (simp add: t'_def)
  qed
qed

subsection \<open>Finding\<close>

definition or_null :: "addr option \<Rightarrow> addr" where
  "or_null v = (case v of None \<Rightarrow> NULL | Some x \<Rightarrow> x)"

lemma find_in_bkt_ok:
  assumes "seg (hh_next s) (hh_prev s) a c NULL" "set c \<subseteq> elts s"
  shows "HASH_FIND_IN_BKT s key len (first c)
    = Some (Inr (or_null (find (\<lambda>x. keylen s x = len \<and> HASH_KEYCMP (hkey s x) key len) c)))"
  using assms
proof (induction c arbitrary: a)
  case Nil
  then show ?case by (subst HASH_FIND_IN_BKT.simps) (simp add: or_null_def)
next
  case (Cons x c)
  have "hh_next s x = first c" using Cons.prems(1) by auto
  then show ?case using Cons by (subst HASH_FIND_IN_BKT.simps) (auto simp: or_null_def)
qed

lemma keycmp_iff:
  assumes "key_ok s x" "length r < 2 ^ 32"
  shows "keylen s x = of_nat (length r) \<and> HASH_KEYCMP (hkey s x) r (of_nat (length r)) \<longleftrightarrow> hkey s x = r"
proof -
  have "length (hkey s x) = length r" if "(of_nat (length (hkey s x)) :: uw) = of_nat (length r)"
    using arg_cong [OF that, of unat] assms unat_of_nat_small by (simp add: key_ok_def)
  then show ?thesis using assms unat_of_nat_small [OF assms(2)] by (auto simp: key_ok_def HASH_KEYCMP_def)
qed

lemma find_by_key:
  assumes "distinct (map g xs)" "set c \<subseteq> set xs" "\<And>x. x \<in> set xs \<Longrightarrow> g x = r \<Longrightarrow> x \<in> set c"
  shows "find (\<lambda>x. g x = r) c = find (\<lambda>x. g x = r) xs"
proof (cases "find (\<lambda>x. g x = r) xs")
  case None
  then have "find (\<lambda>x. g x = r) c = None" using assms(2) by (auto simp: find_None_iff)
  then show ?thesis using None by simp
next
  case (Some x)
  then have x: "x \<in> set xs" "g x = r" by (auto simp: find_Some_iff)
  then have "find (\<lambda>x. g x = r) c \<noteq> None" using assms(3) by (auto simp: find_None_iff)
  then obtain y where y: "find (\<lambda>x. g x = r) c = Some y" by blast
  then have "y \<in> set c" "g y = r" by (auto simp: find_Some_iff)
  then have "y = x" using x assms(1,2) by (auto simp: distinct_map dest: inj_onD)
  then show ?thesis using Some y by simp
qed

lemma find_ok:
  assumes r: "hash_rep s xs" and d: "distinct (map (hkey s) xs)" and l: "length r < 2 ^ 32"
  shows "HASH_FIND_STR r s = Inr (or_null (find (\<lambda>x. hkey s x = r) xs))"
proof (cases "xs = []")
  case True
  then show ?thesis using r by (simp add: hash_rep_def HASH_FIND_STR_def HASH_FIND_def or_null_def)
next
  case False
  then obtain t where t: "tbl s = Some t" "tbl_ok s t (set xs)" and h: "head s \<noteq> NULL"
    and k: "\<forall>x \<in> set xs. key_ok s x" "set xs \<subseteq> elts s"
    using r first_NULL unfolding hash_rep_def by metis
  let ?f = "\<lambda>x. HASH_TO_BKT (hashv s x) (num_buckets t)"
  let ?b = "HASH_TO_BKT (HASH_FCN r) (num_buckets t)"
  have b: "?b < length (buckets t)" using t(2) by (rule tbl_ok_less)
  then obtain c where c: "bucket_rep s (buckets t ! ?b) c" "set c = {x \<in> set xs. ?f x = ?b}"
    using t(2) unfolding tbl_ok_def bkts_def by blast
  have e: "find (\<lambda>x. keylen s x = of_nat (length r) \<and> HASH_KEYCMP (hkey s x) r (of_nat (length r))) c
      = find (\<lambda>x. hkey s x = r) c"
    using k(1) c(2) l by (intro find_cong refl keycmp_iff) auto
  have "find (\<lambda>x. hkey s x = r) c = find (\<lambda>x. hkey s x = r) xs"
    using c(2) k(1) by (intro find_by_key d) (auto simp: key_ok_def)
  then have "HASH_FIND_IN_BKT s r (of_nat (length r)) (hh_head (buckets t ! ?b))
      = Some (Inr (or_null (find (\<lambda>x. hkey s x = r) xs)))"
    using find_in_bkt_ok [of s NULL c r "of_nat (length r)"] c k(2) e by (auto simp: bucket_rep_def)
  then show ?thesis
    using h t(1) b unat_of_nat_small [OF l]
    by (simp add: HASH_FIND_STR_def HASH_FIND_def get_tbl_def get_bkt_def ut_loop_def)
qed

subsection \<open>Adding\<close>

lemma chains_only_tbl: "chains_only X (s\<lparr>tbl := v\<rparr>) u \<Longrightarrow> chains_only X s (u\<lparr>tbl := tbl s\<rparr>)"
  unfolding chains_only_def by (elim exE) (rule exI [of _ "hh_prev u"], rule exI [of _ "hh_next u"], simp)

lemma tbl_ok_tbl [simp]: "tbl_ok (s\<lparr>tbl := v\<rparr>) t X = tbl_ok s t X"
  by (simp add: tbl_ok_def)

lemma add_to_bkt_ok:
  assumes t: "tbl s = Some t" "tbl_ok s t X" "num_items t \<noteq> 0" and X: "X \<subseteq> elts s" "NULL \<notin> X" and m: "\<not> mem (2 ^ 35)"
    and x: "x \<notin> X" "x \<noteq> NULL" "x \<in> elts s"
  shows "HASH_ADD_TO_BKT mem (HASH_TO_BKT (hashv s x) (num_buckets t)) x s = Inl Exit
    \<or> (\<exists>u t'. HASH_ADD_TO_BKT mem (HASH_TO_BKT (hashv s x) (num_buckets t)) x s = Inr (u\<lparr>tbl := Some t'\<rparr>)
        \<and> chains_only (insert x X) s u \<and> tbl_ok u t' (insert x X) \<and> num_items t' = num_items t \<and> tail t' = tail t)"
proof -
  let ?f = "\<lambda>x. HASH_TO_BKT (hashv s x) (num_buckets t)"
  let ?k = "(buckets t ! ?f x)\<lparr>count := count (buckets t ! ?f x) + 1, hh_head := x\<rparr>"
  have b: "?f x < length (buckets t)" using t(2) by (rule tbl_ok_less)
  obtain u where u: "set_hh_prev (hh_head (buckets t ! ?f x)) x
      (s\<lparr>hh_prev := (hh_prev s)(x := NULL), hh_next := (hh_next s)(x := hh_head (buckets t ! ?f x))\<rparr>) = Inr u"
    "chains_only (insert x X) s u" "bkts u ((buckets t)[?f x := ?k]) ?f (insert x X)"
    using bkts_push [of s "buckets t" ?f X x ?k] t(2) b X x unfolding tbl_ok_def by auto
  note f = chains_only_fields [OF u(2)]
  define t1 where "t1 = t\<lparr>buckets := (buckets t)[?f x := ?k]\<rparr>"
  have t1: "tbl_ok u t1 (insert x X)" "num_items t1 = num_items t" "tail t1 = tail t"
    using t(2) u(3) f(6) by (auto simp: tbl_ok_def t1_def)
  define full where "full = (count ?k \<ge> (expand_mult ?k + 1) * 10 \<and> noexpand t \<noteq> 1)"
  have a: "HASH_ADD_TO_BKT mem (?f x) x s = (if full then HASH_EXPAND_BUCKETS mem (u\<lparr>tbl := Some t1\<rparr>) else Inr (u\<lparr>tbl := Some t1\<rparr>))"
  proof -
    have c: "s\<lparr>hh_next := n, hh_prev := p\<rparr> = s\<lparr>hh_prev := p, hh_next := n\<rparr>" for n p by simp
    show ?thesis
      using t(1) b u(1) by (simp add: c HASH_ADD_TO_BKT_def get_tbl_def get_bkt_def t1_def full_def Let_def)
  qed
  show ?thesis
  proof (cases full)
    case False
    then show ?thesis using a t1 u(2) by auto
  next
    case True
    have "HASH_EXPAND_BUCKETS mem (u\<lparr>tbl := Some t1\<rparr>) = Inl Exit
      \<or> (\<exists>v t'. HASH_EXPAND_BUCKETS mem (u\<lparr>tbl := Some t1\<rparr>) = Inr (v\<lparr>tbl := Some t'\<rparr>)
        \<and> chains_only (insert x X) (u\<lparr>tbl := Some t1\<rparr>) v \<and> tbl_ok v t' (insert x X)
        \<and> num_items t' = num_items t1 \<and> tail t' = tail t1)"
      using t1 t(3) X x m f(1) by (intro expand_ok) auto
    then show ?thesis
    proof
      assume "\<exists>v t'. HASH_EXPAND_BUCKETS mem (u\<lparr>tbl := Some t1\<rparr>) = Inr (v\<lparr>tbl := Some t'\<rparr>)
        \<and> chains_only (insert x X) (u\<lparr>tbl := Some t1\<rparr>) v \<and> tbl_ok v t' (insert x X)
        \<and> num_items t' = num_items t1 \<and> tail t' = tail t1"
      then obtain v t' where v: "HASH_EXPAND_BUCKETS mem (u\<lparr>tbl := Some t1\<rparr>) = Inr (v\<lparr>tbl := Some t'\<rparr>)"
        "chains_only (insert x X) (u\<lparr>tbl := Some t1\<rparr>) v" "tbl_ok v t' (insert x X)"
        "num_items t' = num_items t1" "tail t' = tail t1" by blast
      have "chains_only (insert x X) s (v\<lparr>tbl := tbl u\<rparr>)"
        using u(2) chains_only_tbl [OF v(2)] by (rule chains_only_trans) auto
      then show ?thesis using a True v t1 by (intro disjI2 exI [of _ "v\<lparr>tbl := tbl u\<rparr>"] exI [of _ t']) simp
    qed (use a True in simp)
  qed
qed

lemma bkts_app [simp]:
  "bkts (s\<lparr>hnext := n\<rparr>) bs f X = bkts s bs f X" "bkts (s\<lparr>hprev := n\<rparr>) bs f X = bkts s bs f X"
  "bkts (s\<lparr>head := h\<rparr>) bs f X = bkts s bs f X" "bkts (s\<lparr>hkey := k\<rparr>) bs f X = bkts s bs f X"
  "bkts (s\<lparr>keylen := l\<rparr>) bs f X = bkts s bs f X" "bkts (s\<lparr>hashv := v\<rparr>) bs f X = bkts s bs f X"
  by (simp_all add: bkts_def bucket_rep_def)

lemma tbl_ok_fresh:
  assumes "buckets t = replicate 32 \<lparr>hh_head = NULL, count = 0, expand_mult = 0\<rparr>" "num_buckets t = 32" "log2_num_buckets t = 5"
  shows "tbl_ok s t {}"
proof -
  have "bucket_rep s (buckets t ! j) []" if "j < length (buckets t)" for j
    using that unfolding assms(1) by (simp only: length_replicate nth_replicate) (simp add: bucket_rep_def)
  then have "bkts s (buckets t) f {}" for f unfolding bkts_def by (metis (no_types, lifting) Collect_empty_eq empty_iff list.set(1))
  then show ?thesis using assms by (auto simp: tbl_ok_def intro!: exI [of _ 5])
qed

lemma add_ok:
  assumes r: "hash_rep s xs" and x: "x \<in> elts s" "x \<noteq> NULL" "x \<notin> set xs" and key: "length key < 2 ^ 32"
    and n: "length xs + 1 < 2 ^ 32" and m: "\<not> mem (2 ^ 35)"
  shows "HASH_ADD_KEYPTR mem key (of_nat (length key)) x s = Inl Exit
    \<or> (\<exists>u. HASH_ADD_KEYPTR mem key (of_nat (length key)) x s = Inr u \<and> hash_rep u (xs @ [x])
         \<and> hkey u = (hkey s)(x := key) \<and> elts u = elts s)"
proof -
  define s1 where "s1 = s\<lparr>hnext := (hnext s)(x := NULL), hkey := (hkey s)(x := key),
    keylen := (keylen s)(x := of_nat (length key))\<rparr>"
  define s2 where "s2 = (if xs = [] then HASH_MAKE_TABLE mem (s1\<lparr>head := x, hprev := (hprev s1)(x := NULL)\<rparr>)
     else ut_bind (get_tbl s1) (\<lambda>t. ut_bind (deref s1 (tail t)) (\<lambda>_.
       Inr (s1\<lparr>hnext := (hnext s1)(tail t := x), hprev := (hprev s1)(x := tail t), tbl := Some (t\<lparr>tail := x\<rparr>)\<rparr>))))"
  have h: "head s1 = NULL \<longleftrightarrow> xs = []" using r first_NULL by (auto simp: hash_rep_def s1_def)
  have r': "seg (hnext s) (hprev s) NULL xs NULL" "distinct xs" "set xs \<subseteq> elts s" "\<forall>x \<in> set xs. key_ok s x" "head s = first xs"
    using r by (auto simp: hash_rep_def)
  have s2: "s2 = Inl Exit \<or> (\<exists>u t. s2 = Inr u \<and> tbl u = Some t \<and> tbl_ok u t (set xs) \<and> num_items t = of_nat (length xs)
      \<and> tail t = x \<and> seg (hnext u) (hprev u) NULL (xs @ [x]) NULL \<and> head u = first (xs @ [x])
      \<and> elts u = elts s \<and> hkey u = (hkey s)(x := key) \<and> keylen u = (keylen s)(x := of_nat (length key)) \<and> hashv u = hashv s)"
  proof (cases "xs = []")
    case True
    show ?thesis
    proof (cases "mem 64 \<and> mem 512")
      case True
      define u where "u = s1\<lparr>head := x, hprev := (hprev s1)(x := NULL), tbl := Some (fresh_table x)\<rparr>"
      have "s2 = Inr u" using True \<open>xs = []\<close> by (simp add: s2_def HASH_MAKE_TABLE_def u_def)
      moreover have "tbl_ok u (fresh_table x) {}" by (rule tbl_ok_fresh) (simp_all only: fresh_table_def ut_table.simps)
      moreover have "num_items (fresh_table x) = 0" "tail (fresh_table x) = x"
        by (simp_all only: fresh_table_def ut_table.simps)
      ultimately show ?thesis using \<open>xs = []\<close> x(2)
        by (intro disjI2 exI [of _ u] exI [of _ "fresh_table x"]) (simp add: u_def s1_def)
    qed (use \<open>xs = []\<close> in \<open>simp add: s2_def HASH_MAKE_TABLE_def\<close>)
  next
    case False
    then obtain t where t: "tbl s = Some t" "tbl_ok s t (set xs)" "num_items t = of_nat (length xs)" "tail t = last xs"
      using r by (auto simp: hash_rep_def)
    have "last xs \<in> set xs" using False by simp
    then have l: "last xs \<in> elts s" "last xs \<noteq> NULL" using r'(3) seg_not_NULL [OF r'(1)] by (blast, metis)
    have "seg ((hnext s)(x := NULL, last xs := x)) ((hprev s)(x := last xs)) NULL (xs @ [x]) NULL"
      using seg_snoc [OF r'(1) False x(2,3) r'(2)] .
    then show ?thesis using False t l r'(5)
      by (auto simp: s2_def s1_def get_tbl_def deref_def tbl_ok_def first_append)
  qed
  have a: "HASH_ADD_KEYPTR mem key (of_nat (length key)) x s = ut_bind s2 (\<lambda>s2. ut_bind (get_tbl s2) (\<lambda>t.
      HASH_ADD_TO_BKT mem (HASH_TO_BKT (HASH_FCN key) (num_buckets t)) x
        (s2\<lparr>tbl := Some (t\<lparr>num_items := num_items t + 1\<rparr>), hashv := (hashv s2)(x := HASH_FCN key)\<rparr>)))"
    using x(1,2) h unat_of_nat_small [OF key]
    by (simp add: HASH_ADD_KEYPTR_def Let_def s2_def s1_def [symmetric])
  show ?thesis
    using s2
  proof (elim disjE exE conjE)
    fix u t
    assume u: "s2 = Inr u" "tbl u = Some t" "tbl_ok u t (set xs)" "num_items t = of_nat (length xs)"
      "tail t = x" "seg (hnext u) (hprev u) NULL (xs @ [x]) NULL" "head u = first (xs @ [x])"
      "elts u = elts s" "hkey u = (hkey s)(x := key)" "keylen u = (keylen s)(x := of_nat (length key))" "hashv u = hashv s"
    define t' where "t' = t\<lparr>num_items := num_items t + 1\<rparr>"
    define v where "v = u\<lparr>tbl := Some t', hashv := (hashv u)(x := HASH_FCN key)\<rparr>"
    have "bkts u (buckets t) (\<lambda>y. HASH_TO_BKT (hashv v y) (num_buckets t)) (set xs)
        = bkts u (buckets t) (\<lambda>y. HASH_TO_BKT (hashv u y) (num_buckets t)) (set xs)"
      using x(3) by (intro bkts_cong) (auto simp: v_def)
    then have t': "tbl_ok v t' (set xs)" using u(3) by (simp add: tbl_ok_def t'_def v_def)
    have n': "num_items t' = of_nat (length xs + 1)" using u(4) by (simp add: t'_def)
    then have "num_items t' \<noteq> 0" using unat_of_nat_small [OF n] by (metis add_is_0 one_neq_zero unat_0)
    moreover have "NULL \<notin> set xs" using r'(1) by (rule seg_not_NULL)
    ultimately have b: "HASH_ADD_TO_BKT mem (HASH_TO_BKT (hashv v x) (num_buckets t')) x v = Inl Exit
      \<or> (\<exists>w t''. HASH_ADD_TO_BKT mem (HASH_TO_BKT (hashv v x) (num_buckets t')) x v = Inr (w\<lparr>tbl := Some t''\<rparr>)
        \<and> chains_only (insert x (set xs)) v w \<and> tbl_ok w t'' (insert x (set xs)) \<and> num_items t'' = num_items t' \<and> tail t'' = tail t')"
      using t' x m r'(3) u(8) by (intro add_to_bkt_ok) (auto simp: v_def)
    have a': "HASH_ADD_KEYPTR mem key (of_nat (length key)) x s
        = HASH_ADD_TO_BKT mem (HASH_TO_BKT (hashv v x) (num_buckets t')) x v"
      using a u(1,2) by (simp add: get_tbl_def v_def t'_def)
    show ?thesis
      using b
    proof (elim disjE exE conjE)
      fix w t''
      assume w: "HASH_ADD_TO_BKT mem (HASH_TO_BKT (hashv v x) (num_buckets t')) x v = Inr (w\<lparr>tbl := Some t''\<rparr>)"
        "chains_only (insert x (set xs)) v w" "tbl_ok w t'' (insert x (set xs))" "num_items t'' = num_items t'" "tail t'' = tail t'"
      note f = chains_only_fields [OF w(2)]
      have k: "key_ok w y" if "y \<in> insert x (set xs)" for y
        using that r'(4) x(3) key f(4-6) u(9-11) by (auto simp: key_ok_def v_def)
      have "hash_rep (w\<lparr>tbl := Some t''\<rparr>) (xs @ [x])"
        unfolding hash_rep_def using f(1-3,7) w(3-5) k u(5-8) n' r'(2,3) x
        by (auto simp: v_def t'_def key_ok_def)
      then show ?thesis using a' w(1) f(1,4) u(8,9) by (intro disjI2 exI [of _ "w\<lparr>tbl := Some t''\<rparr>"]) (simp add: v_def)
    qed (use a' in simp)
  qed (use a in simp)
qed

subsection \<open>Deleting and iterating\<close>

lemma delete_ok:
  assumes r: "hash_rep s xs" and x: "x \<in> set xs"
  obtains u where "HASH_DELETE x s = Inr u" "hash_rep u (remove1 x xs)" "hkey u = hkey s" "elts u = elts s"
    "hnext u x = hnext s x"
proof -
  have r': "head s = first xs" "seg (hnext s) (hprev s) NULL xs NULL" "distinct xs" "set xs \<subseteq> elts s" "\<forall>x \<in> set xs. key_ok s x"
    using r by (auto simp: hash_rep_def)
  obtain t where t: "tbl s = Some t" "tbl_ok s t (set xs)" "num_items t = of_nat (length xs)" "tail t = last xs"
    using r x by (cases xs) (auto simp: hash_rep_def)
  have z: "NULL \<notin> set xs" using r'(2) by (rule seg_not_NULL)
  obtain us ws where xs: "xs = us @ x # ws" using x by (meson split_list)
  have d: "remove1 x xs = us @ ws" using r'(3) unfolding xs by (simp add: remove1_append)
  have nx: "hprev s x = last (NULL # us)" "hnext s x = first ws" "x \<noteq> NULL" using seg_at r'(2) unfolding xs by auto
  have p: "hprev s x = NULL \<longleftrightarrow> us = []" "us \<noteq> [] \<Longrightarrow> hprev s x \<in> set us"
    using nx(1) z unfolding xs by (cases us rule: rev_cases; auto)+
  have q: "hnext s x = NULL \<longleftrightarrow> ws = []" "ws \<noteq> [] \<Longrightarrow> hnext s x \<in> set ws"
    using nx(2) z unfolding xs by (cases ws; auto)+
  have xd: "deref s x = Inr ()" using nx(3) r'(4) x by auto
  show thesis
  proof (cases "us = [] \<and> ws = []")
    case True
    then have "HASH_DELETE x s = Inr (s\<lparr>tbl := None, head := NULL\<rparr>)"
      using xd p(1) q(1) t(1) by (simp add: HASH_DELETE_def get_tbl_def)
    then show thesis by (rule that) (use True in \<open>simp_all add: d hash_rep_def\<close>)
  next
    case False
    define t1 where "t1 = (if x = tail t then t\<lparr>tail := hprev s x\<rparr> else t)"
    define s3 where "s3 = s\<lparr>tbl := Some t1, hnext := put (hprev s x) (hnext s x) (hnext s),
      head := (if us = [] then hnext s x else head s), hprev := put (hnext s x) (hprev s x) (hprev s)\<rparr>"
    let ?f = "\<lambda>y. HASH_TO_BKT (hashv s y) (num_buckets t)"
    let ?b = "buckets t ! ?f x"
    let ?k = "?b\<lparr>count := count ?b - 1, hh_head := (if hh_head ?b = x then hh_next s3 x else hh_head ?b)\<rparr>"
    define v where "v = Some (t1\<lparr>buckets := (buckets t1)[?f x := ?k]\<rparr>)"
    have t1: "buckets t1 = buckets t" "num_buckets t1 = num_buckets t" "num_items t1 = num_items t"
      "log2_num_buckets t1 = log2_num_buckets t" by (simp_all add: t1_def)
    have b: "?f x < length (buckets t)" using t(2) by (rule tbl_ok_less)
    have s3: "bkts s3 (buckets t) ?f (set xs)" using t(2) by (simp add: tbl_ok_def s3_def)
    obtain w where w: "ut_bind (set_hh_next (hh_prev s3 x) (hh_next s3 x) (s3\<lparr>tbl := v\<rparr>)) (\<lambda>u. set_hh_prev (hh_next u x) (hh_prev u x) u) = Inr w"
      "chains_only (set xs - {x}) (s3\<lparr>tbl := v\<rparr>) w" "bkts w ((buckets t)[?f x := ?k]) ?f (set xs - {x})"
      by (rule bkts_pull [OF s3 b x, where k = ?k and v = v]) (use r'(4) z in \<open>simp_all add: s3_def\<close>)
    note f = chains_only_fields [OF w(2)]
    define t' where "t' = t1\<lparr>buckets := (buckets t1)[?f x := ?k], num_items := num_items t1 - 1\<rparr>"
    define s2 where "s2 = s\<lparr>tbl := Some t1, hnext := put (hprev s x) (hnext s x) (hnext s),
      head := (if us = [] then hnext s x else head s)\<rparr>"
    have x2: "hnext s2 x = hnext s x" "hprev s2 x = hprev s x" "hashv s3 x = hashv s x" "hh_next s3 x = hh_next s x"
      using p r'(3) unfolding xs by (auto simp: s2_def s3_def put_def)
    have "hprev s x = NULL \<or> hprev s x \<in> elts s" "hnext s x = NULL \<or> hnext s x \<in> elts s2"
      using p q r'(4) unfolding xs s2_def by auto
    then have e2: "(if hprev s x \<noteq> NULL
        then ut_bind (deref (s\<lparr>tbl := Some t1\<rparr>) (hprev s x)) (\<lambda>_. Inr (s\<lparr>tbl := Some t1, hnext := (hnext s)(hprev s x := hnext s x)\<rparr>))
        else Inr (s\<lparr>tbl := Some t1, head := hnext s x\<rparr>)) = Inr s2" (is "?e = _")
      and e3: "set_prev (hnext s x) (hprev s x) s2 = Inr s3"
      using p(1) by (auto simp: s2_def s3_def put_def set_hh_ok deref_def)
    have "tbl s3 = Some t1" by (simp add: s3_def)
    then have "HASH_DEL_IN_BKT (?f x) x s3 = Inr w"
      using w(1) b t1 by (simp add: HASH_DEL_IN_BKT_def get_tbl_def get_bkt_def v_def split del: if_split)
    moreover have "tbl w = v" using f(8) by simp
    moreover have np: "\<not> (hprev s x = NULL \<and> hnext s x = NULL)" using p(1) q(1) False by simp
    have gt: "get_tbl s = Inr t" using t(1) by (simp add: get_tbl_def)
    have "HASH_DELETE x s = ut_bind ?e (\<lambda>s2. ut_bind (set_prev (hnext s2 x) (hprev s2 x) s2) (\<lambda>s3.
        ut_bind (HASH_DEL_IN_BKT (HASH_TO_BKT (hashv s3 x) (num_buckets t)) x s3) (\<lambda>s4.
        ut_bind (get_tbl s4) (\<lambda>t4. Inr (s4\<lparr>tbl := Some (t4\<lparr>num_items := num_items t4 - 1\<rparr>)\<rparr>)))))"
      unfolding HASH_DELETE_def xd gt ut_bind_simps if_not_P [OF np] Let_def t1_def [symmetric]
      by (simp cong: if_cong split del: if_split)
    ultimately have "HASH_DELETE x s = Inr (w\<lparr>tbl := Some t'\<rparr>)"
      unfolding e2 using e3 x2 by (simp add: get_tbl_def v_def t'_def)
    moreover have "hash_rep (w\<lparr>tbl := Some t'\<rparr>) (us @ ws)"
    proof -
      have "seg (hnext w) (hprev w) NULL (us @ ws) NULL"
        using seg_unlink r'(2,3) unfolding xs by (simp add: f s3_def)
      moreover have "head w = first (us @ ws)" using r'(1) nx(2) unfolding xs by (simp add: f s3_def first_append)
      moreover have "tbl_ok w t' (set (us @ ws))"
      proof -
        have "set xs - {x} = set (us @ ws)" using r'(3) unfolding xs by auto
        moreover have "hashv w = hashv s" using f(6) by (simp add: s3_def)
        ultimately show ?thesis using w(3) t(2) t1 by (auto simp: tbl_ok_def t'_def)
      qed
      moreover have "num_items t' = of_nat (length (us @ ws))" using t(3) t1 unfolding xs by (simp add: t'_def)
      moreover have "tail t' = last (us @ ws)" if "us @ ws \<noteq> []"
        using that t(4) nx(1) r'(3) unfolding xs by (cases ws rule: rev_cases) (auto simp: t'_def t1_def)
      moreover have "key_ok w y" if "y \<in> set (us @ ws)" for y
        using that r'(5) f(4-6) unfolding xs by (auto simp: key_ok_def s3_def)
      ultimately show ?thesis using r'(3,4) f(1) unfolding hash_rep_def xs by (auto simp: s3_def key_ok_def)
    qed
    moreover have "hkey w = hkey s" "elts w = elts s" "hnext w x = hnext s x"
      using f p r'(3) unfolding xs s3_def by (auto simp: put_def)
    ultimately show thesis using that [of "w\<lparr>tbl := Some t'\<rparr>"] by (simp add: d)
  qed
qed

lemma fsck_chain_ok:
  assumes "seg nx pv a xs NULL" "set xs \<subseteq> elts s"
  shows "fsck_chain s nx pv a (first xs) n = Some (Inr (n + of_nat (length xs)))"
  using assms
proof (induction xs arbitrary: a n)
  case Nil
  then show ?case by (subst fsck_chain.simps) simp
next
  case (Cons x xs)
  have "nx x = first xs" using Cons.prems(1) by auto
  then show ?case using Cons by (subst fsck_chain.simps) (auto simp: add.assoc)
qed

lemma fsck_buckets_ok:
  assumes "list_all2 (bucket_rep s) bs css" "set (concat css) \<subseteq> elts s"
  shows "fsck_buckets s bs n = Inr (n + of_nat (length (concat css)))"
  using assms
proof (induction bs css arbitrary: n rule: list_all2_induct)
  case (Cons b bs c css)
  have "fsck_chain s (hh_next s) (hh_prev s) NULL (hh_head b) 0 = Some (Inr (of_nat (length c)))" "count b = of_nat (length c)"
    using Cons.hyps(1) Cons.prems fsck_chain_ok [of "hh_next s" "hh_prev s" NULL c s 0] by (auto simp: bucket_rep_def)
  then show ?case using Cons.IH Cons.prems by (simp add: ut_loop_def add.assoc)
qed simp

lemma fsck_ok: "hash_rep s xs \<Longrightarrow> HASH_FSCK s = Inr ()"
proof (cases "xs = []")
  case False
  assume r: "hash_rep s xs"
  then obtain t where t: "tbl s = Some t" "tbl_ok s t (set xs)" "num_items t = of_nat (length xs)"
    and s: "seg (hnext s) (hprev s) NULL xs NULL" "distinct xs" "set xs \<subseteq> elts s" "head s = first xs"
    using False by (auto simp: hash_rep_def)
  obtain css where c: "list_all2 (bucket_rep s) (buckets t) css" "distinct (concat css)" "set (concat css) = set xs"
    using bkts_chains [OF _ tbl_ok_less [OF t(2)]] t(2) unfolding tbl_ok_def by metis
  have "length (concat css) = length xs" using c(2,3) s(2) distinct_card by metis
  then show ?thesis
    using fsck_buckets_ok [OF c(1), of 0] fsck_chain_ok [OF s(1,3), of 0] c(3) s(3,4) t(1,3)
    by (simp add: HASH_FSCK_def get_tbl_def ut_loop_def)
qed (simp add: hash_rep_def HASH_FSCK_def)

lemma walk_ok:
  assumes "seg (hnext s) (hprev s) a xs NULL" "set xs \<subseteq> elts s"
  shows "hash_walk s (first xs) ps = Some (Inr (ps @ xs))"
  using assms
proof (induction xs arbitrary: a ps)
  case Nil
  then show ?case by (subst hash_walk.simps) simp
next
  case (Cons x xs)
  have "hnext s x = first xs" using Cons.prems(1) by auto
  then show ?case using Cons by (subst hash_walk.simps) auto
qed

lemma iter_ok: "hash_rep s xs \<Longrightarrow> HASH_ITER s = Inr xs"
  using walk_ok [of s NULL xs "[]"] by (simp add: hash_rep_def HASH_ITER_def ut_loop_def)

lemma count_ok: "hash_rep s xs \<Longrightarrow> HASH_COUNT s = Inr (of_nat (length xs))"
  using first_NULL [of "hnext s" "hprev s" NULL xs NULL] by (auto simp: hash_rep_def HASH_COUNT_def get_tbl_def)

lemma clear_ok: "hash_rep s xs \<Longrightarrow> \<exists>u. HASH_CLEAR s = Inr u \<and> hash_rep u []"
  using first_NULL [of "hnext s" "hprev s" NULL xs NULL] by (cases "xs = []") (auto simp: hash_rep_def HASH_CLEAR_def get_tbl_def)

subsection \<open>The dictionary of subscriptions\<close>

text \<open>
  What \<^verbatim>\<open>ivy.c\<close> does with the table: it looks a source up and adds it when it is not there, looks one up and
  deletes its element, or deletes all elements in a loop along \<^verbatim>\<open>hh.next\<close>. \<open>n\<close> is the next address of \<^verbatim>\<open>malloc\<close>.
\<close>

datatype dict_op = Subscribe string | Unsubscribe string | Forget_all

definition dict_add :: "(nat \<Rightarrow> bool) \<Rightarrow> string \<Rightarrow> ut_store \<times> addr \<Rightarrow> ut_stop + (ut_store \<times> addr)" where
  "dict_add mem r st = (case st of (s, n) \<Rightarrow>
     ut_bind (HASH_FIND_STR r s) (\<lambda>p.
       if p \<noteq> NULL then Inr (s, n)
       else ut_bind (HASH_ADD_KEYPTR mem r (of_nat (length r)) n (s\<lparr>elts := insert n (elts s)\<rparr>)) (\<lambda>s'. Inr (s', Suc n))))"

definition dict_del :: "string \<Rightarrow> ut_store \<times> addr \<Rightarrow> ut_stop + (ut_store \<times> addr)" where
  "dict_del r st = (case st of (s, n) \<Rightarrow>
     ut_bind (HASH_FIND_STR r s) (\<lambda>p.
       if p = NULL then Inr (s, n)
       else ut_bind (HASH_DELETE p s) (\<lambda>s'. Inr (s'\<lparr>elts := elts s' - {p}\<rparr>, n))))"

partial_function (option) del_all_loop :: "addr \<Rightarrow> ut_store \<Rightarrow> (ut_stop + ut_store) option" where
  "del_all_loop p s =
     (if p = NULL then Some (Inr s)
      else (case ut_bind (HASH_DELETE p s) (\<lambda>s'. ut_bind (deref s' p) (\<lambda>_. Inr s')) of
        Inl e \<Rightarrow> Some (Inl e)
      | Inr s' \<Rightarrow> del_all_loop (hnext s' p) s'))"

definition dict_del_all :: "ut_store \<times> addr \<Rightarrow> ut_stop + (ut_store \<times> addr)" where
  "dict_del_all st = (case st of (s, n) \<Rightarrow> ut_bind (ut_loop (del_all_loop (head s) s)) (\<lambda>s'. Inr (s', n)))"

primrec dict_run :: "(nat \<Rightarrow> bool) \<Rightarrow> dict_op list \<Rightarrow> ut_store \<times> addr \<Rightarrow> ut_stop + (ut_store \<times> addr)" where
  "dict_run mem [] st = Inr st"
| "dict_run mem (c # cs) st =
     ut_bind (case c of Subscribe r \<Rightarrow> dict_add mem r st | Unsubscribe r \<Rightarrow> dict_del r st | Forget_all \<Rightarrow> dict_del_all st)
       (dict_run mem cs)"

definition no_table :: "ut_store \<times> addr" where
  "no_table = (\<lparr>elts = {}, hprev = (\<lambda>_. NULL), hnext = (\<lambda>_. NULL), hh_prev = (\<lambda>_. NULL), hh_next = (\<lambda>_. NULL),
     hkey = (\<lambda>_. []), keylen = (\<lambda>_. 0), hashv = (\<lambda>_. 0), head = NULL, tbl = None\<rparr>, 1)"

text \<open>The abstract dictionary: its sources in the order in which they came.\<close>

primrec sources :: "dict_op \<Rightarrow> string list \<Rightarrow> string list" where
  "sources (Subscribe r) ks = (if r \<in> set ks then ks else ks @ [r])"
| "sources (Unsubscribe r) ks = remove1 r ks"
| "sources Forget_all ks = []"

primrec op_key_ok :: "dict_op \<Rightarrow> bool" where
  "op_key_ok (Subscribe r) \<longleftrightarrow> length r < 2 ^ 32"
| "op_key_ok (Unsubscribe r) \<longleftrightarrow> length r < 2 ^ 32"
| "op_key_ok Forget_all \<longleftrightarrow> True"

definition dict_rep :: "ut_store \<times> addr \<Rightarrow> string list \<Rightarrow> bool" where
  "dict_rep st ks \<longleftrightarrow> 0 < snd st \<and> (\<forall>x \<in> elts (fst st). x < snd st)
     \<and> (\<exists>xs. hash_rep (fst st) xs \<and> map (hkey (fst st)) xs = ks \<and> distinct ks)"

lemma find_null:
  assumes "hash_rep s xs"
  shows "or_null (find P xs) = NULL \<longleftrightarrow> (\<forall>x \<in> set xs. \<not> P x)"
proof -
  have "NULL \<notin> set xs" using assms seg_not_NULL unfolding hash_rep_def by blast
  moreover have "x \<in> set xs \<and> P x" if "find P xs = Some x" for x using that by (auto simp: find_Some_iff)
  moreover have "\<forall>x \<in> set xs. \<not> P x" if "find P xs = None" using that by (auto simp: find_None_iff)
  ultimately show ?thesis by (cases "find P xs") (auto simp: or_null_def)
qed

lemma dict_add_ok:
  assumes r: "dict_rep (s, n) ks" and l: "length r < 2 ^ 32" "length ks + 1 < 2 ^ 32" and m: "\<not> mem (2 ^ 35)"
  shows "dict_add mem r (s, n) = Inl Exit
    \<or> (\<exists>st. dict_add mem r (s, n) = Inr st \<and> dict_rep st (sources (Subscribe r) ks))"
proof -
  obtain xs where xs: "hash_rep s xs" "map (hkey s) xs = ks" "distinct ks" and n: "0 < n" "\<forall>x \<in> elts s. x < n"
    using r by (auto simp: dict_rep_def)
  note f = find_ok [OF xs(1) _ l(1)]
  show ?thesis
  proof (cases "r \<in> set ks")
    case True
    then have "or_null (find (\<lambda>x. hkey s x = r) xs) \<noteq> NULL" using xs(2) find_null [OF xs(1)] by auto
    then show ?thesis using True r f xs(2,3) by (simp add: dict_add_def)
  next
    case False
    then have z: "or_null (find (\<lambda>x. hkey s x = r) xs) = NULL" using xs(2) find_null [OF xs(1)] by auto
    let ?s = "s\<lparr>elts := insert n (elts s)\<rparr>"
    have xe: "set xs \<subseteq> elts s" using xs(1) by (simp add: hash_rep_def)
    then have nx: "n \<notin> set xs" using n(2) by blast
    have "hash_rep ?s xs"
      using xs(1) by (auto simp: hash_rep_def tbl_ok_def bkts_def bucket_rep_def key_ok_def)
    then have "HASH_ADD_KEYPTR mem r (of_nat (length r)) n ?s = Inl Exit
      \<or> (\<exists>u. HASH_ADD_KEYPTR mem r (of_nat (length r)) n ?s = Inr u \<and> hash_rep u (xs @ [n])
         \<and> hkey u = (hkey ?s)(n := r) \<and> elts u = elts ?s)"
      using n nx l xs(2) m by (intro add_ok) auto
    then show ?thesis
    proof (elim disjE exE conjE)
      fix u
      assume u: "HASH_ADD_KEYPTR mem r (of_nat (length r)) n ?s = Inr u" "hash_rep u (xs @ [n])"
        "hkey u = (hkey ?s)(n := r)" "elts u = elts ?s"
      have "map (hkey u) (xs @ [n]) = ks @ [r]" using u(3) xs(2) nx by auto
      then have "dict_rep (u, Suc n) (ks @ [r])" using u(2,4) n xs(3) False by (auto simp: dict_rep_def)
      then show ?thesis using u(1) f xs(2,3) z False by (auto simp: dict_add_def)
    qed (use f xs(2,3) z in \<open>simp add: dict_add_def\<close>)
  qed
qed

lemma dict_del_ok:
  assumes r: "dict_rep (s, n) ks" and l: "length r < 2 ^ 32"
  shows "\<exists>st. dict_del r (s, n) = Inr st \<and> dict_rep st (sources (Unsubscribe r) ks)"
proof -
  obtain xs where xs: "hash_rep s xs" "map (hkey s) xs = ks" "distinct ks" and n: "0 < n" "\<forall>x \<in> elts s. x < n"
    using r by (auto simp: dict_rep_def)
  note f = find_ok [OF xs(1) _ l]
  show ?thesis
  proof (cases "find (\<lambda>x. hkey s x = r) xs")
    case None
    then have "r \<notin> set ks" using xs(2) by (auto simp: find_None_iff)
    then show ?thesis using None r f xs(2,3) by (simp add: dict_del_def or_null_def remove1_idem)
  next
    case (Some x)
    then have x: "x \<in> set xs" "hkey s x = r" by (auto simp: find_Some_iff)
    obtain us ws where u: "xs = us @ x # ws" "x \<notin> set us" using x(1) by (meson split_list_first)
    have "NULL \<notin> set xs" using xs(1) seg_not_NULL unfolding hash_rep_def by blast
    then have x0: "x \<noteq> NULL" using x(1) by metis
    obtain v where v: "HASH_DELETE x s = Inr v" "hash_rep v (remove1 x xs)" "hkey v = hkey s" "elts v = elts s"
      using delete_ok [OF xs(1) x(1)] by blast
    have d: "remove1 x xs = us @ ws" using u by (simp add: remove1_append)
    have k: "map (hkey s) (us @ ws) = remove1 r ks"
      using xs(2,3) x(2) unfolding u(1) by (auto simp: remove1_append)
    let ?v = "v\<lparr>elts := elts v - {x}\<rparr>"
    have "x \<notin> set (us @ ws)" using xs(1) unfolding hash_rep_def u(1) by auto
    then have "hash_rep ?v (us @ ws)"
      using v(2) unfolding d by (auto simp: hash_rep_def tbl_ok_def bkts_def bucket_rep_def key_ok_def)
    then have "dict_rep (?v, n) (remove1 r ks)"
      using n v(3,4) k xs(3) by (auto simp: dict_rep_def intro!: exI [of _ "us @ ws"])
    then show ?thesis using Some x0 v(1) f xs(2,3) by (simp add: dict_del_def or_null_def)
  qed
qed

lemma del_all_loop_ok:
  assumes "hash_rep s xs"
  shows "\<exists>u. del_all_loop (first xs) s = Some (Inr u) \<and> hash_rep u [] \<and> elts u = elts s"
  using assms
proof (induction xs arbitrary: s)
  case Nil
  then show ?case by (subst del_all_loop.simps) simp
next
  case (Cons x xs)
  obtain u where u: "HASH_DELETE x s = Inr u" "hash_rep u (remove1 x (x # xs))" "elts u = elts s" "hnext u x = hnext s x"
    using delete_ok [OF Cons.prems, of x] by auto
  have x: "x \<noteq> NULL" "x \<in> elts u" "hnext u x = first xs" using Cons.prems u(3,4) by (auto simp: hash_rep_def)
  obtain v where "del_all_loop (first xs) u = Some (Inr v)" "hash_rep v []" "elts v = elts u"
    using Cons.IH [of u] u(2) by auto
  then show ?case using x u(1,3) by (subst del_all_loop.simps) auto
qed

lemma dict_run_ok:
  assumes "dict_rep st ks" "\<forall>c \<in> set ops. op_key_ok c" "length ks + length ops < 2 ^ 32" "\<not> mem (2 ^ 35)"
  shows "dict_run mem ops st = Inl Exit
    \<or> (\<exists>st'. dict_run mem ops st = Inr st' \<and> dict_rep st' (fold sources ops ks))"
  using assms
proof (induction ops arbitrary: st ks)
  case (Cons c ops)
  obtain s n where st: "st = (s, n)" by force
  define v where "v = (case c of Subscribe r \<Rightarrow> dict_add mem r st | Unsubscribe r \<Rightarrow> dict_del r st | Forget_all \<Rightarrow> dict_del_all st)"
  have v: "v = Inl Exit \<or> (\<exists>st'. v = Inr st' \<and> dict_rep st' (sources c ks))"
  proof (cases c)
    case (Subscribe r)
    then show ?thesis using dict_add_ok [of s n ks r mem] Cons.prems by (simp add: v_def st)
  next
    case (Unsubscribe r)
    then show ?thesis using dict_del_ok [of s n ks r] Cons.prems by (simp add: v_def st)
  next
    case Forget_all
    obtain xs where xs: "hash_rep s xs" and n: "0 < n" "\<forall>x \<in> elts s. x < n"
      using Cons.prems(1) by (auto simp: dict_rep_def st)
    obtain u where "del_all_loop (first xs) s = Some (Inr u)" "hash_rep u []" "elts u = elts s"
      using del_all_loop_ok [OF xs] by blast
    moreover have "head s = first xs" using xs by (simp add: hash_rep_def)
    ultimately show ?thesis using Forget_all n
      by (auto simp: v_def st dict_del_all_def ut_loop_def dict_rep_def intro!: exI [of _ "[]"])
  qed
  have r: "dict_run mem (c # ops) st = ut_bind v (dict_run mem ops)" by (simp add: v_def)
  have "length (sources c ks) \<le> Suc (length ks)" by (cases c) (auto simp: length_remove1)
  then have l: "length (sources c ks) + length ops < 2 ^ 32" using Cons.prems(3) by simp
  from v show ?case
  proof (elim disjE exE conjE)
    fix st' assume "v = Inr st'" "dict_rep st' (sources c ks)"
    then show ?thesis using Cons.IH [of st' "sources c ks"] Cons.prems l r by simp
  qed (use r in simp)
qed simp

text \<open>
  (C20) The hash table of the dictionary is the list of its sources in the order of insertion. After any
  sequence of subscriptions, ends of subscriptions and clearings the macros have left no defined behaviour, the
  table is well formed (both chains of every element, the counts, the bucket of every hash), iteration yields
  the elements in the order in which their sources came, each source once, the count is their number, the
  lookup of any source finds its element and the check of debugging builds passes. The program ends instead only where \<^verbatim>\<open>malloc\<close> has no more
  memory, which must come before a table of 32 GiB; sources are shorter than 4 GiB.
\<close>

theorem dictionary_table:
  assumes "\<not> mem (2 ^ 35)" "\<forall>c \<in> set ops. op_key_ok c" "length ops < 2 ^ 32"
  shows "dict_run mem ops no_table = Inl Exit
    \<or> (\<exists>s n xs. dict_run mem ops no_table = Inr (s, n) \<and> hash_rep s xs
         \<and> map (hkey s) xs = fold sources ops [] \<and> distinct (fold sources ops [])
         \<and> HASH_FSCK s = Inr () \<and> HASH_ITER s = Inr xs \<and> HASH_COUNT s = Inr (of_nat (length xs))
         \<and> (\<forall>r. length r < 2 ^ 32 \<longrightarrow> HASH_FIND_STR r s = Inr (or_null (find (\<lambda>x. hkey s x = r) xs))))"
proof -
  have "hash_rep (fst no_table) []" by (simp add: hash_rep_def no_table_def)
  then have "dict_rep no_table []" by (auto simp: dict_rep_def no_table_def)
  moreover have "length ([] :: string list) + length ops < 2 ^ 32" using assms(3) by simp
  ultimately have "dict_run mem ops no_table = Inl Exit
    \<or> (\<exists>st'. dict_run mem ops no_table = Inr st' \<and> dict_rep st' (fold sources ops []))"
    using assms(1,2) by (intro dict_run_ok)
  then show ?thesis
  proof (elim disjE exE conjE)
    fix st assume r: "dict_run mem ops no_table = Inr st" "dict_rep st (fold sources ops [])"
    obtain s n where st: "st = (s, n)" by force
    obtain xs where xs: "hash_rep s xs" "map (hkey s) xs = fold sources ops []" "distinct (fold sources ops [])"
      using r(2) unfolding dict_rep_def st by auto
    have "\<forall>r. length r < 2 ^ 32 \<longrightarrow> HASH_FIND_STR r s = Inr (or_null (find (\<lambda>x. hkey s x = r) xs))"
      using find_ok [OF xs(1)] xs(2,3) by simp
    then show ?thesis using r(1) st xs fsck_ok [OF xs(1)] iter_ok [OF xs(1)] count_ok [OF xs(1)] by blast
  qed simp
qed

text \<open>The dictionary of \<open>Ivy_Dict\<close>, which is a list, has the same sources in the same order.\<close>

lemma dict_list_add:
  "map regexp_src (messSndByRegexp (addRegexpToDictionary px r c s)) = sources (Subscribe r) (map regexp_src (messSndByRegexp s))"
proof -
  have m: "regexp_src \<circ> (\<lambda>x. if regexp_src x = r then x\<lparr>clientList := f x\<rparr> else x) = regexp_src"
    for f :: "dict_entry \<Rightarrow> ivy_client list" by (rule ext) simp
  have n: "map regexp_src (messSndByRegexp (new_entry px r c s)) = map regexp_src (messSndByRegexp s) @ [r]"
    by (simp add: new_entry_def Let_def split: compile_result.split)
  show ?thesis
    using find_entry_None [of r s] find_entry_Some [of r s]
    by (cases "find_entry r s") (auto simp: addRegexpToDictionary_def Let_def m n crash_def)
qed

lemma dict_list_del:
  assumes "dict_wf (messSndByRegexp s)"
  shows "map regexp_src (messSndByRegexp (delRegexpForOneClientFromDictionary r c s))
    \<in> {map regexp_src (messSndByRegexp s), sources (Unsubscribe r) (map regexp_src (messSndByRegexp s))}"
proof (cases "find_entry r s")
  case (Some e)
  have "map regexp_src (clean_entries P (eid e) d) \<in> {map regexp_src d, remove1 (regexp_src e) (map regexp_src d)}"
    if "dict_wf d" "e \<in> set d" for P d
    using that
  proof (induction d)
    case (Cons x d)
    have wf: "dict_wf d" using Cons.prems(1) by (simp add: dict_wf_def)
    show ?case
    proof (cases "x = e")
      case True
      then have "clean_entries P (eid e) d = d"
        using Cons.prems(1) by (intro clean_entries_other) (simp add: dict_wf_def)
      then show ?thesis using True by simp
    next
      case False
      then have "e \<in> set d" "eid x \<noteq> eid e" "regexp_src x \<noteq> regexp_src e"
        using Cons.prems by (auto simp: dict_wf_def)
      then show ?thesis using Cons.IH [OF wf] by auto
    qed
  qed simp
  from this [OF assms] show ?thesis
    using find_entry_Some [OF Some] Some
    by (simp add: delRegexpForOneClientFromDictionary_def delOneIvyClientFromDictionaryEntry_def clean_entry_eq)
qed (simp add: delRegexpForOneClientFromDictionary_def)

lemma dict_list_del_all: "map regexp_src (messSndByRegexp (delAllRegexpsFromDictionary s)) = sources Forget_all ks"
  by (simp add: delAllRegexps_empty)

text \<open>The first source of a dictionary: with memory for the table the program goes on.\<close>

lemma first_source:
  assumes "mem 64" "mem 512"
  shows "\<not> isl (dict_run mem [Subscribe r] no_table)"
proof -
  have b: "HASH_TO_BKT h 32 < 32" for h using HASH_TO_BKT_less [of 5 h] by simp
  have e: "get_bkt (buckets (fresh_table n)) (HASH_TO_BKT h 32) = Inr \<lparr>hh_head = NULL, count = 0, expand_mult = 0\<rparr>" for h n
    using b [of h] unfolding get_bkt_def fresh_table_def ut_table.simps length_replicate by simp
  have n: "num_buckets (fresh_table n) = 32" for n by (simp only: fresh_table_def ut_table.simps)
  have "\<not> (10 :: uw) \<le> 1" by (simp add: word_le_nat_alt)
  then show ?thesis
    using assms e n
    by (simp add: no_table_def dict_add_def HASH_FIND_STR_def HASH_FIND_def HASH_ADD_KEYPTR_def HASH_MAKE_TABLE_def
        HASH_ADD_TO_BKT_def get_tbl_def set_hh_prev_def Let_def)
qed

theorem dictionary_table_witness:
  "\<exists>s n x. dict_run (\<lambda>n. n < 1000000) [Subscribe ''^b (.*)''] no_table = Inr (s, n) \<and> hash_rep s [x]
     \<and> HASH_ITER s = Inr [x] \<and> HASH_FIND_STR ''^b (.*)'' s = Inr x \<and> HASH_FIND_STR ''a'' s = Inr NULL"
proof -
  let ?ops = "[Subscribe ''^b (.*)'']"
  have "\<forall>c \<in> set ?ops. op_key_ok c" "length ?ops < 2 ^ 32" by simp_all
  from dictionary_table [OF _ this, of "\<lambda>n. n < 1000000"] first_source [of "\<lambda>n. n < 1000000" "''^b (.*)''"]
  obtain s n xs where s: "dict_run (\<lambda>n. n < 1000000) ?ops no_table = Inr (s, n)" "hash_rep s xs"
    "map (hkey s) xs = [''^b (.*)'']" "HASH_ITER s = Inr xs"
    "\<And>r. length r < 2 ^ 32 \<Longrightarrow> HASH_FIND_STR r s = Inr (or_null (find (\<lambda>x. hkey s x = r) xs))"
    by (auto simp del: dict_run.simps)
  then obtain x where x: "xs = [x]" "hkey s x = ''^b (.*)''" by (auto simp: map_eq_Cons_conv)
  have "HASH_FIND_STR ''^b (.*)'' s = Inr x" "HASH_FIND_STR ''a'' s = Inr NULL"
    using s(5) [of "''^b (.*)''"] s(5) [of "''a''"] x by (simp_all add: or_null_def)
  then show ?thesis using s(1,2,4) x(1) by blast
qed

end
