(* ===== verification/Ivy_Program.thy ===== *)
theory Ivy_Program
  imports Ivy_Frame Ivy_Reach
begin

text \<open>
  Programs of the bus: what the calls of the API do to a state that can be reached. After any of them the
  state is reachable, or the first fault is in it, or the process has ended; the agents of the repository
  are shown to be such programs with these lemmas.
\<close>

subsection \<open>What programs do to the bus\<close>

text \<open>
  What a program leaves: a state of the bus the API leads to, or a fault, or the end of the process.
\<close>

definition lawful :: "bus_env \<Rightarrow> ivy_state \<Rightarrow> bool" where
  "lawful env s \<longleftrightarrow> fault s \<noteq> None \<or> exited s \<or> (reachable env s)"

lemma lawful_crash [intro]: "lawful env (crash e s)"
  by (simp add: lawful_def crash_def)

text \<open>A step of the bus never takes a fault or the end of the process back.\<close>

definition worse where
  "worse s t \<longleftrightarrow> (fault t = None \<longrightarrow> fault s = None) \<and> (exited s \<longrightarrow> exited t)"

lemma lawful_worse: "lawful env s \<Longrightarrow> bus_step env s t \<Longrightarrow> worse s t \<Longrightarrow> lawful env t"
  by (auto simp: lawful_def worse_def intro: reach_step)

lemma worse_fifo:
  fixes s :: "'a sock_state_scheme"
  shows "fault (fifo_put c f b s) = None \<Longrightarrow> fault s = None" "exited (fifo_put c f b s) = exited s"
    "fault (IvyChannelAddWritableEvent k s) = None \<Longrightarrow> fault s = None" "exited (IvyChannelAddWritableEvent k s) = exited s"
  by (auto simp: fifo_put_def upd_client_def crash_def IvyChannelAddWritableEvent_def FD_SET_wrdy_def raise_highest_def
      split: option.splits if_splits)

lemma worse_send_raw:
  fixes s :: "'a sock_state_scheme"
  shows "worse s (snd (BufferizedSocketSendRaw c b s))"
  unfolding worse_def BufferizedSocketSendRaw_def Let_def
  by (auto simp: worse_fifo(2,4) upd_client_def crash_def dest!: worse_fifo(1,3) split: option.split prod.split send_result.split)

interpretation worse_kept: bus_frame worse
proof
  fix s t :: "'a ivy_state_scheme"
  show "sock_state.truncate t = sock_state.truncate s \<Longrightarrow> worse s t" by (simp add: worse_def sock_state.defs)
next
  show "worse s (snd (SocketSend c out s))" for s :: "'a ivy_state_scheme" and c out
    using worse_send_raw [of "s\<lparr>send_buf := b\<rparr>" for b] 
    by (auto simp: SocketSend_def SocketSendRaw_def worse_def crash_def split: option.split prod.split)
next
  show "worse s (snd (SocketSendRawWithId c i b s))" for s :: "'a ivy_state_scheme" and c i b
    using worse_send_raw unfolding worse_def SocketSendRawWithId_def split_def Let_def by (metis snd_conv)
next
  show "worse s (SocketClose c s)" "worse s (SocketServerClose v s)" for s :: "'a ivy_state_scheme" and c v
    by (auto simp: worse_def SocketClose_def SocketServerClose_def with_client_def IvyChannelRemove_def upd_channel_def crash_def
        split: option.split)
qed (auto simp: worse_def IvyChannelStop_def crash_def)
lemma worse_trans [trans]: "worse s t \<Longrightarrow> worse t u \<Longrightarrow> worse s u"
  by (simp add: worse_def)

lemma worse_channels:
  fixes s :: "'a sock_state_scheme"
  shows "worse s (snd (IvyChannelAdd fd d h1 h2 h3 s))" "worse s (IvyChannelRemove k s)"
  by (auto simp: worse_def IvyChannelAdd_def IvyChannelRemove_def Let_def FD_SET_open_def raise_highest_def upd_channel_def
      crash_def split: option.split)

lemma worse_sockets:
  fixes s :: "'a sock_state_scheme"
  shows "worse s (snd (SocketServer os v6 port cr h dc f s))" "worse s (snd (SocketBroadcastCreate os v6 port d f s))"
proof -
  have "worse s (u\<lparr>servers_list := v\<rparr>)" "worse s (u\<lparr>clients_list := w\<rparr>)"
    if "IvyChannelAdd fd d h1 h2 h3 (s\<lparr>next_addr := n\<rparr>) = (k, u)" for fd d h1 h2 h3 n k u v w
    using worse_channels(1) [of "s\<lparr>next_addr := n\<rparr>" fd d h1 h2 h3] that by (simp_all add: worse_def)
  then show "worse s (snd (SocketServer os v6 port cr h dc f s))" "worse s (snd (SocketBroadcastCreate os v6 port d f s))"
    by (auto simp: SocketServer_def SocketBroadcastCreate_def exit_process_def Let_def worse_def
        split: option.split prod.split)
qed

lemma worse_announce:
  fixes s :: "'a ivy_state_scheme"
  shows "worse s (announce_on senv m s)" "worse s (announce_on6 senv a s)"
proof -
  have m: "worse t (snd (SocketAddMember j l c h t))" "worse t (snd (SocketAddMember6 j c h t))"
    for j l c h and t :: "'a ivy_state_scheme"
    by (auto simp: SocketAddMember_def SocketAddMember6_def worse_def crash_def split: option.split)
  have b: "worse t (SocketSendBroadcast c h p out t)" "worse t (SocketSendBroadcast6 c h p out t)"
    for c h p out and t :: "'a ivy_state_scheme"
    by (auto simp: SocketSendBroadcast_def SocketSendBroadcast6_def send_datagram_def with_client_def worse_def crash_def
        split: option.split)
  show "worse s (announce_on senv m s)"
    using worse_trans [OF m(1) b(1)] b(1) by (simp add: announce_on_def Let_def)
  show "worse s (announce_on6 senv a s)"
    using worse_trans [OF m(2) b(2)] b(2) by (simp add: announce_on6_def Let_def worse_kept.R_refl)
qed

lemma worse_start_sockets:
  fixes s :: "'a ivy_state_scheme"
  shows "worse s (start_sockets senv port v6 s)"
proof -
  define s1 where "s1 = s\<lparr>SupervisionPort := port, ivy_ipv6 := ivy_ipv6 s \<or> v6\<rparr>"
  obtain srv s2 where s2: "SocketServer (se_server senv) (ivy_ipv6 s1) 0 FN_ClientCreate FN_ClientDelete
    FN_ClientDecongestion FN_Receive s1 = (srv, s2)" by force
  define s3 where "s3 = s2\<lparr>serv := srv, ApplicationPort := SocketServerGetPort srv s2\<rparr>"
  define s4 where "s4 = s3\<lparr>ApplicationID := GenApplicationUniqueIdentifier (se_rand senv) s3\<rparr>"
  obtain b s5 where s5: "SocketBroadcastCreate (se_broadcast senv) (ivy_ipv6 s4) port NULL FN_BroadcastReceive s4 = (b, s5)"
    by force
  have "worse s1 s2" "worse s4 s5" using worse_sockets s2 s5 by (metis snd_conv)+
  then have "worse s s2" "worse s s5" by (simp_all add: worse_def s1_def s3_def s4_def)
  then show ?thesis using s2 s5
    by (simp add: start_sockets_def s1_def s3_def s4_def Let_def worse_def)
qed

lemma worse_IvyStart:
  fixes s :: "'a ivy_state_scheme"
  shows "worse s (IvyStart senv bus s)"
proof -
  have i: "worse s (start_sockets senv port v s)" for port v by (rule worse_start_sockets)
  have "worse s (announce_on6 senv x (start_sockets senv port v s))" for x port v
    by (rule worse_trans [OF i worse_announce(2)])
  moreover have "worse s (fold (announce_on senv) ms (start_sockets senv port v s))" for ms port v
    by (rule worse_trans [OF i]) (rule worse_kept.R_fold, rule worse_announce(1))
  moreover have "worse s (crash e t)" if "worse s t" for e and t :: "'a ivy_state_scheme" by (rule worse_trans [OF that worse_kept.R_crash])
  ultimately show ?thesis using i worse_kept.R_crash [of s]
    unfolding IvyStart_def Let_def by (simp split: sum.split prod.split option.split)
qed
text \<open>Each call a program makes.\<close>

lemma worse_calls:
  fixes s :: "'a ivy_state_scheme"
  shows "worse s (snd (IvyBindMsg cb u out s))" "worse s (IvySendDieMsg a s)" "worse s (IvySendPing a s)"
    "worse s (IvySendDirectMsg a i m s)" "worse s (snd (IvySendMsg px fmt out s))"
proof -
  have "worse s (s\<lparr>bind_buf := b, next_addr := Suc (next_addr s), recv_id := r, msg_recv := v\<rparr>)" for b r v
    by (simp add: worse_def)
  then have "worse s (tell_peers k i m (s\<lparr>bind_buf := b, next_addr := Suc (next_addr s), recv_id := r, msg_recv := v\<rparr>))" for b r v k i m
    by (rule worse_trans) (rule worse_kept.R_tell)
  then show "worse s (snd (IvyBindMsg cb u out s))"
    using worse_kept.R_crash [of s] by (simp add: IvyBindMsg_def Let_def split: gen.split prod.split)
  have "worse s (send_to c k i m (upd_ivy_client a f s))" for c k i m f
    by (rule worse_trans [OF worse_kept.R_fields(10) worse_kept.R_send_to])
  then show "worse s (IvySendDieMsg a s)" "worse s (IvySendPing a s)" "worse s (IvySendDirectMsg a i m s)"
    using worse_kept.R_send_to [of s] worse_kept.R_crash [of s] worse_kept.R_refl [of s]
    by (simp_all add: IvySendDieMsg_def IvySendPing_def IvySendDirectMsg_def with_peer_def Let_def split: option.split)
  show "worse s (snd (IvySendMsg px fmt out s))" by (rule worse_kept.R_IvySendMsg)
qed

lemma worse_settings:
  "worse s (IvySetBindCallback f s)" "worse s (IvySetPongCallback f s)" "worse s (IvyBindDirectMsg f s)"
  "worse s (IvySetFilter px argv b s)" "worse s (IvyStop s)" "worse s (IvyInit n rd f g b s)" "worse s (s\<lparr>timer_st := ts\<rparr>)"
  by (auto simp: worse_def IvySetBindCallback_def IvySetPongCallback_def IvyBindDirectMsg_def IvySetFilter_def
      IvyStop_def IvyInit_def SocketInit_def IvyChannelInit_def IvyChannelStop_def Let_def split: option.split)

lemma app_handler_app [simp]: "app_handler None" "app_handler (Some (H_App hn))"
  by (simp_all add: app_handler_def)

lemma lawful_calls:
  assumes "lawful env s"
  shows "lawful env (snd (IvyBindMsg cb u out s))" "lawful env (IvySendDieMsg a s)" "lawful env (IvySendPing a s)"
    "lawful env (IvySendDirectMsg a i m s)" "lawful env (snd (IvySendMsg (be_pcre env) fmt out s))"
    "lawful env (IvySetBindCallback f s)" "lawful env (IvySetPongCallback f s)" "lawful env (IvyBindDirectMsg f s)"
    "lawful env (IvySetFilter px argv b s)" "lawful env (IvyStop s)" "lawful env (IvyInit n rd f g b s)"
    "lawful env (s\<lparr>timer_st := ts\<rparr>)" "lawful env (IvyChannelRemove k s)" "lawful env (IvyStart senv bus s)"
    "lawful env (snd (IvyChannelAdd fd d None (Some (H_App hn)) None s))" "lawful env (s\<lparr>exited := True\<rparr>)"
  by (rule lawful_worse [OF assms bus_step.bind worse_calls(1)],
      rule lawful_worse [OF assms bus_step.die worse_calls(2)],
      rule lawful_worse [OF assms bus_step.ping worse_calls(3)],
      rule lawful_worse [OF assms bus_step.direct worse_calls(4)],
      rule lawful_worse [OF assms bus_step.send worse_calls(5)],
      rule lawful_worse [OF assms bus_step.on_bind worse_settings(1)],
      rule lawful_worse [OF assms bus_step.on_pong worse_settings(2)],
      rule lawful_worse [OF assms bus_step.bind_direct worse_settings(3)],
      rule lawful_worse [OF assms bus_step.set_filter worse_settings(4)],
      rule lawful_worse [OF assms bus_step.stop worse_settings(5)],
      rule lawful_worse [OF assms bus_step.init worse_settings(6)],
      rule lawful_worse [OF assms bus_step.timers worse_settings(7)],
      rule lawful_worse [OF assms bus_step.remove_channel worse_channels(2)],
      rule lawful_worse [OF assms bus_step.begin_bus worse_IvyStart],
      rule lawful_worse [OF assms bus_step.add_channel [OF app_handler_app(1,2,1)] worse_channels(1)],
      simp add: lawful_def)
definition running :: "'a ivy_state_scheme \<Rightarrow> bool" where
  "running s \<longleftrightarrow> fault s = None \<and> \<not> exited s"

lemma worse_subscriptions:
  fixes s :: "'a ivy_state_scheme"
  shows "worse s (IvyUnbindMsg m s)" "worse s (IvyChangeMsg m out s)"
proof -
  have t: "worse s (tell_peers k i x u)" if "worse s u" for k i x and u :: "'a ivy_state_scheme"
    by (rule worse_trans [OF that worse_kept.R_tell])
  have f: "worse s (u\<lparr>msg_recv := v\<rparr>)" if "worse s u" for v and u :: "'a ivy_state_scheme"
    using that by (simp add: worse_def)
  have c: "worse s (s\<lparr>change_buf := b, msg_recv := v\<rparr>)" for b v by (simp add: worse_def)
  show "worse s (IvyUnbindMsg m s)"
    by (auto simp: IvyUnbindMsg_def Let_def worse_kept.R_crash intro!: f t worse_kept.R_refl split: option.split)
  show "worse s (IvyChangeMsg m out s)"
    by (auto simp: IvyChangeMsg_def Let_def worse_kept.R_crash intro!: t c split: option.split gen.split)
qed

lemma lawful_subscriptions:
  assumes "lawful env s"
  shows "lawful env (IvyUnbindMsg m s)" "lawful env (IvyChangeMsg m out s)"
  by (rule lawful_worse [OF assms bus_step.unbind worse_subscriptions(1)],
      rule lawful_worse [OF assms bus_step.change worse_subscriptions(2)])

lemma lawful_reachable: "lawful env s \<Longrightarrow> running s \<Longrightarrow> reachable env s"
  by (simp add: lawful_def running_def)

lemma lawful_step: "lawful env s \<Longrightarrow> running s \<Longrightarrow> bus_step env s t \<Longrightarrow> lawful env t"
  using reach_step [OF lawful_reachable] by (simp add: lawful_def [of env t])

lemma lawful_start: "lawful env program_start"
  by (simp add: lawful_def reach_start)

lemma rcvs_start [simp]: "msg_recv program_start = []"
  by (simp add: program_start_def bus_on_def no_sockets_def sock_state.defs ivy_state.defs)

lemma program_init:
  "bind_buf (IvyInit n m f g d program_start) = init_buffer" "allClients (IvyInit n m f g d program_start) = []"
  "next_addr (IvyInit n m f g d program_start) = 1" "msg_recv (IvyInit n m f g d program_start) = []"
  "recv_id (IvyInit n m f g d program_start) = 0" "running (IvyInit n m f g d program_start)"
  by (auto simp: IvyInit_def SocketInit_def IvyChannelInit_def Let_def program_start_def bus_on_def no_sockets_def
      sock_state.defs ivy_state.defs running_def split: option.split)

subsection \<open>Numbers in arguments\<close>

text \<open>\<^verbatim>\<open>strtol\<close> in base ten: the number and what follows it; nothing is read when there is no number.\<close>

definition strtol :: "string \<Rightarrow> int \<times> string" where
  "strtol s =
     (case scan_int s of
        None \<Rightarrow> (0, s)
      | Some (i, r) \<Rightarrow> (max (- 9223372036854775808) (min 9223372036854775807 i), r))"

text \<open>\<^verbatim>\<open>atol\<close>.\<close>

definition atol :: "string \<Rightarrow> int" where
  "atol s = fst (strtol s)"

end
