(* ===== verification/Ivy_Probe.thy ===== *)
theory Ivy_Probe
  imports Ivy_Program
begin

text \<open>
  The command line agent of the library, \<^verbatim>\<open>src/tools/ivyprobe.c\<close>, with the functions it needs to read its
  input: \<^verbatim>\<open>strtok\<close> and \<^verbatim>\<open>fgets\<close> of the C library, and \<^verbatim>\<open>getopt\<close>, which is the one of \<^verbatim>\<open>src/tools/getopt.c\<close>. Only
  \<^verbatim>\<open>Makefile.win32\<close> links that file; elsewhere the C library has the function, which reads option lines with the options
  before the other arguments in the same way, and reorders the others. The state is the one
  of the bus with the global variables of the agent, its standard input and what it has printed. The
  callbacks the library gives when none is named, \<^verbatim>\<open>IvyDefaultApplicationCallback\<close> and
  \<^verbatim>\<open>IvyDefaultBindCallback\<close> of \<^verbatim>\<open>src/ivy.c\<close>, are here too.
\<close>

subsection \<open>Words and lines\<close>

text \<open>
  \<^verbatim>\<open>strtok\<close> on what is left of its string: the next word and the rest after its separator. A word is never
  empty.
\<close>

definition strtok :: "string \<Rightarrow> char list \<Rightarrow> string option \<times> string" where
  "strtok rest delims =
     (let r = dropWhile (\<lambda>c. c \<in> set delims) rest
      in if r = [] then (None, [])
         else (Some (takeWhile (\<lambda>c. c \<notin> set delims) r), drop 1 (dropWhile (\<lambda>c. c \<notin> set delims) r)))"

lemma strtok_None: "fst (strtok rest ds) = None \<longleftrightarrow> set rest \<subseteq> set ds"
  by (auto simp: strtok_def Let_def dropWhile_eq_Nil_conv)

lemma strtok_word: "strtok rest ds = (Some w, rest') \<Longrightarrow> w \<noteq> [] \<and> set w \<inter> set ds = {} \<and> length rest' < length rest"
proof -
  let ?r = "dropWhile (\<lambda>c. c \<in> set ds) rest"
  assume "strtok rest ds = (Some w, rest')"
  then have r: "?r \<noteq> []" "w = takeWhile (\<lambda>c. c \<notin> set ds) ?r" "rest' = drop 1 (dropWhile (\<lambda>c. c \<notin> set ds) ?r)"
    by (auto simp: strtok_def Let_def split: if_splits)
  from r(1) have h: "hd ?r \<notin> set ds" by (rule hd_dropWhile)
  have "length rest' < length ?r"
    using r(1,3) le_less_trans [OF diff_le_self] length_dropWhile_le [of "\<lambda>c. c \<notin> set ds" ?r] h by (cases ?r) auto
  then have "length rest' < length rest" using length_dropWhile_le [of "\<lambda>c. c \<in> set ds" rest] by simp
  moreover have "w \<noteq> []" using r(1,2) h by (cases ?r) auto
  moreover have "set w \<inter> set ds = {}" unfolding r(2) by (auto dest: set_takeWhileD)
  ultimately show ?thesis by simp
qed

lemma strtok_shorter: "Some w = fst (strtok rest ds) \<Longrightarrow> length (snd (strtok rest ds)) < length rest"
  by (metis prod.collapse strtok_word)

lemma strtok_first:
  assumes "set pre \<subseteq> set ds" "w \<noteq> []" "set w \<inter> set ds = {}" "c \<in> set ds"
  shows "strtok (pre @ w @ c # rest) ds = (Some w, rest)"
proof -
  have d: "dropWhile (\<lambda>c. c \<in> set ds) (pre @ w @ c # rest) = w @ c # rest"
    using assms by (subst dropWhile_append2) (auto simp: subset_iff neq_Nil_conv)
  have "takeWhile (\<lambda>c. c \<notin> set ds) (w @ c # rest) = w" "dropWhile (\<lambda>c. c \<notin> set ds) (w @ c # rest) = c # rest"
    using assms(3,4) by (auto simp: takeWhile_append2 dropWhile_append2 disjoint_iff)
  then show ?thesis using assms(2) by (simp add: strtok_def Let_def d)
qed

text \<open>The words a loop over \<^verbatim>\<open>strtok\<close> meets.\<close>

function strtok_all :: "string \<Rightarrow> char list \<Rightarrow> string list" where
  "strtok_all rest ds = (case strtok rest ds of (None, _) \<Rightarrow> [] | (Some w, rest') \<Rightarrow> w # strtok_all rest' ds)"
  by pat_completeness auto
termination
  by (relation "measure (\<lambda>(rest, ds). length rest)") (auto simp: prod_eq_iff strtok_shorter)

declare strtok_all.simps [simp del]
lemma strtok_all_words: "w \<in> set (strtok_all rest ds) \<Longrightarrow> w \<noteq> [] \<and> set w \<inter> set ds = {}"
proof (induction rest ds rule: strtok_all.induct)
  case (1 rest ds)
  obtain x rest' where x: "strtok rest ds = (x, rest')" by force
  show ?case
  proof (cases x)
    case None
    then show ?thesis using 1(2) x by (subst (asm) strtok_all.simps) simp
  next
    case (Some v)
    then have "w = v \<or> w \<in> set (strtok_all rest' ds)" using 1(2) x by (subst (asm) strtok_all.simps) simp
    then show ?thesis using 1(1) [OF x [symmetric] Some] strtok_word [of rest ds v rest'] x Some by blast
  qed
qed

text \<open>Words with a separator after each are read back.\<close>

lemma strtok_all_join:
  assumes "\<forall>w \<in> set ws. w \<noteq> [] \<and> set w \<inter> set ds = {}" "c \<in> set ds"
  shows "strtok_all (concat (map (\<lambda>w. w @ [c]) ws)) ds = ws"
  using assms(1)
proof (induction ws)
  case Nil
  then show ?case by (simp add: strtok_all.simps [of "[]"] strtok_def)
next
  case (Cons w ws)
  have "strtok (w @ c # concat (map (\<lambda>w. w @ [c]) ws)) ds = (Some w, concat (map (\<lambda>w. w @ [c]) ws))"
    using strtok_first [of "[]" ds w c] Cons.prems assms(2) by simp
  then show ?case using Cons by (subst strtok_all.simps) simp
qed

text \<open>
  \<^verbatim>\<open>fgets (buf, n, stdin)\<close> on what is left of the input: at most \<open>n - 1\<close> bytes, up to a newline; what the
  caller sees is the C string at the start of the buffer.
\<close>

definition fgets :: "nat \<Rightarrow> bytes \<Rightarrow> (string \<times> bytes) option" where
  "fgets n inp =
     (if inp = [] then None
      else (let k = min (n - 1) (length (takeWhile (\<lambda>c. c \<noteq> NL) inp) + 1)
            in Some (cstr (take k inp), drop k inp)))"

subsection \<open>Options of a command line\<close>

record getopt_state =
  optind :: nat
  optarg :: "string option"
  GetOptionPosition :: nat

definition init_getopt :: getopt_state where
  "init_getopt = \<lparr>optind = 1, optarg = None, GetOptionPosition = 1\<rparr>"

text \<open>A byte of an argument, its terminator included; \<^verbatim>\<open>strchr\<close> on the option letters, after the letter.\<close>

definition byte_at :: "string \<Rightarrow> nat \<Rightarrow> char" where
  "byte_at w i = (if i < length w then w ! i else NUL)"

definition after_letter :: "string \<Rightarrow> char \<Rightarrow> string option" where
  "after_letter optstring c = map_option snd (split_at c optstring)"

text \<open>
  One call. \<open>Inl\<close> is a read past the arguments, \<open>None\<close> is \<^verbatim>\<open>EOF\<close>.
\<close>

definition getopt :: "string list \<Rightarrow> string \<Rightarrow> getopt_state \<Rightarrow> c_fault + (char option \<times> getopt_state)" where
  "getopt argv optstring g =
     (let i = optind g; pos = GetOptionPosition g
      in if pos = 1 \<and> (i \<ge> length argv \<or> byte_at (argv ! i) 0 \<noteq> CHR ''-'' \<or> byte_at (argv ! i) 1 = NUL) then Inr (None, g)
         else if pos = 1 \<and> argv ! i = ''--'' then Inr (None, g)
         else if i \<ge> length argv \<or> pos \<ge> length (argv ! i) then Inl OutOfBounds
         else (let c = argv ! i ! pos; ends = (byte_at (argv ! i) (pos + 1) = NUL)
               in if c = CHR '':'' \<or> after_letter optstring c = None
                  then Inr (Some (CHR ''?''), if ends then g\<lparr>optind := i + 1, GetOptionPosition := 1\<rparr>
                                              else g\<lparr>GetOptionPosition := pos + 1\<rparr>)
                  else if byte_at (the (after_letter optstring c)) 0 = CHR '':''
                  then (if \<not> ends
                        then Inr (Some c, g\<lparr>optind := i + 1, optarg := Some (drop (pos + 1) (argv ! i)), GetOptionPosition := 1\<rparr>)
                        else if i + 1 \<ge> length argv
                        then Inr (Some (CHR ''?''), g\<lparr>optind := i + 1, optarg := None, GetOptionPosition := 1\<rparr>)
                        else Inr (Some c, g\<lparr>optind := i + 2, optarg := Some (argv ! (i + 1)), GetOptionPosition := 1\<rparr>))
                  else Inr (Some c, if ends then g\<lparr>optind := i + 1, optarg := None, GetOptionPosition := 1\<rparr>
                                    else g\<lparr>optarg := None, GetOptionPosition := pos + 1\<rparr>)))"

lemma getopt_next:
  assumes "getopt argv os g = Inr (Some c, h)" "0 < GetOptionPosition g"
  shows "optind g < length argv \<and> (optind g < optind h \<and> GetOptionPosition h = 1
    \<or> optind h = optind g \<and> GetOptionPosition g < GetOptionPosition h \<and> GetOptionPosition h < length (argv ! optind g))"
  using assms by (auto simp: getopt_def Let_def byte_at_def split: if_splits)

text \<open>
  The loop over the options, \<^verbatim>\<open>while ((c = getopt (argc, argv, ...)) != EOF)\<close>: the letters in order with their
  arguments, and the index of the first word that is no option. The argument is copied out of \<^verbatim>\<open>optarg\<close> at once.
\<close>

function getopt_all :: "string list \<Rightarrow> string \<Rightarrow> getopt_state \<Rightarrow> c_fault + ((char \<times> string option) list \<times> nat)" where
  "getopt_all argv os g =
     (if GetOptionPosition g = 0 then Inl OutOfBounds
      else case getopt argv os g of
        Inl e \<Rightarrow> Inl e
      | Inr (None, h) \<Rightarrow> Inr ([], optind h)
      | Inr (Some c, h) \<Rightarrow>
          (case getopt_all argv os h of
             Inl e \<Rightarrow> Inl e
           | Inr (opts, i) \<Rightarrow> Inr ((c, optarg h) # opts, i)))"
  by pat_completeness auto
termination
  by (relation "inv_image (less_than <*lex*> less_than)
      (\<lambda>(argv, os, g). (length argv - optind g, length (argv ! optind g) - GetOptionPosition g))")
    (auto dest!: getopt_next)

declare getopt_all.simps [simp del]

text \<open>The reads stay inside the arguments.\<close>

definition getopt_ok :: "string list \<Rightarrow> getopt_state \<Rightarrow> bool" where
  "getopt_ok argv g \<longleftrightarrow> GetOptionPosition g = 1
     \<or> 0 < GetOptionPosition g \<and> optind g < length argv \<and> GetOptionPosition g < length (argv ! optind g)"

lemma getopt_safe:
  assumes "getopt_ok argv g"
  shows "\<exists>r h. getopt argv os g = Inr (r, h) \<and> getopt_ok argv h"
  using assms by (auto simp: getopt_ok_def getopt_def Let_def byte_at_def)

lemma getopt_all_safe: "getopt_ok argv g \<Longrightarrow> \<exists>opts i. getopt_all argv os g = Inr (opts, i)"
proof (induction argv os g rule: getopt_all.induct)
  case (1 argv os g)
  have p: "GetOptionPosition g \<noteq> 0" using 1(2) by (auto simp: getopt_ok_def)
  obtain r h where r: "getopt argv os g = Inr (r, h)" "getopt_ok argv h" using getopt_safe [OF 1(2)] by blast
  show ?case
  proof (cases r)
    case None
    then show ?thesis using p r(1) by (subst getopt_all.simps) simp
  next
    case (Some c)
    then obtain opts i where "getopt_all argv os h = Inr (opts, i)" using 1(1) [OF p r(1) refl Some r(2)] by blast
    then show ?thesis using p r(1) Some by (subst getopt_all.simps) simp
  qed
qed

text \<open>Options written as words: the letter, and its argument in a word of its own.\<close>

fun opt_words :: "char \<times> string option \<Rightarrow> string list" where
  "opt_words (c, None) = [[CHR ''-'', c]]"
| "opt_words (c, Some a) = [[CHR ''-'', c], a]"

definition opt_fits :: "string \<Rightarrow> char \<times> string option \<Rightarrow> bool" where
  "opt_fits os p \<longleftrightarrow> fst p \<noteq> CHR '':'' \<and> fst p \<noteq> CHR ''-'' \<and> fst p \<noteq> NUL
     \<and> (\<exists>r. after_letter os (fst p) = Some r \<and> (snd p \<noteq> None \<longleftrightarrow> byte_at r 0 = CHR '':''))"

definition stops_options :: "string list \<Rightarrow> bool" where
  "stops_options ws \<longleftrightarrow> (case ws of [] \<Rightarrow> True | w # _ \<Rightarrow> byte_at w 0 \<noteq> CHR ''-'' \<or> w = ''-'' \<or> w = ''--'')"

lemma getopt_word:
  assumes "opt_fits os p" "optind g = length pre" "GetOptionPosition g = 1"
  shows "\<exists>h. getopt (pre @ opt_words p @ ws) os g = Inr (Some (fst p), h) \<and> optarg h = snd p
    \<and> optind h = length pre + length (opt_words p) \<and> GetOptionPosition h = 1"
proof (cases p)
  case (Pair c a)
  then show ?thesis using assms
    by (cases a) (auto simp: getopt_def Let_def opt_fits_def byte_at_def nth_append)
qed

lemma getopt_reads:
  assumes "\<forall>p \<in> set opts. opt_fits os p" "stops_options ws" "optind g = length pre" "GetOptionPosition g = 1"
  shows "getopt_all (pre @ concat (map opt_words opts) @ ws) os g = Inr (opts, length pre + length (concat (map opt_words opts)))"
  using assms
proof (induction opts arbitrary: pre g)
  case Nil
  then have "getopt (pre @ ws) os g = Inr (None, g)"
    by (auto simp: getopt_def Let_def stops_options_def byte_at_def nth_append split: list.splits)
  then show ?case using Nil by (subst getopt_all.simps) simp
next
  case (Cons p opts)
  let ?ws = "concat (map opt_words opts) @ ws"
  obtain h where h: "getopt (pre @ opt_words p @ ?ws) os g = Inr (Some (fst p), h)" "optarg h = snd p"
    "optind h = length (pre @ opt_words p)" "GetOptionPosition h = 1"
    using getopt_word [of os p g pre ?ws] Cons.prems by auto
  have "getopt_all ((pre @ opt_words p) @ ?ws) os h = Inr (opts, length (pre @ opt_words p) + length (concat (map opt_words opts)))"
    by (rule Cons.IH) (use Cons.prems h in simp_all)
  then show ?case using h(1,2) Cons.prems(4) by (subst getopt_all.simps) simp
qed

text \<open>
  The options of a command line are read back: for any options of the string given to \<^verbatim>\<open>getopt\<close>, written
  as words, the loop ends with these options, their arguments whatever they are, and the index of
  the first word that follows.
\<close>

theorem getopt_roundtrip:
  assumes "\<forall>p \<in> set opts. opt_fits os p" "stops_options ws"
  shows "getopt_all (prog # concat (map opt_words opts) @ ws) os init_getopt
    = Inr (opts, 1 + length (concat (map opt_words opts)))"
  using getopt_reads [OF assms, of init_getopt "[prog]"] by (simp add: init_getopt_def)

theorem getopt_roundtrip_witness:
  "getopt_all (''ivyprobe'' # concat (map opt_words [(CHR ''s'', None), (CHR ''b'', Some ''-x'')]) @ [''^a'']) ''vn:d:b:w:t:sf:c:'' init_getopt
    = Inr ([(CHR ''s'', None), (CHR ''b'', Some ''-x'')], 1 + length (concat (map opt_words [(CHR ''s'', None), (CHR ''b'', Some ''-x'')])))"
  by (rule getopt_roundtrip) (simp_all add: opt_fits_def after_letter_def byte_at_def stops_options_def)

subsection \<open>Default callbacks of the library\<close>

text \<open>The line printed for an event; \<open>host\<close> is the answer of \<^verbatim>\<open>IvyGetApplicationHost\<close>.\<close>

definition IvyDefaultApplicationCallback :: "string \<Rightarrow> string option \<Rightarrow> app_event \<Rightarrow> string" where
  "IvyDefaultApplicationCallback name host ev =
     ''Application: '' @ name @
     (case ev of
        IvyApplicationConnected \<Rightarrow> '' ready on '' @ cstring_arg host
      | IvyApplicationDisconnected \<Rightarrow> '' bye on '' @ cstring_arg host
      | IvyApplicationCongestion \<Rightarrow> '' congestion on '' @ cstring_arg host
      | IvyApplicationDecongestion \<Rightarrow> ''  decongestion on '' @ cstring_arg host
      | IvyApplicationFifoFull \<Rightarrow> ''  fifo full, msg on '' @ cstring_arg host @ '' will be lost until decongestion'') @ [NL]"

definition bind_action :: "bind_event \<Rightarrow> string" where
  "bind_action ev =
     (case ev of
        IvyAddBind \<Rightarrow> ''add regexp ''
      | IvyRemoveBind \<Rightarrow> ''remove regexp ''
      | IvyFilterBind \<Rightarrow> ''as been filtred regexp ''
      | IvyChangeBind \<Rightarrow> ''change regexp '')"

definition IvyDefaultBindCallback :: "string \<Rightarrow> string option \<Rightarrow> int \<Rightarrow> string \<Rightarrow> bind_event \<Rightarrow> string" where
  "IvyDefaultBindCallback name host i r ev =
     ''Application: '' @ name @ '' on '' @ cstring_arg host @ '' '' @ bind_action ev @ dec_int i
       @ (case ev of IvyAddBind \<Rightarrow> '' : '' | IvyChangeBind \<Rightarrow> '' : '' | _ \<Rightarrow> '' :'') @ r @ [NL]"

subsection \<open>The agent\<close>

text \<open>
  The global variables of \<^verbatim>\<open>ivyprobe.c\<close>, what is left of its standard input, and what it has printed. \<open>filter_words\<close> is
  the array \<^verbatim>\<open>filter\<close> up to \<^verbatim>\<open>filter_count\<close>.
\<close>

record probe =
  app_count :: int
  wait_count :: int
  fbindcallback :: bool
  filter_words :: "string list"
  classes :: "string option"
  stdin_left :: bytes
  printed :: "string list"

type_synonym 'a probe_state = "probe \<times> 'a ivy_state_scheme"

text \<open>The world of the agent: the one of the bus, \<^verbatim>\<open>getpeername\<close>, the files, and two environment variables.\<close>

record probe_env =
  pr_bus :: bus_env
  pr_peername :: "nat \<Rightarrow> sockaddr option"
  pr_file :: "string \<Rightarrow> bytes option"
  pr_debug_filter :: bool
  pr_debug_binary :: bool

text \<open>The functions the agent gives to the library, and its handler of the standard input.\<close>

definition FN_Callback :: fnptr where "FN_Callback = 11"
definition FN_DirectCallback :: fnptr where "FN_DirectCallback = 12"
definition FN_PongCallback :: fnptr where "FN_PongCallback = 13"
definition FN_ApplicationCallback :: fnptr where "FN_ApplicationCallback = 14"
definition FN_IvyPrintBindCallback :: fnptr where "FN_IvyPrintBindCallback = 15"
definition FN_IvyDefaultBindCallback :: fnptr where "FN_IvyDefaultBindCallback = 16"
definition FN_TimerCall :: fnptr where "FN_TimerCall = 17"
definition H_HandleStdin :: sock_handler where "H_HandleStdin = H_App 1"

definition say :: "string \<Rightarrow> probe \<Rightarrow> probe" where
  "say t p = p\<lparr>printed := printed p @ [t]\<rparr>"

definition host_of :: "probe_env \<Rightarrow> ivy_client option \<Rightarrow> 'a ivy_state_scheme \<Rightarrow> string option" where
  "host_of env app s = IvyGetApplicationHost (pr_peername env) (be_nameinfo (pr_bus env)) app s"

subsubsection \<open>Callbacks\<close>

definition DirectCallback :: "ivy_client option \<Rightarrow> int \<Rightarrow> string \<Rightarrow> probe \<Rightarrow> probe" where
  "DirectCallback app i msg =
     say (IvyGetApplicationName app @ '' sent a direct message, id='' @ dec_int i @ '', message='' @ msg @ [NL])"

text \<open>\<^verbatim>\<open>printf ("%.3f", n / 1000.0)\<close> for a count of microseconds that is not negative.\<close>

definition thousandths :: "nat \<Rightarrow> string" where
  "thousandths n =
     dec_nat (n div 1000) @ ''.'' @ [digit_char (n div 100 mod 10), digit_char (n div 10 mod 10), digit_char (n mod 10)]"

definition PongCallback :: "ivy_client option \<Rightarrow> int \<Rightarrow> probe \<Rightarrow> probe" where
  "PongCallback app roundTripOrTimout =
     say (IvyGetApplicationName app @
       (if roundTripOrTimout \<ge> 0 then '' respond to ping in '' @ thousandths (nat roundTripOrTimout)
        else '' ping timout after '' @ thousandths (nat (- roundTripOrTimout))) @ '' ms'' @ [NL])"

definition Callback :: "ivy_client option \<Rightarrow> string list \<Rightarrow> probe \<Rightarrow> probe" where
  "Callback app argv =
     say (IvyGetApplicationName app @ '' sent ''
       @ concat (map (\<lambda>a. '' '' @ [CHR 0x27] @ a @ [CHR 0x27]) argv) @ [NL])"

text \<open>The standard input is watched when as many applications are there as \<^verbatim>\<open>-w\<close> said.\<close>

definition ApplicationCallback ::
  "probe_env \<Rightarrow> ivy_client option \<Rightarrow> app_event \<Rightarrow> 'a probe_state \<Rightarrow> 'a probe_state" where
  "ApplicationCallback env app ev = (\<lambda>(p, s).
     let appname = IvyGetApplicationName app; host = cstring_arg (host_of env app s)
     in case ev of
          IvyApplicationConnected \<Rightarrow>
            (let p1 = say (appname @ '' connected from '' @ host @ [NL]) (p\<lparr>app_count := app_count p + 1\<rparr>)
             in (p1, if app_count p1 = wait_count p1
                     then snd (IvyChannelAdd 0 NULL None (Some H_HandleStdin) None s) else s))
        | IvyApplicationDisconnected \<Rightarrow>
            (say (appname @ '' disconnected from '' @ host @ [NL]) (p\<lparr>app_count := app_count p - 1\<rparr>), s)
        | IvyApplicationCongestion \<Rightarrow> (say (appname @ '': unkown event 2'' @ [NL]) p, s)
        | IvyApplicationDecongestion \<Rightarrow> (say (appname @ '': unkown event 3'' @ [NL]) p, s)
        | IvyApplicationFifoFull \<Rightarrow> (say (appname @ '': unkown event 4'' @ [NL]) p, s))"

definition IvyPrintBindCallback ::
  "probe_env \<Rightarrow> ivy_client option \<Rightarrow> int \<Rightarrow> string \<Rightarrow> bind_event \<Rightarrow> 'a probe_state \<Rightarrow> 'a probe_state" where
  "IvyPrintBindCallback env app i r ev = (\<lambda>(p, s).
     (if fbindcallback p \<or> ev = IvyFilterBind
      then say (IvyDefaultBindCallback (IvyGetApplicationName app) (host_of env app s) i r ev) p else p, s))"

text \<open>The callback of the timers of \<^verbatim>\<open>-t\<close>.\<close>

definition TimerCall :: "probe_env \<Rightarrow> int \<Rightarrow> nat \<Rightarrow> 'a probe_state \<Rightarrow> 'a probe_state" where
  "TimerCall env user delta = (\<lambda>(p, s).
     (say (''Timer callback: '' @ dec_int user @ '' delta '' @ dec_nat delta @ '' ms'' @ [NL]) p,
      snd (IvySendMsg (be_pcre (pr_bus env)) (Some ''TEST TIMER %ld'') (''TEST TIMER '' @ dec_int user) s)))"

subsubsection \<open>Lines of the user\<close>

text \<open>\<^verbatim>\<open>Chop\<close>; on the empty string it reads the byte before it.\<close>

definition Chop :: "string option \<Rightarrow> c_fault + string option" where
  "Chop arg =
     (case arg of
        None \<Rightarrow> Inr None
      | Some w \<Rightarrow> if w = [] then Inl OutOfBounds else Inr (Some (if last w = NL then butlast w else w)))"

text \<open>The peer of a name, or a line that says there is none.\<close>

definition with_app ::
  "string \<Rightarrow> (ivy_client \<Rightarrow> 'a probe_state \<Rightarrow> 'a probe_state) \<Rightarrow> 'a probe_state \<Rightarrow> 'a probe_state" where
  "with_app arg f = (\<lambda>(p, s).
     case IvyGetApplication arg s of
       Inl e \<Rightarrow> (p, crash e s)
     | Inr None \<Rightarrow> (say (''No Application '' @ arg @ ''!!!'' @ [NL]) p, s)
     | Inr (Some app) \<Rightarrow> f app (p, s))"

definition on_bus :: "('a ivy_state_scheme \<Rightarrow> 'a ivy_state_scheme) \<Rightarrow> 'a probe_state \<Rightarrow> 'a probe_state" where
  "on_bus f = (\<lambda>(p, s). (p, f s))"

definition WORD_END :: "char list" where
  "WORD_END = [SP, NL]"

definition LINE_START :: "char list" where
  "LINE_START = [CHR ''.'', CHR '':'', SP, NL]"

definition cmd_die :: "string \<Rightarrow> 'a probe_state \<Rightarrow> 'a probe_state" where
  "cmd_die rest st =
     (case fst (strtok rest WORD_END) of
        None \<Rightarrow> st
      | Some arg \<Rightarrow> with_app arg (\<lambda>app. on_bus (IvySendDieMsg (aid app))) st)"

text \<open>The names are cut at the separator they were joined with.\<close>

definition kill_app :: "string \<Rightarrow> 'a probe_state \<Rightarrow> 'a probe_state" where
  "kill_app arg =
     with_app arg (\<lambda>app (p, s).
       (say (''Killing '' @ [CHR 0x27] @ arg @ [CHR 0x27] @ ''...'' @ [NL]) p, IvySendDieMsg (aid app) s))"

definition cmd_dieall :: "'a probe_state \<Rightarrow> 'a probe_state" where
  "cmd_dieall = (\<lambda>(p, s).
     case IvyGetApplicationList ''#'' s of
       Inl e \<Rightarrow> (p, crash e s)
     | Inr names \<Rightarrow> fold kill_app (strtok_all names ''#'') (p, s))"

definition QUOTE :: char where
  "QUOTE = CHR 0x27"

definition cmd_bind :: "probe_env \<Rightarrow> string \<Rightarrow> 'a probe_state \<Rightarrow> 'a probe_state" where
  "cmd_bind env rest = (\<lambda>(p, s).
     case Chop (fst (strtok rest [QUOTE])) of
       Inl e \<Rightarrow> (p, crash e s)
     | Inr None \<Rightarrow> (p, s)
     | Inr (Some arg) \<Rightarrow>
         (case IvyBindingCompile (be_pcre (pr_bus env)) arg of
            CompileError off err \<Rightarrow>
              (say (''Error compiling '' @ [CHR 0x27] @ arg @ [CHR 0x27] @ '', '' @ err @ '', not bound'' @ [NL]) p, s)
          | Compiled b \<Rightarrow> (p, snd (IvyBindMsg FN_Callback 0 arg s))))"

definition cmd_where :: "probe_env \<Rightarrow> string \<Rightarrow> 'a probe_state \<Rightarrow> 'a probe_state" where
  "cmd_where env rest st =
     (case fst (strtok rest WORD_END) of
        None \<Rightarrow> st
      | Some arg \<Rightarrow> with_app arg (\<lambda>app (p, s).
          (say (''Application '' @ arg @ '' on '' @ cstring_arg (host_of env (Some app) s) @ [NL]) p, s)) st)"

text \<open>The identifier is not looked for: \<^verbatim>\<open>atoi\<close> gets a null pointer when it is missing.\<close>

definition cmd_direct :: "string \<Rightarrow> 'a probe_state \<Rightarrow> 'a probe_state" where
  "cmd_direct rest st =
     (case strtok rest WORD_END of
        (None, _) \<Rightarrow> st
      | (Some arg, rest1) \<Rightarrow> with_app arg (\<lambda>app (p, s).
          case strtok rest1 [SP] of
            (None, _) \<Rightarrow> (p, crash NullDeref s)
          | (Some n, rest2) \<Rightarrow>
              (case Chop (fst (strtok rest2 [QUOTE])) of
                 Inl e \<Rightarrow> (p, crash e s)
               | Inr msg \<Rightarrow> (p, IvySendDirectMsg (aid app) (atoi n) (cstring_arg msg) s))) st)"

definition cmd_who :: "'a probe_state \<Rightarrow> 'a probe_state" where
  "cmd_who = (\<lambda>(p, s).
     case IvyGetApplicationList '','' s of
       Inl e \<Rightarrow> (p, crash e s)
     | Inr names \<Rightarrow> (say (''Apps: '' @ names @ [NL]) p, s))"

definition cmd_ping :: "string \<Rightarrow> 'a probe_state \<Rightarrow> 'a probe_state" where
  "cmd_ping rest st =
     (case fst (strtok rest WORD_END) of
        None \<Rightarrow> st
      | Some arg \<Rightarrow> with_app arg (\<lambda>app. on_bus (IvySendPing (aid app))) st)"

definition cmd_showbind :: "'a probe_state \<Rightarrow> 'a probe_state" where
  "cmd_showbind = (\<lambda>(p, s).
     if \<not> fbindcallback p then (p\<lparr>fbindcallback := True\<rparr>, IvySetBindCallback FN_IvyDefaultBindCallback s)
     else (p\<lparr>fbindcallback := False\<rparr>, IvySetBindCallback NULL s))"

text \<open>The lines of \<^verbatim>\<open>.help\<close> on the standard output.\<close>

definition tabs :: "nat \<Rightarrow> string" where
  "tabs n = replicate n (CHR 0x09)"

definition help_lines :: "string list" where
  "help_lines =
     [tabs 1 @ ''.help'' @ tabs 6 @ ''- this help'' @ [NL],
      tabs 1 @ ''.quit'' @ tabs 6 @ ''- terminate this application'' @ [NL],
      tabs 1 @ ''.die appname'' @ tabs 4 @ ''- send die msg to appname'' @ [NL],
      tabs 1 @ ''.dieall-yes-i-am-sure'' @ tabs 2 @ ''- send die msg to all applis'' @ [NL],
      tabs 1 @ ''.direct appname'' @ tabs 1 @ ''id '' @ [QUOTE] @ ''arg'' @ [QUOTE] @ tabs 1 @ ''- send direct msg to appname'' @ [NL],
      tabs 1 @ ''.ping appname'' @ tabs 1 @ ''                - send ping to appname'' @ [NL],
      tabs 1 @ ''.where appname'' @ tabs 4 @ ''- on which host is appname'' @ [NL],
      tabs 1 @ ''.bind '' @ [QUOTE] @ ''regexp'' @ [QUOTE] @ tabs 4 @ ''- add a msg to receive'' @ [NL],
      tabs 1 @ ''.showbind'' @ tabs 5 @ ''- show bindings '' @ [NL],
      tabs 1 @ ''.who'' @ tabs 4 @ ''- who is on the bus'' @ [NL]]"

definition probe_command :: "probe_env \<Rightarrow> string \<Rightarrow> string \<Rightarrow> 'a probe_state \<Rightarrow> 'a probe_state" where
  "probe_command env cmd rest st =
     (if cmd = ''die'' then cmd_die rest st
      else if cmd = ''dieall-yes-i-am-sure'' then cmd_dieall st
      else if cmd = ''bind'' then cmd_bind env rest st
      else if cmd = ''where'' then cmd_where env rest st
      else if cmd = ''direct'' then cmd_direct rest st
      else if cmd = ''who'' then cmd_who st
      else if cmd = ''ping'' then cmd_ping rest st
      else if cmd = ''help'' then (fold say help_lines (fst st), snd st)
      else if cmd = ''showbind'' then cmd_showbind st
      else if cmd = ''quit'' then on_bus (\<lambda>s. s\<lparr>exited := True\<rparr>) st
      else st)"

text \<open>A turn of the loop in which the standard input is readable.\<close>

definition HandleStdin :: "probe_env \<Rightarrow> addr \<Rightarrow> 'a probe_state \<Rightarrow> 'a probe_state" where
  "HandleStdin env channel = (\<lambda>(p, s).
     case fgets 4096 (stdin_left p) of
       None \<Rightarrow> (p, IvyStop (IvyChannelRemove channel s))
     | Some (line, inp) \<Rightarrow>
         (let p1 = p\<lparr>stdin_left := inp\<rparr>
          in if byte_at line 0 = CHR ''.''
             then (case strtok line LINE_START of
                     (None, _) \<Rightarrow> (p1, crash NullDeref s)
                   | (Some cmd, rest) \<Rightarrow> probe_command env cmd rest (p1, s))
             else (case IvySendMsg (be_pcre (pr_bus env)) (Some ''%s'') (cstring_arg (fst (strtok line [NL]))) s of
                     (n, s1) \<Rightarrow>
                       (say (''-> Sent to '' @ dec_nat n @ '' peer'' @ (if n = 1 then [] else ''s'') @ [NL]) p1, s1))))"

subsubsection \<open>Files and filters\<close>

text \<open>
  A subscription for each line of the file; the last character of a line, its newline or not, is cut. The file stays
  open.
\<close>

definition bind_line :: "string \<Rightarrow> 'a ivy_state_scheme \<Rightarrow> 'a ivy_state_scheme" where
  "bind_line line s = (if length line > 1 then snd (IvyBindMsg FN_Callback 0 (butlast line) s) else s)"

lemma fgets_length: "fgets n inp = Some (line, rest) \<Longrightarrow> 1 < n \<Longrightarrow> length rest < length inp"
  by (auto simp: fgets_def Let_def split: if_splits)

function bind_lines :: "bytes \<Rightarrow> 'a ivy_state_scheme \<Rightarrow> 'a ivy_state_scheme" where
  "bind_lines content s =
     (case fgets 4096 content of None \<Rightarrow> s | Some (line, rest) \<Rightarrow> bind_lines rest (bind_line line s))"
  by pat_completeness auto
termination
  by (relation "measure (\<lambda>(content, s). length content)") (auto dest: fgets_length)

declare bind_lines.simps [simp del]

definition BindMsgOfFile :: "probe_env \<Rightarrow> string \<Rightarrow> 'a ivy_state_scheme \<Rightarrow> 'a ivy_state_scheme" where
  "BindMsgOfFile env regex_file s =
     (case pr_file env regex_file of None \<Rightarrow> s | Some content \<Rightarrow> bind_lines content s)"

text \<open>The array \<^verbatim>\<open>filter\<close> has 4096 places.\<close>

definition BuildFilterRegexp :: "probe_env \<Rightarrow> string \<Rightarrow> 'a probe_state \<Rightarrow> 'a probe_state" where
  "BuildFilterRegexp env cls = (\<lambda>(p, s).
     let ws = filter_words p @ take (4096 - length (filter_words p)) (strtok_all cls '','')
     in (p\<lparr>filter_words := ws\<rparr>,
         if ws \<noteq> [] then IvySetFilter (be_pcre (pr_bus env)) ws (pr_debug_filter env) s else s))"

subsubsection \<open>The start of the agent\<close>

text \<open>The local variables of \<^verbatim>\<open>main\<close> the options set; the two arrays have 1024 bytes.\<close>

record probe_opts =
  o_bus :: "string option"
  o_agentname :: string
  o_regex_file :: "string option"
  o_timer_test :: bool

definition init_opts :: probe_opts where
  "init_opts = \<lparr>o_bus = None, o_agentname = ''IVYPROBE'', o_regex_file = None, o_timer_test = False\<rparr>"

datatype stop = Exits int | Faults c_fault

text \<open>\<^verbatim>\<open>strcpy\<close> of an argument into an array of 1024 bytes.\<close>

definition strcpy_1024 :: "string option \<Rightarrow> c_fault + string" where
  "strcpy_1024 arg =
     (case arg of None \<Rightarrow> Inl NullDeref | Some a \<Rightarrow> if length a \<ge> 1024 then Inl OutOfBounds else Inr a)"

definition VERSION_LINE :: string where
  "VERSION_LINE = ''ivy c library version 3.16.1'' @ [NL]"

text \<open>The body of the \<^verbatim>\<open>switch\<close>; the case of \<^verbatim>\<open>-n\<close> runs into the one of \<^verbatim>\<open>-v\<close>.\<close>

definition probe_option :: "char \<times> string option \<Rightarrow> probe_opts \<times> probe \<Rightarrow> stop + (probe_opts \<times> probe)" where
  "probe_option opt = (\<lambda>(o1, p). case opt of (c, arg) \<Rightarrow>
     if c = CHR ''b'' then (case strcpy_1024 arg of Inl e \<Rightarrow> Inl (Faults e) | Inr a \<Rightarrow> Inr (o1\<lparr>o_bus := Some a\<rparr>, p))
     else if c = CHR ''w'' then (case arg of None \<Rightarrow> Inl (Faults NullDeref) | Some a \<Rightarrow> Inr (o1, p\<lparr>wait_count := atoi a\<rparr>))
     else if c = CHR ''f'' then Inr (o1\<lparr>o_regex_file := arg\<rparr>, p)
     else if c = CHR ''n'' then
       (case strcpy_1024 arg of Inl e \<Rightarrow> Inl (Faults e) | Inr a \<Rightarrow> Inr (o1\<lparr>o_agentname := a\<rparr>, say VERSION_LINE p))
     else if c = CHR ''v'' then Inr (o1, say VERSION_LINE p)
     else if c = CHR ''t'' then Inr (o1\<lparr>o_timer_test := True\<rparr>, p)
     else if c = CHR ''s'' then Inr (o1, p\<lparr>fbindcallback := True\<rparr>)
     else if c = CHR ''c'' then (case arg of None \<Rightarrow> Inl (Faults NullDeref) | Some a \<Rightarrow> Inr (o1, p\<lparr>classes := Some a\<rparr>))
     else Inl (Exits 1))"

fun probe_options :: "(char \<times> string option) list \<Rightarrow> probe_opts \<times> probe \<Rightarrow> stop + (probe_opts \<times> probe)" where
  "probe_options [] st = Inr st"
| "probe_options (opt # opts) st = (case probe_option opt st of Inl e \<Rightarrow> Inl e | Inr st' \<Rightarrow> probe_options opts st')"

definition OPTSTRING :: string where
  "OPTSTRING = ''vn:d:b:w:t:sf:c:''"

text \<open>Subscriptions named on the command line.\<close>

definition bind_word :: "string \<Rightarrow> 'a probe_state \<Rightarrow> 'a probe_state" where
  "bind_word r = (\<lambda>(p, s).
     (say (''Binding to '' @ [QUOTE] @ r @ [QUOTE] @ [NL]) p, snd (IvyBindMsg FN_Callback 0 r s)))"

text \<open>
  Everything between the options and the loop, for \<^verbatim>\<open>IVYMAINLOOP\<close>; \<open>now\<close> is the clock when the timers are set.
\<close>

definition probe_setup ::
  "probe_env \<Rightarrow> start_env \<Rightarrow> ulong \<Rightarrow> probe_opts \<Rightarrow> string list \<Rightarrow> 'a probe_state \<Rightarrow> 'a probe_state" where
  "probe_setup env senv now o1 regexps = (\<lambda>(p, s).
     let s1 = IvyInit (Some (o_agentname o1)) (Some (o_agentname o1 @ '' Ready'')) FN_ApplicationCallback NULL
                (pr_debug_binary env) s;
         s2 = IvyBindDirectMsg FN_DirectCallback (IvySetPongCallback FN_PongCallback
                (IvySetBindCallback FN_IvyPrintBindCallback s1));
         (p3, s3) = (case classes p of None \<Rightarrow> (p, s2) | Some cls \<Rightarrow> BuildFilterRegexp env cls (p, s2));
         s4 = (case o_regex_file o1 of None \<Rightarrow> s3 | Some f \<Rightarrow> BindMsgOfFile env f s3);
         (p5, s5) = fold bind_word regexps (p3, s4);
         s6 = (if wait_count p5 = 0 then snd (IvyChannelAdd 0 NULL None (Some H_HandleStdin) None s5) else s5);
         s7 = IvyStart senv (case o_bus o1 of None \<Rightarrow> [] | Some b \<Rightarrow> b) s6;
         s8 = (if o_timer_test o1
               then s7\<lparr>timer_st := snd (TimerRepeatAfter now 5 5000 FN_TimerCall 5
                         (snd (TimerRepeatAfter now (-1) 1000 FN_TimerCall 1 (timer_st s7))))\<rparr>
               else s7)
     in (p5, s8))"

definition probe_main ::
  "probe_env \<Rightarrow> start_env \<Rightarrow> ulong \<Rightarrow> string list \<Rightarrow> 'a probe_state \<Rightarrow> stop + 'a probe_state" where
  "probe_main env senv now argv st =
     (case getopt_all argv OPTSTRING init_getopt of
        Inl e \<Rightarrow> Inl (Faults e)
      | Inr (opts, i) \<Rightarrow>
          (case probe_options opts (init_opts, fst st) of
             Inl e \<Rightarrow> Inl e
           | Inr (o1, p) \<Rightarrow>
               if length (o_agentname o1 @ '' Ready'') \<ge> 1024 then Inl (Faults OutOfBounds)
               else Inr (probe_setup env senv now o1 (drop i argv) (p, snd st))))"

subsection \<open>The agent uses the bus as any program\<close>

lemma lawful_stdin: "lawful env s \<Longrightarrow> lawful env (snd (IvyChannelAdd fd d None (Some H_HandleStdin) None s))"
  unfolding H_HandleStdin_def by (rule lawful_calls(15))

lemma lawful_with_app:
  assumes "lawful env s" "\<And>app. lawful env (snd (f app (p, s)))"
  shows "lawful env (snd (with_app arg f (p, s)))"
  using assms by (auto simp: with_app_def split: sum.split option.split)

lemma lawful_kills: "lawful env (snd st) \<Longrightarrow> lawful env (snd (fold kill_app ws st))"
proof (induction ws arbitrary: st)
  case (Cons w ws)
  obtain p s where st: "st = (p, s)" by force
  have "lawful env (snd (kill_app w st))" unfolding kill_app_def st
    by (rule lawful_with_app) (use Cons.prems st lawful_calls(2) in simp_all)
  then show ?case using Cons.IH by simp
qed simp

lemma lawful_command:
  assumes "lawful (pr_bus env) s"
  shows "lawful (pr_bus env) (snd (probe_command env cmd rest (p, s)))"
proof -
  note l = lawful_calls [OF assms]
  have w: "lawful (pr_bus env) (snd (with_app arg f (p, s)))" if "\<And>app. lawful (pr_bus env) (snd (f app (p, s)))" for f arg
    using assms that by (auto intro: lawful_with_app)
  have "lawful (pr_bus env) (snd (cmd_die rest (p, s)))" "lawful (pr_bus env) (snd (cmd_ping rest (p, s)))"
    "lawful (pr_bus env) (snd (cmd_where env rest (p, s)))"
    using assms w l by (simp_all add: cmd_die_def cmd_ping_def cmd_where_def on_bus_def split: option.split)
  moreover have "lawful (pr_bus env) (snd (cmd_dieall (p, s)))" "lawful (pr_bus env) (snd (cmd_who (p, s)))"
    "lawful (pr_bus env) (snd (cmd_showbind (p, s)))"
    using assms l lawful_kills [of "pr_bus env" "(p, s)"]
    by (auto simp: cmd_dieall_def cmd_who_def cmd_showbind_def split: sum.split)
  moreover have "lawful (pr_bus env) (snd (cmd_bind env rest (p, s)))"
    using assms l by (auto simp: cmd_bind_def split: sum.split option.split compile_result.split)
  moreover have "lawful (pr_bus env) (snd (cmd_direct rest (p, s)))"
    unfolding cmd_direct_def using assms l by (auto split: sum.split option.split prod.split intro!: lawful_with_app)
  ultimately show ?thesis using assms l by (simp add: probe_command_def on_bus_def)
qed

text \<open>
  A run of the agent: its start, then steps of the bus, lines of the user, and calls of its callbacks, as long
  as the process is there.
\<close>

inductive probe_run :: "probe_env \<Rightarrow> probe \<Rightarrow> probe \<times> ivy_state \<Rightarrow> bool" for env p0 where
  run_main: "probe_main env senv now argv (p0, program_start) = Inr st \<Longrightarrow> probe_run env p0 st"
| run_bus: "probe_run env p0 (p, s) \<Longrightarrow> running s \<Longrightarrow> bus_step (pr_bus env) s t \<Longrightarrow> probe_run env p0 (p, t)"
| run_stdin: "probe_run env p0 (p, s) \<Longrightarrow> running s \<Longrightarrow> probe_run env p0 (HandleStdin env k (p, s))"
| run_appl: "probe_run env p0 (p, s) \<Longrightarrow> running s \<Longrightarrow> probe_run env p0 (ApplicationCallback env app ev (p, s))"
| run_onbind: "probe_run env p0 (p, s) \<Longrightarrow> running s \<Longrightarrow> probe_run env p0 (IvyPrintBindCallback env app i r bev (p, s))"
| run_timer: "probe_run env p0 (p, s) \<Longrightarrow> running s \<Longrightarrow> probe_run env p0 (TimerCall env u d (p, s))"
| run_message: "probe_run env p0 (p, s) \<Longrightarrow> running s \<Longrightarrow> probe_run env p0 (Callback app argv p, s)"
| run_direct: "probe_run env p0 (p, s) \<Longrightarrow> running s \<Longrightarrow> probe_run env p0 (DirectCallback app i m p, s)"
| run_pong: "probe_run env p0 (p, s) \<Longrightarrow> running s \<Longrightarrow> probe_run env p0 (PongCallback app rt p, s)"

lemma lawful_bind_lines: "lawful env s \<Longrightarrow> lawful env (bind_lines content s)"
proof (induction content s rule: bind_lines.induct)
  case (1 content s)
  show ?case
  proof (cases "fgets 4096 content")
    case None
    then show ?thesis using 1(2) by (subst bind_lines.simps) simp
  next
    case (Some lr)
    have "lawful env (bind_line (fst lr) s)" using 1(2) lawful_calls(1) [OF 1(2)] by (simp add: bind_line_def)
    then have "lawful env (bind_lines (snd lr) (bind_line (fst lr) s))" using 1(1) [OF Some, of "fst lr" "snd lr"] by simp
    then show ?thesis using Some by (subst bind_lines.simps) (simp add: split_def)
  qed
qed

lemma lawful_bind_words: "lawful env (snd st) \<Longrightarrow> lawful env (snd (fold bind_word ws st))"
proof (induction ws arbitrary: st)
  case (Cons w ws)
  have "lawful env (snd (bind_word w st))" using lawful_calls(1) [OF Cons.prems] by (simp add: bind_word_def split_def)
  then show ?case using Cons.IH by simp
qed simp

lemma lawful_setup:
  assumes "lawful (pr_bus env) s"
  shows "lawful (pr_bus env) (snd (probe_setup env senv now o1 ws (p, s)))"
proof -
  let ?L = "lawful (pr_bus env)"
  define s2 where "s2 = IvyBindDirectMsg FN_DirectCallback (IvySetPongCallback FN_PongCallback
    (IvySetBindCallback FN_IvyPrintBindCallback (IvyInit (Some (o_agentname o1)) (Some (o_agentname o1 @ '' Ready''))
      FN_ApplicationCallback NULL (pr_debug_binary env) s)))"
  have s2: "?L s2" unfolding s2_def
    by (rule lawful_calls(8), rule lawful_calls(7), rule lawful_calls(6), rule lawful_calls(11), rule assms)
  obtain p3 s3 where s3: "(case classes p of None \<Rightarrow> (p, s2) | Some cls \<Rightarrow> BuildFilterRegexp env cls (p, s2)) = (p3, s3)" by force
  have l3: "?L s3" using s2 s3 lawful_calls(9) [OF s2] by (auto simp: BuildFilterRegexp_def Let_def split: option.splits if_splits)
  define s4 where "s4 = (case o_regex_file o1 of None \<Rightarrow> s3 | Some f \<Rightarrow> BindMsgOfFile env f s3)"
  have l4: "?L s4" using l3 lawful_bind_lines [OF l3] by (auto simp: s4_def BindMsgOfFile_def split: option.splits)
  obtain p5 s5 where s5: "fold bind_word ws (p3, s4) = (p5, s5)" by force
  have l5: "?L s5" using lawful_bind_words [of "pr_bus env" "(p3, s4)" ws] l4 s5 by simp
  define s6 where "s6 = (if wait_count p5 = 0 then snd (IvyChannelAdd 0 NULL None (Some H_HandleStdin) None s5) else s5)"
  have "?L s6" using l5 lawful_stdin [OF l5] by (simp add: s6_def)
  then have "?L (IvyStart senv (case o_bus o1 of None \<Rightarrow> [] | Some b \<Rightarrow> b) s6)" by (rule lawful_calls(14))
  then show ?thesis
    by (simp only: probe_setup_def Let_def prod.case s2_def [symmetric] s3 s4_def [symmetric] s5 s6_def [symmetric] snd_conv)
      (simp add: lawful_calls(12))
qed

lemma probe_run_lawful: "probe_run env p0 st \<Longrightarrow> lawful (pr_bus env) (snd st)"
proof (induction rule: probe_run.induct)
  case (run_main senv now argv st)
  have "lawful (pr_bus env) program_start" by (simp add: lawful_def reach_start)
  then show ?case using run_main lawful_setup by (auto simp: probe_main_def split: sum.splits prod.splits if_splits)
next
  case (run_bus p s t)
  then have "reachable (pr_bus env) s" by (simp add: lawful_def running_def)
  then show ?case using run_bus(3) by (simp add: lawful_def reach_step)
next
  case (run_stdin p s k)
  then have l: "lawful (pr_bus env) s" by simp
  show ?case using lawful_command [OF l] lawful_calls(5) [OF l] lawful_calls(10) [OF lawful_calls(13) [OF l]]
    by (auto simp: HandleStdin_def Let_def split: option.split prod.split)
       (metis snd_conv)+
next
  case (run_appl p s app ev)
  then have l: "lawful (pr_bus env) s" by simp
  show ?case using l lawful_stdin [OF l] by (simp add: ApplicationCallback_def Let_def split: app_event.split)
next
  case (run_onbind p s app i r bev)
  then show ?case by (simp add: IvyPrintBindCallback_def)
next
  case (run_timer p s u d)
  then have l: "lawful (pr_bus env) s" by simp
  show ?case using lawful_calls(5) [OF l] by (simp add: TimerCall_def)
qed simp_all

text \<open>
  The agent is a program of the bus: started on the bus as it is at first, whatever its options, its
  files, the lines of its user and the calls of its callbacks, the state of the bus stays one the API leads
  to, until a fault or the end of the process. So what holds of the reachable states holds for it.
\<close>

theorem probe_reaches:
  assumes "probe_run env p0 (p, s)" "running s"
  shows "reachable (pr_bus env) s"
  using probe_run_lawful [OF assms(1)] assms(2) by (simp add: lawful_def running_def)

definition some_probe_env :: probe_env where
  "some_probe_env = \<lparr>pr_bus = some_env, pr_peername = (\<lambda>fd. None), pr_file = (\<lambda>f. None), pr_debug_filter = False,
     pr_debug_binary = False\<rparr>"

definition probe_start :: "bytes \<Rightarrow> probe" where
  "probe_start inp = \<lparr>app_count = 0, wait_count = 0, fbindcallback = False, filter_words = [], classes = None,
     stdin_left = inp, printed = []\<rparr>"

lemma probe_main_quiet:
  "\<exists>s. probe_main some_probe_env quiet_start 0 [''ivyprobe'', ''-b'', ''bus''] (probe_start inp, program_start)
      = Inr (probe_start inp, s) \<and> running s \<and> allClients s = []"
proof -
  have g: "getopt_all [''ivyprobe'', ''-b'', ''bus''] OPTSTRING init_getopt = Inr ([(CHR ''b'', Some ''bus'')], 3)"
    using getopt_reads [of "[(CHR ''b'', Some ''bus'')]" OPTSTRING "[]" init_getopt "[''ivyprobe'']"]
    by (simp add: opt_fits_def after_letter_def byte_at_def stops_options_def init_getopt_def OPTSTRING_def)
  have s: "running (snd (probe_setup some_probe_env quiet_start 0 (init_opts\<lparr>o_bus := Some ''bus''\<rparr>) [] (probe_start inp, program_start)))"
    "allClients (snd (probe_setup some_probe_env quiet_start 0 (init_opts\<lparr>o_bus := Some ''bus''\<rparr>) [] (probe_start inp, program_start))) = []"
    "fst (probe_setup some_probe_env quiet_start 0 (init_opts\<lparr>o_bus := Some ''bus''\<rparr>) [] (probe_start inp, program_start)) = probe_start inp"
    by (simp_all add: running_def probe_setup_def init_opts_def probe_start_def IvyInit_def SocketInit_def IvyChannelInit_def
        IvyBindDirectMsg_def IvySetPongCallback_def IvySetBindCallback_def IvyStart_def bus_name_def bus_port_def last_colon_def
        quiet_start_def start_sockets_def SocketServer_def SocketBroadcastCreate_def announce_on6_def IvyChannelAdd_def
        Let_def FD_SET_open_def raise_highest_def crash_def program_start_def no_sockets_def bus_on_def sock_state.defs ivy_state.defs
        FD_SETSIZE_def SocketServerGetPort_def find_server_def some_probe_env_def)
  have "probe_main some_probe_env quiet_start 0 [''ivyprobe'', ''-b'', ''bus''] (probe_start inp, program_start)
    = Inr (probe_setup some_probe_env quiet_start 0 (init_opts\<lparr>o_bus := Some ''bus''\<rparr>) [] (probe_start inp, program_start))"
    using g by (simp add: probe_main_def probe_option_def strcpy_1024_def init_opts_def)
  then show ?thesis using s by (metis prod.collapse)
qed

subsection \<open>Commands\<close>

text \<open>The peer that a name stands for: the first of the list with it.\<close>

definition namesake :: "ivy_client list \<Rightarrow> ivy_client \<Rightarrow> ivy_client" where
  "namesake cs c = the (find (\<lambda>d. app_name d = app_name c) cs)"

definition plain_names :: "ivy_client list \<Rightarrow> bool" where
  "plain_names cs \<longleftrightarrow> (\<forall>c \<in> set cs. \<exists>n. app_name c = Some n \<and> n \<noteq> [] \<and> CHR ''#'' \<notin> set n)
     \<and> length (concat (map (\<lambda>c. the (app_name c) @ ''#'') cs)) < APPLIST_SIZE"

lemma cat_names_all:
  assumes "\<forall>c \<in> set cs. app_name c \<noteq> None" "length (acc @ concat (map (\<lambda>c. the (app_name c) @ sep) cs)) < APPLIST_SIZE"
  shows "cat_names sep acc cs = Inr (acc @ concat (map (\<lambda>c. the (app_name c) @ sep) cs))"
  using assms
proof (induction cs arbitrary: acc)
  case (Cons c cs)
  then show ?case by auto
qed simp

lemma find_by_name_named:
  assumes "\<forall>c \<in> set cs. app_name c \<noteq> None"
  shows "find_by_name n cs = Inr (find (\<lambda>d. app_name d = Some n) cs)"
  using assms by (induction cs) auto

lemma die_clients [simp]: "allClients (IvySendDieMsg a s) = allClients s"
  by (simp add: IvySendDieMsg_def with_peer_def crash_def split: option.split)

lemma kill_app_named:
  assumes "\<forall>c \<in> set (allClients s). app_name c \<noteq> None" "c \<in> set (allClients s)"
  shows "\<exists>p'. kill_app (the (app_name c)) (p, s) = (p', IvySendDieMsg (aid (namesake (allClients s) c)) s)"
proof -
  obtain n where n: "app_name c = Some n" using assms by blast
  then have "find (\<lambda>d. app_name d = Some n) (allClients s) \<noteq> None" using assms(2) by (auto simp: find_None_iff)
  then obtain d where d: "find (\<lambda>d. app_name d = Some n) (allClients s) = Some d" by blast
  then show ?thesis using assms(1) n
    by (simp add: kill_app_def with_app_def IvyGetApplication_def find_by_name_named namesake_def)
qed

lemma kill_apps:
  assumes "\<forall>c \<in> set (allClients s). app_name c \<noteq> None" "set cs \<subseteq> set (allClients s)"
  shows "snd (fold kill_app (map (\<lambda>c. the (app_name c)) cs) (p, s))
    = fold (\<lambda>c. IvySendDieMsg (aid (namesake (allClients s) c))) cs s"
  using assms
proof (induction cs arbitrary: p s)
  case (Cons c cs)
  obtain p' where k: "kill_app (the (app_name c)) (p, s) = (p', IvySendDieMsg (aid (namesake (allClients s) c)) s)"
    using kill_app_named Cons.prems by (metis list.set_intros(1) subsetD)
  have "snd (fold kill_app (map (\<lambda>c. the (app_name c)) cs) (p', IvySendDieMsg (aid (namesake (allClients s) c)) s))
    = fold (\<lambda>c. IvySendDieMsg (aid (namesake (allClients s) c))) cs (IvySendDieMsg (aid (namesake (allClients s) c)) s)"
    using Cons.IH [of "IvySendDieMsg (aid (namesake (allClients s) c)) s" p'] Cons.prems by simp
  then show ?case using k by simp
qed simp

lemma namesake_distinct:
  assumes "distinct (map app_name cs)" "c \<in> set cs"
  shows "namesake cs c = c"
  using find_unique [OF assms] by (simp add: namesake_def)

text \<open>
  (C31) The command \<^verbatim>\<open>.dieall-yes-i-am-sure\<close> says it stops all applications. It sends one message for each peer, in the
  order of the list, to the first peer of the same name: to each of them when the names differ, and to
  the first of two with the same name twice, to the second never.
\<close>

theorem dieall_first_of_name:
  assumes "plain_names (allClients s)"
  shows "snd (cmd_dieall (p, s)) = fold (\<lambda>c. IvySendDieMsg (aid (namesake (allClients s) c))) (allClients s) s
    \<and> (distinct (map app_name (allClients s)) \<longrightarrow>
        snd (cmd_dieall (p, s)) = fold (\<lambda>c. IvySendDieMsg (aid c)) (allClients s) s)"
proof -
  let ?cs = "allClients s" and ?n = "\<lambda>c. the (app_name c)"
  have some: "\<forall>c \<in> set ?cs. app_name c \<noteq> None" using assms by (auto simp: plain_names_def)
  have l: "IvyGetApplicationList ''#'' s = Inr (concat (map (\<lambda>w. w @ ''#'') (map ?n ?cs)))"
    unfolding IvyGetApplicationList_def using cat_names_all [OF some, of "[]" "''#''"] assms
    by (simp add: plain_names_def comp_def)
  have "strtok_all (concat (map (\<lambda>w. w @ ''#'') (map ?n ?cs))) ''#'' = map ?n ?cs"
    by (rule strtok_all_join) (use assms in \<open>auto simp: plain_names_def\<close>)
  then have g: "snd (cmd_dieall (p, s)) = fold (\<lambda>c. IvySendDieMsg (aid (namesake ?cs c))) ?cs s"
    using kill_apps [OF some subset_refl, of p] by (simp add: cmd_dieall_def l)
  have "fold (\<lambda>c. IvySendDieMsg (aid (namesake ?cs c))) ?cs s = fold (\<lambda>c. IvySendDieMsg (aid c)) ?cs s"
    if "distinct (map app_name ?cs)"
    by (rule fold_cong) (simp_all add: namesake_distinct [OF that])
  then show ?thesis using g by simp
qed

theorem dieall_first_of_name_witness:
  "snd (cmd_dieall (probe_start [], (bus_on no_sockets)\<lparr>allClients := [peer_on 5 1 ''A'' [], peer_on 6 2 ''A'' []]\<rparr>))
    = IvySendDieMsg 5 (IvySendDieMsg 5 ((bus_on no_sockets)\<lparr>allClients := [peer_on 5 1 ''A'' [], peer_on 6 2 ''A'' []]\<rparr>))"
  using dieall_first_of_name [of "(bus_on no_sockets)\<lparr>allClients := [peer_on 5 1 ''A'' [], peer_on 6 2 ''A'' []]\<rparr>" "probe_start []"]
  by (simp add: plain_names_def peer_on_def APPLIST_SIZE_def namesake_def)

text \<open>
  The count of \<^verbatim>\<open>-w\<close> is met each time it is reached: when the application that completed it leaves and
  comes back, the standard input is in the table of the loop twice, with its handler, so that one line
  typed makes two reads, and the second one waits.
\<close>

theorem stdin_watched_twice:
  assumes "wait_count p = app_count p + 1"
  shows "\<exists>k1 k2 st. ApplicationCallback env a3 IvyApplicationConnected
        (ApplicationCallback env a2 IvyApplicationDisconnected (ApplicationCallback env a1 IvyApplicationConnected (p, s))) = st
    \<and> channels_list (snd st) = k2 # k1 # channels_list s \<and> app_count (fst st) = wait_count p
    \<and> ch_fd k1 = 0 \<and> ch_fd k2 = 0 \<and> handle_read k1 = Some H_HandleStdin \<and> handle_read k2 = Some H_HandleStdin"
  using assms
  by (simp add: ApplicationCallback_def Let_def say_def IvyChannelAdd_def FD_SET_open_def raise_highest_def FD_SETSIZE_def)

theorem stdin_watched_twice_witness:
  "\<exists>k1 k2 st. ApplicationCallback some_probe_env None IvyApplicationConnected (ApplicationCallback some_probe_env None
      IvyApplicationDisconnected (ApplicationCallback some_probe_env None IvyApplicationConnected
        ((probe_start [])\<lparr>wait_count := 1\<rparr>, bus_on no_sockets))) = st
    \<and> channels_list (snd st) = k2 # k1 # channels_list (bus_on no_sockets) \<and> app_count (fst st) = 1
    \<and> ch_fd k1 = 0 \<and> ch_fd k2 = 0 \<and> handle_read k1 = Some H_HandleStdin \<and> handle_read k2 = Some H_HandleStdin"
  using stdin_watched_twice [of "(probe_start [])\<lparr>wait_count := 1\<rparr>" some_probe_env None None None "bus_on no_sockets"]
  by (simp add: probe_start_def)

text \<open>
  A line with a dot and no word, and \<^verbatim>\<open>.direct\<close> without an identifier, give a null pointer to \<^verbatim>\<open>strcmp\<close> and to \<^verbatim>\<open>atoi\<close>.
\<close>

lemma dot_line_null:
  assumes "fgets 4096 (stdin_left p) = Some (CHR ''.'' # seps, inp)" "set seps \<subseteq> set LINE_START" "fault s = None"
  shows "fault (snd (HandleStdin env k (p, s))) = Some NullDeref"
proof -
  have "fst (strtok (CHR ''.'' # seps) LINE_START) = None" using assms(2) by (simp add: strtok_None LINE_START_def)
  then obtain r where "strtok (CHR ''.'' # seps) LINE_START = (None, r)" by (metis prod.collapse)
  then show ?thesis using assms(1,3) by (simp add: HandleStdin_def byte_at_def crash_def)
qed

lemma direct_without_id:
  assumes "strtok rest WORD_END = (Some n, [])" "IvyGetApplication n s = Inr (Some app)" "fault s = None"
  shows "fault (snd (cmd_direct rest (p, s))) = Some NullDeref"
  using assms by (simp add: cmd_direct_def with_app_def strtok_def crash_def)

text \<open>Lines of a file of regular expressions.\<close>

lemma fgets_line:
  assumes "length l < 4095" "NL \<notin> set l" "NUL \<notin> set l"
  shows "fgets 4096 (l @ NL # rest) = Some (l @ [NL], rest)" "l \<noteq> [] \<Longrightarrow> fgets 4096 l = Some (l, [])"
proof -
  have t: "takeWhile (\<lambda>c. c \<noteq> NL) (l @ NL # rest) = l" "takeWhile (\<lambda>c. c \<noteq> NL) l = l"
    using assms(2) by (induction l) auto
  then show "fgets 4096 (l @ NL # rest) = Some (l @ [NL], rest)"
    using assms(1,3) by (simp add: fgets_def Let_def min_absorb2)
  show "l \<noteq> [] \<Longrightarrow> fgets 4096 l = Some (l, [])" using assms(1,3) by (simp add: fgets_def Let_def t(2) min_def)
qed

lemma bind_lines_Nil: "bind_lines [] s = s"
  by (subst bind_lines.simps) (simp add: fgets_def)

text \<open>
  A file given with \<^verbatim>\<open>-f\<close>, of lines that fit the buffer, makes one subscription for each line that is not empty, in
  order. When the last line has no newline, its last character is cut instead.
\<close>

theorem regexp_file:
  assumes "\<forall>l \<in> set ls. length l < 4095 \<and> NL \<notin> set l \<and> NUL \<notin> set l" "length t < 4095" "NL \<notin> set t" "NUL \<notin> set t"
  shows "bind_lines (concat (map (\<lambda>l. l @ [NL]) ls) @ t) s
    = (let u = fold (\<lambda>l u. if l = [] then u else snd (IvyBindMsg FN_Callback 0 l u)) ls s
       in if length t > 1 then snd (IvyBindMsg FN_Callback 0 (butlast t) u) else u)"
  using assms(1)
proof (induction ls arbitrary: s)
  case Nil
  show ?case
  proof (cases "t = []")
    case True
    then show ?thesis by (simp add: bind_lines_Nil)
  next
    case False
    then show ?thesis using fgets_line(2) [OF assms(2-4)] by (subst bind_lines.simps) (simp add: bind_lines_Nil bind_line_def)
  qed
next
  case (Cons l ls)
  have "fgets 4096 (l @ NL # concat (map (\<lambda>l. l @ [NL]) ls) @ t) = Some (l @ [NL], concat (map (\<lambda>l. l @ [NL]) ls) @ t)"
    by (rule fgets_line) (use Cons.prems in auto)
  then show ?case using Cons by (subst bind_lines.simps) (simp add: bind_line_def Let_def)
qed

theorem regexp_file_witness:
  "bind_lines (concat (map (\<lambda>l. l @ [NL]) [''^a'', ''^b'']) @ ''^c'') program_start
    = (let u = fold (\<lambda>l u. if l = [] then u else snd (IvyBindMsg FN_Callback 0 l u)) [''^a'', ''^b''] program_start
       in if length ''^c'' > 1 then snd (IvyBindMsg FN_Callback 0 (butlast ''^c'') u) else u)"
  by (rule regexp_file) simp_all


subsection \<open>The language of the user\<close>

text \<open>
  The lines a user types, how they are written, and what they ask for. The agent reads them with
  \<^verbatim>\<open>fgets\<close> and \<^verbatim>\<open>strtok\<close>.
\<close>

datatype user_line =
    U_Die string
  | U_Ping string
  | U_Where string
  | U_Bind string
  | U_Direct string string string
  | U_Quit
  | U_Text string

fun spell :: "user_line \<Rightarrow> string" where
  "spell (U_Die name) = ''.die '' @ name"
| "spell (U_Ping name) = ''.ping '' @ name"
| "spell (U_Where name) = ''.where '' @ name"
| "spell (U_Bind r) = ''.bind '' @ QUOTE # r @ [QUOTE]"
| "spell (U_Direct name i m) = ''.direct '' @ name @ SP # i @ SP # QUOTE # m @ [QUOTE]"
| "spell U_Quit = ''.quit''"
| "spell (U_Text t) = t"

definition is_word :: "string \<Rightarrow> bool" where
  "is_word w \<longleftrightarrow> w \<noteq> [] \<and> set w \<inter> {SP, NL, NUL} = {}"

definition is_quoted :: "string \<Rightarrow> bool" where
  "is_quoted w \<longleftrightarrow> w \<noteq> [] \<and> set w \<inter> {QUOTE, NL, NUL} = {}"

fun line_ok :: "user_line \<Rightarrow> bool" where
  "line_ok (U_Die name) \<longleftrightarrow> is_word name"
| "line_ok (U_Ping name) \<longleftrightarrow> is_word name"
| "line_ok (U_Where name) \<longleftrightarrow> is_word name"
| "line_ok (U_Bind r) \<longleftrightarrow> is_quoted r"
| "line_ok (U_Direct name i m) \<longleftrightarrow> is_word name \<and> is_word i \<and> is_quoted m"
| "line_ok U_Quit \<longleftrightarrow> True"
| "line_ok (U_Text t) \<longleftrightarrow> t \<noteq> [] \<and> hd t \<noteq> CHR ''.'' \<and> set t \<inter> {NL, NUL} = {}"

text \<open>What is asked of the application with a name.\<close>

definition ask_app ::
  "string \<Rightarrow> (ivy_client \<Rightarrow> 'a probe_state \<Rightarrow> 'a probe_state) \<Rightarrow> 'a probe_state \<Rightarrow> 'a probe_state" where
  "ask_app name f st =
     (case IvyGetApplication name (snd st) of
        Inl e \<Rightarrow> (fst st, crash e (snd st))
      | Inr None \<Rightarrow> (say (''No Application '' @ name @ ''!!!'' @ [NL]) (fst st), snd st)
      | Inr (Some app) \<Rightarrow> f app st)"

fun line_meaning :: "probe_env \<Rightarrow> user_line \<Rightarrow> 'a probe_state \<Rightarrow> 'a probe_state" where
  "line_meaning env (U_Die name) st = ask_app name (\<lambda>app (p, s). (p, IvySendDieMsg (aid app) s)) st"
| "line_meaning env (U_Ping name) st = ask_app name (\<lambda>app (p, s). (p, IvySendPing (aid app) s)) st"
| "line_meaning env (U_Where name) st = ask_app name (\<lambda>app (p, s).
     (say (''Application '' @ name @ '' on '' @ cstring_arg (host_of env (Some app) s) @ [NL]) p, s)) st"
| "line_meaning env (U_Bind r) (p, s) =
     (case pcre_error (be_pcre (pr_bus env)) r of
        None \<Rightarrow> (p, snd (IvyBindMsg FN_Callback 0 r s))
      | Some (off, err) \<Rightarrow>
          (say (''Error compiling '' @ [QUOTE] @ r @ [QUOTE] @ '', '' @ err @ '', not bound'' @ [NL]) p, s))"
| "line_meaning env (U_Direct name i m) st =
     ask_app name (\<lambda>app (p, s). (p, IvySendDirectMsg (aid app) (atoi i) m s)) st"
| "line_meaning env U_Quit (p, s) = (p, s\<lparr>exited := True\<rparr>)"
| "line_meaning env (U_Text t) (p, s) =
     (let (n, s1) = IvySendMsg (be_pcre (pr_bus env)) (Some ''%s'') t s
      in (say (''-> Sent to '' @ dec_nat n @ '' peer'' @ (if n = 1 then [] else ''s'') @ [NL]) p, s1))"

lemma spell_plain: "line_ok l \<Longrightarrow> NL \<notin> set (spell l) \<and> NUL \<notin> set (spell l)"
  by (cases l) (auto simp: is_word_def is_quoted_def QUOTE_def)

text \<open>The word after a command, the text between quotes.\<close>

lemma strtok_name: "is_word w \<Longrightarrow> c \<in> {SP, NL} \<Longrightarrow> strtok (w @ c # rest) WORD_END = (Some w, rest)"
  using strtok_first [of "[]" WORD_END w c rest] by (auto simp: is_word_def WORD_END_def)

lemma strtok_number: "is_word w \<Longrightarrow> strtok (w @ SP # rest) [SP] = (Some w, rest)"
  using strtok_first [of "[]" "[SP]" w SP rest] by (auto simp: is_word_def)

lemma strtok_quoted: "is_quoted w \<Longrightarrow> strtok (QUOTE # w @ QUOTE # rest) [QUOTE] = (Some w, rest)"
  using strtok_first [of "[QUOTE]" "[QUOTE]" w QUOTE rest] by (auto simp: is_quoted_def)

lemma Chop_quoted:
  assumes "is_quoted w"
  shows "Chop (Some w) = Inr (Some w)"
proof -
  have "w \<noteq> []" "NL \<notin> set w" using assms by (simp_all add: is_quoted_def)
  moreover from \<open>w \<noteq> []\<close> have "last w \<in> set w" by (rule last_in_set)
  ultimately have "last w \<noteq> NL" by metis
  then show ?thesis using \<open>w \<noteq> []\<close> by (simp add: Chop_def)
qed

lemma strtok_command:
  assumes "w \<noteq> []" "set w \<inter> set LINE_START = {}" "c \<in> {SP, NL}"
  shows "strtok (CHR ''.'' # w @ c # rest) LINE_START = (Some w, rest)"
  using strtok_first [of "''.''" LINE_START w c rest] assms by (auto simp: LINE_START_def)

lemma HandleStdin_dot:
  assumes "fgets 4096 (stdin_left p) = Some (CHR ''.'' # w @ c # rest, inp)" "w \<noteq> []" "set w \<inter> set LINE_START = {}"
    "c \<in> {SP, NL}"
  shows "HandleStdin env k (p, s) = probe_command env w rest (p\<lparr>stdin_left := inp\<rparr>, s)"
  using assms(1) strtok_command [OF assms(2-4), of rest] by (simp add: HandleStdin_def byte_at_def)

lemma with_app_ask: "with_app name f = ask_app name f"
  by (rule ext) (auto simp: with_app_def ask_app_def split: sum.split option.split)

text \<open>
  (C30) The agent does what its user types. For a line that is written out with its newline, is shorter
  than the buffer of \<^verbatim>\<open>fgets\<close>, and whose names have no space and quoted texts no quote, \<^verbatim>\<open>HandleStdin\<close> takes
  that line and no more from its input and does what the line means: \<^verbatim>\<open>.die\<close>, \<^verbatim>\<open>.ping\<close>, \<^verbatim>\<open>.where\<close> and \<^verbatim>\<open>.direct\<close>
  send that message to the application named (for \<^verbatim>\<open>.direct\<close> with the number and the text given) or say that
  there is none, \<^verbatim>\<open>.bind\<close> subscribes to the expression exactly when it compiles, \<^verbatim>\<open>.quit\<close> ends the process,
  and any other text is sent on the bus and the number of receivers printed.
\<close>

theorem probe_commands:
  assumes "line_ok l" "length (spell l) < 4095"
  shows "HandleStdin env k (p\<lparr>stdin_left := spell l @ NL # inp\<rparr>, s) = line_meaning env l (p\<lparr>stdin_left := inp\<rparr>, s)"
proof -
  let ?p = "p\<lparr>stdin_left := spell l @ NL # inp\<rparr>"
  have f: "fgets 4096 (stdin_left ?p) = Some (spell l @ [NL], inp)"
    using fgets_line(1) [of "spell l" inp] spell_plain [OF assms(1)] assms(2) by simp
  note dot = HandleStdin_dot [where p = ?p and inp = inp and k = k and env = env and s = s]
  note defs = LINE_START_def probe_command_def cmd_die_def cmd_ping_def cmd_where_def cmd_bind_def cmd_direct_def
    on_bus_def with_app_ask IvyBindingCompile_def
  show ?thesis
  proof (cases l)
    case (U_Die name)
    then show ?thesis using dot [of "''die''" SP "name @ [NL]"] f assms(1) strtok_name [of name NL "[]"] by (simp add: defs)
  next
    case (U_Ping name)
    then show ?thesis using dot [of "''ping''" SP "name @ [NL]"] f assms(1) strtok_name [of name NL "[]"] by (simp add: defs)
  next
    case (U_Where name)
    then show ?thesis using dot [of "''where''" SP "name @ [NL]"] f assms(1) strtok_name [of name NL "[]"] by (simp add: defs)
  next
    case (U_Bind r)
    then show ?thesis using dot [of "''bind''" SP "QUOTE # r @ [QUOTE, NL]"] f assms(1) strtok_quoted [of r "[NL]"] Chop_quoted [of r]
      by (simp add: defs QUOTE_def [symmetric] split: option.split)
  next
    case (U_Direct name i m)
    then show ?thesis
      using dot [of "''direct''" SP "name @ SP # i @ SP # QUOTE # m @ [QUOTE, NL]"] f assms(1)
        strtok_name [of name SP "i @ SP # QUOTE # m @ [QUOTE, NL]"] strtok_number [of i "QUOTE # m @ [QUOTE, NL]"]
        strtok_quoted [of m "[NL]"] Chop_quoted [of m]
      by (simp add: defs cstring_arg_def)
  next
    case U_Quit
    then show ?thesis using dot [of "''quit''" NL "[]"] f by (simp add: defs)
  next
    case (U_Text t)
    then have "strtok (t @ [NL]) [NL] = (Some t, [])" using assms(1) strtok_first [of "[]" "[NL]" t NL "[]"] by auto
    moreover have "byte_at (t @ [NL]) 0 \<noteq> CHR ''.''"
      using U_Text assms(1) by (cases t) (auto simp: byte_at_def)
    ultimately show ?thesis using f U_Text by (simp add: HandleStdin_def cstring_arg_def Let_def split: prod.split)
  qed
qed

theorem probe_commands_witness:
  "HandleStdin some_probe_env 3 ((probe_start [])\<lparr>stdin_left := spell (U_Die ''A'') @ NL # ''.who''\<rparr>,
      (bus_on no_sockets)\<lparr>allClients := [peer_on 5 1 ''A'' []]\<rparr>)
    = (probe_start ''.who'', IvySendDieMsg 5 ((bus_on no_sockets)\<lparr>allClients := [peer_on 5 1 ''A'' []]\<rparr>))"
  using probe_commands [where l = "U_Die ''A''" and env = some_probe_env and k = 3 and p = "probe_start []"
      and inp = "''.who''" and s = "(bus_on no_sockets)\<lparr>allClients := [peer_on 5 1 ''A'' []]\<rparr>"]
  by (simp add: is_word_def ask_app_def IvyGetApplication_def peer_on_def probe_start_def)

end
