(* ===== verification/Ivy_Tcl.thy ===== *)
theory Ivy_Tcl
  imports Ivy_Program Ivy_Own
begin

text \<open>
  The binding of the library for Tcl, \<^verbatim>\<open>src/src/ivytcl.c\<close>: the commands of the namespace \<^verbatim>\<open>Ivy\<close>, the callbacks
  that evaluate the scripts of the user, and its tables, over the model of the API. The interpreter is a
  parameter: what a script does is the commands of the binding it runs and whether it succeeds. The channels
  of \<^verbatim>\<open>TCL_CHANNEL_INTEGRATION\<close> are in \<open>Ivy_Toolkit\<close>.
\<close>

subsection \<open>State\<close>

text \<open>
  \<^verbatim>\<open>filter_struct\<close>; a member that is not set is \<open>None\<close>. The interpreter is one, so \<^verbatim>\<open>interp\<close> is left out.
\<close>

record filter_struct =
  fs_addr :: addr
  fs_id :: "addr option"
  fs_script :: string
  fs_filter :: "string option"

text \<open>
  The static variables of the file, with the user data of the callbacks and the static variable of
  \<^verbatim>\<open>IvyBindDirectCmd\<close>; \<open>structs\<close> are the allocated filters. A hash table is the list of its entries, \<open>None\<close> before
  it is initialised. \<open>tcl_result\<close> is the result of the interpreter, \<open>evaluated\<close> the scripts so far.
\<close>

record tcl =
  structs :: "filter_struct list"
  next_struct :: addr
  filter_table :: "(nat \<times> addr) list option"
  app_table :: "(string \<times> addr) list option"
  filter_id :: int
  nom_de_l_appli :: "string option"
  message_de_bienvenue :: "string option"
  app_filter :: addr
  die_filter :: addr
  direct_filter :: addr
  tcl_result :: string
  evaluated :: "string list"
  background_errors :: nat

type_synonym 'a tcl_state = "tcl \<times> 'a ivy_state_scheme"

text \<open>
  The world: the bus, \<^verbatim>\<open>getpeername\<close>, and of the Tcl library the scripts (with all those before), the order of a
  hash table and the format of lists.
\<close>

record tcl_env =
  te_bus :: bus_env
  te_start :: start_env
  te_peername :: "nat \<Rightarrow> sockaddr option"
  te_debug_binary :: bool
  te_script :: "string list \<Rightarrow> string list list \<times> bool"
  te_order :: "(string \<times> addr) list \<Rightarrow> (string \<times> addr) list"
  te_element :: "string \<Rightarrow> string \<Rightarrow> string"

datatype tcl_code = TCL_OK | TCL_ERROR

definition FN_IvyAppCB :: fnptr where "FN_IvyAppCB = 31"
definition FN_IvyDieCB :: fnptr where "FN_IvyDieCB = 32"
definition FN_IvyMsgCB :: fnptr where "FN_IvyMsgCB = 33"
definition FN_IvyDirectMsgCB :: fnptr where "FN_IvyDirectMsgCB = 34"

definition DQUOTE :: char where
  "DQUOTE = CHR 0x22"

definition INTEGER_SPACE :: nat where
  "INTEGER_SPACE = 30"

definition find_struct :: "addr \<Rightarrow> tcl \<Rightarrow> filter_struct option" where
  "find_struct a p = find (\<lambda>f. fs_addr f = a) (structs p)"

definition new_struct :: "string \<Rightarrow> string option \<Rightarrow> tcl \<Rightarrow> addr \<times> tcl" where
  "new_struct script flt p =
     (let a = next_struct p
      in (a, p\<lparr>next_struct := Suc a,
               structs := \<lparr>fs_addr = a, fs_id = None, fs_script = script, fs_filter = flt\<rparr> # structs p\<rparr>))"

definition upd_struct :: "addr \<Rightarrow> (filter_struct \<Rightarrow> filter_struct) \<Rightarrow> tcl \<Rightarrow> tcl" where
  "upd_struct a f p = p\<lparr>structs := map (\<lambda>x. if fs_addr x = a then f x else x) (structs p)\<rparr>"

definition free_struct :: "addr \<Rightarrow> tcl \<Rightarrow> tcl" where
  "free_struct a p = p\<lparr>structs := filter (\<lambda>x. fs_addr x \<noteq> a) (structs p)\<rparr>"

definition set_entry :: "'k \<Rightarrow> 'v \<Rightarrow> ('k \<times> 'v) list \<Rightarrow> ('k \<times> 'v) list" where
  "set_entry k v t = (k, v) # filter (\<lambda>e. fst e \<noteq> k) t"

definition del_entry :: "'k \<Rightarrow> ('k \<times> 'v) list \<Rightarrow> ('k \<times> 'v) list" where
  "del_entry k t = filter (\<lambda>e. fst e \<noteq> k) t"

subsection \<open>Words of the C library\<close>

text \<open>A \<^verbatim>\<open>long\<close> as key of a table of words, and as an \<^verbatim>\<open>int\<close>.\<close>

definition word_key :: "int \<Rightarrow> nat" where
  "word_key i = nat (i mod 18446744073709551616)"

definition int_of_long :: "int \<Rightarrow> int" where
  "int_of_long i = (i + 2147483648) mod 4294967296 - 2147483648"

text \<open>
  A string of the user as the format of \<^verbatim>\<open>printf\<close>, with one null pointer as argument: any directive but
  \<^verbatim>\<open>%%\<close> reads an argument that is not there or not of its type.
\<close>

fun printf_null :: "string \<Rightarrow> c_fault + string" where
  "printf_null [] = Inr []"
| "printf_null (c # cs) =
     (if c \<noteq> CHR ''%'' then (case printf_null cs of Inl e \<Rightarrow> Inl e | Inr t \<Rightarrow> Inr (c # t))
      else (case cs of
              [] \<Rightarrow> Inl OutOfBounds
            | d # ds \<Rightarrow>
                if d = CHR ''%'' then (case printf_null ds of Inl e \<Rightarrow> Inl e | Inr t \<Rightarrow> Inr (d # t))
                else Inl OutOfBounds))"

text \<open>\<^verbatim>\<open>strcpy\<close> and \<^verbatim>\<open>strcat\<close> into a block of \<open>n\<close> bytes, with the null byte at the end.\<close>

definition ck_concat :: "nat \<Rightarrow> string list \<Rightarrow> c_fault + string" where
  "ck_concat n pieces = (let t = concat pieces in if n \<le> length t then Inl OutOfBounds else Inr t)"

subsection \<open>Commands\<close>

definition append_result :: "string \<Rightarrow> 'a tcl_state \<Rightarrow> 'a tcl_state" where
  "append_result t = (\<lambda>(p, s). (p\<lparr>tcl_result := tcl_result p @ t\<rparr>, s))"

definition tcl_error :: "string \<Rightarrow> 'a tcl_state \<Rightarrow> tcl_code \<times> 'a tcl_state" where
  "tcl_error t st = (TCL_ERROR, append_result t st)"

definition wrong_args :: "string \<Rightarrow> string \<Rightarrow> 'a tcl_state \<Rightarrow> tcl_code \<times> 'a tcl_state" where
  "wrong_args cmd usage = tcl_error (''wrong # of args: '' @ [DQUOTE] @ cmd @ usage @ [DQUOTE])"

text \<open>A fault of the program: the interpreter gets no answer.\<close>

definition tcl_crash :: "c_fault \<Rightarrow> 'a tcl_state \<Rightarrow> tcl_code \<times> 'a tcl_state" where
  "tcl_crash e = (\<lambda>(p, s). (TCL_ERROR, (p, crash e s)))"
text \<open>
  Each command gets its words, the first of them its own name. The tables are static and zero before
  \<^verbatim>\<open>Ivy::init\<close>: to look into one then follows a null pointer.
\<close>

definition IvyInitCmd :: "tcl_env \<Rightarrow> string list \<Rightarrow> 'a tcl_state \<Rightarrow> tcl_code \<times> 'a tcl_state" where
  "IvyInitCmd env argv = (\<lambda>(p, s).
     if nom_de_l_appli p \<noteq> None then tcl_error ''Ivy has been already inited'' (p, s)
     else case argv of
       [_, name, msg, connect, die] \<Rightarrow>
         (let p1 = p\<lparr>nom_de_l_appli := Some name, message_de_bienvenue := Some msg\<rparr>;
              (a, p2) = new_struct connect None p1;
              (d, p3) = new_struct die None p2;
              p4 = p3\<lparr>filter_table := Some [], app_table := Some [], app_filter := a, die_filter := d\<rparr>
          in (TCL_OK, (p4, IvyInit (Some name) (Some msg) FN_IvyAppCB FN_IvyDieCB (te_debug_binary env) s)))
     | _ \<Rightarrow> wrong_args (hd argv) '' appName readyMsg connectScript dieScript'' (p, s))"

definition IvyStartCmd :: "tcl_env \<Rightarrow> string list \<Rightarrow> 'a tcl_state \<Rightarrow> tcl_code \<times> 'a tcl_state" where
  "IvyStartCmd env argv = (\<lambda>(p, s).
     case argv of
       [_, bus] \<Rightarrow> (TCL_OK, (p, IvyStart (te_start env) bus s))
     | _ \<Rightarrow> wrong_args (hd argv) '' msg'' (p, s))"

definition IvyBindCmd :: "string list \<Rightarrow> 'a tcl_state \<Rightarrow> tcl_code \<times> 'a tcl_state" where
  "IvyBindCmd argv = (\<lambda>(p, s).
     case argv of
       [_, flt, script] \<Rightarrow>
         (let (a, p1) = new_struct script (Some flt) p
          in case printf_null flt of
               Inl e \<Rightarrow> tcl_crash e (p1, s)
             | Inr out \<Rightarrow>
                 (let (m, s1) = IvyBindMsg FN_IvyMsgCB a out s;
                      p2 = upd_struct a (\<lambda>f. f\<lparr>fs_id := Some m\<rparr>) p1
                  in case filter_table p2 of
                       None \<Rightarrow> tcl_crash NullDeref (p2, s1)
                     | Some t \<Rightarrow>
                         (TCL_OK, (p2\<lparr>filter_table := Some (set_entry (word_key (filter_id p2)) a t),
                                      tcl_result := dec_int (filter_id p2), filter_id := filter_id p2 + 1\<rparr>, s1))))
     | _ \<Rightarrow> wrong_args (hd argv) '' filter script'' (p, s))"

definition IvyUnbindCmd :: "string list \<Rightarrow> 'a tcl_state \<Rightarrow> tcl_code \<times> 'a tcl_state" where
  "IvyUnbindCmd argv = (\<lambda>(p, s).
     case argv of
       [cmd, w] \<Rightarrow>
         (let (i, rest) = strtol w
          in if rest \<noteq> [] then tcl_error (cmd @ '' wrong filter id: '' @ [DQUOTE] @ w) (p, s)
             else case filter_table p of
               None \<Rightarrow> tcl_crash NullDeref (p, s)
             | Some t \<Rightarrow>
                 (case map_of t (word_key i) of
                    None \<Rightarrow> tcl_error (cmd @ '' unknown filter: '' @ [DQUOTE] @ w) (p, s)
                  | Some a \<Rightarrow>
                      (case find_struct a p of
                         None \<Rightarrow> tcl_crash UseAfterFree (p, s)
                       | Some f \<Rightarrow>
                           (TCL_OK, (free_struct a (p\<lparr>filter_table := Some (del_entry (word_key i) t)\<rparr>),
                              case fs_id f of None \<Rightarrow> crash NullDeref s | Some m \<Rightarrow> IvyUnbindMsg m s)))))
     | _ \<Rightarrow> wrong_args (hd argv) '' filterId'' (p, s))"

definition IvySendCmd :: "tcl_env \<Rightarrow> string list \<Rightarrow> 'a tcl_state \<Rightarrow> tcl_code \<times> 'a tcl_state" where
  "IvySendCmd env argv = (\<lambda>(p, s).
     case argv of
       [_, msg] \<Rightarrow>
         (case printf_null msg of
            Inl e \<Rightarrow> tcl_crash e (p, s)
          | Inr out \<Rightarrow> (TCL_OK, (p, snd (IvySendMsg (be_pcre (te_bus env)) (Some msg) out s))))
     | _ \<Rightarrow> wrong_args (hd argv) '' msg'' (p, s))"

definition IvyApplicationListCmd :: "tcl_env \<Rightarrow> string list \<Rightarrow> 'a tcl_state \<Rightarrow> tcl_code \<times> 'a tcl_state" where
  "IvyApplicationListCmd env argv = (\<lambda>(p, s).
     case argv of
       [_] \<Rightarrow>
         (case app_table p of
            None \<Rightarrow> tcl_crash NullDeref (p, s)
          | Some t \<Rightarrow> (TCL_OK, (p\<lparr>tcl_result := fold (\<lambda>e r. te_element env r (fst e)) (te_order env t) (tcl_result p)\<rparr>, s)))
     | _ \<Rightarrow> wrong_args (hd argv) [] (p, s))"

text \<open>The application of a name, in the table of those the callback was told of.\<close>

definition with_tcl_app :: "string \<Rightarrow> (addr \<Rightarrow> 'a tcl_state \<Rightarrow> tcl_code \<times> 'a tcl_state) \<Rightarrow> 'a tcl_state
    \<Rightarrow> tcl_code \<times> 'a tcl_state" where
  "with_tcl_app name f = (\<lambda>(p, s).
     case app_table p of
       None \<Rightarrow> tcl_crash NullDeref (p, s)
     | Some t \<Rightarrow>
         (case map_of t name of
            None \<Rightarrow> tcl_error (''Application '' @ [DQUOTE] @ name @ [DQUOTE] @ '' not connected'') (p, s)
          | Some a \<Rightarrow> f a (p, s)))"

text \<open>A null pointer as result is the empty one.\<close>

definition IvyApplicationHostCmd :: "tcl_env \<Rightarrow> string list \<Rightarrow> 'a tcl_state \<Rightarrow> tcl_code \<times> 'a tcl_state" where
  "IvyApplicationHostCmd env argv st =
     (case argv of
        [_, name] \<Rightarrow> with_tcl_app name (\<lambda>a (p, s).
          if a \<noteq> NULL \<and> find_ivy_client a s = None then tcl_crash UseAfterFree (p, s)
          else (TCL_OK, (p\<lparr>tcl_result :=
                  (case IvyGetApplicationHost (te_peername env) (be_nameinfo (te_bus env)) (find_ivy_client a s) s of
                     None \<Rightarrow> [] | Some h \<Rightarrow> h)\<rparr>, s))) st
      | _ \<Rightarrow> wrong_args (hd argv) '' appName'' st)"

definition IvyApplicationMsgsCmd :: "tcl_env \<Rightarrow> string list \<Rightarrow> 'a tcl_state \<Rightarrow> tcl_code \<times> 'a tcl_state" where
  "IvyApplicationMsgsCmd env argv st =
     (case argv of
        [_, name] \<Rightarrow> with_tcl_app name (\<lambda>a (p, s).
          case find_ivy_client a s of
            None \<Rightarrow> tcl_crash UseAfterFree (p, s)
          | Some c \<Rightarrow> (TCL_OK, (p\<lparr>tcl_result := fold (\<lambda>m r. te_element env r m) (IvyGetApplicationMessages c) (tcl_result p)\<rparr>, s))) st
      | _ \<Rightarrow> wrong_args (hd argv) '' appName'' st)"

definition IvySendDirectCmd :: "string list \<Rightarrow> 'a tcl_state \<Rightarrow> tcl_code \<times> 'a tcl_state" where
  "IvySendDirectCmd argv st =
     (case argv of
        [cmd, name, w, msg] \<Rightarrow> with_tcl_app name (\<lambda>a (p, s).
          let (i, rest) = strtol w
          in if rest \<noteq> [] then tcl_error (cmd @ '' wrong id: '' @ [DQUOTE] @ w) (p, s)
             else (TCL_OK, (p, IvySendDirectMsg a (int_of_long i) msg s))) st
      | _ \<Rightarrow> wrong_args (hd argv) '' appName id msg'' st)"

definition IvyBindDirectCmd :: "string list \<Rightarrow> 'a tcl_state \<Rightarrow> tcl_code \<times> 'a tcl_state" where
  "IvyBindDirectCmd argv = (\<lambda>(p, s).
     case argv of
       [_, script] \<Rightarrow>
         if direct_filter p = NULL then
           (let (a, p1) = new_struct script None p
            in (TCL_OK, (p1\<lparr>direct_filter := a\<rparr>, IvyBindDirectMsg FN_IvyDirectMsgCB s)))
         else (TCL_OK, (upd_struct (direct_filter p) (\<lambda>f. f\<lparr>fs_script := script\<rparr>) p, s))
     | _ \<Rightarrow> wrong_args (hd argv) '' script'' (p, s))"

text \<open>
  The interpreter calls the command of that name, with an empty result before. The names are those
  \<^verbatim>\<open>Tclivy_Init\<close> registers; any other command is none of the binding.
\<close>

definition tcl_dispatch :: "tcl_env \<Rightarrow> string \<Rightarrow> string list \<Rightarrow> 'a tcl_state \<Rightarrow> tcl_code \<times> 'a tcl_state" where
  "tcl_dispatch env cmd argv st =
     (if cmd = ''Ivy::init'' then IvyInitCmd env argv st
      else if cmd = ''Ivy::start'' then IvyStartCmd env argv st
      else if cmd = ''Ivy::bind'' then IvyBindCmd argv st
      else if cmd = ''Ivy::unbind'' then IvyUnbindCmd argv st
      else if cmd = ''Ivy::send'' then IvySendCmd env argv st
      else if cmd = ''Ivy::senddirect'' then IvySendDirectCmd argv st
      else if cmd = ''Ivy::binddirect'' then IvyBindDirectCmd argv st
      else if cmd = ''Ivy::applist'' then IvyApplicationListCmd env argv st
      else if cmd = ''Ivy::apphost'' then IvyApplicationHostCmd env argv st
      else if cmd = ''Ivy::appmsgs'' then IvyApplicationMsgsCmd env argv st
      else (TCL_ERROR, st))"

definition tcl_call :: "tcl_env \<Rightarrow> string list \<Rightarrow> 'a tcl_state \<Rightarrow> tcl_code \<times> 'a tcl_state" where
  "tcl_call env argv = (\<lambda>(p, s).
     if argv = [] then (TCL_OK, (p, s)) else tcl_dispatch env (hd argv) argv (p\<lparr>tcl_result := []\<rparr>, s))"
subsection \<open>Callbacks\<close>

text \<open>
  A script runs its commands, as long as the program has no fault and has not ended; the answer is whether it
  succeeded.
\<close>

fun run_commands :: "tcl_env \<Rightarrow> string list list \<Rightarrow> 'a tcl_state \<Rightarrow> 'a tcl_state" where
  "run_commands env [] st = st"
| "run_commands env (argv # cmds) st =
     (if running (snd st) then run_commands env cmds (snd (tcl_call env argv st)) else st)"

definition Tcl_GlobalEval :: "tcl_env \<Rightarrow> string \<Rightarrow> 'a tcl_state \<Rightarrow> bool \<times> 'a tcl_state" where
  "Tcl_GlobalEval env script = (\<lambda>(p, s).
     let h = evaluated p @ [script]; (cmds, ok) = te_script env h
     in (ok, run_commands env cmds (p\<lparr>evaluated := h\<rparr>, s)))"

text \<open>
  The common end of the callbacks: the script with its words is built in a block of \<open>n\<close> bytes and
  evaluated; then \<^verbatim>\<open>interp\<close> is read in the filter once more, for an error and for \<^verbatim>\<open>Tcl_Release\<close>.
\<close>

definition eval_built :: "tcl_env \<Rightarrow> addr \<Rightarrow> nat \<Rightarrow> string list \<Rightarrow> 'a tcl_state \<Rightarrow> 'a tcl_state" where
  "eval_built env a n pieces = (\<lambda>(p, s).
     case ck_concat n pieces of
       Inl e \<Rightarrow> (p, crash e s)
     | Inr script \<Rightarrow>
         (let (ok, (p1, s1)) = Tcl_GlobalEval env script (p, s)
          in case find_struct a p1 of
               None \<Rightarrow> (p1, crash UseAfterFree s1)
             | Some _ \<Rightarrow> (if ok then p1 else p1\<lparr>background_errors := background_errors p1 + 1\<rparr>, s1)))"

definition with_struct :: "addr \<Rightarrow> (filter_struct \<Rightarrow> 'a tcl_state \<Rightarrow> 'a tcl_state) \<Rightarrow> 'a tcl_state \<Rightarrow> 'a tcl_state" where
  "with_struct a f = (\<lambda>(p, s). case find_struct a p of None \<Rightarrow> (p, crash UseAfterFree s) | Some x \<Rightarrow> f x (p, s))"

text \<open>The number of the event selects one of two words by its parity.\<close>

definition event_number :: "app_event \<Rightarrow> nat" where
  "event_number ev =
     (case ev of IvyApplicationConnected \<Rightarrow> 0 | IvyApplicationDisconnected \<Rightarrow> 1 | IvyApplicationCongestion \<Rightarrow> 2
      | IvyApplicationDecongestion \<Rightarrow> 3 | IvyApplicationFifoFull \<Rightarrow> 4)"

definition app_event_str :: "app_event \<Rightarrow> string" where
  "app_event_str ev = [''Connected'', ''Disconnected''] ! (event_number ev mod 2)"

definition IvyAppCB :: "tcl_env \<Rightarrow> ivy_client \<Rightarrow> addr \<Rightarrow> app_event \<Rightarrow> 'a tcl_state \<Rightarrow> 'a tcl_state" where
  "IvyAppCB env app a ev = (\<lambda>(p, s).
     case app_table p of
       None \<Rightarrow> (p, crash NullDeref s)
     | Some t \<Rightarrow>
         (let name = IvyGetApplicationName (Some app);
              t1 = (if ev = IvyApplicationConnected \<and> map_of t name = None then set_entry name (aid app) t else t);
              entry = map_of t1 name
          in with_struct a (\<lambda>f st.
               let n = length (fs_script f) + INTEGER_SPACE + (if entry \<noteq> None then length name + 3 else 4);
                   pieces = [fs_script f, '' '']
                     @ (if entry \<noteq> None then ['' '' @ [DQUOTE], name, [DQUOTE]] else [''???''])
                     @ ['' '' @ [DQUOTE], app_event_str ev, [DQUOTE]];
                   (p2, s2) = eval_built env a n pieces st
               in (if ev = IvyApplicationDisconnected \<and> entry \<noteq> None
                   then p2\<lparr>app_table := map_option (del_entry name) (app_table p2)\<rparr> else p2, s2))
               (p\<lparr>app_table := Some t1\<rparr>, s)))"

definition IvyDieCB :: "tcl_env \<Rightarrow> addr \<Rightarrow> int \<Rightarrow> 'a tcl_state \<Rightarrow> 'a tcl_state" where
  "IvyDieCB env a i = with_struct a (\<lambda>f.
     eval_built env a (length (fs_script f) + INTEGER_SPACE + 1) [fs_script f, '' '' @ [DQUOTE], dec_int i, [DQUOTE]])"

definition IvyMsgCB :: "tcl_env \<Rightarrow> ivy_client \<Rightarrow> addr \<Rightarrow> string list \<Rightarrow> 'a tcl_state \<Rightarrow> 'a tcl_state" where
  "IvyMsgCB env app a argv = with_struct a (\<lambda>f.
     let name = IvyGetApplicationName (Some app);
         n = length (fs_script f) + 3 + sum_list (map (\<lambda>w. length w + 3) argv) + 1 + (length name + 4)
     in eval_built env a n
          ([fs_script f, '' '' @ [DQUOTE], name, [DQUOTE]] @ concat (map (\<lambda>w. ['' '' @ [DQUOTE], w, [DQUOTE]]) argv)))"

definition IvyDirectMsgCB :: "tcl_env \<Rightarrow> addr \<Rightarrow> int \<Rightarrow> string \<Rightarrow> 'a tcl_state \<Rightarrow> 'a tcl_state" where
  "IvyDirectMsgCB env a i msg = with_struct a (\<lambda>f.
     let n = length (fs_script f) + 1 + (length (dec_int i) + 1) + (length msg + 1)
     in eval_built env a n [fs_script f, '' '', dec_int i, '' '' @ [DQUOTE], msg, [DQUOTE]])"

subsection \<open>Blocks of the callbacks\<close>

lemma ck_concat_fits: "length (concat pieces) < n \<Longrightarrow> ck_concat n pieces = Inr (concat pieces)"
  by (simp add: ck_concat_def)

lemma app_event_str_cases: "app_event_str ev = ''Connected'' \<or> app_event_str ev = ''Disconnected''"
  by (cases ev) (simp_all add: app_event_str_def event_number_def)

lemma length_quoted: "length (concat (concat (map (\<lambda>w. ['' '' @ [q], w, [q]]) argv))) = sum_list (map (\<lambda>w. length w + 3) argv)"
  by (induction argv) simp_all

text \<open>
  Every call for a direct message writes two bytes past its block: the size counts neither of the quotes.
\<close>

lemma direct_block: "ck_concat (length scr + 1 + (length num + 1) + (length msg + 1))
    [scr, '' '', num, '' '' @ [DQUOTE], msg, [DQUOTE]] = Inl OutOfBounds"
  by (simp add: ck_concat_def)
subsection \<open>Filters, subscriptions and tables\<close>

definition struct_ids :: "tcl \<Rightarrow> (addr \<times> addr option) list" where
  "struct_ids p = map (\<lambda>f. (fs_addr f, fs_id f)) (structs p)"

text \<open>The filters with a subscription are those of the subscriptions of the library, as their user data.\<close>

definition ids_ok :: "addr \<Rightarrow> (addr \<times> addr option) list \<Rightarrow> msg_rcv list \<Rightarrow> bool" where
  "ids_ok n I M \<longleftrightarrow> 0 < n \<and> distinct (map fst I) \<and> (\<forall>a \<in> set (map fst I). 0 < a \<and> a < n)
     \<and> (\<forall>r \<in> set M. mcallback r = FN_IvyMsgCB)
     \<and> (\<forall>a m. (a, Some m) \<in> set I \<longleftrightarrow> (a, m) \<in> (\<lambda>r. (muser_data r, rid r)) ` set M)"

definition table_ok :: "(nat \<times> addr) list \<Rightarrow> (addr \<times> addr option) list \<Rightarrow> bool" where
  "table_ok t I \<longleftrightarrow> distinct (map fst t) \<and> distinct (map snd t) \<and> (\<forall>a \<in> set (map snd t). \<exists>m. (a, Some m) \<in> set I)"

definition tcl_ok :: "tcl \<Rightarrow> msg_rcv list \<Rightarrow> bool" where
  "tcl_ok p M \<longleftrightarrow> ids_ok (next_struct p) (struct_ids p) M
     \<and> (case filter_table p of None \<Rightarrow> True | Some t \<Rightarrow> table_ok t (struct_ids p))"

lemma ids_ok_new: "ids_ok n I M \<Longrightarrow> ids_ok (Suc n) ((n, None) # I) M"
  by (fastforce simp: ids_ok_def)

lemma ids_ok_bind:
  assumes "ids_ok n I M" "rid r = m" "muser_data r = n" "mcallback r = FN_IvyMsgCB"
  shows "ids_ok (Suc n) ((n, Some m) # I) (r # M)"
proof -
  have "(\<forall>a \<in> set (map fst I). 0 < a \<and> a < Suc n)" using assms(1) by (auto simp: ids_ok_def intro: less_SucI)
  moreover have "n \<notin> set (map fst I)" using assms(1) by (auto simp: ids_ok_def)
  ultimately show ?thesis using assms by (simp add: ids_ok_def)
qed

lemma ids_ok_unbind:
  assumes ok: "ids_ok n I M" and a: "(a, Some m) \<in> set I" and d: "distinct (map rid M)"
  shows "ids_ok n (filter (\<lambda>e. fst e \<noteq> a) I) (filter (\<lambda>x. rid x \<noteq> m) M)"
proof -
  have i: "inj_on rid (set M)" "inj_on fst (set I)" using ok d by (simp_all add: ids_ok_def distinct_map)
  have e: "(b, Some k) \<in> set I \<longleftrightarrow> (\<exists>r \<in> set M. muser_data r = b \<and> rid r = k)" for b k using ok by (auto simp: ids_ok_def)
  obtain r where r: "r \<in> set M" "muser_data r = a" "rid r = m" using e [of a m] a by blast
  have "muser_data x = a \<longleftrightarrow> rid x = m" if x: "x \<in> set M" for x
  proof
    assume "muser_data x = a"
    then have "(a, Some (rid x)) \<in> set I" using e [of a "rid x"] x by blast
    then show "rid x = m" using inj_onD [OF i(2) _ _ a] by fastforce
  next
    assume "rid x = m"
    then show "muser_data x = a" using inj_onD [OF i(1) _ x r(1)] r(2,3) by simp
  qed
  then have "(b, Some k) \<in> set (filter (\<lambda>e. fst e \<noteq> a) I)
      \<longleftrightarrow> (b, k) \<in> (\<lambda>r. (muser_data r, rid r)) ` set (filter (\<lambda>x. rid x \<noteq> m) M)" for b k
    using e [of b k] by auto
  moreover have "distinct (map fst (filter (\<lambda>e. fst e \<noteq> a) I))"
    by (rule distinct_map_filter) (use ok in \<open>simp add: ids_ok_def\<close>)
  ultimately show ?thesis using ok by (simp add: ids_ok_def)
qed

lemma table_ok_more: "table_ok t I \<Longrightarrow> table_ok t (e # I)"
  by (auto simp: table_ok_def)

lemma table_ok_bind:
  assumes "table_ok t I" "a \<notin> set (map fst I)"
  shows "table_ok (set_entry k a t) ((a, Some m) # I)"
proof -
  have "a \<notin> set (map snd t)" using assms by (force simp: table_ok_def)
  then have "a \<notin> snd ` {x \<in> set t. fst x \<noteq> k}" by auto
  then show ?thesis using assms(1) by (fastforce simp: table_ok_def set_entry_def distinct_map_filter)
qed

lemma table_ok_unbind:
  assumes "table_ok t I" "map_of t k = Some a"
  shows "table_ok (del_entry k t) (filter (\<lambda>e. fst e \<noteq> a) I)"
proof -
  have "b \<noteq> a" if "(j, b) \<in> set t" "j \<noteq> k" for j b
  proof
    assume "b = a"
    moreover have "inj_on snd (set t)" using assms(1) by (simp add: table_ok_def distinct_map)
    ultimately show False using inj_onD [of snd "set t" "(j, b)" "(k, a)"] that map_of_SomeD [OF assms(2)] by simp
  qed
  then show ?thesis using assms(1) by (fastforce simp: table_ok_def del_entry_def distinct_map_filter)
qed

lemma find_struct_iff:
  assumes "distinct (map fst (struct_ids p))"
  shows "(a, i) \<in> set (struct_ids p) \<longleftrightarrow> (\<exists>f. find_struct a p = Some f \<and> fs_id f = i)"
proof -
  have inj: "inj_on fs_addr (set (structs p))" using assms by (simp add: struct_ids_def distinct_map comp_def)
  show ?thesis
  proof
    assume "(a, i) \<in> set (struct_ids p)"
    then obtain f where f: "f \<in> set (structs p)" "fs_addr f = a" "fs_id f = i" by (auto simp: struct_ids_def)
    then have "find_struct a p \<noteq> None" by (auto simp: find_struct_def find_None_iff)
    then obtain g where g: "find_struct a p = Some g" by blast
    then have "g \<in> set (structs p)" "fs_addr g = a" by (auto simp: find_struct_def find_Some_iff)
    then have "g = f" using inj_onD [OF inj] f by simp
    then show "\<exists>f. find_struct a p = Some f \<and> fs_id f = i" using g f(3) by blast
  next
    assume "\<exists>f. find_struct a p = Some f \<and> fs_id f = i"
    then show "(a, i) \<in> set (struct_ids p)" by (auto simp: find_struct_def find_Some_iff struct_ids_def)
  qed
qed
subsection \<open>The binding is a program of the bus\<close>

text \<open>What a run leaves: a lawful state of the bus, and consistent tables as long as it runs.\<close>

definition tcl_good :: "bus_env \<Rightarrow> tcl \<times> ivy_state \<Rightarrow> bool" where
  "tcl_good env = (\<lambda>(p, s). lawful env s \<and> (running s \<longrightarrow> tcl_ok p (msg_recv s)))"

lemma good_fault: "fault s \<noteq> None \<Longrightarrow> tcl_good env (p, s)"
  by (auto simp: tcl_good_def lawful_def running_def)

lemma crash_faults: "fault (crash e s) \<noteq> None"
  by (cases "fault s") (simp_all add: crash_def)

lemma good_crash [simp]: "tcl_good env (p, crash e s)"
  by (rule good_fault) (rule crash_faults)

lemma tcl_ok_same:
  "tcl_ok p M \<Longrightarrow> struct_ids q = struct_ids p \<Longrightarrow> next_struct q = next_struct p \<Longrightarrow> filter_table q = filter_table p
    \<Longrightarrow> tcl_ok q M"
  by (simp add: tcl_ok_def split: option.splits)

lemma good_same:
  assumes "tcl_good env (p, s)" "running s" "lawful env t" "msg_recv t = msg_recv s"
    "struct_ids q = struct_ids p" "next_struct q = next_struct p" "filter_table q = filter_table p"
  shows "tcl_good env (q, t)"
  using assms tcl_ok_same [of p "msg_recv s" q] by (simp add: tcl_good_def)

lemma good_lawful: "tcl_good env (p, s) \<Longrightarrow> lawful env s"
  by (simp add: tcl_good_def)

lemma good_ok: "tcl_good env (p, s) \<Longrightarrow> running s \<Longrightarrow> tcl_ok p (msg_recv s)"
  by (simp add: tcl_good_def)

lemma running_rids: "tcl_good env (p, s) \<Longrightarrow> running s \<Longrightarrow> distinct (map rid (msg_recv s))"
  using reachable_inv [OF lawful_reachable [OF good_lawful]]
  by (simp add: inv_split others_inv_def others_def rcvs_inv_def rcvs_def comp_def)

lemma ids_new_struct [simp]:
  "struct_ids (snd (new_struct scr flt p)) = (next_struct p, None) # struct_ids p"
  "next_struct (snd (new_struct scr flt p)) = Suc (next_struct p)" "fst (new_struct scr flt p) = next_struct p"
  "filter_table (snd (new_struct scr flt p)) = filter_table p" "direct_filter (snd (new_struct scr flt p)) = direct_filter p"
  "filter_id (snd (new_struct scr flt p)) = filter_id p"
  by (simp_all add: new_struct_def Let_def struct_ids_def)

lemma tcl_ok_new: "tcl_ok p M \<Longrightarrow> tcl_ok (snd (new_struct scr flt p)) M"
  by (auto simp: tcl_ok_def ids_ok_new table_ok_more split: option.split)

lemma ids_upd_script [simp]: "struct_ids (upd_struct a (\<lambda>f. f\<lparr>fs_script := x\<rparr>) p) = struct_ids p"
  by (auto simp: struct_ids_def upd_struct_def)

lemma upd_struct_fields [simp]:
  "next_struct (upd_struct a f p) = next_struct p" "filter_table (upd_struct a f p) = filter_table p"
  by (simp_all add: upd_struct_def)

lemma good_init:
  assumes g: "tcl_good (te_bus env) (p, s)" and r: "running s"
  shows "tcl_good (te_bus env) (snd (IvyInitCmd env argv (p, s)))"
proof -
  note l = good_lawful [OF g]
  have e: "tcl_good (te_bus env) (snd (tcl_error x (p, s)))" for x
    by (simp add: tcl_error_def append_result_def) (rule good_same [OF g r l]; simp add: struct_ids_def)
  have "tcl_ok (p\<lparr>nom_de_l_appli := n, message_de_bienvenue := m\<rparr>) (msg_recv s)" for n m
    by (rule tcl_ok_same [OF good_ok [OF g r]]) (simp_all add: struct_ids_def)
  then have "tcl_ok (snd (new_struct y None (snd (new_struct x None
      (p\<lparr>nom_de_l_appli := n, message_de_bienvenue := m\<rparr>))))) (msg_recv s)" for x y n m
    by (intro tcl_ok_new)
  then have "tcl_ok ((snd (new_struct y None (snd (new_struct x None
      (p\<lparr>nom_de_l_appli := n, message_de_bienvenue := m\<rparr>)))))\<lparr>filter_table := Some [], app_table := t, app_filter := a, die_filter := d\<rparr>)
      (msg_recv s)" for x y n m t a d
    by (simp add: tcl_ok_def table_ok_def struct_ids_def)
  then show ?thesis using e lawful_calls(11) [OF l]
    by (simp add: IvyInitCmd_def wrong_args_def Let_def split_def tcl_good_def split: list.split)
qed

lemma good_simple:
  assumes g: "tcl_good (te_bus env) (p, s)" and r: "running s"
  shows "tcl_good (te_bus env) (snd (IvyStartCmd env argv (p, s)))" "tcl_good (te_bus env) (snd (IvySendCmd env argv (p, s)))"
    "tcl_good (te_bus env) (snd (IvyApplicationListCmd env argv (p, s)))"
    "tcl_good (te_bus env) (snd (IvyApplicationHostCmd env argv (p, s)))"
    "tcl_good (te_bus env) (snd (IvyApplicationMsgsCmd env argv (p, s)))"
    "tcl_good (te_bus env) (snd (IvySendDirectCmd argv (p, s)))"
    "tcl_good (te_bus env) (snd (IvyBindDirectCmd argv (p, s)))"
proof -
  note l = good_lawful [OF g]
  have q: "tcl_good (te_bus env) (q, t)" if "lawful (te_bus env) t" "msg_recv t = msg_recv s" "struct_ids q = struct_ids p"
    "next_struct q = next_struct p" "filter_table q = filter_table p" for q t by (rule good_same [OF g r that])
  have i: "tcl_good (te_bus env) (p\<lparr>tcl_result := x\<rparr>, s)" for x by (rule q [OF l]) (simp_all add: struct_ids_def)
  have e: "tcl_good (te_bus env) (snd (tcl_error x (p, s)))" "tcl_good (te_bus env) (snd (wrong_args c x (p, s)))" for x c
    using i by (simp_all add: tcl_error_def wrong_args_def append_result_def)
  have c: "tcl_good (te_bus env) (snd (tcl_crash f (p, s)))" for f by (simp add: tcl_crash_def)
  have w: "tcl_good (te_bus env) (snd (with_tcl_app name f (p, s)))"
    if "\<And>a. tcl_good (te_bus env) (snd (f a (p, s)))" for name f
    using that e c by (simp add: with_tcl_app_def split: option.split)
  have b: "tcl_good (te_bus env) (p, t)" if "lawful (te_bus env) t" "msg_recv t = msg_recv s" for t by (rule q [OF that]) simp_all
  show "tcl_good (te_bus env) (snd (IvyStartCmd env argv (p, s)))"
    using e b [OF lawful_calls(14) [OF l]] by (simp add: IvyStartCmd_def split: list.split)
  show "tcl_good (te_bus env) (snd (IvySendCmd env argv (p, s)))"
    using e c b [OF lawful_calls(5) [OF l]] by (simp add: IvySendCmd_def split: list.split sum.split)
  show "tcl_good (te_bus env) (snd (IvyApplicationListCmd env argv (p, s)))"
    using e c i by (simp add: IvyApplicationListCmd_def split: list.split option.split)
  show "tcl_good (te_bus env) (snd (IvyApplicationHostCmd env argv (p, s)))"
    using e c i by (auto simp: IvyApplicationHostCmd_def split: list.split intro!: w)
  show "tcl_good (te_bus env) (snd (IvyApplicationMsgsCmd env argv (p, s)))"
    using e c i by (auto simp: IvyApplicationMsgsCmd_def split: list.split option.split intro!: w)
  show "tcl_good (te_bus env) (snd (IvySendDirectCmd argv (p, s)))"
    using e b [OF lawful_calls(4) [OF l]] by (auto simp: IvySendDirectCmd_def split_def Let_def split: list.split intro!: w)
  have "tcl_ok ((snd (new_struct x None p))\<lparr>direct_filter := a\<rparr>) (msg_recv s)" for x a
    by (rule tcl_ok_same [OF tcl_ok_new [OF good_ok [OF g r]]]) (simp_all add: struct_ids_def)
  then have d: "tcl_good (te_bus env) ((snd (new_struct x None p))\<lparr>direct_filter := a\<rparr>, IvyBindDirectMsg f s)" for x a f
    using lawful_calls(8) [OF l] by (simp add: tcl_good_def)
  show "tcl_good (te_bus env) (snd (IvyBindDirectCmd argv (p, s)))"
    using e d q [OF l] by (simp add: IvyBindDirectCmd_def split_def Let_def split: list.split)
qed
lemma good_bind:
  assumes g: "tcl_good (te_bus env) (p, s)" and r: "running s"
  shows "tcl_good (te_bus env) (snd (IvyBindCmd argv (p, s)))"
proof (cases "\<exists>cmd flt scr out. argv = [cmd, flt, scr] \<and> printf_null flt = Inr out")
  case False
  have "tcl_good (te_bus env) (snd (wrong_args c x (p, s)))" for c x
    by (simp add: wrong_args_def tcl_error_def append_result_def)
      (rule good_same [OF g r good_lawful [OF g]]; simp add: struct_ids_def)
  then show ?thesis using False
    by (auto simp: IvyBindCmd_def tcl_crash_def split_def Let_def split: list.split sum.split)
next
  case True
  then obtain cmd flt scr out where a: "argv = [cmd, flt, scr]" "printf_null flt = Inr out" by blast
  let ?a = "next_struct p"
  obtain m t where m: "IvyBindMsg FN_IvyMsgCB ?a out s = (m, t)" by force
  define p2 where "p2 = upd_struct ?a (\<lambda>f. f\<lparr>fs_id := Some m\<rparr>) (snd (new_struct scr (Some flt) p))"
  have e: "snd (IvyBindCmd argv (p, s)) = (case filter_table p of
      None \<Rightarrow> (p2, crash NullDeref t)
    | Some tb \<Rightarrow> (p2\<lparr>filter_table := Some (set_entry (word_key (filter_id p2)) ?a tb), tcl_result := dec_int (filter_id p2),
        filter_id := filter_id p2 + 1\<rparr>, t))"
    using a m by (simp add: IvyBindCmd_def tcl_crash_def Let_def split_def p2_def split: option.split)
  show ?thesis
  proof (cases "fault t = None \<and> filter_table p \<noteq> None")
    case False
    then show ?thesis unfolding e using good_fault [of t] by (auto split: option.split)
  next
    case True
    then obtain tb where tb: "filter_table p = Some tb" by blast
    have ok: "ids_ok ?a (struct_ids p) (msg_recv s)" "table_ok tb (struct_ids p)"
      using good_ok [OF g r] tb by (simp_all add: tcl_ok_def)
    have n: "?a \<notin> set (map fst (struct_ids p))" using ok(1) by (auto simp: ids_ok_def)
    have i: "struct_ids p2 = (?a, Some m) # struct_ids p"
      using n by (auto simp: p2_def struct_ids_def upd_struct_def new_struct_def Let_def image_iff)
    obtain x where x: "msg_recv t = \<lparr>rid = m, msg_id = recv_id s, regexp = Some x, mcallback = FN_IvyMsgCB, muser_data = ?a\<rparr> # msg_recv s"
      using rcvs_bind [OF m] True by auto
    have "ids_ok (Suc ?a) (struct_ids p2) (msg_recv t)" unfolding i x by (rule ids_ok_bind [OF ok(1)]) simp_all
    moreover have "table_ok (set_entry k ?a tb) (struct_ids p2)" for k unfolding i by (rule table_ok_bind [OF ok(2) n])
    moreover have "next_struct p2 = Suc ?a" by (simp add: p2_def)
    moreover have "lawful (te_bus env) t" using lawful_calls(1) [OF good_lawful [OF g]] m by (metis snd_conv)
    ultimately show ?thesis unfolding e tb by (simp add: tcl_good_def tcl_ok_def struct_ids_def)
  qed
qed

text \<open>An identifier of the table stands for a filter with its subscription: unbinding takes both away.\<close>

lemma unbind_entry:
  assumes g: "tcl_good (te_bus env) (p, s)" and r: "running s"
    and t: "filter_table p = Some tb" "map_of tb (word_key i) = Some a" "strtol w = (i, [])"
  shows "\<exists>m. find_struct a p \<noteq> None \<and> (\<exists>x \<in> set (msg_recv s). rid x = m \<and> muser_data x = a)
    \<and> IvyUnbindCmd [cmd, w] (p, s) = (TCL_OK, (free_struct a (p\<lparr>filter_table := Some (del_entry (word_key i) tb)\<rparr>), IvyUnbindMsg m s))
    \<and> msg_recv (IvyUnbindMsg m s) = filter (\<lambda>x. rid x \<noteq> m) (msg_recv s)
    \<and> tcl_ok (free_struct a (p\<lparr>filter_table := Some (del_entry (word_key i) tb)\<rparr>)) (filter (\<lambda>x. rid x \<noteq> m) (msg_recv s))"
proof -
  have ok: "ids_ok (next_struct p) (struct_ids p) (msg_recv s)" "table_ok tb (struct_ids p)"
    using good_ok [OF g r] t(1) by (simp_all add: tcl_ok_def)
  have "a \<in> set (map snd tb)" using map_of_SomeD [OF t(2)] by force
  then obtain m where m: "(a, Some m) \<in> set (struct_ids p)" using ok(2) by (auto simp: table_ok_def)
  have d: "distinct (map fst (struct_ids p))" using ok(1) by (simp add: ids_ok_def)
  obtain f where f: "find_struct a p = Some f" "fs_id f = Some m" using m find_struct_iff [OF d] by blast
  have "(a, m) \<in> (\<lambda>r. (muser_data r, rid r)) ` set (msg_recv s)" using ok(1) m by (auto simp: ids_ok_def)
  then have x: "\<exists>x \<in> set (msg_recv s). rid x = m \<and> muser_data x = a" by auto
  let ?q = "free_struct a (p\<lparr>filter_table := Some (del_entry (word_key i) tb)\<rparr>)"
  have "struct_ids ?q = filter (\<lambda>e. fst e \<noteq> a) (struct_ids p)" "next_struct ?q = next_struct p"
    "filter_table ?q = Some (del_entry (word_key i) tb)"
    by (simp_all add: free_struct_def struct_ids_def filter_map comp_def)
  then have "tcl_ok ?q (filter (\<lambda>x. rid x \<noteq> m) (msg_recv s))"
    using ids_ok_unbind [OF ok(1) m running_rids [OF g r]] table_ok_unbind [OF ok(2) t(2)] by (simp add: tcl_ok_def)
  moreover have "msg_recv (IvyUnbindMsg m s) = filter (\<lambda>x. rid x \<noteq> m) (msg_recv s)" by (rule rcvs_unbind) (use x in force)
  moreover have "IvyUnbindCmd [cmd, w] (p, s) = (TCL_OK, (?q, IvyUnbindMsg m s))"
    using t f by (simp add: IvyUnbindCmd_def)
  ultimately show ?thesis using x f(1) by blast
qed

lemma good_unbind:
  assumes g: "tcl_good (te_bus env) (p, s)" and r: "running s"
  shows "tcl_good (te_bus env) (snd (IvyUnbindCmd argv (p, s)))"
proof -
  have e: "tcl_good (te_bus env) (snd (tcl_error x (p, s)))" "tcl_good (te_bus env) (snd (wrong_args c x (p, s)))" for x c
    by (simp_all add: wrong_args_def tcl_error_def append_result_def)
      (rule good_same [OF g r good_lawful [OF g]]; simp add: struct_ids_def)+
  show ?thesis
  proof (cases "\<exists>cmd w tb a. argv = [cmd, w] \<and> snd (strtol w) = [] \<and> filter_table p = Some tb
      \<and> map_of tb (word_key (fst (strtol w))) = Some a")
    case True
    then obtain cmd w tb i a where a: "argv = [cmd, w]" "strtol w = (i, [])" "filter_table p = Some tb"
      "map_of tb (word_key i) = Some a" by (metis prod.collapse)
    then show ?thesis using unbind_entry [OF g r a(3,4,2), of cmd] lawful_subscriptions(1) [OF good_lawful [OF g]]
      by (auto simp: tcl_good_def)
  next
    case False
    then show ?thesis using e by (auto simp: IvyUnbindCmd_def tcl_crash_def split_def Let_def split: list.split option.split)
  qed
qed

lemma good_call:
  assumes "tcl_good (te_bus env) st" "running (snd st)"
  shows "tcl_good (te_bus env) (snd (tcl_call env argv st))"
proof -
  obtain p s where st: "st = (p, s)" by force
  have g: "tcl_good (te_bus env) (p, s)" and r: "running s" using assms st by simp_all
  have g': "tcl_good (te_bus env) (p\<lparr>tcl_result := []\<rparr>, s)"
    by (rule good_same [OF g r good_lawful [OF g]]) (simp_all add: struct_ids_def)
  show ?thesis using g good_init [OF g' r] good_simple [OF g' r] good_bind [OF g' r] good_unbind [OF g' r] g'
    by (simp add: st tcl_call_def tcl_dispatch_def)
qed

lemma good_commands: "tcl_good (te_bus env) st \<Longrightarrow> tcl_good (te_bus env) (run_commands env cmds st)"
  by (induction cmds arbitrary: st) (simp_all add: good_call)
lemma good_fields:
  "tcl_good env (p, s) \<Longrightarrow> struct_ids q = struct_ids p \<Longrightarrow> next_struct q = next_struct p \<Longrightarrow> filter_table q = filter_table p
    \<Longrightarrow> tcl_good env (q, s)"
  using tcl_ok_same [of p "msg_recv s" q] by (simp add: tcl_good_def)

lemma good_eval:
  assumes "tcl_good (te_bus env) st"
  shows "tcl_good (te_bus env) (eval_built env a n pieces st)"
proof -
  obtain p s where st: "st = (p, s)" by force
  have "tcl_good (te_bus env) (p\<lparr>evaluated := h\<rparr>, s)" for h
    by (rule good_fields [OF assms [unfolded st]]) (simp_all add: struct_ids_def)
  then have "tcl_good (te_bus env) (run_commands env cmds (p\<lparr>evaluated := h\<rparr>, s))" for cmds h by (rule good_commands)
  then have e: "tcl_good (te_bus env) (snd (Tcl_GlobalEval env x (p, s)))" for x
    by (simp add: Tcl_GlobalEval_def Let_def split_def)
  have "tcl_good (te_bus env) (q\<lparr>background_errors := b\<rparr>, t)" if "tcl_good (te_bus env) (q, t)" for q t b
    by (rule good_fields [OF that]) (simp_all add: struct_ids_def)
  then show ?thesis using e by (auto simp: st eval_built_def Let_def split_def split: sum.split option.split)
qed

lemma good_with_struct:
  assumes "tcl_good env st" "\<And>x. tcl_good env (f x st)"
  shows "tcl_good env (with_struct a f st)"
  using assms by (cases st) (simp add: with_struct_def split: option.split)

lemma good_callbacks:
  assumes g: "tcl_good (te_bus env) (p, s)"
  shows "tcl_good (te_bus env) (IvyAppCB env app a ev (p, s))" "tcl_good (te_bus env) (IvyDieCB env a i (p, s))"
    "tcl_good (te_bus env) (IvyMsgCB env app a argv (p, s))" "tcl_good (te_bus env) (IvyDirectMsgCB env a i m (p, s))"
proof -
  show "tcl_good (te_bus env) (IvyDieCB env a i (p, s))" "tcl_good (te_bus env) (IvyMsgCB env app a argv (p, s))"
    "tcl_good (te_bus env) (IvyDirectMsgCB env a i m (p, s))"
    unfolding IvyDieCB_def IvyMsgCB_def IvyDirectMsgCB_def Let_def
    by (rule good_with_struct [OF g], rule good_eval [OF g])+
  have t: "tcl_good (te_bus env) (q\<lparr>app_table := v\<rparr>, u)" if "tcl_good (te_bus env) (q, u)" for q u v
    by (rule good_fields [OF that]) (simp_all add: struct_ids_def)
  have "tcl_good (te_bus env) (if b then q\<lparr>app_table := v\<rparr> else q, u)" if "tcl_good (te_bus env) (q, u)" for q u v b
    using t [OF that] that by simp
  then show "tcl_good (te_bus env) (IvyAppCB env app a ev (p, s))"
    unfolding IvyAppCB_def Let_def split_def
    using good_eval [OF t [OF g]] by (auto split: option.split intro!: good_with_struct t [OF g])
qed

definition tcl_start :: tcl where
  "tcl_start = \<lparr>structs = [], next_struct = 1, filter_table = None, app_table = None, filter_id = 0,
     nom_de_l_appli = None, message_de_bienvenue = None, app_filter = NULL, die_filter = NULL, direct_filter = NULL,
     tcl_result = [], evaluated = [], background_errors = 0\<rparr>"

text \<open>
  A run of an interpreter with the binding: commands of its scripts, steps of the loop, and the callbacks, for the
  functions and user data the bus has.
\<close>

inductive tcl_run :: "tcl_env \<Rightarrow> tcl \<times> ivy_state \<Rightarrow> bool" for env where
  tr_start: "tcl_run env (tcl_start, program_start)"
| tr_command: "tcl_run env st \<Longrightarrow> running (snd st) \<Longrightarrow> tcl_run env (snd (tcl_call env argv st))"
| tr_loop: "tcl_run env (p, s) \<Longrightarrow> running s \<Longrightarrow> loop_step (te_bus env) s t \<Longrightarrow> tcl_run env (p, t)"
| tr_app: "tcl_run env (p, s) \<Longrightarrow> running s \<Longrightarrow> application_callback s = FN_IvyAppCB
    \<Longrightarrow> tcl_run env (IvyAppCB env app (app_filter p) ev (p, s))"
| tr_die: "tcl_run env (p, s) \<Longrightarrow> running s \<Longrightarrow> application_die_callback s = FN_IvyDieCB
    \<Longrightarrow> tcl_run env (IvyDieCB env (die_filter p) i (p, s))"
| tr_msg: "tcl_run env (p, s) \<Longrightarrow> running s \<Longrightarrow> r \<in> set (msg_recv s) \<Longrightarrow> mcallback r = FN_IvyMsgCB
    \<Longrightarrow> tcl_run env (IvyMsgCB env app (muser_data r) argv (p, s))"
| tr_direct: "tcl_run env (p, s) \<Longrightarrow> running s \<Longrightarrow> direct_callback s = FN_IvyDirectMsgCB
    \<Longrightarrow> tcl_run env (IvyDirectMsgCB env (direct_filter p) i m (p, s))"

lemma tcl_run_good: "tcl_run env st \<Longrightarrow> tcl_good (te_bus env) st"
proof (induction rule: tcl_run.induct)
  case tr_start
  show ?case by (simp add: tcl_good_def lawful_start tcl_ok_def ids_ok_def tcl_start_def struct_ids_def)
next
  case (tr_command st argv)
  then show ?case using good_call by blast
next
  case (tr_loop p s t)
  have "lawful (te_bus env) t" by (rule lawful_step [OF good_lawful [OF tr_loop.IH] tr_loop(2) loop_step_bus [OF tr_loop(3)]])
  then show ?case by (rule good_same [OF tr_loop.IH tr_loop(2)]) (use loop_keeps_rcvs [OF tr_loop(3)] in simp_all)
qed (rule good_callbacks; assumption)+
subsection \<open>Properties\<close>

text \<open>An interpreter that has initialised the binding and subscribed once.\<close>

definition some_tcl_env :: "string list list \<Rightarrow> tcl_env" where
  "some_tcl_env cmds = \<lparr>te_bus = some_env, te_start = quiet_start, te_peername = (\<lambda>fd. None), te_debug_binary = False,
     te_script = (\<lambda>h. (cmds, True)), te_order = (\<lambda>t. t), te_element = (\<lambda>r e. r @ '' '' @ e)\<rparr>"

definition tcl_inited :: "tcl \<times> ivy_state" where
  "tcl_inited = snd (tcl_call (some_tcl_env []) [''Ivy::init'', ''A'', ''A ready'', ''conn'', ''gone''] (tcl_start, program_start))"

definition tcl_bound :: "tcl \<times> ivy_state" where
  "tcl_bound = snd (tcl_call (some_tcl_env []) [''Ivy::bind'', ''^a'', ''got''] tcl_inited)"

lemma zero_text: "digit_char 0 = CHR ''0''"
  by code_simp

lemma tcl_inited_state:
  "tcl_inited = (tcl_start\<lparr>nom_de_l_appli := Some ''A'', message_de_bienvenue := Some ''A ready'', filter_table := Some [],
      app_table := Some [], app_filter := 1, die_filter := 2, next_struct := 3,
      structs := [\<lparr>fs_addr = 2, fs_id = None, fs_script = ''gone'', fs_filter = None\<rparr>,
        \<lparr>fs_addr = 1, fs_id = None, fs_script = ''conn'', fs_filter = None\<rparr>]\<rparr>,
    IvyInit (Some ''A'') (Some ''A ready'') FN_IvyAppCB FN_IvyDieCB False program_start)"
  by (simp add: tcl_inited_def tcl_call_def tcl_dispatch_def IvyInitCmd_def tcl_start_def new_struct_def some_tcl_env_def)

lemma tcl_bound_state:
  "\<exists>s. tcl_bound = (tcl_start\<lparr>nom_de_l_appli := Some ''A'', message_de_bienvenue := Some ''A ready'', filter_table := Some [(0, 3)],
      app_table := Some [], app_filter := 1, die_filter := 2, next_struct := 4, filter_id := 1, tcl_result := ''0'',
      structs := [\<lparr>fs_addr = 3, fs_id = Some 1, fs_script = ''got'', fs_filter = Some ''^a''\<rparr>,
        \<lparr>fs_addr = 2, fs_id = None, fs_script = ''gone'', fs_filter = None\<rparr>,
        \<lparr>fs_addr = 1, fs_id = None, fs_script = ''conn'', fs_filter = None\<rparr>]\<rparr>, s)
    \<and> running s \<and> msg_recv s = [\<lparr>rid = 1, msg_id = 0, regexp = Some ''^a'', mcallback = FN_IvyMsgCB, muser_data = 3\<rparr>]
    \<and> allClients s = []"
proof -
  let ?s = "IvyInit (Some ''A'') (Some ''A ready'') FN_IvyAppCB FN_IvyDieCB False program_start"
  obtain b where b: "IvyBindMsg FN_IvyMsgCB 3 ''^a'' ?s = (1, ?s\<lparr>bind_buf := b, next_addr := 2, recv_id := 1,
      msg_recv := [\<lparr>rid = 1, msg_id = 0, regexp = Some ''^a'', mcallback = FN_IvyMsgCB, muser_data = 3\<rparr>]\<rparr>)"
    using bind_wf [of ?s "''^a''" FN_IvyMsgCB 3] by (auto simp: program_init ITV_START_def numeral_2_eq_2 buffer_wf_def init_buffer_def)
  have "dec_int 0 = ''0''" by (simp add: dec_int_def dec_nat.simps zero_text)
  then show ?thesis using b program_init(2,6) [of "Some ''A''" "Some ''A ready''" FN_IvyAppCB FN_IvyDieCB False]
    by (simp add: tcl_bound_def tcl_inited_state tcl_call_def tcl_dispatch_def IvyBindCmd_def new_struct_def tcl_start_def
        upd_struct_def word_key_def set_entry_def running_def)
qed

lemma tcl_bound_run: "tcl_run (some_tcl_env []) tcl_bound"
proof -
  have "tcl_run (some_tcl_env []) tcl_inited" unfolding tcl_inited_def
    by (rule tr_command [OF tr_start]) (simp add: running_def program_start_def bus_on_def no_sockets_def sock_state.defs ivy_state.defs)
  then show ?thesis unfolding tcl_bound_def by (rule tr_command) (simp add: tcl_inited_state program_init)
qed

text \<open>
  The binding only calls the API, so what holds of the reachable states of the bus holds for scripts, until a
  fault or the end of the process.
\<close>

lemma tcl_reaches:
  assumes "tcl_run env (p, s)" "running s"
  shows "reachable (te_bus env) s"
  using tcl_run_good [OF assms(1)] assms(2) by (auto simp: tcl_good_def intro: lawful_reachable)

text \<open>
  (C28) \<^verbatim>\<open>Ivy::unbind\<close> undoes \<^verbatim>\<open>Ivy::bind\<close>: at any moment of a run, an identifier in the table of filters stands for
  one allocated filter and for one subscription of the library with that filter as its user data. The
  command succeeds, takes exactly this subscription out of the list, frees the filter and forgets the
  identifier; all other tables, filters and subscriptions stay.
\<close>

theorem tcl_unbind:
  assumes "tcl_run env (p, s)" "running s" "filter_table p = Some tb" "map_of tb (word_key i) = Some a" "strtol w = (i, [])"
  shows "\<exists>pre x post. msg_recv s = pre @ x # post \<and> muser_data x = a \<and> find_struct a p \<noteq> None
    \<and> IvyUnbindCmd [cmd, w] (p, s) = (TCL_OK,
        (p\<lparr>filter_table := Some (del_entry (word_key i) tb), structs := filter (\<lambda>f. fs_addr f \<noteq> a) (structs p)\<rparr>,
         IvyUnbindMsg (rid x) s))
    \<and> msg_recv (IvyUnbindMsg (rid x) s) = pre @ post"
proof -
  note g = tcl_run_good [OF assms(1)]
  obtain x where x: "x \<in> set (msg_recv s)" "muser_data x = a" "find_struct a p \<noteq> None"
    "IvyUnbindCmd [cmd, w] (p, s) = (TCL_OK, (free_struct a (p\<lparr>filter_table := Some (del_entry (word_key i) tb)\<rparr>), IvyUnbindMsg (rid x) s))"
    "msg_recv (IvyUnbindMsg (rid x) s) = filter (\<lambda>y. rid y \<noteq> rid x) (msg_recv s)"
    using unbind_entry [OF g assms(2-5), of cmd] by blast
  obtain pre post where l: "msg_recv s = pre @ x # post" using split_list [OF x(1)] by blast
  have "rid x \<notin> rid ` set (pre @ post)" using running_rids [OF g assms(2)] l by auto
  then have "\<forall>y \<in> set (pre @ post). rid y \<noteq> rid x" by (metis image_eqI)
  then have "filter (\<lambda>y. rid y \<noteq> rid x) (pre @ post) = pre @ post" by (rule filter_True)
  then have "filter (\<lambda>y. rid y \<noteq> rid x) (msg_recv s) = pre @ post" unfolding l by simp
  then show ?thesis using x l by (auto simp: free_struct_def)
qed

theorem tcl_unbind_witness:
  "\<exists>p s x. tcl_bound = (p, s) \<and> msg_recv s = [x] \<and> fst (IvyUnbindCmd [''Ivy::unbind'', ''0''] (p, s)) = TCL_OK
    \<and> msg_recv (snd (snd (IvyUnbindCmd [''Ivy::unbind'', ''0''] (p, s)))) = []"
proof -
  obtain p s where s: "tcl_bound = (p, s)" "running s" "length (msg_recv s) = 1" "filter_table p = Some [(0, 3)]"
    using tcl_bound_state by auto
  have "strtol ''0'' = (0, [])" using scan_int_dec_nat [of "[]" 0] by (simp add: strtol_def dec_nat.simps zero_text)
  then obtain x where "msg_recv s = [x]" "fst (IvyUnbindCmd [''Ivy::unbind'', ''0''] (p, s)) = TCL_OK"
    "msg_recv (snd (snd (IvyUnbindCmd [''Ivy::unbind'', ''0''] (p, s)))) = []"
    using tcl_unbind [OF tcl_bound_run [unfolded s(1)] s(2,4), of 0 3 "''0''" "''Ivy::unbind''"] s(3)
    by (auto simp: word_key_def)
  then show ?thesis using s(1) by blast
qed
text \<open>No command touches the scripts that were evaluated.\<close>

lemma evaluated_call: "evaluated (fst (snd (tcl_call env argv st))) = evaluated (fst st)"
proof -
  have e: "evaluated (fst (snd (tcl_error x st))) = evaluated (fst st)"
    "evaluated (fst (snd (wrong_args c x st))) = evaluated (fst st)"
    "evaluated (fst (snd (tcl_crash f st))) = evaluated (fst st)" for x c f and st :: "'a tcl_state"
    by (simp_all add: tcl_error_def wrong_args_def append_result_def tcl_crash_def split_def)
  have w: "evaluated (fst (snd (with_tcl_app name f st))) = evaluated (fst st)"
    if "\<And>a. evaluated (fst (snd (f a st))) = evaluated (fst st)" for name f and st :: "'a tcl_state"
    using that e by (auto simp: with_tcl_app_def split: option.split prod.split)
  have n: "evaluated (snd (new_struct x f p)) = evaluated p" "evaluated (upd_struct a g p) = evaluated p"
    "evaluated (free_struct a p) = evaluated p" for x f a g p
    by (simp_all add: new_struct_def Let_def upd_struct_def free_struct_def)
  have "evaluated (fst (snd (IvyInitCmd env argv st))) = evaluated (fst st)"
    "evaluated (fst (snd (IvyStartCmd env argv st))) = evaluated (fst st)"
    "evaluated (fst (snd (IvyBindCmd argv st))) = evaluated (fst st)"
    "evaluated (fst (snd (IvyUnbindCmd argv st))) = evaluated (fst st)"
    "evaluated (fst (snd (IvySendCmd env argv st))) = evaluated (fst st)"
    "evaluated (fst (snd (IvyBindDirectCmd argv st))) = evaluated (fst st)"
    "evaluated (fst (snd (IvyApplicationListCmd env argv st))) = evaluated (fst st)" for argv and st :: "'a tcl_state"
    by (simp_all add: IvyInitCmd_def IvyStartCmd_def IvyBindCmd_def IvyUnbindCmd_def IvySendCmd_def IvyBindDirectCmd_def
        IvyApplicationListCmd_def split_def Let_def e n split: list.split sum.split option.split)
  moreover have "evaluated (fst (snd (IvyApplicationHostCmd env argv st))) = evaluated (fst st)"
    "evaluated (fst (snd (IvyApplicationMsgsCmd env argv st))) = evaluated (fst st)"
    "evaluated (fst (snd (IvySendDirectCmd argv st))) = evaluated (fst st)" for argv and st :: "'a tcl_state"
    unfolding IvyApplicationHostCmd_def IvyApplicationMsgsCmd_def IvySendDirectCmd_def
    by (auto simp: e split_def Let_def split: list.split option.split intro!: w)
  ultimately show ?thesis by (simp add: tcl_call_def tcl_dispatch_def split_def)
qed

lemma evaluated_commands: "evaluated (fst (run_commands env cmds st)) = evaluated (fst st)"
  by (induction cmds arbitrary: st) (simp_all add: evaluated_call)

lemma evaluated_eval:
  assumes "length (concat pieces) < n"
  shows "evaluated (fst (eval_built env a n pieces (p, s))) = evaluated p @ [concat pieces]"
  by (simp add: eval_built_def ck_concat_fits [OF assms] Tcl_GlobalEval_def Let_def split_def evaluated_commands
      split: option.split)

lemma script_of_args:
  "concat (concat (map (\<lambda>w. ['' '' @ [DQUOTE], w, [DQUOTE]]) argv)) = concat (map (\<lambda>w. '' '' @ [DQUOTE] @ w @ [DQUOTE]) argv)"
  by (induction argv) simp_all

lemma script_message:
  assumes "find_struct a p = Some f"
  shows "evaluated (fst (IvyMsgCB env app a argv (p, s)))
      = evaluated p @ [fs_script f @ '' '' @ [DQUOTE] @ IvyGetApplicationName (Some app) @ [DQUOTE]
          @ concat (map (\<lambda>w. '' '' @ [DQUOTE] @ w @ [DQUOTE]) argv)]"
proof -
  let ?name = "IvyGetApplicationName (Some app)"
  let ?pieces = "[fs_script f, '' '' @ [DQUOTE], ?name, [DQUOTE]] @ concat (map (\<lambda>w. ['' '' @ [DQUOTE], w, [DQUOTE]]) argv)"
  have c: "concat ?pieces = fs_script f @ '' '' @ [DQUOTE] @ ?name @ [DQUOTE] @ concat (map (\<lambda>w. '' '' @ [DQUOTE] @ w @ [DQUOTE]) argv)"
    using script_of_args [of argv] by simp
  have l: "length (concat ?pieces) < length (fs_script f) + 3 + sum_list (map (\<lambda>w. length w + 3) argv) + 1 + (length ?name + 4)"
    using length_quoted [of DQUOTE argv] by simp
  show ?thesis using evaluated_eval [OF l, of env a p s] assms unfolding c
    by (simp only: IvyMsgCB_def with_struct_def Let_def prod.case option.case)
qed

lemma script_app:
  assumes "find_struct a p = Some f" "app_table p = Some t"
  shows "evaluated (fst (IvyAppCB env app a ev (p, s)))
      = evaluated p @ [fs_script f @ '' ''
          @ (if map_of t (IvyGetApplicationName (Some app)) \<noteq> None \<or> ev = IvyApplicationConnected
             then '' '' @ [DQUOTE] @ IvyGetApplicationName (Some app) @ [DQUOTE] else ''???'')
          @ '' '' @ [DQUOTE] @ app_event_str ev @ [DQUOTE]]"
proof -
  let ?name = "IvyGetApplicationName (Some app)"
  define t1 where "t1 = (if ev = IvyApplicationConnected \<and> map_of t ?name = None then set_entry ?name (aid app) t else t)"
  define shown where "shown = (if map_of t1 ?name \<noteq> None then ['' '' @ [DQUOTE], ?name, [DQUOTE]] else [''???''])"
  define n where "n = length (fs_script f) + INTEGER_SPACE + (if map_of t1 ?name \<noteq> None then length ?name + 3 else 4)"
  let ?pieces = "[fs_script f, '' ''] @ shown @ ['' '' @ [DQUOTE], app_event_str ev, [DQUOTE]]"
  have m: "map_of t1 ?name \<noteq> None \<longleftrightarrow> map_of t ?name \<noteq> None \<or> ev = IvyApplicationConnected"
    by (auto simp: t1_def set_entry_def)
  have "length (app_event_str ev) \<le> 12" using app_event_str_cases [of ev] by auto
  then have l: "length (concat ?pieces) < n" by (simp add: n_def shown_def INTEGER_SPACE_def)
  have f: "find_struct a (p\<lparr>app_table := Some t1\<rparr>) = Some f" using assms(1) by (simp add: find_struct_def)
  have "evaluated (fst (IvyAppCB env app a ev (p, s)))
      = evaluated (fst (eval_built env a n ?pieces (p\<lparr>app_table := Some t1\<rparr>, s)))"
    unfolding IvyAppCB_def Let_def prod.case assms(2) option.case t1_def [symmetric] shown_def n_def
    using f by (simp add: with_struct_def split_def)
  then show ?thesis using evaluated_eval [OF l, of env a "p\<lparr>app_table := Some t1\<rparr>" s] m by (auto simp: shown_def)
qed

text \<open>
  (C29) The scripts of three of the callbacks. The block for the script of a message, of an application that comes
  or goes and of a request to die is always large enough, and what is evaluated is the script of the user followed by the name and
  the arguments, the name and the event, or the identifier, each between double quotes and otherwise as the peer
  sent them. An application that is not in the table, as the second of one name when it leaves, is shown as
  \<^verbatim>\<open>???\<close>. The block of the fourth callback, for direct messages, is too small: see \<open>tcl_direct_overflow\<close>.
\<close>

theorem tcl_scripts:
  assumes "find_struct a p = Some f" "app_table p = Some t" "length (dec_int i) \<le> 11"
  shows "evaluated (fst (IvyMsgCB env app a argv (p, s)))
      = evaluated p @ [fs_script f @ '' '' @ [DQUOTE] @ IvyGetApplicationName (Some app) @ [DQUOTE]
          @ concat (map (\<lambda>w. '' '' @ [DQUOTE] @ w @ [DQUOTE]) argv)]
    \<and> evaluated (fst (IvyAppCB env app a ev (p, s)))
      = evaluated p @ [fs_script f @ '' ''
          @ (if map_of t (IvyGetApplicationName (Some app)) \<noteq> None \<or> ev = IvyApplicationConnected
             then '' '' @ [DQUOTE] @ IvyGetApplicationName (Some app) @ [DQUOTE] else ''???'')
          @ '' '' @ [DQUOTE] @ app_event_str ev @ [DQUOTE]]
    \<and> evaluated (fst (IvyDieCB env a i (p, s))) = evaluated p @ [fs_script f @ '' '' @ [DQUOTE] @ dec_int i @ [DQUOTE]]"
proof -
  have l: "length (concat [fs_script f, '' '' @ [DQUOTE], dec_int i, [DQUOTE]]) < length (fs_script f) + INTEGER_SPACE + 1"
    using assms(3) by (simp add: INTEGER_SPACE_def)
  have "evaluated (fst (IvyDieCB env a i (p, s))) = evaluated p @ [fs_script f @ '' '' @ [DQUOTE] @ dec_int i @ [DQUOTE]]"
    using evaluated_eval [OF l, of env a p s] assms(1) by (simp add: IvyDieCB_def with_struct_def)
  then show ?thesis using script_message [OF assms(1)] script_app [OF assms(1,2)] by blast
qed

theorem tcl_scripts_witness:
  "\<exists>p s. tcl_bound = (p, s)
    \<and> evaluated (fst (IvyMsgCB (some_tcl_env []) (peer_on 5 6 ''B'' []) 3 [''x''] (p, s)))
      = [''got '' @ [DQUOTE] @ ''B'' @ [DQUOTE] @ '' '' @ [DQUOTE] @ ''x'' @ [DQUOTE]]
    \<and> evaluated (fst (IvyAppCB (some_tcl_env []) (peer_on 5 6 ''B'' []) 3 IvyApplicationDisconnected (p, s)))
      = [''got ??? '' @ [DQUOTE] @ ''Disconnected'' @ [DQUOTE]]"
proof -
  obtain p s f where s: "tcl_bound = (p, s)" "find_struct 3 p = Some f" "fs_script f = ''got''" "app_table p = Some []" "evaluated p = []"
    using tcl_bound_state by (auto simp: find_struct_def tcl_start_def)
  have "length (dec_int 0) \<le> 11" by (simp add: dec_int_def dec_nat.simps)
  from tcl_scripts [OF s(2,4) this, of "some_tcl_env []" "peer_on 5 6 ''B'' []" "[''x'']" s IvyApplicationDisconnected]
  show ?thesis by (intro exI [of _ p] exI [of _ s] conjI s(1))
    (simp_all add: s(3,5) peer_on_def IvyGetApplicationName_def app_event_str_def event_number_def)
qed

text \<open>
  (C38) The block for the script of a direct message is two bytes too small whatever the script and the message:
  every direct message to an application with \<^verbatim>\<open>Ivy::binddirect\<close> writes past it.
\<close>

theorem tcl_direct_overflow:
  assumes "find_struct a p = Some f" "fault s = None"
  shows "fault (snd (IvyDirectMsgCB env a i m (p, s))) = Some OutOfBounds"
  using assms by (simp add: IvyDirectMsgCB_def with_struct_def eval_built_def ck_concat_def crash_def)

theorem tcl_direct_overflow_witness:
  "\<exists>p s. tcl_bound = (p, s) \<and> fault (snd (IvyDirectMsgCB (some_tcl_env []) 3 7 ''hello'' (p, s))) = Some OutOfBounds"
proof -
  obtain p s f where s: "tcl_bound = (p, s)" "find_struct 3 p = Some f" "fault s = None"
    using tcl_bound_state by (auto simp: find_struct_def tcl_start_def running_def)
  then show ?thesis using tcl_direct_overflow [OF s(2,3)] by blast
qed
text \<open>
  A script that unbinds its own filter, as one does to wait for one message: \<^verbatim>\<open>IvyUnbindCmd\<close> frees the filter
  while \<^verbatim>\<open>IvyMsgCB\<close> evaluates the script, and \<^verbatim>\<open>IvyMsgCB\<close> then reads the interpreter in it. Whatever the
  identifier, the message and the peer, the callback ends with a fault.
\<close>

theorem tcl_unbind_own_filter:
  assumes "tcl_run env (p, s)" "running s" "filter_table p = Some tb" "map_of tb (word_key i) = Some a" "strtol w = (i, [])"
    "find_struct a p = Some f"
    "fst (te_script env (evaluated p @ [fs_script f @ '' '' @ [DQUOTE] @ IvyGetApplicationName (Some app) @ [DQUOTE]
        @ concat (map (\<lambda>w. '' '' @ [DQUOTE] @ w @ [DQUOTE]) argv)])) = [[''Ivy::unbind'', w]]"
  shows "fault (snd (IvyMsgCB env app a argv (p, s))) \<noteq> None"
proof -
  let ?name = "IvyGetApplicationName (Some app)"
  let ?script = "fs_script f @ '' '' @ [DQUOTE] @ ?name @ [DQUOTE] @ concat (map (\<lambda>w. '' '' @ [DQUOTE] @ w @ [DQUOTE]) argv)"
  let ?pieces = "[fs_script f, '' '' @ [DQUOTE], ?name, [DQUOTE]] @ concat (map (\<lambda>w. ['' '' @ [DQUOTE], w, [DQUOTE]]) argv)"
  let ?n = "length (fs_script f) + 3 + sum_list (map (\<lambda>w. length w + 3) argv) + 1 + (length ?name + 4)"
  have c: "concat ?pieces = ?script" using script_of_args [of argv] by simp
  have l: "length (concat ?pieces) < ?n" using length_quoted [of DQUOTE argv] by simp
  let ?q = "(p\<lparr>evaluated := evaluated p @ [?script]\<rparr>)\<lparr>tcl_result := []\<rparr>"
  have g: "tcl_good (te_bus env) (?q, s)"
    by (rule good_fields [OF tcl_run_good [OF assms(1)]]) (simp_all add: struct_ids_def)
  have q: "filter_table ?q = Some tb" using assms(3) by simp
  from unbind_entry [OF g assms(2) q assms(4,5), of "''Ivy::unbind''"] obtain m where
    m: "IvyUnbindCmd [''Ivy::unbind'', w] (?q, s) = (TCL_OK, (free_struct a (?q\<lparr>filter_table := Some (del_entry (word_key i) tb)\<rparr>), IvyUnbindMsg m s))"
    by blast
  obtain ok where e: "te_script env (evaluated p @ [?script]) = ([[''Ivy::unbind'', w]], ok)"
    using assms(7) by (metis prod.collapse)
  have "run_commands env [[''Ivy::unbind'', w]] (p\<lparr>evaluated := evaluated p @ [?script]\<rparr>, s)
      = (free_struct a (?q\<lparr>filter_table := Some (del_entry (word_key i) tb)\<rparr>), IvyUnbindMsg m s)"
    using assms(2) m by (simp add: tcl_call_def tcl_dispatch_def)
  then have "Tcl_GlobalEval env ?script (p, s)
      = (ok, (free_struct a (?q\<lparr>filter_table := Some (del_entry (word_key i) tb)\<rparr>), IvyUnbindMsg m s))"
    using e by (simp add: Tcl_GlobalEval_def Let_def)
  moreover have "find_struct a (free_struct a r) = None" for r by (simp add: find_struct_def free_struct_def find_None_iff)
  ultimately have "snd (eval_built env a ?n ?pieces (p, s)) = crash UseAfterFree (IvyUnbindMsg m s)"
    using ck_concat_fits [OF l] unfolding c by (simp add: eval_built_def Let_def)
  moreover have "IvyMsgCB env app a argv (p, s) = eval_built env a ?n ?pieces (p, s)"
    using assms(6) by (simp add: IvyMsgCB_def with_struct_def Let_def)
  ultimately show ?thesis using crash_faults [of UseAfterFree "IvyUnbindMsg m s"] by (simp del: append.simps)
qed

lemma tcl_init_bind_env: "tcl_run (some_tcl_env cmds) tcl_bound"
proof -
  have i: "tcl_inited = snd (tcl_call (some_tcl_env cmds) [''Ivy::init'', ''A'', ''A ready'', ''conn'', ''gone''] (tcl_start, program_start))"
    by (simp add: tcl_inited_def tcl_call_def tcl_dispatch_def IvyInitCmd_def tcl_start_def new_struct_def some_tcl_env_def)
  have "tcl_run (some_tcl_env cmds) tcl_inited" unfolding i
    by (rule tr_command [OF tr_start]) (simp add: running_def program_start_def bus_on_def no_sockets_def sock_state.defs ivy_state.defs)
  moreover have "tcl_bound = snd (tcl_call (some_tcl_env cmds) [''Ivy::bind'', ''^a'', ''got''] tcl_inited)"
    by (simp add: tcl_bound_def tcl_call_def tcl_dispatch_def split_def)
  moreover have "running (snd tcl_inited)" by (simp add: tcl_inited_state program_init)
  ultimately show ?thesis using tr_command by metis
qed

theorem tcl_unbind_own_filter_witness:
  "\<exists>p s. tcl_bound = (p, s) \<and> fault s = None
    \<and> fault (snd (IvyMsgCB (some_tcl_env [[''Ivy::unbind'', ''0'']]) (peer_on 5 6 ''B'' []) 3 [''x''] (p, s))) \<noteq> None"
proof -
  obtain p s f where s: "tcl_bound = (p, s)" "running s" "filter_table p = Some [(0, 3)]" "find_struct 3 p = Some f"
    using tcl_bound_state by (auto simp: find_struct_def tcl_start_def)
  have w: "strtol ''0'' = (0, [])" using scan_int_dec_nat [of "[]" 0] by (simp add: strtol_def dec_nat.simps zero_text)
  have m: "map_of [(0, 3)] (word_key 0) = Some (3 :: nat)" by (simp add: word_key_def)
  have "fst (te_script (some_tcl_env [[''Ivy::unbind'', ''0'']]) h) = [[''Ivy::unbind'', ''0'']]" for h
    by (simp add: some_tcl_env_def)
  from tcl_unbind_own_filter [OF tcl_init_bind_env [unfolded s(1)] s(2,3) m w s(4) this]
  show ?thesis by (intro exI [of _ p] exI [of _ s] conjI s(1)) (use s(2) in \<open>simp_all add: running_def\<close>)
qed
subsection \<open>The loop of Ivy when Tcl is idle\<close>

text \<open>
  Without \<^verbatim>\<open>TCL_CHANNEL_INTEGRATION\<close> the loop of Ivy is polled: \<^verbatim>\<open>Tclivy_Init\<close> asks Tcl to call \<^verbatim>\<open>IvyIdleProc\<close> when it
  is idle, which does so again after one turn without waiting. The first component counts the calls that are due;
  Tcl takes a call out before it makes it, and \<^verbatim>\<open>IvyChannelStop\<close> cancels them.
\<close>

definition IvyIdleProc :: "bus_env \<Rightarrow> timer_callbacks \<Rightarrow> select_result \<Rightarrow> nat \<times> 'a ivy_state_scheme \<Rightarrow> nat \<times> 'a ivy_state_scheme" where
  "IvyIdleProc env tcb r = (\<lambda>(due, s). (Suc due, IvyIdle (bus_loop env tcb) r s))"

definition tcl_idle_stop :: "nat \<times> 'a ivy_state_scheme \<Rightarrow> nat \<times> 'a ivy_state_scheme" where
  "tcl_idle_stop = (\<lambda>(due, s). (0, s))"

definition tcl_idle :: "bus_env \<Rightarrow> timer_callbacks \<Rightarrow> select_result \<Rightarrow> nat \<times> 'a ivy_state_scheme \<Rightarrow> nat \<times> 'a ivy_state_scheme" where
  "tcl_idle env tcb r = (\<lambda>(due, s). if due = 0 then (due, s) else IvyIdleProc env tcb r (due - 1, s))"

text \<open>The loop goes on being polled, one turn each time, until it is stopped; its subscriptions stay.\<close>

lemma idle_polls: "fst (fold (tcl_idle env tcb) rs (Suc n, s)) = Suc n"
  "msg_recv (snd (fold (tcl_idle env tcb) rs (Suc n, s))) = msg_recv s"
proof -
  have "fst (fold (tcl_idle env tcb) rs (Suc n, s)) = Suc n
      \<and> msg_recv (snd (fold (tcl_idle env tcb) rs (Suc n, s))) = msg_recv s"
  proof (induction rs arbitrary: s)
    case (Cons r rs)
    have "msg_recv (IvyIdle (bus_loop env tcb) r s) = msg_recv s" by (rule own.keeps_idle) simp
    then show ?case using Cons [of "IvyIdle (bus_loop env tcb) r s"] by (simp add: tcl_idle_def IvyIdleProc_def)
  qed simp
  then show "fst (fold (tcl_idle env tcb) rs (Suc n, s)) = Suc n"
    "msg_recv (snd (fold (tcl_idle env tcb) rs (Suc n, s))) = msg_recv s" by blast+
qed

lemma idle_stopped: "fold (tcl_idle env tcb) rs (tcl_idle_stop st) = (0, snd st)"
  by (induction rs) (simp_all add: tcl_idle_def tcl_idle_stop_def split_def)

end
