(* ===== verification/Ivy_Toolkit.thy ===== *)
theory Ivy_Toolkit
  imports Ivy_Prelude
begin

text \<open>
  The channels of the library for the loops of other toolkits, instead of \<^verbatim>\<open>src/src/ivyloop.c\<close>: GLib
  (\<^verbatim>\<open>ivyglibloop.c\<close>), Xt (\<^verbatim>\<open>ivyxtloop.c\<close>), GLUT (\<^verbatim>\<open>ivyglutloop.c\<close>) and Tcl (\<^verbatim>\<open>ivytcl.c\<close> with
  \<^verbatim>\<open>TCL_CHANNEL_INTEGRATION\<close>). The toolkit is a parameter: how it watches a descriptor and forgets it. A
  handler that is called is recorded; what it then does with channels is a further operation.
\<close>

subsection \<open>Toolkits\<close>

text \<open>Which function of the adapter a watch calls.\<close>

datatype watch_for = ForRead | ForWrite | ForDelete

text \<open>
  A toolkit with states \<open>'t\<close>: it watches a descriptor for a channel and answers with an identifier, it removes the
  watch of an identifier, and it has the watches of a state.
\<close>

record 't toolkit =
  tk_add :: "nat \<Rightarrow> watch_for \<Rightarrow> addr \<Rightarrow> 't \<Rightarrow> nat \<times> 't"
  tk_remove :: "nat \<Rightarrow> 't \<Rightarrow> 't"
  tk_watch :: "'t \<Rightarrow> nat \<Rightarrow> (nat \<times> watch_for \<times> addr) option"

text \<open>
  What the toolkits document: the identifier of a new watch is not one in use; removing takes that watch away and
  no other.
\<close>

definition toolkit_laws :: "'t toolkit \<Rightarrow> bool" where
  "toolkit_laws tk \<longleftrightarrow>
     (\<forall>fd w k t i t'. tk_add tk fd w k t = (i, t') \<longrightarrow>
        tk_watch tk t i = None \<and> tk_watch tk t' = (tk_watch tk t)(i \<mapsto> (fd, w, k)))
   \<and> (\<forall>i t. tk_watch tk (tk_remove tk i t) = (tk_watch tk t)(i := None))"

lemma tk_add_law:
  "toolkit_laws tk \<Longrightarrow> tk_add tk fd w k t = (i, t') \<Longrightarrow> tk_watch tk t i = None \<and> tk_watch tk t' = (tk_watch tk t)(i \<mapsto> (fd, w, k))"
  by (simp add: toolkit_laws_def)

lemma tk_remove_law: "toolkit_laws tk \<Longrightarrow> tk_watch tk (tk_remove tk i t) = (tk_watch tk t)(i := None)"
  by (simp add: toolkit_laws_def)

subsection \<open>State\<close>

text \<open>
  \<^verbatim>\<open>struct _channel\<close> of GLib, Xt and GLUT; \<open>w_id_write\<close> is \<open>None\<close> until it is set. For GLib, whose structure
  has the \<^verbatim>\<open>GIOChannel\<close>, and GLUT, which keeps none, \<open>w_fd\<close> is the descriptor the channel was made with.
\<close>

record 'h wchannel =
  w_addr :: addr
  w_id_read :: nat
  w_id_write :: "nat option"
  w_id_delete :: nat
  w_fd :: nat
  w_data :: addr
  w_delete :: "'h option"
  w_read :: "'h option"
  w_write :: "'h option"

datatype 'h handler_call = CallRead 'h addr nat addr | CallWrite 'h addr nat addr | CallDelete 'h addr

text \<open>The channels are never freed. \<open>w_app\<close> is \<^verbatim>\<open>app\<close> of Xt, whether it was set; \<open>w_calls\<close> the calls so far.\<close>

record ('h, 't) wstate =
  w_channels :: "'h wchannel list"
  w_next :: addr
  w_toolkit :: 't
  w_initialized :: bool
  w_app :: bool
  w_exit :: "int option"
  w_fault :: "c_fault option"
  w_calls :: "'h handler_call list"

definition w_find :: "addr \<Rightarrow> ('h, 't) wstate \<Rightarrow> 'h wchannel option" where
  "w_find c s = find (\<lambda>k. w_addr k = c) (w_channels s)"

definition w_crash :: "c_fault \<Rightarrow> ('h, 't) wstate \<Rightarrow> ('h, 't) wstate" where
  "w_crash e s = (if w_fault s = None then s\<lparr>w_fault := Some e\<rparr> else s)"

definition with_w :: "addr \<Rightarrow> ('h, 't) wstate \<Rightarrow> ('h wchannel \<Rightarrow> ('h, 't) wstate) \<Rightarrow> ('h, 't) wstate" where
  "with_w c s f = (case w_find c s of None \<Rightarrow> w_crash UseAfterFree s | Some k \<Rightarrow> f k)"

definition w_upd :: "addr \<Rightarrow> ('h wchannel \<Rightarrow> 'h wchannel) \<Rightarrow> ('h, 't) wstate \<Rightarrow> ('h, 't) wstate" where
  "w_upd c f s = s\<lparr>w_channels := map (\<lambda>k. if w_addr k = c then f k else k) (w_channels s)\<rparr>"

text \<open>A call of a handler through its pointer.\<close>

definition w_call :: "('h \<Rightarrow> 'h handler_call) \<Rightarrow> 'h option \<Rightarrow> ('h, 't) wstate \<Rightarrow> ('h, 't) wstate" where
  "w_call f h s = (case h of None \<Rightarrow> w_crash NullDeref s | Some g \<Rightarrow> s\<lparr>w_calls := w_calls s @ [f g]\<rparr>)"

definition w_remove :: "'t toolkit \<Rightarrow> nat \<Rightarrow> ('h, 't) wstate \<Rightarrow> ('h, 't) wstate" where
  "w_remove tk i s = s\<lparr>w_toolkit := tk_remove tk i (w_toolkit s)\<rparr>"

subsection \<open>GLib\<close>

definition glib_IvyChannelInit :: "('h, 't) wstate \<Rightarrow> ('h, 't) wstate" where
  "glib_IvyChannelInit s = (if w_initialized s then s else s\<lparr>w_initialized := True\<rparr>)"

definition glib_IvyChannelAdd ::
  "'t toolkit \<Rightarrow> nat \<Rightarrow> addr \<Rightarrow> 'h option \<Rightarrow> 'h option \<Rightarrow> 'h option \<Rightarrow> ('h, 't) wstate \<Rightarrow> addr \<times> ('h, 't) wstate" where
  "glib_IvyChannelAdd tk fd data hdel hr hw s =
     (let c = w_next s;
          (i, t1) = tk_add tk fd ForRead c (w_toolkit s);
          (j, t2) = tk_add tk fd ForDelete c t1;
          k = \<lparr>w_addr = c, w_id_read = i, w_id_write = None, w_id_delete = j, w_fd = fd, w_data = data,
               w_delete = hdel, w_read = hr, w_write = hw\<rparr>
      in (c, s\<lparr>w_channels := k # w_channels s, w_next := Suc c, w_toolkit := t2\<rparr>))"

definition glib_IvyChannelAddWritableEvent :: "'t toolkit \<Rightarrow> addr \<Rightarrow> ('h, 't) wstate \<Rightarrow> ('h, 't) wstate" where
  "glib_IvyChannelAddWritableEvent tk c s = with_w c s (\<lambda>k.
     let (i, t) = tk_add tk (w_fd k) ForWrite c (w_toolkit s)
     in w_upd c (\<lambda>k. k\<lparr>w_id_write := Some i\<rparr>) (s\<lparr>w_toolkit := t\<rparr>))"

text \<open>An identifier that was never set is read as it is in memory.\<close>

definition glib_IvyChannelClearWritableEvent :: "'t toolkit \<Rightarrow> addr \<Rightarrow> ('h, 't) wstate \<Rightarrow> ('h, 't) wstate" where
  "glib_IvyChannelClearWritableEvent tk c s = with_w c s (\<lambda>k.
     case w_id_write k of None \<Rightarrow> w_crash OutOfBounds s | Some i \<Rightarrow> w_remove tk i s)"

definition glib_IvyChannelRemove :: "'t toolkit \<Rightarrow> addr \<Rightarrow> ('h, 't) wstate \<Rightarrow> ('h, 't) wstate" where
  "glib_IvyChannelRemove tk c s = with_w c s (\<lambda>k.
     let s1 = (if w_delete k \<noteq> None then w_call (\<lambda>h. CallDelete h (w_data k)) (w_delete k) s else s)
     in w_remove tk (w_id_delete k) (w_remove tk (w_id_read k) s1))"

definition IvyGlibHandleChannelRead :: "nat \<Rightarrow> addr \<Rightarrow> ('h, 't) wstate \<Rightarrow> ('h, 't) wstate" where
  "IvyGlibHandleChannelRead fd c s = with_w c s (\<lambda>k. w_call (\<lambda>h. CallRead h c fd (w_data k)) (w_read k) s)"

definition IvyGlibHandleChannelWrite :: "nat \<Rightarrow> addr \<Rightarrow> ('h, 't) wstate \<Rightarrow> ('h, 't) wstate" where
  "IvyGlibHandleChannelWrite fd c s = with_w c s (\<lambda>k. w_call (\<lambda>h. CallWrite h c fd (w_data k)) (w_write k) s)"

definition IvyGlibHandleChannelDelete :: "addr \<Rightarrow> ('h, 't) wstate \<Rightarrow> ('h, 't) wstate" where
  "IvyGlibHandleChannelDelete c s = with_w c s (\<lambda>k. w_call (\<lambda>h. CallDelete h (w_data k)) (w_delete k) s)"

text \<open>The loop of GLib calls the function of a watch; the answer is \<^verbatim>\<open>TRUE\<close>, so the watch stays.\<close>

definition glib_dispatch :: "'t toolkit \<Rightarrow> nat \<Rightarrow> ('h, 't) wstate \<Rightarrow> ('h, 't) wstate" where
  "glib_dispatch tk i s =
     (case tk_watch tk (w_toolkit s) i of
        None \<Rightarrow> s
      | Some (fd, w, c) \<Rightarrow>
          (case w of ForRead \<Rightarrow> IvyGlibHandleChannelRead fd c s | ForWrite \<Rightarrow> IvyGlibHandleChannelWrite fd c s
           | ForDelete \<Rightarrow> IvyGlibHandleChannelDelete c s))"

subsection \<open>Xt\<close>

text \<open>\<^verbatim>\<open>exit(-1)\<close> when the application context was not given before.\<close>

definition xt_IvyChannelInit :: "('h, 't) wstate \<Rightarrow> ('h, 't) wstate" where
  "xt_IvyChannelInit s =
     (if w_initialized s then s
      else if \<not> w_app s then s\<lparr>w_exit := Some (-1)\<rparr>
      else s\<lparr>w_initialized := True\<rparr>)"

definition IvyXtChannelAppContext :: "bool \<Rightarrow> ('h, 't) wstate \<Rightarrow> ('h, 't) wstate" where
  "IvyXtChannelAppContext cntx s = s\<lparr>w_app := cntx\<rparr>"

text \<open>\<open>alloc\<close> is whether \<^verbatim>\<open>XtNew\<close> gives a block.\<close>

definition xt_IvyChannelAdd ::
  "'t toolkit \<Rightarrow> bool \<Rightarrow> nat \<Rightarrow> addr \<Rightarrow> 'h option \<Rightarrow> 'h option \<Rightarrow> 'h option \<Rightarrow> ('h, 't) wstate \<Rightarrow> addr \<times> ('h, 't) wstate" where
  "xt_IvyChannelAdd tk alloc fd data hdel hr hw s =
     (if \<not> alloc then (NULL, s\<lparr>w_exit := Some 0\<rparr>)
      else
       (let c = w_next s;
            (i, t1) = tk_add tk fd ForRead c (w_toolkit s);
            (j, t2) = tk_add tk fd ForDelete c t1;
            k = \<lparr>w_addr = c, w_id_read = i, w_id_write = None, w_id_delete = j, w_fd = fd, w_data = data,
                 w_delete = hdel, w_read = hr, w_write = hw\<rparr>
        in (c, s\<lparr>w_channels := k # w_channels s, w_next := Suc c, w_toolkit := t2\<rparr>)))"

definition xt_IvyChannelRemove :: "'t toolkit \<Rightarrow> addr \<Rightarrow> ('h, 't) wstate \<Rightarrow> ('h, 't) wstate" where
  "xt_IvyChannelRemove tk c s = with_w c s (\<lambda>k.
     let s1 = (if w_delete k \<noteq> None then w_call (\<lambda>h. CallDelete h (w_data k)) (w_delete k) s else s)
     in w_remove tk (w_id_delete k) (w_remove tk (w_id_read k) s1))"

definition xt_IvyChannelAddWritableEvent :: "'t toolkit \<Rightarrow> addr \<Rightarrow> ('h, 't) wstate \<Rightarrow> ('h, 't) wstate" where
  "xt_IvyChannelAddWritableEvent tk c s = with_w c s (\<lambda>k.
     let (i, t) = tk_add tk (w_fd k) ForWrite c (w_toolkit s)
     in w_upd c (\<lambda>k. k\<lparr>w_id_write := Some i\<rparr>) (s\<lparr>w_toolkit := t\<rparr>))"

definition xt_IvyChannelClearWritableEvent :: "'t toolkit \<Rightarrow> addr \<Rightarrow> ('h, 't) wstate \<Rightarrow> ('h, 't) wstate" where
  "xt_IvyChannelClearWritableEvent tk c s = with_w c s (\<lambda>k.
     case w_id_write k of None \<Rightarrow> w_crash OutOfBounds s | Some i \<Rightarrow> w_remove tk i s)"

definition IvyXtHandleChannelRead :: "nat \<Rightarrow> addr \<Rightarrow> ('h, 't) wstate \<Rightarrow> ('h, 't) wstate" where
  "IvyXtHandleChannelRead fd c s = with_w c s (\<lambda>k. w_call (\<lambda>h. CallRead h c fd (w_data k)) (w_read k) s)"

definition IvyXtHandleChannelWrite :: "nat \<Rightarrow> addr \<Rightarrow> ('h, 't) wstate \<Rightarrow> ('h, 't) wstate" where
  "IvyXtHandleChannelWrite fd c s = with_w c s (\<lambda>k. w_call (\<lambda>h. CallWrite h c fd (w_data k)) (w_write k) s)"

definition IvyXtHandleChannelDelete :: "addr \<Rightarrow> ('h, 't) wstate \<Rightarrow> ('h, 't) wstate" where
  "IvyXtHandleChannelDelete c s = with_w c s (\<lambda>k. w_call (\<lambda>h. CallDelete h (w_data k)) (w_delete k) s)"

definition xt_dispatch :: "'t toolkit \<Rightarrow> nat \<Rightarrow> ('h, 't) wstate \<Rightarrow> ('h, 't) wstate" where
  "xt_dispatch tk i s =
     (case tk_watch tk (w_toolkit s) i of
        None \<Rightarrow> s
      | Some (fd, w, c) \<Rightarrow>
          (case w of ForRead \<Rightarrow> IvyXtHandleChannelRead fd c s | ForWrite \<Rightarrow> IvyXtHandleChannelWrite fd c s
           | ForDelete \<Rightarrow> IvyXtHandleChannelDelete c s))"

subsection \<open>GLUT\<close>

text \<open>There is no handler for writing, and no function to wait for it.\<close>

definition glut_IvyChannelInit :: "('h, 't) wstate \<Rightarrow> ('h, 't) wstate" where
  "glut_IvyChannelInit s = (if w_initialized s then s else s\<lparr>w_initialized := True\<rparr>)"

definition glut_IvyChannelAdd ::
  "'t toolkit \<Rightarrow> bool \<Rightarrow> nat \<Rightarrow> addr \<Rightarrow> 'h option \<Rightarrow> 'h option \<Rightarrow> ('h, 't) wstate \<Rightarrow> addr \<times> ('h, 't) wstate" where
  "glut_IvyChannelAdd tk alloc fd data hdel hr s =
     (if \<not> alloc then (NULL, s\<lparr>w_exit := Some 0\<rparr>)
      else
       (let c = w_next s;
            (i, t1) = tk_add tk fd ForRead c (w_toolkit s);
            (j, t2) = tk_add tk fd ForDelete c t1;
            k = \<lparr>w_addr = c, w_id_read = i, w_id_write = None, w_id_delete = j, w_fd = fd, w_data = data,
                 w_delete = hdel, w_read = hr, w_write = None\<rparr>
        in (c, s\<lparr>w_channels := k # w_channels s, w_next := Suc c, w_toolkit := t2\<rparr>)))"

definition glut_IvyChannelRemove :: "'t toolkit \<Rightarrow> addr \<Rightarrow> ('h, 't) wstate \<Rightarrow> ('h, 't) wstate" where
  "glut_IvyChannelRemove tk c s = with_w c s (\<lambda>k.
     let s1 = (if w_delete k \<noteq> None then w_call (\<lambda>h. CallDelete h (w_data k)) (w_delete k) s else s)
     in w_remove tk (w_id_delete k) (w_remove tk (w_id_read k) s1))"

definition IvyGlutHandleChannelRead :: "nat \<Rightarrow> addr \<Rightarrow> ('h, 't) wstate \<Rightarrow> ('h, 't) wstate" where
  "IvyGlutHandleChannelRead source c s = with_w c s (\<lambda>k. w_call (\<lambda>h. CallRead h c source (w_data k)) (w_read k) s)"

definition IvyGlutHandleChannelDelete :: "addr \<Rightarrow> ('h, 't) wstate \<Rightarrow> ('h, 't) wstate" where
  "IvyGlutHandleChannelDelete c s = with_w c s (\<lambda>k. w_call (\<lambda>h. CallDelete h (w_data k)) (w_delete k) s)"
subsection \<open>Tcl\<close>

text \<open>
  \<^verbatim>\<open>struct _channel\<close> of \<^verbatim>\<open>ivytcl.c\<close>. Of Tcl a channel is made for a descriptor, and a handler is set for a mask, or the
  mask of the handler that is there is changed, or it is deleted; masks are for reading, writing, exceptions.
\<close>

record 'h tclchannel =
  tc_addr :: addr
  tc_fd :: nat
  tc_data :: addr
  tc_channel :: addr
  tc_delete :: "'h option"
  tc_read :: "'h option"
  tc_write :: "'h option"

type_synonym mask = "bool \<times> bool \<times> bool"

definition TCL_READABLE :: mask where "TCL_READABLE = (True, False, False)"
definition TCL_WRITABLE :: mask where "TCL_WRITABLE = (False, True, False)"
definition TCL_EXCEPTION :: mask where "TCL_EXCEPTION = (False, False, True)"

record 't tcllib =
  tl_make :: "nat \<Rightarrow> 't \<Rightarrow> addr \<times> 't"
  tl_create :: "addr \<Rightarrow> mask \<Rightarrow> addr \<Rightarrow> 't \<Rightarrow> 't"
  tl_delete :: "addr \<Rightarrow> addr \<Rightarrow> 't \<Rightarrow> 't"

record ('h, 't) tclstate =
  tc_channels :: "'h tclchannel list"
  tc_next :: addr
  tc_lib :: 't
  tc_initialized :: bool
  tc_exit :: "int option"
  tc_fault :: "c_fault option"
  tc_calls :: "'h handler_call list"

definition tc_find :: "addr \<Rightarrow> ('h, 't) tclstate \<Rightarrow> 'h tclchannel option" where
  "tc_find c s = find (\<lambda>k. tc_addr k = c) (tc_channels s)"

definition tc_crash :: "c_fault \<Rightarrow> ('h, 't) tclstate \<Rightarrow> ('h, 't) tclstate" where
  "tc_crash e s = (if tc_fault s = None then s\<lparr>tc_fault := Some e\<rparr> else s)"

definition with_tc :: "addr \<Rightarrow> ('h, 't) tclstate \<Rightarrow> ('h tclchannel \<Rightarrow> ('h, 't) tclstate) \<Rightarrow> ('h, 't) tclstate" where
  "with_tc c s f = (case tc_find c s of None \<Rightarrow> tc_crash UseAfterFree s | Some k \<Rightarrow> f k)"

definition tc_call :: "('h \<Rightarrow> 'h handler_call) \<Rightarrow> 'h option \<Rightarrow> ('h, 't) tclstate \<Rightarrow> ('h, 't) tclstate" where
  "tc_call f h s = (case h of None \<Rightarrow> tc_crash NullDeref s | Some g \<Rightarrow> s\<lparr>tc_calls := tc_calls s @ [f g]\<rparr>)"

definition tcl_IvyChannelInit :: "('h, 't) tclstate \<Rightarrow> ('h, 't) tclstate" where
  "tcl_IvyChannelInit s = (if tc_initialized s then s else s\<lparr>tc_initialized := True\<rparr>)"

text \<open>The mask is compared with each of the three, not tested for them.\<close>

definition IvyHandleFd :: "addr \<Rightarrow> mask \<Rightarrow> ('h, 't) tclstate \<Rightarrow> ('h, 't) tclstate" where
  "IvyHandleFd c m s = with_tc c s (\<lambda>k.
     if m = TCL_READABLE then tc_call (\<lambda>h. CallRead h c (tc_fd k) (tc_data k)) (tc_read k) s
     else if m = TCL_WRITABLE then tc_call (\<lambda>h. CallWrite h c (tc_fd k) (tc_data k)) (tc_write k) s
     else if m = TCL_EXCEPTION then tc_call (\<lambda>h. CallDelete h (tc_data k)) (tc_delete k) s
     else s)"

definition tcl_IvyChannelRemove :: "'t tcllib \<Rightarrow> addr \<Rightarrow> ('h, 't) tclstate \<Rightarrow> ('h, 't) tclstate" where
  "tcl_IvyChannelRemove lib c s = with_tc c s (\<lambda>k.
     let s1 = (if tc_delete k \<noteq> None then tc_call (\<lambda>h. CallDelete h (tc_data k)) (tc_delete k) s else s)
     in s1\<lparr>tc_lib := tl_delete lib (tc_channel k) c (tc_lib s1), tc_channels := filter (\<lambda>y. tc_addr y \<noteq> c) (tc_channels s1)\<rparr>)"

definition tcl_IvyChannelAdd ::
  "'t tcllib \<Rightarrow> bool \<Rightarrow> nat \<Rightarrow> addr \<Rightarrow> 'h option \<Rightarrow> 'h option \<Rightarrow> 'h option \<Rightarrow> ('h, 't) tclstate \<Rightarrow> addr \<times> ('h, 't) tclstate" where
  "tcl_IvyChannelAdd lib alloc fd data hdel hr hw s =
     (if \<not> alloc then (NULL, s\<lparr>tc_exit := Some 0\<rparr>)
      else
       (let c = tc_next s;
            (x, t1) = tl_make lib fd (tc_lib s);
            k = \<lparr>tc_addr = c, tc_fd = fd, tc_data = data, tc_channel = x, tc_delete = hdel, tc_read = hr, tc_write = hw\<rparr>
        in (c, s\<lparr>tc_channels := k # tc_channels s, tc_next := Suc c, tc_lib := tl_create lib x (True, False, True) c t1\<rparr>)))"

definition tcl_IvyChannelAddWritableEvent :: "'t tcllib \<Rightarrow> addr \<Rightarrow> ('h, 't) tclstate \<Rightarrow> ('h, 't) tclstate" where
  "tcl_IvyChannelAddWritableEvent lib c s = with_tc c s (\<lambda>k.
     s\<lparr>tc_lib := tl_create lib (tc_channel k) (True, True, True) c (tc_lib s)\<rparr>)"

definition tcl_IvyChannelClearWritableEvent :: "'t tcllib \<Rightarrow> addr \<Rightarrow> ('h, 't) tclstate \<Rightarrow> ('h, 't) tclstate" where
  "tcl_IvyChannelClearWritableEvent lib c s = with_tc c s (\<lambda>k.
     s\<lparr>tc_lib := tl_create lib (tc_channel k) (True, False, True) c (tc_lib s)\<rparr>)"

text \<open>
  While a channel waits to write and its peer sends, both are ready at once: then neither handler is called, and
  nothing is read or written.
\<close>

lemma tcl_both_ready: "tc_find c s \<noteq> None \<Longrightarrow> IvyHandleFd c (True, True, x) s = s"
  by (auto simp: IvyHandleFd_def with_tc_def TCL_READABLE_def TCL_WRITABLE_def TCL_EXCEPTION_def)

text \<open>After a channel is removed its structure is freed, with the watch for writing too.\<close>

lemma tcl_removed: "tc_find c (tcl_IvyChannelRemove lib c s) = None"
proof (cases "tc_find c s")
  case None
  then show ?thesis by (simp add: tcl_IvyChannelRemove_def with_tc_def tc_crash_def tc_find_def)
next
  case (Some k)
  have "tc_find c (s1\<lparr>tc_lib := l, tc_channels := filter (\<lambda>y. tc_addr y \<noteq> c) ks\<rparr>) = None" for s1 :: "('a, 'b) tclstate" and l ks
    by (simp add: tc_find_def find_None_iff)
  then show ?thesis using Some by (simp add: tcl_IvyChannelRemove_def with_tc_def Let_def)
qed

subsection \<open>Watches and channels\<close>

definition watches :: "'t toolkit \<Rightarrow> ('h, 't) wstate \<Rightarrow> nat \<Rightarrow> (nat \<times> watch_for \<times> addr) option" where
  "watches tk s = tk_watch tk (w_toolkit s)"

text \<open>The identifier of a channel for each use.\<close>

definition w_id :: "watch_for \<Rightarrow> 'h wchannel \<Rightarrow> nat option" where
  "w_id w k = (case w of ForRead \<Rightarrow> Some (w_id_read k) | ForWrite \<Rightarrow> w_id_write k | ForDelete \<Rightarrow> Some (w_id_delete k))"

text \<open>Every watch is one its channel knows of.\<close>

definition w_ok :: "'t toolkit \<Rightarrow> ('h, 't) wstate \<Rightarrow> bool" where
  "w_ok tk s \<longleftrightarrow> (\<forall>k \<in> set (w_channels s). w_addr k < w_next s)
     \<and> (\<forall>i fd w c. watches tk s i = Some (fd, w, c) \<longrightarrow> (\<exists>k. w_find c s = Some k \<and> w_id w k = Some i))"

lemma w_find_Some: "w_find c s = Some k \<Longrightarrow> k \<in> set (w_channels s) \<and> w_addr k = c"
  by (auto simp: w_find_def find_Some_iff)

lemma w_same [simp]:
  "watches tk (w_crash e s) = watches tk s" "w_find c (w_crash e s) = w_find c s" "w_channels (w_crash e s) = w_channels s"
  "w_next (w_crash e s) = w_next s"
  "watches tk (w_call f h s) = watches tk s" "w_find c (w_call f h s) = w_find c s" "w_channels (w_call f h s) = w_channels s"
  "w_next (w_call f h s) = w_next s"
  "w_find c (w_remove tk i s) = w_find c s" "w_channels (w_remove tk i s) = w_channels s" "w_next (w_remove tk i s) = w_next s"
  by (simp_all add: w_crash_def w_call_def w_remove_def watches_def w_find_def split: option.split)

lemma watches_remove [simp]: "toolkit_laws tk \<Longrightarrow> watches tk (w_remove tk i s) = (watches tk s)(i := None)"
  by (simp add: watches_def w_remove_def tk_remove_law)

lemma w_find_upd:
  assumes "\<And>k. w_addr (f k) = w_addr k"
  shows "w_find c (w_upd d f s) = map_option (\<lambda>k. if c = d then f k else k) (w_find c s)"
proof -
  have "find (\<lambda>k. w_addr k = c) (map (\<lambda>k. if w_addr k = d then f k else k) ks)
      = map_option (\<lambda>k. if c = d then f k else k) (find (\<lambda>k. w_addr k = c) ks)" for ks
    by (induction ks) (auto simp: assms)
  then show ?thesis by (simp add: w_find_def w_upd_def)
qed

text \<open>A new channel has two watches with two identifiers.\<close>

lemma glib_add_watches:
  assumes "toolkit_laws tk" "glib_IvyChannelAdd tk fd d hdel hr hw s = (c, t)"
  shows "\<exists>i j. c = w_next s \<and> i \<noteq> j \<and> watches tk s i = None \<and> watches tk s j = None
    \<and> watches tk t = (watches tk s)(i \<mapsto> (fd, ForRead, c), j \<mapsto> (fd, ForDelete, c))
    \<and> w_channels t = \<lparr>w_addr = c, w_id_read = i, w_id_write = None, w_id_delete = j, w_fd = fd, w_data = d,
         w_delete = hdel, w_read = hr, w_write = hw\<rparr> # w_channels s \<and> w_next t = Suc c"
proof -
  obtain i t1 where i: "tk_add tk fd ForRead (w_next s) (w_toolkit s) = (i, t1)" by force
  obtain j t2 where j: "tk_add tk fd ForDelete (w_next s) t1 = (j, t2)" by force
  have "watches tk s i = None \<and> tk_watch tk t1 = (watches tk s)(i \<mapsto> (fd, ForRead, w_next s))"
    using tk_add_law [OF assms(1) i] by (simp add: watches_def)
  moreover have "tk_watch tk t1 j = None \<and> tk_watch tk t2 = (tk_watch tk t1)(j \<mapsto> (fd, ForDelete, w_next s))"
    using tk_add_law [OF assms(1) j] by simp
  ultimately have "i \<noteq> j" "watches tk s i = None" "watches tk s j = None"
    "tk_watch tk t2 = (watches tk s)(i \<mapsto> (fd, ForRead, w_next s), j \<mapsto> (fd, ForDelete, w_next s))"
    by (auto split: if_splits)
  then show ?thesis using assms(2) i j by (auto simp: glib_IvyChannelAdd_def Let_def watches_def)
qed

lemma glib_addw_watches:
  assumes "toolkit_laws tk" "w_find c s = Some k"
  shows "\<exists>i. watches tk s i = None \<and> watches tk (glib_IvyChannelAddWritableEvent tk c s) = (watches tk s)(i \<mapsto> (w_fd k, ForWrite, c))
    \<and> (\<forall>x. w_find x (glib_IvyChannelAddWritableEvent tk c s)
        = map_option (\<lambda>y. if x = c then y\<lparr>w_id_write := Some i\<rparr> else y) (w_find x s))"
proof -
  obtain i t where i: "tk_add tk (w_fd k) ForWrite c (w_toolkit s) = (i, t)" by force
  have "w_find x (s\<lparr>w_toolkit := t\<rparr>) = w_find x s" for x by (simp add: w_find_def)
  then show ?thesis using tk_add_law [OF assms(1) i] assms(2) i
    by (intro exI [of _ i]) (simp add: glib_IvyChannelAddWritableEvent_def with_w_def watches_def w_find_upd, simp add: w_upd_def)
qed

lemma glib_remove_watches:
  assumes "toolkit_laws tk" "w_find c s = Some k"
  shows "watches tk (glib_IvyChannelRemove tk c s) = (watches tk s)(w_id_read k := None, w_id_delete k := None)"
    "w_channels (glib_IvyChannelRemove tk c s) = w_channels s" "w_next (glib_IvyChannelRemove tk c s) = w_next s"
  using assms by (simp_all add: glib_IvyChannelRemove_def with_w_def Let_def)

lemma glib_dispatch_same:
  "watches tk (glib_dispatch tk i s) = watches tk s" "w_channels (glib_dispatch tk i s) = w_channels s"
  "w_next (glib_dispatch tk i s) = w_next s"
  by (simp_all add: glib_dispatch_def IvyGlibHandleChannelRead_def IvyGlibHandleChannelWrite_def IvyGlibHandleChannelDelete_def
      with_w_def split: option.split prod.split watch_for.split)


subsection \<open>Runs\<close>

definition w_start :: "'t \<Rightarrow> ('h, 't) wstate" where
  "w_start t = \<lparr>w_channels = [], w_next = 1, w_toolkit = t, w_initialized = False, w_app = False, w_exit = None,
     w_fault = None, w_calls = []\<rparr>"

text \<open>Whether a channel waits to write.\<close>

definition w_waiting :: "'t toolkit \<Rightarrow> addr \<Rightarrow> ('h, 't) wstate \<Rightarrow> bool" where
  "w_waiting tk c s \<longleftrightarrow> (\<exists>i fd. watches tk s i = Some (fd, ForWrite, c))"

text \<open>
  The operations, and the calls of the loop, with the channel that begins to wait. The sockets keep the protocol
  \<open>Ivy_Socket\<close> shows: a channel waits at most once at a time, and stops when it waits.
\<close>

inductive glib_step :: "'t toolkit \<Rightarrow> addr option \<Rightarrow> ('h, 't) wstate \<Rightarrow> ('h, 't) wstate \<Rightarrow> bool" for tk where
  gs_add: "glib_IvyChannelAdd tk fd d hdel hr hw s = (c, t) \<Longrightarrow> glib_step tk None s t"
| gs_wait: "w_find c s \<noteq> None \<Longrightarrow> \<not> w_waiting tk c s \<Longrightarrow> glib_step tk (Some c) s (glib_IvyChannelAddWritableEvent tk c s)"
| gs_clear: "w_waiting tk c s \<Longrightarrow> glib_step tk None s (glib_IvyChannelClearWritableEvent tk c s)"
| gs_remove: "w_find c s \<noteq> None \<Longrightarrow> glib_step tk None s (glib_IvyChannelRemove tk c s)"
| gs_dispatch: "glib_step tk None s (glib_dispatch tk i s)"

inductive glib_run :: "'t toolkit \<Rightarrow> ('h, 't) wstate \<Rightarrow> bool" for tk where
  gr_start: "tk_watch tk t = Map.empty \<Longrightarrow> glib_run tk (w_start t)"
| gr_step: "glib_run tk s \<Longrightarrow> glib_step tk l s t \<Longrightarrow> glib_run tk t"

text \<open>Later states, as long as \<open>c\<close> does not begin to wait.\<close>

inductive glib_later :: "'t toolkit \<Rightarrow> addr \<Rightarrow> ('h, 't) wstate \<Rightarrow> ('h, 't) wstate \<Rightarrow> bool" for tk c s where
  gl_now: "glib_later tk c s s"
| gl_step: "glib_later tk c s t \<Longrightarrow> glib_step tk l t u \<Longrightarrow> l \<noteq> Some c \<Longrightarrow> glib_later tk c s u"

lemma w_okD: "w_ok tk s \<Longrightarrow> watches tk s i = Some (fd, w, c) \<Longrightarrow> \<exists>k. w_find c s = Some k \<and> w_id w k = Some i"
  by (simp add: w_ok_def)

lemma w_ok_fewer:
  assumes "w_ok tk s" "\<And>i v. watches tk t i = Some v \<Longrightarrow> watches tk s i = Some v" "w_channels t = w_channels s" "w_next t = w_next s"
  shows "w_ok tk t"
  using assms by (auto simp: w_ok_def w_find_def)

lemma glib_clear_watches:
  assumes "toolkit_laws tk" "w_ok tk s" "watches tk s i = Some (fd, ForWrite, c)"
  shows "watches tk (glib_IvyChannelClearWritableEvent tk c s) = (watches tk s)(i := None)"
    "w_channels (glib_IvyChannelClearWritableEvent tk c s) = w_channels s" "w_next (glib_IvyChannelClearWritableEvent tk c s) = w_next s"
proof -
  obtain k where "w_find c s = Some k" "w_id_write k = Some i" using w_okD [OF assms(2,3)] by (auto simp: w_id_def)
  then show "watches tk (glib_IvyChannelClearWritableEvent tk c s) = (watches tk s)(i := None)"
    "w_channels (glib_IvyChannelClearWritableEvent tk c s) = w_channels s" "w_next (glib_IvyChannelClearWritableEvent tk c s) = w_next s"
    using assms(1) by (simp_all add: glib_IvyChannelClearWritableEvent_def with_w_def)
qed

lemma w_ok_step: "glib_step tk l s t \<Longrightarrow> toolkit_laws tk \<Longrightarrow> w_ok tk s \<Longrightarrow> w_ok tk t"
proof (induction rule: glib_step.induct)
  case (gs_add fd d hdel hr hw s c t)
  obtain i j where a: "c = w_next s" "i \<noteq> j" "watches tk s i = None" "watches tk s j = None"
    "watches tk t = (watches tk s)(i \<mapsto> (fd, ForRead, c), j \<mapsto> (fd, ForDelete, c))"
    "w_channels t = \<lparr>w_addr = c, w_id_read = i, w_id_write = None, w_id_delete = j, w_fd = fd, w_data = d,
         w_delete = hdel, w_read = hr, w_write = hw\<rparr> # w_channels s" "w_next t = Suc c"
    using glib_add_watches [OF gs_add(2,1)] by blast
  have n: "w_find x s = Some k \<Longrightarrow> x \<noteq> c" for x k using w_find_Some [of x s k] gs_add(3) a(1) by (auto simp: w_ok_def)
  have f: "w_find x t = (if x = c then Some \<lparr>w_addr = c, w_id_read = i, w_id_write = None, w_id_delete = j, w_fd = fd,
      w_data = d, w_delete = hdel, w_read = hr, w_write = hw\<rparr> else w_find x s)" for x
    by (simp add: w_find_def a(6))
  have "\<exists>k. w_find x t = Some k \<and> w_id w k = Some m" if m: "watches tk t m = Some (q, w, x)" for m q w x
  proof (cases "m = i \<or> m = j")
    case True
    then show ?thesis using m a(2,5) f by (auto simp: w_id_def split: if_splits)
  next
    case False
    then have "watches tk s m = Some (q, w, x)" using m a(5) by simp
    then show ?thesis using w_okD [OF gs_add(3)] n f by fastforce
  qed
  moreover have "\<forall>k \<in> set (w_channels t). w_addr k < w_next t" using gs_add(3) a by (auto simp: w_ok_def intro: less_SucI)
  ultimately show ?case by (simp add: w_ok_def)
next
  case (gs_wait c s)
  let ?t = "glib_IvyChannelAddWritableEvent tk c s"
  obtain k where k: "w_find c s = Some k" using gs_wait(1) by blast
  obtain i where i: "watches tk s i = None" "watches tk ?t = (watches tk s)(i \<mapsto> (w_fd k, ForWrite, c))"
    "\<And>x. w_find x ?t = map_option (\<lambda>y. if x = c then y\<lparr>w_id_write := Some i\<rparr> else y) (w_find x s)"
    using glib_addw_watches [OF gs_wait(3) k] by blast
  have "\<exists>k. w_find x ?t = Some k \<and> w_id w k = Some m" if m: "watches tk ?t m = Some (q, w, x)" for m q w x
  proof (cases "m = i")
    case True
    then show ?thesis using m i(2,3) k by (auto simp: w_id_def)
  next
    case False
    then have s: "watches tk s m = Some (q, w, x)" using m i(2) by simp
    then have "\<not> (x = c \<and> w = ForWrite)" using gs_wait(2) by (auto simp: w_waiting_def)
    moreover obtain y where "w_find x s = Some y" "w_id w y = Some m" using w_okD [OF gs_wait(4) s] by blast
    ultimately show ?thesis using i(3) by (cases w) (auto simp: w_id_def)
  qed
  moreover have "\<forall>k \<in> set (w_channels ?t). w_addr k < w_next ?t"
    using gs_wait(4) k by (auto simp: glib_IvyChannelAddWritableEvent_def with_w_def w_upd_def w_ok_def split_def Let_def)
  ultimately show ?case by (simp add: w_ok_def)
next
  case (gs_clear c s)
  obtain i fd where i: "watches tk s i = Some (fd, ForWrite, c)" using gs_clear(1) by (auto simp: w_waiting_def)
  show ?case by (rule w_ok_fewer [OF gs_clear(3)])
    (use glib_clear_watches [OF gs_clear(2,3) i] in \<open>auto split: if_splits\<close>)
next
  case (gs_remove c s)
  then obtain k where k: "w_find c s = Some k" by blast
  show ?case by (rule w_ok_fewer [OF gs_remove(3)])
    (use glib_remove_watches [OF gs_remove(2) k] in \<open>auto split: if_splits\<close>)
next
  case (gs_dispatch s i)
  show ?case by (rule w_ok_fewer [OF gs_dispatch(2)]) (simp_all add: glib_dispatch_same)
qed

lemma glib_run_ok: "glib_run tk s \<Longrightarrow> toolkit_laws tk \<Longrightarrow> w_ok tk s"
proof (induction rule: glib_run.induct)
  case (gr_start t)
  then show ?case by (simp add: w_ok_def w_start_def watches_def)
next
  case (gr_step s l t)
  then show ?case using w_ok_step by blast
qed

lemma removed_silent:
  assumes "toolkit_laws tk" "w_ok tk s" "w_find c s = Some k" "\<not> w_waiting tk c s"
  shows "watches tk (glib_IvyChannelRemove tk c s) i \<noteq> Some (fd, w, c)"
proof
  assume a: "watches tk (glib_IvyChannelRemove tk c s) i = Some (fd, w, c)"
  note r = glib_remove_watches(1) [OF assms(1,3)]
  have "watches tk s i = Some (fd, w, c)" "i \<noteq> w_id_read k" "i \<noteq> w_id_delete k" using a unfolding r by (auto split: if_splits)
  moreover from this(1) have "w_id w k = Some i" "w \<noteq> ForWrite"
    using w_okD [OF assms(2), of i fd w c] assms(3,4) by (auto simp: w_waiting_def)
  ultimately show False by (cases w) (simp_all add: w_id_def)
qed

lemma silent_step:
  assumes "glib_step tk l s t" "toolkit_laws tk" "w_ok tk s" "l \<noteq> Some c" "c < w_next s" "\<forall>i fd w. watches tk s i \<noteq> Some (fd, w, c)"
  shows "c < w_next t \<and> (\<forall>i fd w. watches tk t i \<noteq> Some (fd, w, c))"
  using assms
proof (induction rule: glib_step.induct)
  case (gs_add fd d hdel hr hw s b t)
  then show ?case using glib_add_watches [OF gs_add(2,1)] by (auto split: if_splits)
next
  case (gs_wait b s)
  obtain k where k: "w_find b s = Some k" using gs_wait(1) by blast
  obtain i where i: "watches tk (glib_IvyChannelAddWritableEvent tk b s) = (watches tk s)(i \<mapsto> (w_fd k, ForWrite, b))"
    using glib_addw_watches [OF gs_wait(3) k] by blast
  have "w_next (glib_IvyChannelAddWritableEvent tk b s) = w_next s"
    using k by (simp add: glib_IvyChannelAddWritableEvent_def with_w_def w_upd_def split_def Let_def)
  then show ?case using i gs_wait(5-7) by (auto split: if_splits)
next
  case (gs_clear b s)
  obtain i fd where i: "watches tk s i = Some (fd, ForWrite, b)" using gs_clear(1) by (auto simp: w_waiting_def)
  show ?case using glib_clear_watches [OF gs_clear(2,3) i] gs_clear(5,6) by auto
next
  case (gs_remove b s)
  then obtain k where k: "w_find b s = Some k" by blast
  show ?case using glib_remove_watches [OF gs_remove(2) k] gs_remove(5,6) by auto
next
  case (gs_dispatch s i)
  then show ?case by (simp add: glib_dispatch_same)
qed

text \<open>With a block for the channel, Xt does what GLib does.\<close>

lemma xt_as_glib:
  "xt_IvyChannelAdd tk True = glib_IvyChannelAdd tk" "xt_IvyChannelRemove tk = glib_IvyChannelRemove tk"
  "xt_IvyChannelAddWritableEvent tk = glib_IvyChannelAddWritableEvent tk"
  "xt_IvyChannelClearWritableEvent tk = glib_IvyChannelClearWritableEvent tk" "xt_dispatch tk = glib_dispatch tk"
  by (intro ext; simp add: xt_IvyChannelAdd_def glib_IvyChannelAdd_def xt_IvyChannelRemove_def glib_IvyChannelRemove_def
      xt_IvyChannelAddWritableEvent_def glib_IvyChannelAddWritableEvent_def xt_IvyChannelClearWritableEvent_def
      glib_IvyChannelClearWritableEvent_def xt_dispatch_def glib_dispatch_def IvyXtHandleChannelRead_def IvyXtHandleChannelWrite_def
      IvyXtHandleChannelDelete_def IvyGlibHandleChannelRead_def IvyGlibHandleChannelWrite_def IvyGlibHandleChannelDelete_def
      split: option.split watch_for.split)+

subsection \<open>Properties\<close>

text \<open>A toolkit that has its watches in a list, the identifier one more than all others.\<close>

definition list_toolkit :: "(nat \<times> nat \<times> watch_for \<times> addr) list toolkit" where
  "list_toolkit = \<lparr>tk_add = (\<lambda>fd w k t. let i = Suc (Max (insert 0 (fst ` set t))) in (i, (i, fd, w, k) # t)),
     tk_remove = (\<lambda>i t. filter (\<lambda>e. fst e \<noteq> i) t), tk_watch = map_of\<rparr>"

lemma list_toolkit_laws: "toolkit_laws list_toolkit"
proof -
  have "map_of t (Suc (Max (insert 0 (fst ` set t)))) = None" for t :: "(nat \<times> nat \<times> watch_for \<times> addr) list"
  proof -
    have "i \<le> Max (insert 0 (fst ` set t))" if "i \<in> fst ` set t" for i using that by (intro Max_ge) simp_all
    then have "Suc (Max (insert 0 (fst ` set t))) \<notin> fst ` set t" by (metis not_less_eq_eq order_refl)
    then show ?thesis by (simp add: map_of_eq_None_iff)
  qed
  moreover have "map_of (filter (\<lambda>e. fst e \<noteq> i) t) = (map_of t)(i := None)" for i and t :: "(nat \<times> nat \<times> watch_for \<times> addr) list"
    by (induction t) auto
  ultimately show ?thesis by (auto simp: toolkit_laws_def list_toolkit_def Let_def)
qed

text \<open>
  (C36) With GLib, and by \<open>xt_as_glib\<close> with Xt, a channel that is removed while it does not wait to write is never heard
  of again: in every later state, as long as it does not begin to wait, the toolkit has no watch for it, so
  none of its handlers is called with the data that was deleted.
\<close>

theorem removed_channel_silent:
  assumes "toolkit_laws tk" "glib_run tk s" "w_find c s \<noteq> None" "\<not> w_waiting tk c s"
    "glib_later tk c (glib_IvyChannelRemove tk c s) t"
  shows "watches tk t i \<noteq> Some (fd, w, c)"
proof -
  obtain k where k: "w_find c s = Some k" using assms(3) by blast
  note ok = glib_run_ok [OF assms(2,1)]
  have ok1: "w_ok tk (glib_IvyChannelRemove tk c s)" by (rule w_ok_step [OF gs_remove [OF assms(3)] assms(1) ok])
  have "c < w_next s" using w_find_Some [OF k] ok by (auto simp: w_ok_def)
  then have n: "c < w_next (glib_IvyChannelRemove tk c s)" using glib_remove_watches(3) [OF assms(1) k] by simp
  from assms(5) have "w_ok tk t \<and> c < w_next t \<and> (\<forall>i fd w. watches tk t i \<noteq> Some (fd, w, c))"
  proof (induction rule: glib_later.induct)
    case gl_now
    show ?case using ok1 n removed_silent [OF assms(1) ok k assms(4)] by blast
  next
    case (gl_step t l u)
    then show ?case using w_ok_step [OF gl_step(2) assms(1)] silent_step [OF gl_step(2) assms(1) _ gl_step(3)] by blast
  qed
  then show ?thesis by blast
qed

text \<open>One channel, with one waiting beside it.\<close>

definition one_watched :: "(nat, (nat \<times> nat \<times> watch_for \<times> addr) list) wstate" where
  "one_watched = snd (glib_IvyChannelAdd list_toolkit 5 77 (Some 1) (Some 2) (Some 3) (w_start []))"

lemma one_watched_run: "glib_run list_toolkit one_watched"
proof -
  have "glib_run list_toolkit (w_start [] :: (nat, (nat \<times> nat \<times> watch_for \<times> addr) list) wstate)"
    by (rule gr_start) (simp add: list_toolkit_def)
  then show ?thesis unfolding one_watched_def by (rule gr_step [OF _ gs_add [OF prod.collapse [symmetric]]])
qed

lemma one_watched_state:
  "one_watched = \<lparr>w_channels = [\<lparr>w_addr = 1, w_id_read = 1, w_id_write = None, w_id_delete = 2, w_fd = 5, w_data = 77,
      w_delete = Some 1, w_read = Some 2, w_write = Some 3\<rparr>], w_next = 2,
    w_toolkit = [(2, 5, ForDelete, 1), (1, 5, ForRead, 1)], w_initialized = False, w_app = False, w_exit = None,
    w_fault = None, w_calls = []\<rparr>"
  by (simp add: one_watched_def glib_IvyChannelAdd_def list_toolkit_def w_start_def numeral_2_eq_2)

theorem removed_channel_silent_witness:
  "\<forall>i fd w. watches list_toolkit (glib_dispatch list_toolkit 1 (glib_IvyChannelRemove list_toolkit 1 one_watched)) i \<noteq> Some (fd, w, 1)"
proof -
  have f: "w_find 1 one_watched \<noteq> None" "\<not> w_waiting list_toolkit 1 one_watched"
    by (auto simp: one_watched_state w_find_def w_waiting_def watches_def list_toolkit_def split: if_splits)
  have "glib_later list_toolkit 1 (glib_IvyChannelRemove list_toolkit 1 one_watched)
      (glib_dispatch list_toolkit 1 (glib_IvyChannelRemove list_toolkit 1 one_watched))"
    by (rule gl_step [OF gl_now gs_dispatch]) simp
  from removed_channel_silent [OF list_toolkit_laws one_watched_run f this] show ?thesis by blast
qed

text \<open>
  (C37) A channel that is removed while it waits to write keeps its watch for writing: the handler for deletion is
  called with its data, and at the next call of the loop for this watch the handler for writing with the same
  data, that the first has freed.
\<close>

theorem removed_channel_written:
  assumes "toolkit_laws tk" "glib_run tk s" "w_find c s = Some k" "watches tk s i = Some (fd, ForWrite, c)"
    "watches tk s (w_id_read k) = Some (fd, ForRead, c)" "watches tk s (w_id_delete k) = Some (fd, ForDelete, c)"
    "w_delete k = Some hdel" "w_write k = Some hw"
  shows "w_calls (glib_dispatch tk i (glib_IvyChannelRemove tk c s))
    = w_calls s @ [CallDelete hdel (w_data k), CallWrite hw c fd (w_data k)]"
proof -
  note ok = glib_run_ok [OF assms(2,1)]
  note r = glib_remove_watches [OF assms(1,3)]
  have "i \<noteq> w_id_read k \<and> i \<noteq> w_id_delete k" using assms(4-6) by auto
  then have "watches tk (glib_IvyChannelRemove tk c s) i = Some (fd, ForWrite, c)" using r(1) assms(4) by simp
  moreover have "w_find c (glib_IvyChannelRemove tk c s) = Some k" using assms(3) r(2) by (simp add: w_find_def)
  moreover have "w_calls (glib_IvyChannelRemove tk c s) = w_calls s @ [CallDelete hdel (w_data k)]"
    using assms(3,7) by (simp add: glib_IvyChannelRemove_def with_w_def w_call_def w_remove_def)
  ultimately show ?thesis using assms(8)
    by (simp add: glib_dispatch_def watches_def IvyGlibHandleChannelWrite_def with_w_def w_call_def)
qed

theorem removed_channel_written_witness:
  "\<exists>i. w_calls (glib_dispatch list_toolkit i (glib_IvyChannelRemove list_toolkit 1
      (glib_IvyChannelAddWritableEvent list_toolkit 1 one_watched)))
    = [CallDelete 1 77, CallWrite 3 1 5 77]"
proof -
  let ?s = "glib_IvyChannelAddWritableEvent list_toolkit 1 one_watched"
  let ?k = "\<lparr>w_addr = 1, w_id_read = 1, w_id_write = Some 3, w_id_delete = 2, w_fd = 5, w_data = 77,
      w_delete = Some 1, w_read = Some 2, w_write = Some 3\<rparr> :: nat wchannel"
  have f: "w_find 1 one_watched \<noteq> None" "\<not> w_waiting list_toolkit 1 one_watched"
    by (auto simp: one_watched_state w_find_def w_waiting_def watches_def list_toolkit_def split: if_splits)
  have r: "glib_run list_toolkit ?s" by (rule gr_step [OF one_watched_run gs_wait [OF f]])
  have w [simp]: "tk_watch list_toolkit = map_of" by (simp add: list_toolkit_def)
  have e: "?s = one_watched\<lparr>w_channels := [?k], w_toolkit := [(3, 5, ForWrite, 1), (2, 5, ForDelete, 1), (1, 5, ForRead, 1)]\<rparr>"
    by (simp add: glib_IvyChannelAddWritableEvent_def with_w_def w_find_def one_watched_state w_upd_def list_toolkit_def)
  have "w_find 1 ?s = Some ?k" "watches list_toolkit ?s 3 = Some (5, ForWrite, 1)"
    "watches list_toolkit ?s (w_id_read ?k) = Some (5, ForRead, 1)" "watches list_toolkit ?s (w_id_delete ?k) = Some (5, ForDelete, 1)"
    unfolding e by (simp_all add: w_find_def watches_def)
  moreover have "w_delete ?k = Some 1" "w_write ?k = Some 3" "w_data ?k = 77" by simp_all
  moreover have "w_calls ?s = []" unfolding e by (simp add: one_watched_state)
  ultimately show ?thesis using removed_channel_written [OF list_toolkit_laws r, of 1 ?k 3 5 1 3] by (intro exI [of _ 3]) simp
qed

end
