(* ===== verification/Ivy_Tools.thy ===== *)
theory Ivy_Tools
  imports Ivy_Program Ivy_Own Ivy_Probe
begin

text \<open>
  Three small programs of \<^verbatim>\<open>src/tools\<close> on the API: \<^verbatim>\<open>ivytranslater.c\<close>, which answers one message by another,
  \<^verbatim>\<open>ivytestready.c\<close>, one of two agents that wait for each other, and \<^verbatim>\<open>ivyperf.c\<close>, which measures round trips. Each
  is a start and callbacks; a locale says what makes such a program one of the bus.
\<close>

subsection \<open>Programs made of a start and callbacks\<close>

text \<open>
  A run: the start of the program on the bus as it is at first, then steps of the loop and callbacks, as long as
  the process is there.
\<close>

inductive program_run ::
  "bus_env \<Rightarrow> ('p \<times> ivy_state \<Rightarrow> bool) \<Rightarrow> ('p \<times> ivy_state \<Rightarrow> 'p \<times> ivy_state \<Rightarrow> bool) \<Rightarrow> 'p \<times> ivy_state \<Rightarrow> bool"
  for env first_state callback_of where
  pr_first: "first_state st \<Longrightarrow> program_run env first_state callback_of st"
| pr_loop: "program_run env first_state callback_of (p, s) \<Longrightarrow> running s \<Longrightarrow> loop_step env s t
    \<Longrightarrow> program_run env first_state callback_of (p, t)"
| pr_callback: "program_run env first_state callback_of st \<Longrightarrow> running (snd st) \<Longrightarrow> callback_of st st'
    \<Longrightarrow> program_run env first_state callback_of st'"

locale bus_program =
  fixes env :: bus_env and first_state :: "'p \<times> ivy_state \<Rightarrow> bool"
    and callback_of :: "'p \<times> ivy_state \<Rightarrow> 'p \<times> ivy_state \<Rightarrow> bool"
  assumes first_lawful: "first_state st \<Longrightarrow> lawful env (snd st)"
    and callback_lawful: "callback_of st st' \<Longrightarrow> lawful env (snd st) \<Longrightarrow> lawful env (snd st')"
begin

lemma run_lawful: "program_run env first_state callback_of st \<Longrightarrow> lawful env (snd st)"
proof (induction rule: program_run.induct)
  case (pr_loop p s t)
  then show ?case using lawful_step [of env s t] loop_step_bus by auto
qed (use first_lawful callback_lawful in blast)+

lemma run_reaches: "program_run env first_state callback_of (p, s) \<Longrightarrow> running s \<Longrightarrow> reachable env s"
  using run_lawful [of "(p, s)"] lawful_reachable by simp

end

text \<open>A program that keeps track of its own subscriptions: \<open>held\<close> relates its variables to those of the library.\<close>

locale bus_agent = bus_program env first_state callback_of
  for env and first_state :: "'p \<times> ivy_state \<Rightarrow> bool" and callback_of +
  fixes held :: "'p \<Rightarrow> msg_rcv list \<Rightarrow> bool"
  assumes first_held: "first_state (p, s) \<Longrightarrow> running s \<Longrightarrow> held p (msg_recv s)"
    and callback_held: "callback_of (p, s) (q, t) \<Longrightarrow> reachable env s \<Longrightarrow> lawful env t \<Longrightarrow> running t
      \<Longrightarrow> held p (msg_recv s) \<Longrightarrow> held q (msg_recv t)"
begin

lemma run_held: "program_run env first_state callback_of st \<Longrightarrow> running (snd st) \<Longrightarrow> held (fst st) (msg_recv (snd st))"
proof (induction rule: program_run.induct)
  case (pr_first st)
  then show ?case using first_held [of "fst st" "snd st"] by simp
next
  case (pr_loop p s t)
  then show ?case using loop_keeps_rcvs [of env s t] by simp
next
  case (pr_callback st st')
  have "reachable env (snd st)" using run_reaches [of "fst st" "snd st"] pr_callback(1,2) by simp
  then show ?case
    using callback_held [of "fst st" "snd st" "fst st'" "snd st'"] pr_callback run_lawful [OF program_run.pr_callback [OF pr_callback(1-3)]]
    by simp
qed

end

subsection \<open>ivytranslater\<close>

definition HelloCallback :: "pcre \<Rightarrow> string list \<Rightarrow> 'a ivy_state_scheme \<Rightarrow> 'a ivy_state_scheme" where
  "HelloCallback px argv s =
     (let arg = (case argv of [] \<Rightarrow> [] | a # _ \<Rightarrow> a)
      in snd (IvySendMsg px (Some ''Bonjour%s'') (''Bonjour'' @ arg) s))"

definition ByeCallback :: "'a ivy_state_scheme \<Rightarrow> 'a ivy_state_scheme" where
  "ByeCallback s = IvyStop s"

definition FN_HelloCallback :: fnptr where "FN_HelloCallback = 41"
definition FN_ByeCallback :: fnptr where "FN_ByeCallback = 42"

text \<open>
  The body of the loop over the options: \<^verbatim>\<open>c\<close> is the truth value of the comparison with \<^verbatim>\<open>EOF\<close>, so one, and no
  case of the \<^verbatim>\<open>switch\<close> is taken.
\<close>

definition translater_option :: "char \<times> string option \<Rightarrow> string option \<Rightarrow> string option" where
  "translater_option opt bus = (let c = (1 :: nat) in if c = of_char (CHR ''b'') then snd opt else bus)"

text \<open>\<open>binary\<close> is whether \<^verbatim>\<open>IVY_DEBUG_BINARY\<close> is set.\<close>

definition translater_main :: "start_env \<Rightarrow> bool \<Rightarrow> string list \<Rightarrow> 'a ivy_state_scheme \<Rightarrow> c_fault + 'a ivy_state_scheme" where
  "translater_main senv binary argv s =
     (case getopt_all argv ''b:'' init_getopt of
        Inl e \<Rightarrow> Inl e
      | Inr (opts, i) \<Rightarrow>
          (let b0 = fold translater_option opts None;
               bus = (if b0 = None then se_ivybus senv else b0);
               s1 = IvyInit (Some ''IvyTranslater'') (Some ''Hello le monde'') NULL NULL binary s;
               s2 = IvyStart senv (case bus of None \<Rightarrow> [] | Some b \<Rightarrow> b) s1;
               s3 = snd (IvyBindMsg FN_HelloCallback 0 ''^Hello(.*)'' s2)
           in Inr (snd (IvyBindMsg FN_ByeCallback 0 ''^Bye$'' s3))))"

definition translater_first :: "start_env \<Rightarrow> bool \<Rightarrow> unit \<times> ivy_state \<Rightarrow> bool" where
  "translater_first senv binary st \<longleftrightarrow> (\<exists>argv. translater_main senv binary argv program_start = Inr (snd st))"

inductive translater_callback :: "bus_env \<Rightarrow> unit \<times> ivy_state \<Rightarrow> unit \<times> ivy_state \<Rightarrow> bool" for env where
  tc_hello: "translater_callback env (u, s) (u, HelloCallback (be_pcre env) argv s)"
| tc_bye: "translater_callback env (u, s) (u, ByeCallback s)"

lemma lawful_translater:
  "translater_main senv binary argv s = Inr t \<Longrightarrow> lawful env s \<Longrightarrow> lawful env t"
  by (auto simp: translater_main_def Let_def intro!: lawful_calls(1,11,14) split: sum.splits prod.splits)

interpretation translater: bus_program env "translater_first senv binary" "translater_callback env" for env senv binary
proof
  show "translater_first senv binary st \<Longrightarrow> lawful env (snd st)" for st
    using lawful_translater lawful_start by (auto simp: translater_first_def)
  show "translater_callback env st st' \<Longrightarrow> lawful env (snd st) \<Longrightarrow> lawful env (snd st')" for st st'
    by (induction rule: translater_callback.induct)
      (simp_all add: HelloCallback_def ByeCallback_def Let_def lawful_calls(5,10))
qed

text \<open>The option \<^verbatim>\<open>-b\<close> has no effect.\<close>

lemma translater_ignores_b: "fold translater_option opts bus = bus"
  by (induction opts) (simp_all add: translater_option_def)

subsection \<open>ivytestready\<close>

text \<open>The global variables, and the lines printed.\<close>

record ready =
  me :: string
  other :: string
  ready_text :: string
  ready_bind :: string
  r_printed :: "string list"

definition r_say :: "string \<Rightarrow> ready \<Rightarrow> ready" where
  "r_say t p = p\<lparr>r_printed := r_printed p @ [t @ [NL]]\<rparr>"

definition FN_Ready :: fnptr where "FN_Ready = 43"
definition FN_Question :: fnptr where "FN_Question = 44"
definition FN_Reply :: fnptr where "FN_Reply = 45"
definition FN_binCB :: fnptr where "FN_binCB = 46"

definition SQUOTE :: char where
  "SQUOTE = CHR 0x27"

definition ReadyCallback :: "pcre \<Rightarrow> ivy_client option \<Rightarrow> ready \<times> 'a ivy_state_scheme \<Rightarrow> ready \<times> 'a ivy_state_scheme" where
  "ReadyCallback px app = (\<lambda>(p, s).
     let name = IvyGetApplicationName app;
         (count, s1) = IvySendMsg px (Some ''are you there %s'') (''are you there '' @ name) s
     in (r_say (''Application '' @ me p @ '' received '' @ [SQUOTE] @ ready_bind p @ [SQUOTE] @ '' from '' @ name
           @ '' sent question '' @ [SQUOTE] @ ''are you there '' @ name @ [SQUOTE] @ ''= '' @ dec_nat count) p, s1))"

definition QuestionCallback :: "pcre \<Rightarrow> ivy_client option \<Rightarrow> ready \<times> 'a ivy_state_scheme \<Rightarrow> ready \<times> 'a ivy_state_scheme" where
  "QuestionCallback px app = (\<lambda>(p, s).
     let name = IvyGetApplicationName app;
         (count, s1) = IvySendMsg px (Some ''yes i am %s'') (''yes i am '' @ me p) s
     in (r_say (''Application '' @ me p @ '' Reply to '' @ name @ '' are you there = '' @ dec_nat count) p, s1))"

text \<open>Without arguments \<^verbatim>\<open>argv[0]\<close> is past the end.\<close>

definition ReplyCallback :: "ivy_client option \<Rightarrow> string list \<Rightarrow> ready \<times> 'a ivy_state_scheme \<Rightarrow> ready \<times> 'a ivy_state_scheme" where
  "ReplyCallback app argv = (\<lambda>(p, s).
     case argv of
       [] \<Rightarrow> (p, crash OutOfBounds s)
     | a # _ \<Rightarrow> (r_say (''Application '' @ IvyGetApplicationName app @ '' Reply to our question! '' @ a) p, s))"

definition bind_word_of :: "bind_event \<Rightarrow> string" where
  "bind_word_of ev =
     (case ev of IvyAddBind \<Rightarrow> ''ADDED'' | IvyRemoveBind \<Rightarrow> ''REMOVED'' | IvyChangeBind \<Rightarrow> ''CHANGED'' | IvyFilterBind \<Rightarrow> ''FILTRED'')"

definition ready_binCB :: "ivy_client option \<Rightarrow> string \<Rightarrow> bind_event \<Rightarrow> ready \<times> 'a ivy_state_scheme \<Rightarrow> ready \<times> 'a ivy_state_scheme" where
  "ready_binCB app r ev = (\<lambda>(p, s).
     (r_say (me p @ '' receive Application:'' @ IvyGetApplicationName app @ '' bind '' @ [SQUOTE] @ r @ [SQUOTE] @ '' ''
        @ bind_word_of ev) p, s))"

definition ready_start :: ready where
  "ready_start = \<lparr>me = ''A'', other = ''B'', ready_text = ''A ready'', ready_bind = ''^B ready'', r_printed = []\<rparr>"

definition ready_main :: "start_env \<Rightarrow> bool \<Rightarrow> string list \<Rightarrow> ready \<times> 'a ivy_state_scheme \<Rightarrow> ready \<times> 'a ivy_state_scheme" where
  "ready_main senv binary argv = (\<lambda>(p, s).
     let p1 = (if length argv > 1
               then p\<lparr>me := ''B'', other := ''A'', ready_text := ''B ready'', ready_bind := ''^A ready''\<rparr> else p);
         s1 = IvyInit (Some (me p1)) (Some (ready_text p1)) NULL NULL binary s;
         s2 = IvySetBindCallback FN_binCB s1;
         s3 = snd (IvyBindMsg FN_Ready 0 (ready_bind p1) s2);
         s4 = snd (IvyBindMsg FN_Question 0 (''^are you there '' @ me p1) s3);
         s5 = snd (IvyBindMsg FN_Reply 0 (''^(yes i am '' @ other p1 @ '')'') s4)
     in (p1, IvyStart senv [] s5))"

inductive ready_callback :: "bus_env \<Rightarrow> ready \<times> ivy_state \<Rightarrow> ready \<times> ivy_state \<Rightarrow> bool" for env where
  rc_ready: "ready_callback env st (ReadyCallback (be_pcre env) app st)"
| rc_question: "ready_callback env st (QuestionCallback (be_pcre env) app st)"
| rc_reply: "ready_callback env st (ReplyCallback app argv st)"
| rc_bind: "ready_callback env st (ready_binCB app r ev st)"

interpretation testready: bus_program env "\<lambda>st. \<exists>argv. st = ready_main senv binary argv (ready_start, program_start)"
  "ready_callback env" for env senv binary
proof
  show "\<exists>argv. st = ready_main senv binary argv (ready_start, program_start) \<Longrightarrow> lawful env (snd st)" for st
    by (auto simp: ready_main_def Let_def intro!: lawful_calls(1,6,11,14) lawful_start)
  show "ready_callback env st st' \<Longrightarrow> lawful env (snd st) \<Longrightarrow> lawful env (snd st')" for st st'
    by (induction rule: ready_callback.induct)
      (auto simp: ReadyCallback_def QuestionCallback_def ReplyCallback_def ready_binCB_def split_def Let_def lawful_calls(5)
        split: list.split)
qed

text \<open>
  The two agents fit: what one sends to announce itself is what the other listens to, and the question of one names
  the other as the other listens to it.
\<close>

lemma ready_agents_fit:
  assumes "(p, s) = ready_main senv binary [x] (ready_start, s0)" "(q, t) = ready_main senv binary (y # z # zs) (ready_start, s0)"
  shows "ready_bind p = CHR ''^'' # ready_text q" "ready_bind q = CHR ''^'' # ready_text p" "me p = other q" "me q = other p"
  using assms by (simp_all add: ready_main_def Let_def ready_start_def)
subsection \<open>ivyperf\<close>

text \<open>
  The \<^verbatim>\<open>double\<close>s of the program are values of a type \<open>'d\<close> with the operations it uses: a parameter, as are the
  times \<^verbatim>\<open>gettimeofday\<close> gives. The counters are of type \<^verbatim>\<open>int\<close> and go on with the wrap-around of 32 bits.
\<close>

record 'd fp =
  fp_of_int :: "int \<Rightarrow> 'd"
  fp_add :: "'d \<Rightarrow> 'd \<Rightarrow> 'd"
  fp_sub :: "'d \<Rightarrow> 'd \<Rightarrow> 'd"
  fp_mul :: "'d \<Rightarrow> 'd \<Rightarrow> 'd"
  fp_div :: "'d \<Rightarrow> 'd \<Rightarrow> 'd"
  fp_less :: "'d \<Rightarrow> 'd \<Rightarrow> bool"
  atof :: "string \<Rightarrow> 'd"
  fp_print :: "'d \<Rightarrow> string"

definition incr_int :: "int \<Rightarrow> int" where
  "incr_int k = (k + 1 + 2147483648) mod 4294967296 - 2147483648"

record 'd perf =
  origin :: 'd
  nbMsgReceive :: int
  nbMsgEmit :: int
  nbMsg :: int
  minRoundTrip :: 'd
  maxRoundTrip :: 'd
  averageRoundTrip :: 'd
  send_timer :: addr
  pf_printed :: "string list"

definition FN_perf_Reply :: fnptr where "FN_perf_Reply = 47"
definition FN_perf_Pong :: fnptr where "FN_perf_Pong = 48"
definition FN_perf_TimerCall :: fnptr where "FN_perf_TimerCall = 49"
definition FN_perf_binCB :: fnptr where "FN_perf_binCB = 50"

definition perf_start :: "'d fp \<Rightarrow> 'd perf" where
  "perf_start fp = \<lparr>origin = fp_of_int fp 0, nbMsgReceive = 0, nbMsgEmit = 0, nbMsg = 10,
     minRoundTrip = fp_of_int fp 1000000000000, maxRoundTrip = fp_of_int fp 0, averageRoundTrip = fp_of_int fp 0,
     send_timer = NULL, pf_printed = []\<rparr>"

text \<open>From the seconds and microseconds of \<^verbatim>\<open>struct timeval\<close>.\<close>

definition perf_currentTime :: "'d fp \<Rightarrow> int \<times> int \<Rightarrow> 'd" where
  "perf_currentTime fp stamp = fp_add fp (fp_mul fp (fp_of_int fp (fst stamp)) (fp_of_int fp 1000))
     (fp_div fp (fp_of_int fp (snd stamp)) (fp_of_int fp 1000))"

text \<open>The difference to \<^verbatim>\<open>origin\<close>.\<close>

definition perf_since :: "'d fp \<Rightarrow> int \<times> int \<Rightarrow> 'd perf \<Rightarrow> 'd" where
  "perf_since fp stamp p = fp_sub fp (perf_currentTime fp stamp) (origin p)"

text \<open>Neither callback looks at \<^verbatim>\<open>argc\<close>.\<close>

definition perf_Reply :: "'d fp \<Rightarrow> pcre \<Rightarrow> int \<times> int \<Rightarrow> string list \<Rightarrow> 'd perf \<times> 'a ivy_state_scheme \<Rightarrow> 'd perf \<times> 'a ivy_state_scheme" where
  "perf_Reply fp px stamp argv = (\<lambda>(p, s).
     case argv of
       [] \<Rightarrow> (p, crash OutOfBounds s)
     | ts # _ \<Rightarrow> (p, snd (IvySendMsg px (Some ''pong ts=%s tr=%f'')
         (''pong ts='' @ ts @ '' tr='' @ fp_print fp (perf_since fp stamp p)) s)))"

definition perf_Pong :: "'d fp \<Rightarrow> int \<times> int \<Rightarrow> string list \<Rightarrow> 'd perf \<times> 'a ivy_state_scheme \<Rightarrow> 'd perf \<times> 'a ivy_state_scheme" where
  "perf_Pong fp stamp argv = (\<lambda>(p, s).
     let p1 = p\<lparr>nbMsgReceive := incr_int (nbMsgReceive p)\<rparr>;
         current = perf_since fp stamp p1
     in case argv of
          [] \<Rightarrow> (p1, crash OutOfBounds s)
        | a # _ \<Rightarrow>
            (let roundtrip3 = fp_sub fp current (atof fp a);
                 p2 = (if fp_less fp (maxRoundTrip p1) roundtrip3 then p1\<lparr>maxRoundTrip := roundtrip3\<rparr> else p1);
                 p3 = (if fp_less fp roundtrip3 (minRoundTrip p2) then p2\<lparr>minRoundTrip := roundtrip3\<rparr> else p2);
                 p4 = p3\<lparr>averageRoundTrip := fp_div fp
                        (fp_add fp (fp_mul fp (averageRoundTrip p3) (fp_of_int fp (decr_int (nbMsgReceive p3)))) roundtrip3)
                        (fp_of_int fp (nbMsgReceive p3))\<rparr>
             in (if nbMsg p4 = nbMsgReceive p4
                 then p4\<lparr>pf_printed := pf_printed p4 @ [''roundtrip['' @ dec_int (nbMsgReceive p4) @ ''] min ''
                        @ fp_print fp (minRoundTrip p4) @ '' av '' @ fp_print fp (averageRoundTrip p4) @ '' max ''
                        @ fp_print fp (maxRoundTrip p4) @ '' ms'' @ [NL]]\<rparr>
                 else p4, s)))"

text \<open>\<open>now\<close> is the clock of the timers.\<close>

definition perf_TimerCall :: "'d fp \<Rightarrow> pcre \<Rightarrow> int \<times> int \<Rightarrow> ulong \<Rightarrow> 'd perf \<times> 'a ivy_state_scheme \<Rightarrow> 'd perf \<times> 'a ivy_state_scheme" where
  "perf_TimerCall fp px stamp now = (\<lambda>(p, s).
     let (count, s1) = IvySendMsg px (Some ''ping ts=%f'') (''ping ts='' @ fp_print fp (perf_since fp stamp p)) s;
         p1 = (if count \<noteq> 0 then p\<lparr>nbMsgEmit := incr_int (nbMsgEmit p)\<rparr> else p)
     in (p1, if nbMsg p1 = nbMsgEmit p1 then s1\<lparr>timer_st := TimerRemove now (send_timer p1) (timer_st s1)\<rparr> else s1))"

definition perf_binCB :: "ivy_client option \<Rightarrow> string \<Rightarrow> bind_event \<Rightarrow> 'd perf \<times> 'a ivy_state_scheme \<Rightarrow> 'd perf \<times> 'a ivy_state_scheme" where
  "perf_binCB app r ev = (\<lambda>(p, s).
     (p\<lparr>pf_printed := pf_printed p @ [''Application:'' @ IvyGetApplicationName app @ '' bind '' @ [SQUOTE] @ r @ [SQUOTE]
        @ '' '' @ bind_word_of ev @ [NL]]\<rparr>, s))"

definition mymessages :: "string list" where
  "mymessages = [''IvyPerf'', ''ping'', ''pong'']"

definition perf_bus :: "(char \<times> string option) list \<Rightarrow> string option" where
  "perf_bus opts = fold (\<lambda>opt bus. if fst opt = CHR ''b'' then snd opt else bus) opts None"

text \<open>\<open>debug_filter\<close> and \<open>binary\<close> are whether \<^verbatim>\<open>IVY_DEBUG_FILTER\<close> and \<^verbatim>\<open>IVY_DEBUG_BINARY\<close> are set.\<close>

definition perf_main ::
  "'d fp \<Rightarrow> pcre \<Rightarrow> start_env \<Rightarrow> bool \<Rightarrow> bool \<Rightarrow> int \<times> int \<Rightarrow> ulong \<Rightarrow> string list \<Rightarrow> 'd perf \<times> 'a ivy_state_scheme
   \<Rightarrow> c_fault + 'd perf \<times> 'a ivy_state_scheme" where
  "perf_main fp px senv dfilter binary stamp now argv = (\<lambda>(p, s).
     case getopt_all argv ''b:'' init_getopt of
       Inl e \<Rightarrow> Inl e
     | Inr (opts, i) \<Rightarrow>
         (let time = (if i < length argv then atol (argv ! i) else 200);
              i1 = (if i < length argv then Suc i else i);
              p1 = (if i1 < length argv then p\<lparr>nbMsg := atol (argv ! i1)\<rparr> else p);
              s1 = IvyInit (Some ''IvyPerf'') (Some ''IvyPerf ready'') NULL NULL binary s;
              s2 = IvySetBindCallback FN_perf_binCB (IvySetFilter px mymessages dfilter s1);
              s3 = snd (IvyBindMsg FN_perf_Reply 0 ''^ping ts=(.*)'' s2);
              s4 = snd (IvyBindMsg FN_perf_Pong 0 ''^pong ts=(.*) tr=(.*)'' s3);
              p2 = p1\<lparr>origin := perf_currentTime fp stamp\<rparr>;
              s5 = IvyStart senv (case perf_bus opts of None \<Rightarrow> [] | Some b \<Rightarrow> b) s4
          in Inr (if nbMsg p2 \<noteq> 0
                  then (let (t, ts) = TimerRepeatAfter now TIMER_LOOP (of_int time) FN_perf_TimerCall
                              (nat (nbMsg p2 mod 18446744073709551616)) (timer_st s5)
                        in (p2\<lparr>send_timer := t\<rparr>, s5\<lparr>timer_st := ts\<rparr>))
                  else (p2, s5))))"

inductive perf_callback :: "'d fp \<Rightarrow> bus_env \<Rightarrow> 'd perf \<times> ivy_state \<Rightarrow> 'd perf \<times> ivy_state \<Rightarrow> bool" for fp env where
  pc_reply: "perf_callback fp env st (perf_Reply fp (be_pcre env) stamp argv st)"
| pc_pong: "perf_callback fp env st (perf_Pong fp stamp argv st)"
| pc_timer: "perf_callback fp env st (perf_TimerCall fp (be_pcre env) stamp now st)"
| pc_bind: "perf_callback fp env st (perf_binCB app r ev st)"

definition perf_first :: "'d fp \<Rightarrow> bus_env \<Rightarrow> start_env \<Rightarrow> 'd perf \<times> ivy_state \<Rightarrow> bool" where
  "perf_first fp env senv st \<longleftrightarrow> (\<exists>dfilter binary stamp now argv.
     perf_main fp (be_pcre env) senv dfilter binary stamp now argv (perf_start fp, program_start) = Inr st)"

lemma lawful_perf:
  assumes "perf_main fp px senv dfilter binary stamp now argv (p, s) = Inr st" "lawful env s"
  shows "lawful env (snd st)"
  using assms
  by (auto simp: perf_main_def Let_def intro!: lawful_calls(1,6,9,11,12,14) split: sum.splits prod.splits if_splits)

interpretation perf: bus_program env "perf_first fp env senv" "perf_callback fp env" for fp :: "'d fp" and env senv
proof
  show "perf_first fp env senv st \<Longrightarrow> lawful env (snd st)" for st :: "'d perf \<times> ivy_state"
    unfolding perf_first_def using lawful_perf lawful_start by blast
  show "perf_callback fp env st st' \<Longrightarrow> lawful env (snd st) \<Longrightarrow> lawful env (snd st')" for st st' :: "'d perf \<times> ivy_state"
    by (induction rule: perf_callback.induct)
      (auto simp: perf_Reply_def perf_Pong_def perf_TimerCall_def perf_binCB_def split_def Let_def lawful_calls(5,12)
        split: list.split)
qed

end
