(* ===== verification/Ivy_Throughput.thy ===== *)
theory Ivy_Throughput
  imports Ivy_Tools
begin

text \<open>
  \<^verbatim>\<open>src/tools/ivythroughput.cpp\<close>: an agent that sends the messages of a file and agents that subscribe to the
  regular expressions of another, to measure the throughput of the bus, and to see that subscribing and
  unsubscribing leave nothing behind. Each process is a program of the bus (\<open>bus_program\<close>). What \<^verbatim>\<open>fork\<close> answers,
  the files, the clock and the time a sequence takes are parameters.
\<close>

subsection \<open>State\<close>

datatype KindOfTest = memoryLeak1 | memoryLeak2 | throughput | disconnect

record InfoBind =
  currentBind :: nat
  totalBind :: nat

text \<open>
  The global and static variables of a process, the ones a callback gets as user data included (\<open>messages\<close>,
  \<open>bind_total\<close>, and the fields of \<^verbatim>\<open>MlDataStruct\<close>: \<open>bindIdList\<close>, \<open>ml_regexps\<close>, \<open>ml_inst\<close>). Unsigned integers are numbers
  below \<open>2 ^ 32\<close>.
\<close>

record throughput_state =
  nbMess :: nat
  nbReg :: nat
  numClients :: nat
  globalInst :: nat
  numRegexps :: nat
  numMessages :: nat
  recReady :: "nat \<Rightarrow> bool"
  kindOfTest :: KindOfTest
  regexpAreUniq :: bool
  bindByClnt :: "string \<Rightarrow> InfoBind option"
  messages :: "string list"
  bind_total :: nat
  bindIdList :: "addr list"
  ml_regexps :: "string list"
  ml_inst :: nat
  tp_printed :: "string list"

type_synonym 'a tp_state = "throughput_state \<times> 'a ivy_state_scheme"

definition throughput_init :: throughput_state where
  "throughput_init = \<lparr>nbMess = 0, nbReg = 0, numClients = 1, globalInst = 0, numRegexps = 1000000, numMessages = 1000000,
     recReady = (\<lambda>_. False), kindOfTest = throughput, regexpAreUniq = False, bindByClnt = (\<lambda>_. None), messages = [],
     bind_total = 0, bindIdList = [], ml_regexps = [], ml_inst = 0, tp_printed = []\<rparr>"

definition tp_say :: "string \<Rightarrow> throughput_state \<Rightarrow> throughput_state" where
  "tp_say t p = p\<lparr>tp_printed := tp_printed p @ [t]\<rparr>"

definition uint_inc :: "nat \<Rightarrow> nat" where
  "uint_inc n = u32 (int n + 1)"

text \<open>\<^verbatim>\<open>%d\<close> of an unsigned integer.\<close>

definition uint_d :: "nat \<Rightarrow> string" where
  "uint_d n = dec_int (if n < 2147483648 then int n else int n - 4294967296)"

definition FN_congestCB :: fnptr where "FN_congestCB = 51"
definition FN_tp_binCB :: fnptr where "FN_tp_binCB = 52"
definition FN_recepteurReadyCB :: fnptr where "FN_recepteurReadyCB = 53"
definition FN_recepteurCB :: fnptr where "FN_recepteurCB = 54"
definition FN_startOfSeqCB :: fnptr where "FN_startOfSeqCB = 55"
definition FN_endOfSeqCB :: fnptr where "FN_endOfSeqCB = 56"
definition FN_stopCB :: fnptr where "FN_stopCB = 57"
definition FN_sendAllMessageCB :: fnptr where "FN_sendAllMessageCB = 58"
definition FN_desabonneEtReabonneCB :: fnptr where "FN_desabonneEtReabonneCB = 59"
definition FN_changeRegexpCB :: fnptr where "FN_changeRegexpCB = 60"
definition FN_exitCB :: fnptr where "FN_exitCB = 61"
definition FN_doNothingAndSuicideCB :: fnptr where "FN_doNothingAndSuicideCB = 62"

subsection \<open>The files\<close>

text \<open>\<^verbatim>\<open>CapturePattern\<close>: a binding of \<^verbatim>\<open>ivybind.c\<close>, null when the pattern does not compile, and its first group.\<close>

definition CapturePattern :: "pcre \<Rightarrow> string \<Rightarrow> ivy_binding option" where
  "CapturePattern px pattern = (case IvyBindingCompile px pattern of Compiled b \<Rightarrow> Some b | CompileError _ _ \<Rightarrow> None)"

definition pattern_match :: "pcre \<Rightarrow> ivy_binding option \<Rightarrow> string \<Rightarrow> string option \<times> ivy_binding option" where
  "pattern_match px bnd message =
     (let (n, b) = IvyBindingExec px bnd message
      in (if n < 2 then None else map_option (\<lambda>x. IvyBindingMatch x message 1) b, b))"

definition BUFFER_64K :: nat where
  "BUFFER_64K = 1024 * 64"

definition MESSAGE_PATTERN :: string where
  "MESSAGE_PATTERN = [CHR 0x22] @ ''(.*)'' @ [CHR 0x22] @ ''$''"

function read_messages ::
  "pcre \<Rightarrow> ivy_binding option \<Rightarrow> nat \<Rightarrow> bytes \<Rightarrow> string list \<times> nat \<Rightarrow> string list \<times> nat" where
  "read_messages px pcreg numMess infile (ms, n) =
     (case fgets BUFFER_64K infile of
        None \<Rightarrow> (ms, n)
      | Some (line, rest) \<Rightarrow>
          if \<not> n < numMess then (ms, n)
          else (case pattern_match px pcreg line of
                  (Some aMsg, b) \<Rightarrow> read_messages px b numMess rest (ms @ [aMsg], uint_inc n)
                | (None, b) \<Rightarrow> read_messages px b numMess rest (ms, n)))"
  by pat_completeness auto
termination
  by (relation "measure (\<lambda>(px, b, m, infile, st). length infile)") (auto simp: BUFFER_64K_def dest: fgets_length)

declare read_messages.simps [simp del]

definition getMessages :: "pcre \<Rightarrow> bytes option \<Rightarrow> throughput_state \<Rightarrow> (string list \<times> throughput_state) option" where
  "getMessages px infile p =
     (case infile of
        None \<Rightarrow> None
      | Some content \<Rightarrow>
          (let (ms, n) = read_messages px (CapturePattern px MESSAGE_PATTERN) (numMessages p) content ([], nbMess p)
           in Some (ms, p\<lparr>nbMess := n\<rparr>)))"

definition REGEXP_PATTERN1 :: string where
  "REGEXP_PATTERN1 = ''add regexp '' @ [CHR 0x5C] @ ''d+ : (.*)$''"

definition REGEXP_PATTERN2 :: string where
  "REGEXP_PATTERN2 = ''('' @ [CHR 0x5C] @ ''^.*)$''"

function read_regexps ::
  "pcre \<Rightarrow> ivy_binding option \<Rightarrow> ivy_binding option \<Rightarrow> nat \<Rightarrow> bytes \<Rightarrow> string list \<times> nat \<Rightarrow> string list \<times> nat" where
  "read_regexps px pcreg1 pcreg2 nReg infile (rs, n) =
     (case fgets BUFFER_64K infile of
        None \<Rightarrow> (rs, n)
      | Some (line, rest) \<Rightarrow>
          if \<not> n < nReg then (rs, n)
          else (case pattern_match px pcreg1 line of
                  (Some aMsg, b1) \<Rightarrow> read_regexps px b1 pcreg2 nReg rest (rs @ [aMsg], uint_inc n)
                | (None, b1) \<Rightarrow>
                    (case pattern_match px pcreg2 line of
                       (Some aMsg, b2) \<Rightarrow> read_regexps px b1 b2 nReg rest (rs @ [aMsg], uint_inc n)
                     | (None, b2) \<Rightarrow> read_regexps px b1 b2 nReg rest (rs, n))))"
  by pat_completeness auto
termination
  by (relation "measure (\<lambda>(px, b1, b2, m, infile, st). length infile)") (auto simp: BUFFER_64K_def dest: fgets_length)

declare read_regexps.simps [simp del]

definition getRegexps :: "pcre \<Rightarrow> bytes option \<Rightarrow> throughput_state \<Rightarrow> (string list \<times> throughput_state) option" where
  "getRegexps px infile p =
     (case infile of
        None \<Rightarrow> None
      | Some content \<Rightarrow>
          (let (rs, n) = read_regexps px (CapturePattern px REGEXP_PATTERN1) (CapturePattern px REGEXP_PATTERN2) (numRegexps p)
                 content ([], nbReg p)
           in Some (rs, p\<lparr>nbReg := n\<rparr>)))"

subsection \<open>Callbacks\<close>

text \<open>A timer set by a callback or at the start; \<open>now\<close> is the clock.\<close>

definition tp_timer :: "ulong \<Rightarrow> ulong \<Rightarrow> fnptr \<Rightarrow> nat \<Rightarrow> 'a ivy_state_scheme \<Rightarrow> 'a ivy_state_scheme" where
  "tp_timer now ltime cb ud s = s\<lparr>timer_st := snd (TimerRepeatAfter now 1 ltime cb ud (timer_st s))\<rparr>"

definition tp_binCB :: "ivy_client option \<Rightarrow> int \<Rightarrow> string \<Rightarrow> bind_event \<Rightarrow> throughput_state \<Rightarrow> throughput_state" where
  "tp_binCB app i r ev p =
     (let appName = IvyGetApplicationName app;
          x = (case bindByClnt p appName of None \<Rightarrow> \<lparr>currentBind = 0, totalBind = bind_total p\<rparr> | Some x \<Rightarrow> x)
      in case ev of
           IvyAddBind \<Rightarrow>
             (let y = x\<lparr>currentBind := uint_inc (currentBind x)\<rparr>; p1 = p\<lparr>bindByClnt := (bindByClnt p)(appName \<mapsto> y)\<rparr>
              in if currentBind y = totalBind y
                 then tp_say (''Application:'' @ appName @ '' ALL REGEXPS BINDED'' @ [NL]) p1 else p1)
         | IvyRemoveBind \<Rightarrow>
             (let p1 = p\<lparr>bindByClnt := (bindByClnt p)(appName \<mapsto> x)\<rparr>
              in if i mod 10000 = 0
                 then tp_say (''Application:'' @ appName @ '' bind '' @ [SQUOTE] @ dec_int i @ [SQUOTE] @ '' REMOVED'' @ [NL]) p1
                 else p1)
         | IvyFilterBind \<Rightarrow>
             tp_say (''Application:'' @ appName @ '' bind '' @ [SQUOTE] @ r @ [SQUOTE] @ '' FILTRED'' @ [NL])
               (p\<lparr>bindByClnt := (bindByClnt p)(appName \<mapsto> x)\<rparr>)
         | IvyChangeBind \<Rightarrow>
             tp_say (''Application:'' @ appName @ '' bind '' @ [SQUOTE] @ r @ [SQUOTE] @ '' CHANGED'' @ [NL])
               (p\<lparr>bindByClnt := (bindByClnt p)(appName \<mapsto> x)\<rparr>))"

definition congestCB :: "ivy_client option \<Rightarrow> app_event \<Rightarrow> throughput_state \<Rightarrow> throughput_state" where
  "congestCB app ev p =
     (let appName = IvyGetApplicationName app
      in case ev of
           IvyApplicationCongestion \<Rightarrow> tp_say (''Application:'' @ appName @ '' : Congestion'' @ [NL]) p
         | IvyApplicationDecongestion \<Rightarrow> tp_say (''Application:'' @ appName @ '' : DEcongestion'' @ [NL]) p
         | IvyApplicationFifoFull \<Rightarrow> tp_say (''Application:'' @ appName @ '' : FIFO PLEINE, MESSAGES PERDUS !!!'' @ [NL]) p
         | _ \<Rightarrow> p)"

definition stopCB :: "'a ivy_state_scheme \<Rightarrow> 'a ivy_state_scheme" where
  "stopCB s = IvyStop s"

definition send_one :: "pcre \<Rightarrow> string \<Rightarrow> nat \<times> 'a ivy_state_scheme \<Rightarrow> nat \<times> 'a ivy_state_scheme" where
  "send_one px m = (\<lambda>(envoyes, s). let (k, s1) = IvySendMsg px (Some ''%s'') m s in (u32 (int envoyes + int k), s1))"

text \<open>\<open>secs\<close> is the time the sequence took, as printed.\<close>

definition sendAllMessageCB :: "pcre \<Rightarrow> string \<Rightarrow> ulong \<Rightarrow> 'a tp_state \<Rightarrow> 'a tp_state" where
  "sendAllMessageCB px secs now = (\<lambda>(p, s).
     let s1 = snd (IvySendMsg px (Some ''startOfSequence'') ''startOfSequence'' s);
         (envoyes, s2) = fold (send_one px) (messages p) (0, s1);
         s3 = snd (IvySendMsg px (Some ''endOfSequence'') ''endOfSequence'' s2);
         p1 = tp_say (''[ivy 3.16.1] envoyer ['' @ uint_d envoyes @ ''/'' @ uint_d (nbMess p) @ ''] messages filtres par ''
                @ uint_d (nbReg p) @ '' regexps a '' @ uint_d (numClients p) @ '' clients prends '' @ secs
                @ '' secondes'' @ [NL]) p
     in (p1, tp_timer now 1000 FN_sendAllMessageCB 0 s3))"

definition recepteurCB :: "throughput_state \<Rightarrow> throughput_state" where
  "recepteurCB p = p\<lparr>nbMess := uint_inc (nbMess p)\<rparr>"

definition recepteurReadyCB :: "ulong \<Rightarrow> string list \<Rightarrow> 'a tp_state \<Rightarrow> 'a tp_state" where
  "recepteurReadyCB now argv = (\<lambda>(p, s).
     case argv of
       [] \<Rightarrow> (p, crash OutOfBounds s)
     | a # _ \<Rightarrow>
         (let inst = u32 (atoi a);
              p1 = p\<lparr>recReady := (recReady p)(inst := True)\<rparr>;
              missing = filter (\<lambda>i. \<not> recReady p1 i) [0..<numClients p1];
              p2 = fold (\<lambda>i. tp_say (''Emetteur :Recepteur['' @ uint_d inst @ ''] OK,  manque recepteur ['' @ uint_d i @ ''/''
                     @ uint_d (u32 (int (numClients p1) - 1)) @ '']'' @ [NL])) missing p1
          in if missing = [] then
               (if kindOfTest p2 \<noteq> memoryLeak1
                then (tp_say (''Emetteur : tous recepteurs prets : on envoie la puree !!'' @ [NL]) p2,
                      tp_timer now 100 FN_sendAllMessageCB 0 s)
                else (p2, s))
             else (tp_say [NL] p2, s)))"

definition startOfSeqCB :: "throughput_state \<Rightarrow> throughput_state" where
  "startOfSeqCB p = p\<lparr>nbMess := 0\<rparr>"

definition endOfSeqCB :: "throughput_state \<Rightarrow> throughput_state" where
  "endOfSeqCB p = tp_say (''recepteur '' @ uint_d (globalInst p) @ '' a recu '' @ uint_d (nbMess p) @ '' messages'' @ [NL]) p"

text \<open>The loops of \<^verbatim>\<open>desabonneEtReabonneCB\<close>: \<^verbatim>\<open>IvyUnbindMsg\<close>, \<^verbatim>\<open>IvyBindMsg\<close> and \<^verbatim>\<open>IvyChangeMsg\<close> on each element.\<close>

definition desabonne :: "'a tp_state \<Rightarrow> 'a tp_state" where
  "desabonne = (\<lambda>(p, s). (p\<lparr>bindIdList := []\<rparr>, fold IvyUnbindMsg (bindIdList p) s))"

definition abonne_one :: "nat \<Rightarrow> string \<Rightarrow> addr list \<times> 'a ivy_state_scheme \<Rightarrow> addr list \<times> 'a ivy_state_scheme" where
  "abonne_one inst reg = (\<lambda>(ids, s). let (m, s1) = IvyBindMsg FN_recepteurCB inst reg s in (ids @ [m], s1))"

definition change_all :: "'a tp_state \<Rightarrow> 'a tp_state" where
  "change_all = (\<lambda>(p, s). (p, fold (\<lambda>m. IvyChangeMsg m ''^Une regexp (BIDON)'') (bindIdList p) s))"

definition desabonneEtReabonneCB :: "'a tp_state \<Rightarrow> 'a tp_state" where
  "desabonneEtReabonneCB st =
     (let (p, s) = desabonne st;
          (ids, s1) = fold (abonne_one (ml_inst p)) (ml_regexps p) (bindIdList p, s)
      in desabonne (change_all (p\<lparr>bindIdList := ids\<rparr>, s1)))"

definition changeRegexpCB :: "ulong \<Rightarrow> 'a tp_state \<Rightarrow> 'a tp_state" where
  "changeRegexpCB now st = (let (p, s) = change_all st in (p, tp_timer now 1000 FN_changeRegexpCB 0 s))"

definition exitCB :: "'a tp_state \<Rightarrow> 'a tp_state" where
  "exitCB = (\<lambda>(p, s). (tp_say (''DBG> client exit'' @ [NL]) p, s\<lparr>exited := True\<rparr>))"

text \<open>\<open>time\<close> is the user data; C divides towards zero.\<close>

definition doNothingAndSuicideCB :: "int \<Rightarrow> 'a tp_state \<Rightarrow> 'a tp_state" where
  "doNothingAndSuicideCB time = (\<lambda>(p, s).
     let t = sgn (time - 2) * (\<bar>time - 2\<bar> div 2) * 1000
     in (tp_say (''DBG> client suicide'' @ [NL]) (tp_say (''DBG> client hanging for '' @ dec_int t @ '' milliseconds'' @ [NL])
           (tp_say ''.'' p)), s\<lparr>exited := True\<rparr>))"
subsection \<open>The agents\<close>

definition agentName :: "nat \<Rightarrow> string" where
  "agentName inst = ''IvyThroughputReceive_'' @ dec_nat inst"

text \<open>
  The functions of the agents up to their loop. \<open>binary\<close> is whether \<^verbatim>\<open>IVY_DEBUG_BINARY\<close> is set, \<open>pid\<close> the process.
  The duration in milliseconds is taken without overflow of \<^verbatim>\<open>int\<close>.
\<close>

definition emetteur ::
  "start_env \<Rightarrow> bool \<Rightarrow> int \<Rightarrow> ulong \<Rightarrow> string \<Rightarrow> int \<Rightarrow> nat \<Rightarrow> 'a tp_state \<Rightarrow> 'a tp_state" where
  "emetteur senv binary pid now bus testDuration regexpSize = (\<lambda>(p, s).
     let p1 = tp_say (''DBG> emetteur start, pid='' @ dec_int pid @ [NL]) p;
         s1 = IvyInit (Some ''IvyThroughputEmit'') (Some ''IvyThroughputEmit Ready'') FN_congestCB NULL binary s;
         s2 = IvySetBindCallback FN_tp_binCB s1;
         s3 = snd (IvyBindMsg FN_recepteurReadyCB 0
                (''^IvyThroughputReceive_('' @ [CHR 0x5C] @ ''d+)'' @ [CHR 0x5C] @ ''s+Ready'') s2);
         s4 = tp_timer now (of_int (testDuration * 1000)) FN_stopCB 0 s3
     in (p1\<lparr>bind_total := u32 (int regexpSize + 2)\<rparr>, IvyStart senv bus s4))"

definition recepteur_start :: "bool \<Rightarrow> int \<Rightarrow> nat \<Rightarrow> 'a tp_state \<Rightarrow> 'a tp_state" where
  "recepteur_start binary pid inst = (\<lambda>(p, s).
     (tp_say (''DBG> recepteur_'' @ uint_d inst @ '' start, pid='' @ dec_int pid @ [NL]) (p\<lparr>globalInst := inst\<rparr>),
      IvyInit (Some (agentName inst)) (Some (agentName inst @ '' Ready'')) FN_congestCB NULL binary s))"

definition bind_sequence :: "'a ivy_state_scheme \<Rightarrow> 'a ivy_state_scheme" where
  "bind_sequence s =
     snd (IvyBindMsg FN_endOfSeqCB 0 ''^end(OfSequence)'' (snd (IvyBindMsg FN_startOfSeqCB 0 ''^start(OfSequence)'' s)))"

definition recepteur_tp ::
  "start_env \<Rightarrow> bool \<Rightarrow> int \<Rightarrow> ulong \<Rightarrow> string \<Rightarrow> KindOfTest \<Rightarrow> nat \<Rightarrow> string list \<Rightarrow> nat \<Rightarrow> 'a tp_state \<Rightarrow> 'a tp_state" where
  "recepteur_tp senv binary pid now bus kod inst regexps exitAfter st =
     (let (p1, s1) = recepteur_start binary pid inst st;
          uniq = (\<lambda>r. if regexpAreUniq p1 then r @ ''('' @ dec_nat inst @ '')?'' else r);
          s2 = bind_sequence (fold (\<lambda>r s. snd (IvyBindMsg FN_recepteurCB inst (uniq r) s)) regexps s1);
          s3 = (if kod = memoryLeak2 then tp_timer now (of_nat (u32 (int exitAfter * 1000))) FN_exitCB 0 s2
                else if kod = disconnect
                then tp_timer now (of_nat (u32 (int exitAfter * 1000) div 3)) FN_doNothingAndSuicideCB exitAfter s2
                else s2)
      in (p1, IvyStart senv bus s3))"

definition recepteur_ml ::
  "start_env \<Rightarrow> bool \<Rightarrow> int \<Rightarrow> ulong \<Rightarrow> string \<Rightarrow> nat \<Rightarrow> string list \<Rightarrow> 'a tp_state \<Rightarrow> 'a tp_state" where
  "recepteur_ml senv binary pid now bus inst regexps st =
     (let (p1, s1) = recepteur_start binary pid inst st;
          uniq = (\<lambda>r. if regexpAreUniq p1 then r @ '' '' @ dec_nat inst else r);
          (ids, s2) = fold (abonne_one inst) (map uniq regexps) (bindIdList p1, s1);
          s3 = tp_timer now 1000 FN_desabonneEtReabonneCB 0 (bind_sequence s2)
      in (p1\<lparr>bindIdList := ids, ml_regexps := regexps, ml_inst := inst\<rparr>, IvyStart senv bus s3))"

subsection \<open>Options and processes\<close>

text \<open>
  The local variables of \<^verbatim>\<open>main\<close>; the block of \<^verbatim>\<open>bus\<close> has the room for the name it is made with.
\<close>

record tp_opts =
  t_bus :: string
  t_room :: nat
  t_regexpFile :: string
  t_messageFile :: string
  testDuration :: int

definition tp_init_opts :: "string option \<Rightarrow> tp_opts" where
  "tp_init_opts ivybus =
     (let b = (case ivybus of Some b \<Rightarrow> b | None \<Rightarrow> ''127.0.0.1:2000'')
      in \<lparr>t_bus = b, t_room = Suc (length b), t_regexpFile = ''testivy/regexp.txt'', t_messageFile = ''testivy/messages.ivy'',
          testDuration = 10\<rparr>)"

definition TP_OPTSTRING :: string where
  "TP_OPTSTRING = ''vpb:r:m:R:M:n:t:d:''"

definition lower_char :: "char \<Rightarrow> char" where
  "lower_char c = (if 65 \<le> (of_char c :: nat) \<and> (of_char c :: nat) \<le> 90 then char_of (of_char c + 32 :: nat) else c)"

definition kind_of_test :: "string \<Rightarrow> KindOfTest option" where
  "kind_of_test w =
     (let l = map lower_char w
      in if l = ''ml'' \<or> l = ''ml1'' then Some memoryLeak1
         else if l = ''ml2'' then Some memoryLeak2
         else if l = ''tp'' then Some throughput
         else if l = ''dx'' then Some disconnect
         else None)"

definition strcpy_room :: "nat \<Rightarrow> string \<Rightarrow> stop + string" where
  "strcpy_room room a = (if length a \<ge> room then Inl (Faults OutOfBounds) else Inr a)"

text \<open>The body of the \<^verbatim>\<open>switch\<close>; a letter with an argument has one.\<close>

definition tp_option :: "char \<times> string option \<Rightarrow> tp_opts \<times> throughput_state \<Rightarrow> stop + (tp_opts \<times> throughput_state)" where
  "tp_option opt = (\<lambda>(o1, p). case opt of (c, arg) \<Rightarrow>
     if c = CHR ''v'' then Inr (o1, tp_say VERSION_LINE p)
     else if c = CHR ''p'' then Inr (o1, p\<lparr>regexpAreUniq := True\<rparr>)
     else case arg of
       None \<Rightarrow> Inl (Exits 1)
     | Some a \<Rightarrow>
         if c = CHR ''b'' then map_sum id (\<lambda>b. (o1\<lparr>t_bus := b\<rparr>, p)) (strcpy_room (t_room o1) a)
         else if c = CHR ''t'' then
           (case kind_of_test a of None \<Rightarrow> Inl (Exits 1) | Some k \<Rightarrow> Inr (o1, p\<lparr>kindOfTest := k\<rparr>))
         else if c = CHR ''r'' then map_sum id (\<lambda>b. (o1\<lparr>t_regexpFile := b\<rparr>, p)) (strcpy_room 1024 a)
         else if c = CHR ''m'' then map_sum id (\<lambda>b. (o1\<lparr>t_messageFile := b\<rparr>, p)) (strcpy_room 1024 a)
         else if c = CHR ''R'' then Inr (o1, p\<lparr>numRegexps := u32 (atoi a)\<rparr>)
         else if c = CHR ''M'' then Inr (o1, p\<lparr>numMessages := u32 (atoi a)\<rparr>)
         else if c = CHR ''n'' then Inr (o1, p\<lparr>numClients := u32 (atoi a)\<rparr>)
         else if c = CHR ''d'' then Inr (o1\<lparr>testDuration := atoi a\<rparr>, p)
         else Inl (Exits 1))"

fun tp_options ::
  "(char \<times> string option) list \<Rightarrow> tp_opts \<times> throughput_state \<Rightarrow> stop + (tp_opts \<times> throughput_state)" where
  "tp_options [] st = Inr st"
| "tp_options (opt # opts) st = (case tp_option opt st of Inl e \<Rightarrow> Inl e | Inr st' \<Rightarrow> tp_options opts st')"

text \<open>Up to the first \<^verbatim>\<open>fork\<close>: the options, the regular expressions and the state, with the messages in it.\<close>

definition throughput_main ::
  "pcre \<Rightarrow> (string \<Rightarrow> bytes option) \<Rightarrow> string option \<Rightarrow> string list \<Rightarrow> throughput_state
   \<Rightarrow> stop + (tp_opts \<times> string list \<times> throughput_state)" where
  "throughput_main px file ivybus argv p0 =
     (case getopt_all argv TP_OPTSTRING init_getopt of
        Inl e \<Rightarrow> Inl (Faults e)
      | Inr (opts, i) \<Rightarrow>
          (case tp_options opts (tp_init_opts ivybus, p0) of
             Inl e \<Rightarrow> Inl e
           | Inr (o1, p) \<Rightarrow>
               (case getRegexps px (file (t_regexpFile o1)) p of
                  None \<Rightarrow> Inl (Exits 1)
                | Some (regexps, p1) \<Rightarrow>
                    if kindOfTest p1 = memoryLeak1 then Inr (o1, regexps, p1)
                    else (case getMessages px (file (t_messageFile o1)) p1 of
                            None \<Rightarrow> Inl (Exits 1)
                          | Some (ms, p2) \<Rightarrow> Inr (o1, regexps, p2\<lparr>messages := ms\<rparr>)))))"

text \<open>What the process of client \<open>i\<close> runs.\<close>

definition throughput_child ::
  "start_env \<Rightarrow> bool \<Rightarrow> int \<Rightarrow> ulong \<Rightarrow> tp_opts \<Rightarrow> string list \<Rightarrow> nat \<Rightarrow> 'a tp_state \<Rightarrow> 'a tp_state" where
  "throughput_child senv binary pid now o1 regexps i st =
     (case kindOfTest (fst st) of
        throughput \<Rightarrow> recepteur_tp senv binary pid now (t_bus o1) throughput i regexps 0 st
      | memoryLeak1 \<Rightarrow> recepteur_ml senv binary pid now (t_bus o1) i regexps st
      | memoryLeak2 \<Rightarrow> recepteur_tp senv binary pid now (t_bus o1) memoryLeak2 i regexps (u32 (testDuration o1 - 5)) st
      | disconnect \<Rightarrow> recepteur_tp senv binary pid now (t_bus o1) disconnect i regexps (u32 (testDuration o1)) st)"

text \<open>The parent: the answers of \<^verbatim>\<open>fork\<close> it keeps, and the processes it sends \<^verbatim>\<open>SIGTERM\<close> at the end.\<close>

definition throughput_forks :: "(nat \<Rightarrow> int) \<Rightarrow> throughput_state \<Rightarrow> int list \<times> throughput_state" where
  "throughput_forks fork p =
     fold (\<lambda>i (recPid, q). (recPid @ [fork i], q\<lparr>recReady := (recReady q)(i := False)\<rparr>)) [0..<numClients p] ([], p)"

definition throughput_parent ::
  "start_env \<Rightarrow> bool \<Rightarrow> int \<Rightarrow> ulong \<Rightarrow> (nat \<Rightarrow> int) \<Rightarrow> tp_opts \<Rightarrow> string list \<Rightarrow> 'a tp_state \<Rightarrow> int list \<times> 'a tp_state" where
  "throughput_parent senv binary pid now fork o1 regexps = (\<lambda>(p, s).
     let (recPid, p1) = throughput_forks fork p
     in (recPid, emetteur senv binary pid now (t_bus o1) (testDuration o1) (length regexps) (p1, s)))"

definition SIGTERM :: nat where
  "SIGTERM = 15"

definition throughput_kills :: "int list \<Rightarrow> (int \<times> nat) list" where
  "throughput_kills recPid = map (\<lambda>pid. (pid, SIGTERM)) recPid"
subsection \<open>The agents use the bus as any program\<close>

lemma lawful_fold: "(\<And>x s. lawful env s \<Longrightarrow> lawful env (f x s)) \<Longrightarrow> lawful env s \<Longrightarrow> lawful env (fold f xs s)"
  by (induction xs arbitrary: s) simp_all

lemma lawful_tp_timer: "lawful env s \<Longrightarrow> lawful env (tp_timer now l cb ud s)"
  by (simp add: tp_timer_def lawful_calls(12))

lemma lawful_send_one: "lawful env (snd st) \<Longrightarrow> lawful env (snd (fold (send_one (be_pcre env)) ms st))"
  by (induction ms arbitrary: st) (simp_all add: send_one_def split_def Let_def lawful_calls(5))

lemma lawful_abonne: "lawful env (snd st) \<Longrightarrow> lawful env (snd (fold (abonne_one inst) rs st))"
  by (induction rs arbitrary: st) (simp_all add: abonne_one_def split_def Let_def lawful_calls(1))

lemma lawful_change_all: "lawful env (snd st) \<Longrightarrow> lawful env (snd (change_all st))"
  by (auto simp: change_all_def split_def intro!: lawful_fold lawful_subscriptions(2))

lemma lawful_desabonne: "lawful env (snd st) \<Longrightarrow> lawful env (snd (desabonne st))"
  by (auto simp: desabonne_def split_def intro!: lawful_fold lawful_subscriptions(1))

lemma lawful_resubscribe: "lawful env (snd st) \<Longrightarrow> lawful env (snd (desabonneEtReabonneCB st))"
  unfolding desabonneEtReabonneCB_def Let_def split_def
  by (intro lawful_desabonne lawful_change_all) (simp add: lawful_abonne lawful_desabonne)

lemma lawful_bind_sequence: "lawful env s \<Longrightarrow> lawful env (bind_sequence s)"
  by (simp add: bind_sequence_def lawful_calls(1))

lemma lawful_recepteur_start: "lawful env (snd st) \<Longrightarrow> lawful env (snd (recepteur_start binary pid inst st))"
  by (simp add: recepteur_start_def split_def lawful_calls(11))

lemma lawful_agents:
  assumes "lawful env (snd st)"
  shows "lawful env (snd (emetteur senv binary pid now bus dur n st))"
    "lawful env (snd (recepteur_tp senv binary pid now bus kod inst regexps e st))"
    "lawful env (snd (recepteur_ml senv binary pid now bus inst regexps st))"
proof -
  show "lawful env (snd (emetteur senv binary pid now bus dur n st))"
    using assms by (simp add: emetteur_def split_def Let_def lawful_calls(1,6,11,14) lawful_tp_timer)
  note l = lawful_recepteur_start [OF assms, of binary pid inst]
  have "lawful env (bind_sequence (fold (\<lambda>r s. snd (IvyBindMsg FN_recepteurCB inst (f r) s)) regexps
      (snd (recepteur_start binary pid inst st))))" for f
    by (intro lawful_bind_sequence lawful_fold lawful_calls(1) l)
  then show "lawful env (snd (recepteur_tp senv binary pid now bus kod inst regexps e st))"
    by (simp add: recepteur_tp_def split_def Let_def lawful_calls(14) lawful_tp_timer)
  have "lawful env (snd (fold (abonne_one inst) rs (ids, snd (recepteur_start binary pid inst st))))" for rs ids
    by (rule lawful_abonne) (simp add: l)
  then show "lawful env (snd (recepteur_ml senv binary pid now bus inst regexps st))"
    by (simp add: recepteur_ml_def split_def Let_def lawful_calls(14) lawful_tp_timer lawful_bind_sequence)
qed

inductive emetteur_callback :: "bus_env \<Rightarrow> throughput_state \<times> ivy_state \<Rightarrow> throughput_state \<times> ivy_state \<Rightarrow> bool" for env where
  ec_bind: "emetteur_callback env (p, s) (tp_binCB app i r ev p, s)"
| ec_congest: "emetteur_callback env (p, s) (congestCB app ev p, s)"
| ec_stop: "emetteur_callback env (p, s) (p, stopCB s)"
| ec_send: "emetteur_callback env st (sendAllMessageCB (be_pcre env) secs now st)"
| ec_ready: "emetteur_callback env st (recepteurReadyCB now argv st)"

inductive recepteur_callback :: "throughput_state \<times> ivy_state \<Rightarrow> throughput_state \<times> ivy_state \<Rightarrow> bool" where
  rc_msg: "recepteur_callback (p, s) (recepteurCB p, s)"
| rc_start: "recepteur_callback (p, s) (startOfSeqCB p, s)"
| rc_end: "recepteur_callback (p, s) (endOfSeqCB p, s)"
| rc_congest: "recepteur_callback (p, s) (congestCB app ev p, s)"
| rc_resubscribe: "recepteur_callback st (desabonneEtReabonneCB st)"
| rc_change: "recepteur_callback st (changeRegexpCB now st)"
| rc_exit: "recepteur_callback st (exitCB st)"
| rc_suicide: "recepteur_callback st (doNothingAndSuicideCB time st)"

text \<open>The first states: what \<^verbatim>\<open>main\<close> makes of the options and files, then the function of the process.\<close>

definition throughput_process ::
  "pcre \<Rightarrow> (string \<Rightarrow> bytes option) \<Rightarrow> start_env \<Rightarrow> (tp_opts \<Rightarrow> string list \<Rightarrow> throughput_state \<times> ivy_state \<Rightarrow> throughput_state \<times> ivy_state)
   \<Rightarrow> throughput_state \<times> ivy_state \<Rightarrow> bool" where
  "throughput_process px file senv role st \<longleftrightarrow> (\<exists>argv o1 regexps p.
     throughput_main px file (se_ivybus senv) argv throughput_init = Inr (o1, regexps, p)
     \<and> st = role o1 regexps (p, program_start))"

lemma lawful_process:
  assumes "throughput_process px file senv role st" "\<And>o1 regexps st. lawful env (snd st) \<Longrightarrow> lawful env (snd (role o1 regexps st))"
  shows "lawful env (snd st)"
  using assms lawful_start [of env] unfolding throughput_process_def by (metis snd_conv)

interpretation emitter: bus_program env
  "throughput_process px files senv (\<lambda>o1 regexps st. snd (throughput_parent senv binary pid now fork o1 regexps st))"
  "emetteur_callback env" for env px files senv binary pid now fork
proof
  fix st st'
  show "throughput_process px files senv (\<lambda>o1 regexps st. snd (throughput_parent senv binary pid now fork o1 regexps st)) st
      \<Longrightarrow> lawful env (snd st)"
    by (erule lawful_process) (simp add: throughput_parent_def split_def Let_def lawful_agents(1))
  show "emetteur_callback env st st' \<Longrightarrow> lawful env (snd st) \<Longrightarrow> lawful env (snd st')"
    by (induction rule: emetteur_callback.induct)
      (auto simp: stopCB_def sendAllMessageCB_def recepteurReadyCB_def split_def Let_def lawful_calls(5,10)
        intro!: lawful_tp_timer lawful_calls(5) lawful_send_one split: list.split)
qed

lemma lawful_recepteur: "recepteur_callback st st' \<Longrightarrow> lawful env (snd st) \<Longrightarrow> lawful env (snd st')"
  by (induction rule: recepteur_callback.induct)
    (simp_all add: lawful_resubscribe changeRegexpCB_def exitCB_def doNothingAndSuicideCB_def split_def Let_def
      lawful_change_all lawful_tp_timer lawful_calls(16))

interpretation receiver: bus_program env
  "throughput_process px files senv (\<lambda>o1 regexps st. throughput_child senv binary pid now o1 regexps i st)" recepteur_callback
  for env px files senv binary pid now i
proof
  fix st st'
  show "throughput_process px files senv (\<lambda>o1 regexps st. throughput_child senv binary pid now o1 regexps i st) st
      \<Longrightarrow> lawful env (snd st)"
    by (erule lawful_process) (simp add: throughput_child_def lawful_agents split: KindOfTest.split)
  show "recepteur_callback st st' \<Longrightarrow> lawful env (snd st) \<Longrightarrow> lawful env (snd st')" by (rule lawful_recepteur)
qed
subsection \<open>The test for leaks leaves no subscription\<close>

lemma rcvs_unbind_all: "msg_recv (fold IvyUnbindMsg ids s) = filter (\<lambda>x. rid x \<notin> set ids) (msg_recv s)"
  for s :: "'a ivy_state_scheme"
proof (induction ids arbitrary: s)
  case (Cons m ids)
  have "msg_recv (IvyUnbindMsg m s) = filter (\<lambda>x. rid x \<noteq> m) (msg_recv s)"
  proof (cases "m \<in> rid ` set (msg_recv s)")
    case True
    then show ?thesis by (rule rcvs_unbind)
  next
    case False
    then have "find_rcv m s = None" by (auto simp: find_rcv_def find_None_iff)
    moreover have "filter (\<lambda>x. rid x \<noteq> m) (msg_recv s) = msg_recv s" using False by (force simp: filter_id_conv)
    ultimately show ?thesis by (simp add: IvyUnbindMsg_def)
  qed
  then show ?case using Cons.IH by (auto intro: filter_cong)
qed simp

lemma rcvs_change_all:
  fixes s :: "'a ivy_state_scheme"
  assumes "set ms \<subseteq> X"
  shows "filter (\<lambda>x. rid x \<notin> X) (msg_recv (fold (\<lambda>m. IvyChangeMsg m out) ms s)) = filter (\<lambda>x. rid x \<notin> X) (msg_recv s)"
    "map (\<lambda>x. (rid x, mcallback x)) (msg_recv (fold (\<lambda>m. IvyChangeMsg m out) ms s)) = map (\<lambda>x. (rid x, mcallback x)) (msg_recv s)"
proof -
  have one: "filter (\<lambda>x. rid x \<notin> X) (msg_recv (IvyChangeMsg m out s)) = filter (\<lambda>x. rid x \<notin> X) (msg_recv s)
      \<and> map (\<lambda>x. (rid x, mcallback x)) (msg_recv (IvyChangeMsg m out s)) = map (\<lambda>x. (rid x, mcallback x)) (msg_recv s)"
    if "m \<in> X" for m and s :: "'a ivy_state_scheme"
  proof -
    have "filter (\<lambda>x. rid x \<notin> X) (map (\<lambda>x. if rid x = m then x\<lparr>regexp := r\<rparr> else x) M) = filter (\<lambda>x. rid x \<notin> X) M" for r M
      using that by (induction M) auto
    then show ?thesis by (auto simp: IvyChangeMsg_def Let_def split: gen.split option.split)
  qed
  have "filter (\<lambda>x. rid x \<notin> X) (msg_recv (fold (\<lambda>m. IvyChangeMsg m out) ms s)) = filter (\<lambda>x. rid x \<notin> X) (msg_recv s)
    \<and> map (\<lambda>x. (rid x, mcallback x)) (msg_recv (fold (\<lambda>m. IvyChangeMsg m out) ms s)) = map (\<lambda>x. (rid x, mcallback x)) (msg_recv s)"
    using assms by (induction ms arbitrary: s) (use one in auto)
  then show "filter (\<lambda>x. rid x \<notin> X) (msg_recv (fold (\<lambda>m. IvyChangeMsg m out) ms s)) = filter (\<lambda>x. rid x \<notin> X) (msg_recv s)"
    "map (\<lambda>x. (rid x, mcallback x)) (msg_recv (fold (\<lambda>m. IvyChangeMsg m out) ms s)) = map (\<lambda>x. (rid x, mcallback x)) (msg_recv s)"
    by simp_all
qed

lemma worse_fold: "(\<And>x s. worse s (f x s)) \<Longrightarrow> worse s (fold f xs s)"
proof (induction xs arbitrary: s)
  case (Cons x xs)
  have "worse s (f x s)" "worse (f x s) (fold f xs (f x s))" using Cons by blast+
  then show ?case by (simp add: worse_def)
qed (simp add: worse_def)

lemma worse_abonne: "worse (snd st) (snd (fold (abonne_one inst) rs st))"
proof (induction rs arbitrary: st)
  case (Cons r rs)
  have "worse (snd st) (snd (abonne_one inst r st))" by (simp add: abonne_one_def split_def Let_def worse_calls(1))
  then show ?case using worse_trans Cons.IH [of "abonne_one inst r st"] by simp
qed (simp add: worse_kept.R_refl)

lemma rcvs_abonne:
  assumes "fold (abonne_one inst) rs (ids, s) = (ids', t)" "fault t = None"
  shows "\<exists>xs. msg_recv t = rev xs @ msg_recv s \<and> ids' = ids @ map rid xs \<and> (\<forall>x \<in> set xs. mcallback x = FN_recepteurCB)"
  using assms(1)
proof (induction rs arbitrary: ids s)
  case (Cons r rs)
  obtain m u where m: "IvyBindMsg FN_recepteurCB inst r s = (m, u)" by force
  have f: "fold (abonne_one inst) rs (ids @ [m], u) = (ids', t)" using Cons.prems by (simp add: abonne_one_def [of inst r] m)
  have "fault u = None" using worse_abonne [of "(ids @ [m], u)" inst rs] f assms(2) by (simp add: worse_def)
  then obtain x where x: "msg_recv u = \<lparr>rid = m, msg_id = recv_id s, regexp = Some x, mcallback = FN_recepteurCB, muser_data = inst\<rparr> # msg_recv s"
    using rcvs_bind [OF m] by blast
  obtain xs where "msg_recv t = rev xs @ msg_recv u" "ids' = (ids @ [m]) @ map rid xs" "\<forall>x \<in> set xs. mcallback x = FN_recepteurCB"
    using Cons.IH [OF f] by blast
  then show ?case using x by (intro exI [of _ "\<lparr>rid = m, msg_id = recv_id s, regexp = Some x, mcallback = FN_recepteurCB, muser_data = inst\<rparr> # xs"]) simp
qed simp

text \<open>The list of identifiers is that of the subscriptions with \<^verbatim>\<open>recepteurCB\<close>; two more are those of the sequences.\<close>

definition ml_ok :: "throughput_state \<Rightarrow> msg_rcv list \<Rightarrow> bool" where
  "ml_ok p M \<longleftrightarrow> set (bindIdList p) = rid ` {r \<in> set M. mcallback r = FN_recepteurCB}
     \<and> map mcallback (filter (\<lambda>r. mcallback r \<noteq> FN_recepteurCB) M) = [FN_endOfSeqCB, FN_startOfSeqCB]"

lemma reachable_rids: "reachable env s \<Longrightarrow> distinct (map rid (msg_recv s))"
  using reachable_inv by (simp add: inv_split others_inv_def others_def rcvs_inv_def rcvs_def comp_def)

lemma desabonne_rcvs:
  assumes "reachable env s" "ml_ok p (msg_recv s)"
  shows "msg_recv (snd (desabonne (p, s))) = filter (\<lambda>r. mcallback r \<noteq> FN_recepteurCB) (msg_recv s)"
proof -
  have i: "inj_on rid (set (msg_recv s))" using reachable_rids [OF assms(1)] by (simp add: distinct_map)
  have "rid r \<in> set (bindIdList p) \<longleftrightarrow> mcallback r = FN_recepteurCB" if "r \<in> set (msg_recv s)" for r
    using assms(2) inj_onD [OF i] that by (fastforce simp: ml_ok_def)
  then show ?thesis by (auto simp: desabonne_def rcvs_unbind_all intro: filter_cong)
qed

lemma resubscribed:
  assumes r: "reachable env s" and ok: "ml_ok p (msg_recv s)" and e: "desabonneEtReabonneCB (p, s) = (q, t)" and run: "running t"
  shows "bindIdList q = [] \<and> msg_recv t = filter (\<lambda>r. mcallback r \<noteq> FN_recepteurCB) (msg_recv s)"
proof -
  obtain p1 s1 where d: "desabonne (p, s) = (p1, s1)" by force
  obtain ids s2 where a: "fold (abonne_one (ml_inst p1)) (ml_regexps p1) (bindIdList p1, s1) = (ids, s2)" by force
  define s3 where "s3 = fold (\<lambda>m. IvyChangeMsg m ''^Une regexp (BIDON)'') ids s2"
  have q: "q = p1\<lparr>bindIdList := []\<rparr>" and t: "t = fold IvyUnbindMsg ids s3"
    using e unfolding desabonneEtReabonneCB_def d Let_def prod.case a by (simp_all add: change_all_def desabonne_def s3_def)
  have "bindIdList p1 = []" using d by (auto simp: desabonne_def)
  then have a': "fold (abonne_one (ml_inst p1)) (ml_regexps p1) ([], s1) = (ids, s2)" using a by simp
  have s1: "msg_recv s1 = filter (\<lambda>r. mcallback r \<noteq> FN_recepteurCB) (msg_recv s)" using desabonne_rcvs [OF r ok] d by simp
  have "worse s2 s3" unfolding s3_def by (rule worse_fold) (rule worse_subscriptions(2))
  moreover have "worse s3 t" unfolding t by (rule worse_fold) (rule worse_subscriptions(1))
  ultimately have run2: "running s2" using run worse_trans [of s2 s3 t] by (simp add: worse_def running_def)
  have "lawful env s1" using lawful_desabonne [of env "(p, s)"] r d by (simp add: lawful_def)
  then have "lawful env s2" using lawful_abonne [of env "([], s1)" "ml_inst p1" "ml_regexps p1"] a' by simp
  then have dist: "distinct (map rid (msg_recv s2))" using reachable_rids lawful_reachable run2 by blast
  obtain xs where xs: "msg_recv s2 = rev xs @ msg_recv s1" "ids = map rid xs"
    using rcvs_abonne [OF a'] run2 by (auto simp: running_def)
  have "filter (\<lambda>x. rid x \<notin> set ids) (msg_recv s2) = msg_recv s1"
    using dist unfolding xs by (force simp: filter_empty_conv filter_id_conv)
  then have "msg_recv t = msg_recv s1" unfolding t rcvs_unbind_all s3_def by (simp add: rcvs_change_all(1))
  then show ?thesis using q s1 by simp
qed
lemma main_keeps_list:
  assumes "throughput_main px files ivybus argv p0 = Inr (o1, regexps, p)"
  shows "bindIdList p = bindIdList p0"
proof -
  have opt: "bindIdList p' = bindIdList p" if "tp_option c (o1, p) = Inr (o2, p')" for c o1 o2 p p'
    using that by (auto simp: tp_option_def strcpy_room_def tp_say_def map_sum_def split: prod.splits if_splits option.splits sum.splits)
  have opts: "bindIdList p' = bindIdList p" if "tp_options cs (o1, p) = Inr (o2, p')" for cs o1 o2 p p'
    using that by (induction cs arbitrary: o1 p) (auto dest: opt split: sum.splits)
  have "bindIdList q = bindIdList p" if "getRegexps px x p = Some (rs, q) \<or> getMessages px x p = Some (rs, q)" for x rs p q
    using that by (auto simp: getRegexps_def getMessages_def Let_def split: option.splits prod.splits)
  then show ?thesis using assms
    by (fastforce simp: throughput_main_def dest: opts split: sum.splits prod.splits option.splits if_splits)
qed

lemma rcvs_bind_sequence:
  assumes "fault (bind_sequence s) = None"
  shows "\<exists>x y. msg_recv (bind_sequence s) = y # x # msg_recv s \<and> mcallback y = FN_endOfSeqCB \<and> mcallback x = FN_startOfSeqCB"
proof -
  obtain m u where m: "IvyBindMsg FN_startOfSeqCB 0 ''^start(OfSequence)'' s = (m, u)" by force
  obtain k v where k: "IvyBindMsg FN_endOfSeqCB 0 ''^end(OfSequence)'' u = (k, v)" by force
  have v: "bind_sequence s = v" using m k by (simp add: bind_sequence_def)
  have "fault v = None" "fault u = None"
    using assms v k worse_calls(1) [of u FN_endOfSeqCB 0 "''^end(OfSequence)''"] by (simp_all add: worse_def)
  then show ?thesis using rcvs_bind [OF m] rcvs_bind [OF k] v by auto
qed

lemma ml_started:
  fixes s t :: ivy_state
  assumes "recepteur_ml senv binary pid now bus inst regexps (p, s) = (q, t)" "bindIdList p = []" "msg_recv s = []" "fault t = None"
  shows "ml_ok q (msg_recv t)"
proof -
  obtain p1 s1 where r: "recepteur_start binary pid inst (p, s) = (p1, s1)" by force
  define rs where "rs = map (\<lambda>r. if regexpAreUniq p1 then r @ '' '' @ dec_nat inst else r) regexps"
  obtain ids s2 where a: "fold (abonne_one inst) rs (bindIdList p1, s1) = (ids, s2)" by force
  let ?u = "tp_timer now 1000 FN_desabonneEtReabonneCB 0 (bind_sequence s2)"
  have e: "q = p1\<lparr>bindIdList := ids, ml_regexps := regexps, ml_inst := inst\<rparr>" "t = IvyStart senv bus ?u"
    using assms(1) a unfolding recepteur_ml_def r Let_def prod.case rs_def [symmetric] by simp_all
  have "fault ?u = None" using worse_IvyStart [of ?u senv bus] assms(4) e(2) by (simp add: worse_def)
  then have f: "fault (bind_sequence s2) = None" by (simp add: tp_timer_def)
  have b: "worse u (bind_sequence u)" for u :: ivy_state
    unfolding bind_sequence_def using worse_trans [OF worse_calls(1) worse_calls(1)] .
  then have "fault s2 = None" using f b [of s2] by (simp add: worse_def)
  moreover have "bindIdList p1 = []" "msg_recv s1 = []" using r assms(2,3) by (auto simp: recepteur_start_def tp_say_def)
  ultimately obtain xs where xs: "msg_recv s2 = rev xs" "ids = map rid xs" "\<forall>x \<in> set xs. mcallback x = FN_recepteurCB"
    using rcvs_abonne [OF a] by auto
  obtain x y where xy: "msg_recv (bind_sequence s2) = y # x # msg_recv s2" "mcallback y = FN_endOfSeqCB" "mcallback x = FN_startOfSeqCB"
    using rcvs_bind_sequence [OF f] by blast
  have "msg_recv t = y # x # rev xs" using e(2) xy(1) xs(1) by (simp add: tp_timer_def)
  moreover have "filter (\<lambda>r. mcallback r \<noteq> FN_recepteurCB) (rev xs) = []" using xs(3) by simp
  moreover have "FN_endOfSeqCB \<noteq> FN_recepteurCB" "FN_startOfSeqCB \<noteq> FN_recepteurCB"
    by (simp_all add: FN_endOfSeqCB_def FN_startOfSeqCB_def FN_recepteurCB_def)
  moreover have "{r. r \<in> set xs \<and> mcallback r = FN_recepteurCB} = set xs" using xs(3) by auto
  ultimately show ?thesis using xy(2,3) xs(2) e(1)
    by (auto simp: ml_ok_def)
qed

lemma ml_ok_same:
  "ml_ok p M \<Longrightarrow> bindIdList q = bindIdList p \<Longrightarrow> map (\<lambda>x. (rid x, mcallback x)) N = map (\<lambda>x. (rid x, mcallback x)) M \<Longrightarrow> ml_ok q N"
proof -
  assume ok: "ml_ok p M" "bindIdList q = bindIdList p" and e: "map (\<lambda>x. (rid x, mcallback x)) N = map (\<lambda>x. (rid x, mcallback x)) M"
  have a: "rid ` {r \<in> set K. mcallback r = c} = fst ` {z \<in> set (map (\<lambda>x. (rid x, mcallback x)) K). snd z = c}" for K :: "msg_rcv list" and c
    by force
  have b: "map mcallback (filter (\<lambda>r. mcallback r \<noteq> c) K) = map snd (filter (\<lambda>z. snd z \<noteq> c) (map (\<lambda>x. (rid x, mcallback x)) K))"
    for K :: "msg_rcv list" and c by (induction K) simp_all
  show ?thesis using ok unfolding ml_ok_def a b e by simp
qed

interpretation leak_test: bus_agent env
  "throughput_process px files senv (\<lambda>o1 regexps st. recepteur_ml senv binary pid now (t_bus o1) i regexps st)" recepteur_callback ml_ok
  for env px files senv binary pid now i
proof
  fix st st' :: "throughput_state \<times> ivy_state" and p s q t
  show "throughput_process px files senv (\<lambda>o1 regexps st. recepteur_ml senv binary pid now (t_bus o1) i regexps st) st
      \<Longrightarrow> lawful env (snd st)"
    by (erule lawful_process) (rule lawful_agents)
  show "recepteur_callback st st' \<Longrightarrow> lawful env (snd st) \<Longrightarrow> lawful env (snd st')" by (rule lawful_recepteur)
  show "throughput_process px files senv (\<lambda>o1 regexps st. recepteur_ml senv binary pid now (t_bus o1) i regexps st) (p, s)
      \<Longrightarrow> running s \<Longrightarrow> ml_ok p (msg_recv s)"
  proof -
    assume "throughput_process px files senv (\<lambda>o1 regexps st. recepteur_ml senv binary pid now (t_bus o1) i regexps st) (p, s)"
      and run: "running s"
    then obtain argv o1 regexps p1 where m: "throughput_main px files (se_ivybus senv) argv throughput_init = Inr (o1, regexps, p1)"
      and e: "recepteur_ml senv binary pid now (t_bus o1) i regexps (p1, program_start) = (p, s)"
      unfolding throughput_process_def by metis
    have "bindIdList p1 = []" using main_keeps_list [OF m] by (simp add: throughput_init_def)
    moreover have "fault s = None" using run by (simp add: running_def)
    ultimately show "ml_ok p (msg_recv s)" using ml_started [OF e] by simp
  qed
  assume c: "recepteur_callback (p, s) (q, t)" "reachable env s" "running t" "ml_ok p (msg_recv s)"
  show "ml_ok q (msg_recv t)" using c(1)
  proof (cases rule: recepteur_callback.cases)
    case rc_resubscribe
    have "bindIdList q = [] \<and> msg_recv t = filter (\<lambda>r. mcallback r \<noteq> FN_recepteurCB) (msg_recv s)"
      by (rule resubscribed [OF c(2,4) _ c(3)]) (use rc_resubscribe in simp)
    then show ?thesis using c(4) by (simp add: ml_ok_def)
  next
    case (rc_change now)
    then have "q = p" "map (\<lambda>x. (rid x, mcallback x)) (msg_recv t) = map (\<lambda>x. (rid x, mcallback x)) (msg_recv s)"
      by (simp_all add: changeRegexpCB_def change_all_def tp_timer_def rcvs_change_all(2) [OF order_refl])
    then show ?thesis using ml_ok_same [OF c(4)] by simp
  qed (use c(4) in \<open>auto simp: ml_ok_def recepteurCB_def startOfSeqCB_def endOfSeqCB_def congestCB_def exitCB_def
      doNothingAndSuicideCB_def tp_say_def Let_def split: app_event.splits\<close>)
qed
text \<open>
  (C35) At any moment of the life of a receiver of the test for leaks, \<^verbatim>\<open>desabonneEtReabonneCB\<close> leaves nothing behind: of the
  subscriptions it ends, makes again, changes and ends none is left in the library, whatever the bus does meanwhile,
  and the two of the sequences are as they were. Only when a step is a fault, as a text too long, it is not so.
\<close>

theorem leak_test_leaves_nothing:
  assumes "program_run env (throughput_process px files senv
      (\<lambda>o1 regexps st. recepteur_ml senv binary pid now (t_bus o1) i regexps st)) recepteur_callback (p, s)"
    "running s" "desabonneEtReabonneCB (p, s) = (q, t)" "running t"
  shows "bindIdList q = [] \<and> msg_recv t = filter (\<lambda>r. mcallback r \<noteq> FN_recepteurCB) (msg_recv s)
    \<and> map mcallback (msg_recv t) = [FN_endOfSeqCB, FN_startOfSeqCB]"
proof -
  have ok: "ml_ok p (msg_recv s)" using leak_test.run_held [OF assms(1)] assms(2) by simp
  have "bindIdList q = [] \<and> msg_recv t = filter (\<lambda>r. mcallback r \<noteq> FN_recepteurCB) (msg_recv s)"
    by (rule resubscribed [OF _ ok assms(3,4)]) (use leak_test.run_reaches [OF assms(1,2)] in simp)
  then show ?thesis using ok by (simp add: ml_ok_def)
qed

text \<open>A receiver without peers.\<close>

definition no_peers :: "ivy_state \<Rightarrow> bool" where
  "no_peers s \<longleftrightarrow> running s \<and> allClients s = [] \<and> buffer_wf (bind_buf s) \<and> buffer_wf (change_buf s)"

lemma quiet_bind:
  assumes "no_peers s" "NUL \<notin> set out" "find_itv out = None"
  shows "\<exists>t. IvyBindMsg cb u out s = (next_addr s, t) \<and> no_peers t \<and> next_addr t = Suc (next_addr s)
    \<and> msg_recv t = \<lparr>rid = next_addr s, msg_id = recv_id s, regexp = Some out, mcallback = cb, muser_data = u\<rparr> # msg_recv s"
proof -
  obtain b where "buffer_wf b" "IvyBindMsg cb u out s = (next_addr s, s\<lparr>bind_buf := b, next_addr := Suc (next_addr s),
      recv_id := recv_id s + 1,
      msg_recv := \<lparr>rid = next_addr s, msg_id = recv_id s, regexp = Some out, mcallback = cb, muser_data = u\<rparr> # msg_recv s\<rparr>)"
    using bind_wf [of s out cb u] assms by (auto simp: no_peers_def)
  then show ?thesis using assms(1) by (simp add: no_peers_def running_def)
qed

lemma quiet_change:
  assumes "no_peers s" "NUL \<notin> set out" "find_itv out = None" "m \<in> rid ` set (msg_recv s)"
  shows "no_peers (IvyChangeMsg m out s)"
    "msg_recv (IvyChangeMsg m out s) = map (\<lambda>x. if rid x = m then x\<lparr>regexp := Some out\<rparr> else x) (msg_recv s)"
  using change_wf [of s out m] assms by (auto simp: no_peers_def running_def)

lemma rids_change: "rid ` set (map (\<lambda>x. if rid x = m then x\<lparr>regexp := r\<rparr> else x) M) = rid ` set M"
  by (induction M) auto

lemma quiet_unbind: "no_peers s \<Longrightarrow> m \<in> rid ` set (msg_recv s) \<Longrightarrow> no_peers (IvyUnbindMsg m s)"
  using unbind_wf [of s m] by (simp add: no_peers_def running_def)

lemma quiet_IvyStart: "no_peers s \<Longrightarrow> no_peers (IvyStart quiet_start ''bus'' s)"
  by (simp add: no_peers_def running_def IvyStart_def bus_name_def bus_port_def last_colon_def quiet_start_def start_sockets_def
      SocketServer_def SocketBroadcastCreate_def announce_on6_def IvyChannelAdd_def Let_def FD_SET_open_def raise_highest_def
      crash_def FD_SETSIZE_def SocketServerGetPort_def find_server_def)

text \<open>A file with one expression, and a PCRE that finds it.\<close>

definition caret_pcre :: pcre where
  "caret_pcre = \<lparr>pcre_error = (\<lambda>_. None), pcre_groups = (\<lambda>_. 1),
     pcre_match = (\<lambda>re m. if re = REGEXP_PATTERN2 then Some [Some (0, 2), Some (0, 2)] else None)\<rparr>"

lemma leak_main:
  "\<exists>o1 p. throughput_main caret_pcre (\<lambda>_. Some ''^a'') None [''ivythroughput'', ''-b'', ''bus'', ''-t'', ''ml''] throughput_init = Inr (o1, [''^a''], p)
    \<and> t_bus o1 = ''bus'' \<and> bindIdList p = [] \<and> \<not> regexpAreUniq p"
proof -
  have g: "getopt_all [''ivythroughput'', ''-b'', ''bus'', ''-t'', ''ml''] TP_OPTSTRING init_getopt = Inr ([(CHR ''b'', Some ''bus''), (CHR ''t'', Some ''ml'')], 5)"
    using getopt_reads [of "[(CHR ''b'', Some ''bus''), (CHR ''t'', Some ''ml'')]" TP_OPTSTRING "[]" init_getopt "[''ivythroughput'']"]
    by (simp add: opt_fits_def after_letter_def byte_at_def stops_options_def init_getopt_def TP_OPTSTRING_def)
  have f: "fgets BUFFER_64K ''^a'' = Some (''^a'', [])" "fgets BUFFER_64K [] = None"
    by (simp_all add: fgets_def BUFFER_64K_def Let_def)
  have "REGEXP_PATTERN1 \<noteq> REGEXP_PATTERN2" by (simp add: REGEXP_PATTERN1_def REGEXP_PATTERN2_def)
  then have r: "read_regexps caret_pcre (CapturePattern caret_pcre REGEXP_PATTERN1) (CapturePattern caret_pcre REGEXP_PATTERN2) 1000000 ''^a'' ([], 0)
      = ([''^a''], uint_inc 0)"
    by (simp add: read_regexps.simps [of _ _ _ _ "''^a''"] read_regexps.simps [of _ _ _ _ "[]"] f pattern_match_def
        CapturePattern_def IvyBindingCompile_def IvyBindingExec_def IvyBindingMatch_def caret_pcre_def Ivy_Bind.INT_MAX_def Let_def)
  have k: "kind_of_test ''ml'' = Some memoryLeak1" by (simp add: kind_of_test_def lower_char_def Let_def)
  show ?thesis using g k r
    by (simp add: throughput_main_def tp_option_def strcpy_room_def getRegexps_def tp_init_opts_def throughput_init_def Let_def)
qed
lemma leak_started:
  assumes "bindIdList p = []" "\<not> regexpAreUniq p"
  shows "\<exists>q s. recepteur_ml quiet_start False 7 0 ''bus'' 0 [''^a''] (p, program_start) = (q, s) \<and> no_peers s
    \<and> map rid (msg_recv s) = [3, 2, 1] \<and> bindIdList q = [1] \<and> ml_regexps q = [''^a'']"
proof -
  obtain p1 s1 where r: "recepteur_start False 7 0 (p, program_start) = (p1, s1)" by (rule prod.exhaust)
  have b: "bind_buf program_start = init_buffer" "change_buf program_start = init_buffer"
    by (simp_all add: program_start_def bus_on_def no_sockets_def sock_state.defs ivy_state.defs)
  have i: "change_buf (IvyInit n m f g d program_start) = init_buffer" for n m f g d
    using b(2) by (auto simp: IvyInit_def SocketInit_def IvyChannelInit_def Let_def split: option.split)
  have s1: "no_peers s1" "msg_recv s1 = []" "next_addr s1 = 1" and p1: "bindIdList p1 = []" "\<not> regexpAreUniq p1"
    using r assms program_init(1,6) by (auto simp: recepteur_start_def tp_say_def no_peers_def program_init(1-4,6) i buffer_wf_def init_buffer_def)
  obtain s2 where s2: "IvyBindMsg FN_recepteurCB 0 ''^a'' s1 = (1, s2)" "no_peers s2" "map rid (msg_recv s2) = [1]" "next_addr s2 = 2"
    using quiet_bind [OF s1(1), of "''^a''" FN_recepteurCB 0] s1(2,3) by (auto simp: ITV_START_def)
  obtain s3 where s3: "IvyBindMsg FN_startOfSeqCB 0 ''^start(OfSequence)'' s2 = (2, s3)" "no_peers s3" "map rid (msg_recv s3) = [2, 1]"
    "next_addr s3 = 3"
    using quiet_bind [OF s2(2), of "''^start(OfSequence)''" FN_startOfSeqCB 0] s2(3,4) by (auto simp: ITV_START_def)
  obtain s4 where s4: "IvyBindMsg FN_endOfSeqCB 0 ''^end(OfSequence)'' s3 = (3, s4)" "no_peers s4" "map rid (msg_recv s4) = [3, 2, 1]"
    using quiet_bind [OF s3(2), of "''^end(OfSequence)''" FN_endOfSeqCB 0] s3(3,4) by (auto simp: ITV_START_def)
  let ?u = "tp_timer 0 1000 FN_desabonneEtReabonneCB 0 s4"
  have u: "no_peers ?u" "msg_recv ?u = msg_recv s4" using s4(2) by (simp_all add: tp_timer_def no_peers_def running_def)
  have "recepteur_ml quiet_start False 7 0 ''bus'' 0 [''^a''] (p, program_start)
      = (p1\<lparr>bindIdList := [1], ml_regexps := [''^a''], ml_inst := 0\<rparr>, IvyStart quiet_start ''bus'' ?u)"
    using p1 s2(1) s3(1) s4(1) by (simp add: recepteur_ml_def r abonne_one_def bind_sequence_def)
  then show ?thesis using quiet_IvyStart [OF u(1)] u(2) s4(3) by auto
qed

lemma leak_quiet:
  assumes "no_peers s" "map rid (msg_recv s) = [3, 2, 1]" "bindIdList p = [1]" "ml_regexps p = [''^a'']"
  shows "running (snd (desabonneEtReabonneCB (p, s)))"
proof -
  let ?s1 = "IvyUnbindMsg 1 s"
  have q1: "no_peers ?s1" by (rule quiet_unbind [OF assms(1)]) (use assms(2) in \<open>auto simp flip: set_map\<close>)
  obtain s2 where s2: "IvyBindMsg FN_recepteurCB (ml_inst p) ''^a'' ?s1 = (next_addr ?s1, s2)" "no_peers s2"
    "next_addr ?s1 \<in> rid ` set (msg_recv s2)"
    using quiet_bind [OF q1, of "''^a''" FN_recepteurCB "ml_inst p"] by (auto simp: ITV_START_def)
  let ?m = "next_addr ?s1" and ?w = "''^Une regexp (BIDON)''"
  have n: "NUL \<notin> set ?w" "find_itv ?w = None" by (simp_all add: ITV_START_def)
  have q3: "no_peers (IvyChangeMsg ?m ?w s2)" by (rule quiet_change(1) [OF s2(2) n s2(3)])
  have "?m \<in> rid ` set (msg_recv (IvyChangeMsg ?m ?w s2))"
    unfolding quiet_change(2) [OF s2(2) n s2(3)] using s2(3) unfolding rids_change .
  then have "no_peers (IvyUnbindMsg ?m (IvyChangeMsg ?m ?w s2))" by (rule quiet_unbind [OF q3])
  then show ?thesis using assms(3,4) s2(1)
    by (simp add: desabonneEtReabonneCB_def desabonne_def change_all_def abonne_one_def no_peers_def)
qed

theorem leak_test_leaves_nothing_witness:
  "\<exists>p (s :: ivy_state) q t. desabonneEtReabonneCB (p, s) = (q, t) \<and> length (msg_recv s) = 3 \<and> bindIdList p = [1] \<and> bindIdList q = []
    \<and> map mcallback (msg_recv t) = [FN_endOfSeqCB, FN_startOfSeqCB]"
proof -
  let ?role = "\<lambda>o1 regexps st. recepteur_ml quiet_start False 7 0 (t_bus o1) 0 regexps st"
  obtain o1 p0 where m: "throughput_main caret_pcre (\<lambda>_. Some ''^a'') None [''ivythroughput'', ''-b'', ''bus'', ''-t'', ''ml''] throughput_init
      = Inr (o1, [''^a''], p0)" "t_bus o1 = ''bus''" "bindIdList p0 = []" "\<not> regexpAreUniq p0"
    using leak_main by blast
  obtain p s where s: "recepteur_ml quiet_start False 7 0 ''bus'' 0 [''^a''] (p0, program_start) = (p, s)" "no_peers s"
    "map rid (msg_recv s) = [3, 2, 1]" "bindIdList p = [1]" "ml_regexps p = [''^a'']"
    using leak_started [OF m(3,4)] by auto
  have "throughput_process caret_pcre (\<lambda>_. Some ''^a'') quiet_start ?role (p, s)"
    unfolding throughput_process_def using m(1,2) s(1) by (metis quiet_start_def start_env.select_convs(1))
  then have r: "program_run some_env (throughput_process caret_pcre (\<lambda>_. Some ''^a'') quiet_start ?role) recepteur_callback (p, s)"
    by (rule pr_first)
  obtain q t where t: "desabonneEtReabonneCB (p, s) = (q, t)" by (rule prod.exhaust)
  have "running s" "running t" using s(2) leak_quiet [OF s(2-5)] t by (simp_all add: no_peers_def)
  note none_left = leak_test_leaves_nothing [OF r this(1) t this(2)]
  have "length (msg_recv s) = 3" using arg_cong [OF s(3), of length] by simp
  then have "desabonneEtReabonneCB (p, s) = (q, t) \<and> length (msg_recv s) = 3 \<and> bindIdList p = [1] \<and> bindIdList q = []
    \<and> map mcallback (msg_recv t) = [FN_endOfSeqCB, FN_startOfSeqCB]"
    using t s(4) none_left by iprover
  then show ?thesis by (intro exI)
qed
text \<open>
  The parent keeps every answer of \<^verbatim>\<open>fork\<close>, a failure too, and sends the signal to it: to \<open>- 1\<close>, which is every process
  it may signal.
\<close>

lemma forks_kept: "fst (throughput_forks fork p) = map fork [0..<numClients p]"
proof -
  have "fst (fold (\<lambda>i (recPid, q). (recPid @ [fork i], q\<lparr>recReady := (recReady q)(i := False)\<rparr>)) is (ps, r)) = ps @ map fork is"
    for "is" ps and r :: throughput_state by (induction "is" arbitrary: ps r) simp_all
  then show ?thesis by (simp add: throughput_forks_def)
qed

lemma fork_failed: "i < numClients p \<Longrightarrow> fork i = - 1 \<Longrightarrow> (- 1, SIGTERM) \<in> set (throughput_kills (fst (throughput_forks fork p)))"
  by (force simp: forks_kept throughput_kills_def)


end
