(* ===== verification/Spec2Isabelle.thy ===== *)
theory Spec2Isabelle
  imports Ivy_Prelude Ivy_List Ivy_Timer Ivy_Fifo Ivy_Buffer Ivy_Discovery Ivy_Loop Ivy_Socket Ivy_Bind
    Ivy_Wire Ivy_Interval Ivy_State Ivy_Dict Ivy_Send Ivy_Bus Ivy_Api Ivy_Start
    Ivy_Inv Ivy_Reach Ivy_Session Ivy_Frame Ivy_Step Ivy_Links Ivy_Typed Ivy_Own Ivy_Hash
    Ivy_Program Ivy_Probe Ivy_Tcl Ivy_Toolkit Ivy_Tools Ivy_Throughput
begin

text \<open>
  The Ivy software bus, C library (\<^verbatim>\<open>src/src\<close>).

  Applications on a bus connect to each other by TCP, tell each other the regular expressions they
  subscribe to, and send a message to the applications whose expressions match it: what travels is
  the captured groups. The library is single threaded. Its main loop (\<^verbatim>\<open>ivyloop.c\<close>) watches
  channels, scans timers (\<^verbatim>\<open>timer.c\<close>) and deletes channels at the start of a turn; the socket layer
  (\<^verbatim>\<open>ivysocket.c\<close>) cuts what it receives into lines and queues in a ring buffer (\<^verbatim>\<open>ivyfifo.c\<close>) what the
  kernel does not take; the bus (\<^verbatim>\<open>ivy.c\<close>) parses the lines, keeps the peers and the dictionary of
  subscriptions, and offers the API.

  Configuration: not \<^verbatim>\<open>WIN32\<close>, not \<^verbatim>\<open>OPENMP\<close>, not \<^verbatim>\<open>DEBUG\<close>, with \<^verbatim>\<open>USE_PCRE_REGEX\<close>; \<^verbatim>\<open>char\<close> is signed,
  \<^verbatim>\<open>int\<close> has 32 bits, \<^verbatim>\<open>long\<close> 64, the machine is little endian.

  Theories, each after those it uses.

  \<^item> \<open>Ivy_Prelude\<close>: bytes, C strings and faults, decimal numbers, \<^verbatim>\<open>strncmp\<close>, \<^verbatim>\<open>strcspn\<close>, \<^verbatim>\<open>%d\<close>.
  \<^item> \<open>Ivy_List\<close>: the macros of \<^verbatim>\<open>list.h\<close> on a heap of nodes, and \<open>each_safe\<close>, the traversal the other
    theories use on states whose lists are HOL lists; locale \<open>node_list\<close> is its contract.
  \<^item> \<open>Ivy_Timer\<close>: \<^verbatim>\<open>timer.c\<close>; callbacks are lists of calls of the module, made while the list of timers is
    traversed; the repeat count has 32 bits.
  \<^item> \<open>Ivy_Fifo\<close>: \<^verbatim>\<open>ivyfifo.c\<close>; locale \<open>byte_queue\<close> is the queue it implements.
  \<^item> \<open>Ivy_Buffer\<close>: \<^verbatim>\<open>ivybuffer.c\<close>, with its 32-bit sizes (\<open>make_message_int\<close>) and, for the theories that use it and
    equal to it below \<^verbatim>\<open>INT_MAX\<close>, without their bound.
  \<^item> \<open>Ivy_Discovery\<close>: \<^verbatim>\<open>ivydiscovery.h\<close>, with the grammar of announcements.
  \<^item> \<open>Ivy_Loop\<close>: \<^verbatim>\<open>ivyloop.c\<close>; locale \<open>quiet_delete\<close> says what deletion handlers may do,
    \<open>loop_inv\<close> what handlers have to keep for the loop to keep it.
  \<^item> \<open>Ivy_Socket\<close>: \<^verbatim>\<open>ivysocket.c\<close>; the functions it calls back are named by numbers and given by a
    record; locale \<open>line_reader\<close> is the contract of an interpretation function.
  \<^item> \<open>Ivy_Bind\<close>: \<^verbatim>\<open>ivybind.c\<close>; PCRE is a parameter.
  \<^item> \<open>Ivy_Wire\<close>: the lines of the protocol in \<^verbatim>\<open>ivy.c\<close>.
  \<^item> \<open>Ivy_Interval\<close>: \<^verbatim>\<open>intervalRegexp.c\<close> and \<^verbatim>\<open>substituteInterval\<close>.
  \<^item> \<open>Ivy_State\<close>: the static variables of \<^verbatim>\<open>ivy.c\<close> and \<^verbatim>\<open>MsgSendTo\<close>.
  \<^item> \<open>Ivy_Dict\<close>: the peers and the dictionary of subscriptions.
  \<^item> \<open>Ivy_Send\<close>: \<^verbatim>\<open>RegexpCall\<close>, \<^verbatim>\<open>ClientCall\<close>, \<^verbatim>\<open>IvySendMsg\<close>.
  \<^item> \<open>Ivy_Bus\<close>: \<^verbatim>\<open>Receive\<close> and the other handlers the sockets call back; interprets \<open>quiet_delete\<close> and
    \<open>line_reader\<close> with them.
  \<^item> \<open>Ivy_Api\<close>: the functions an application calls.
  \<^item> \<open>Ivy_Start\<close>: \<^verbatim>\<open>IvyStart\<close>.
  \<^item> \<open>Ivy_Inv\<close>: the invariant of the whole bus, kept by the operations on peers and subscriptions.
  \<^item> \<open>Ivy_Reach\<close>: kept by every handler, turn of the loop and call of the API; the states a program can
    reach are an inductive predicate over these steps (\<^verbatim>\<open>IvySendError\<close> included).
  \<^item> \<open>Ivy_Session\<close>: a message from one application to the callback of another; the lines of a peer that
    change subscriptions; lines that come after the one that ends the application.
  \<^item> \<open>Ivy_Frame\<close>: what the bus may do to the layers below; locale \<open>bus_ops\<close> carries a relation between
    states through every handler of the bus, \<open>bus_frame\<close> one that does not look at the bus itself.
  \<^item> \<open>Ivy_Hash\<close>: \<^verbatim>\<open>uthash.h\<close> on an explicit store: the table is the list of its elements in the order of
    insertion, which is how \<open>Ivy_Dict\<close> has the dictionary.
  \<^item> \<open>Ivy_Step\<close>: locale \<open>handler_inv\<close> takes an invariant through every handler of the sockets and turn of the
    loop, and \<open>wiring_inv\<close> an invariant of the wiring of sockets, servers and channels through every step.
  \<^item> \<open>Ivy_Links\<close>: sockets and channels point at each other, so sending is safe; interprets \<open>wiring_inv\<close>.
  \<^item> \<open>Ivy_Typed\<close>: the data of a channel is the object its handlers cast it to, or one already freed; interprets
    \<open>wiring_inv\<close>.
  \<^item> \<open>Ivy_Own\<close>: only the application changes its subscriptions; interprets \<open>handler_inv\<close>.
  \<^item> \<open>Ivy_Program\<close>: what programs of the bus do to it; used by the agents and the binding below.
  \<^item> \<open>Ivy_Probe\<close>: the agent \<^verbatim>\<open>src/tools/ivyprobe.c\<close> with \<^verbatim>\<open>getopt\<close> of \<^verbatim>\<open>src/tools/getopt.c\<close> (linked by
    \<^verbatim>\<open>Makefile.win32\<close>; the other builds take it from the C library), the lines of its user and what they mean; the
    default callbacks of \<^verbatim>\<open>ivy.c\<close>.
  \<^item> \<open>Ivy_Tcl\<close>: the binding \<^verbatim>\<open>src/src/ivytcl.c\<close> for scripts of Tcl: its commands, callbacks and tables, and their
    consistency with the subscriptions of the library.
  \<^item> \<open>Ivy_Toolkit\<close>: the channels for the loops of GLib, Xt, GLUT (\<^verbatim>\<open>ivyglibloop.c\<close>, \<^verbatim>\<open>ivyxtloop.c\<close>,
    \<^verbatim>\<open>ivyglutloop.c\<close>) and Tcl (\<^verbatim>\<open>ivytcl.c\<close> with \<^verbatim>\<open>TCL_CHANNEL_INTEGRATION\<close>), in the place of \<^verbatim>\<open>ivyloop.c\<close>; a toolkit is
    a parameter with laws, and what is watched after any run of operations is an invariant.
  \<^item> \<open>Ivy_Tools\<close>: \<^verbatim>\<open>ivytranslater.c\<close>, \<^verbatim>\<open>ivytestready.c\<close> and \<^verbatim>\<open>ivyperf.c\<close> of \<^verbatim>\<open>src/tools\<close>; locale \<open>bus_program\<close> is a program
    made of a start and callbacks, \<open>bus_agent\<close> one that keeps track of its subscriptions.
  \<^item> \<open>Ivy_Throughput\<close>: \<^verbatim>\<open>src/tools/ivythroughput.cpp\<close>; interprets both locales with its processes.

  The state is one record, extended layer by layer (loop, sockets, bus), with objects identified by
  addresses that are never reused; reading an object no longer in its list is the fault
  \<open>UseAfterFree\<close>, and reading a variable nothing was written to is \<open>ReadUninit\<close>: what the C program does then is not
  determined, the model only says that it gets there. The first fault is kept in the state (\<open>fault\<close>), \<^verbatim>\<open>exit\<close> sets \<open>exited\<close>; what the model
  does after either says nothing of the program. The kernel, the clock and the C library are
  parameters: lists of answers in the objects they belong to, or fields of an environment.
  So are the answer to setting \<^verbatim>\<open>TCP_NODELAY\<close> on an accepted connection (the process exits when it is refused).
  \<^verbatim>\<open>recvfrom\<close> on a connection sets the length of the address to zero.
  A call of an application's callback is recorded in \<open>events\<close>; what the application does then is a
  further call of the API, not part of the handler.

  Loops are structural recursion or have a measure; loops that need not end (those of
  \<^verbatim>\<open>make_message\<close>, of the ring buffer and of the list macros) are \<open>partial_function (option)\<close>, and the
  theorems about them state that a result exists. \<^verbatim>\<open>IvyMainLoop\<close> takes the list of the events of its
  turns and ends when it is used up.

  Not modelled: the OPENMP cache of the dictionary (compiled only with \<^verbatim>\<open>OPENMP\<close>), the Windows
  branches, the sorting, selection, Bloom filter and MurmurHash macros of \<^verbatim>\<open>uthash.h\<close> (unused), the examples and
  tests of the repository, and the effect of calling \<^verbatim>\<open>sscanf\<close> with numbers out of the
  range of \<^verbatim>\<open>int\<close> (undefined in C).
\<close>

end
